(* ===== verification/Prelude.thy ===== *)
theory Prelude
  imports Main "HOL-Library.Word" "HOL-Library.Signed_Division"
begin

unbundle bit_operations_syntax

text \<open>
  The machine model shared by every component, and the generic facts the component
  theories rest on.

  The sources are compiled for the m68k family by Pure C or gcc: \<^verbatim>\<open>long\<close> and
  \<^verbatim>\<open>ulong\<close> have 32 bits, \<^verbatim>\<open>short\<close> and \<^verbatim>\<open>ushort\<close> 16, \<^verbatim>\<open>char\<close> 8,
  and memory is big endian. A machine integer is a \<open>w word\<close>; a signed
  reading is written \<open>sint\<close>, an unsigned one \<open>unat\<close> or \<open>uint\<close>. Signed addition,
  subtraction and multiplication are the two's complement operations of the processor.
\<close>

type_synonym u8 = "8 word"
type_synonym u16 = "16 word"
type_synonym u32 = "32 word"

text \<open>
  \<open>word_order\<close> collects the facts that move a comparison of words to \<open>nat\<close> or
  \<open>int\<close>; \<open>seq_arith\<close> the ones about sequence numbers; \<open>queue_simps\<close> the ones
  about delta queues.
\<close>

named_theorems word_order
named_theorems seq_arith
named_theorems queue_simps

lemmas [word_order] = word_le_nat_alt word_less_nat_alt word_sle_eq word_sless_alt

section \<open>Error codes\<close>

text \<open>
  The error values of \<^verbatim>\<open>include/mint/errno.h\<close> the modelled code returns. The kernel
  defines \<^verbatim>\<open>EINVAL\<close> as \<^verbatim>\<open>ENOSYS\<close> (\<^verbatim>\<open>kernel/sockets.h\<close>).
\<close>

datatype errno =
    ENOSYS | ENOENT | EACCES | ENOMEM | EINTR | EAFNOSUPPORT | EADDRNOTAVAIL | ENETUNREACH
  | EOPNOTSUPP | EHOSTUNREACH | ENOPROTOOPT | EINTERNAL | EERROR | EPIPE | EINPROGRESS | EALREADY | EAGAIN | EADDRINUSE | EISCONN | ENOTCONN | EDESTADDRREQ | EMSGSIZE | ETIMEDOUT | ECONNRESET | ECONNREFUSED

section \<open>Byte strings\<close>

text \<open>
  A read of one byte at an unsigned index: \<open>None\<close> is a read outside the object, which
  C leaves undefined.
\<close>

definition byte_at :: "u8 list \<Rightarrow> nat \<Rightarrow> u8 option" where
  "byte_at p i = (if i < length p then Some (p ! i) else None)"

lemma byte_at_Some [simp]: "i < length p \<Longrightarrow> byte_at p i = Some (p ! i)"
  by (simp add: byte_at_def)

lemma byte_at_None [simp]: "length p \<le> i \<Longrightarrow> byte_at p i = None"
  by (simp add: byte_at_def)

text \<open>Big-endian composition of bytes, as the sources write it with shifts and \<open>|\<close>.\<close>

definition be16 :: "u8 \<Rightarrow> u8 \<Rightarrow> u16" where
  "be16 b0 b1 = push_bit 8 (ucast b0) OR ucast b1"

definition be32 :: "u8 \<Rightarrow> u8 \<Rightarrow> u8 \<Rightarrow> u8 \<Rightarrow> u32" where
  "be32 b0 b1 b2 b3 =
     push_bit 24 (ucast b0) OR push_bit 16 (ucast b1) OR push_bit 8 (ucast b2) OR ucast b3"

section \<open>Lists\<close>

lemma find_SomeD: "find P xs = Some x \<Longrightarrow> x \<in> set xs \<and> P x"
  by (induction xs) (auto split: if_splits)

lemma option_eqI: "(\<And>e. x = Some e \<longleftrightarrow> y = Some e) \<Longrightarrow> x = y"
  by (cases x; cases y) auto

section \<open>Words\<close>

lemma sint32_bounds: "- (2 ^ 31) \<le> sint (x :: 32 word) \<and> sint (x :: 32 word) < 2 ^ 31"
  using sint_ge [of x] sint_lt [of x] by simp

lemma sint_minus_32:
  fixes a b :: u32
  assumes "- (2 ^ 31) \<le> sint a - sint b" and "sint a - sint b < 2 ^ 31"
  shows "sint (a - b) = sint a - sint b"
  using assms by (simp add: sint_word_ariths signed_take_bit_int_eq_self)

lemma sint_plus_32:
  fixes a b :: u32
  assumes "- (2 ^ 31) \<le> sint a + sint b" and "sint a + sint b < 2 ^ 31"
  shows "sint (a + b) = sint a + sint b"
  using assms by (simp add: sint_word_ariths signed_take_bit_int_eq_self)

lemma sint_word_of_nat_32: "n < 2 ^ 31 \<Longrightarrow> sint (word_of_nat n :: u32) = int n"
  by (simp add: signed_of_nat signed_take_bit_int_eq_self)

lemma unat_plus_32:
  fixes a b :: u32
  assumes "unat a + unat b < 2 ^ 32"
  shows "unat (a + b) = unat a + unat b"
  using assms by (simp add: unat_word_ariths)

end
