(* ===== verification/Bpf.thy ===== *)
theory Bpf
  imports Prelude
begin

text \<open>
  The packet filter machine of \<^verbatim>\<open>kernel/bpf_filt.c\<close>: the interpreter
  \<^verbatim>\<open>bpf_filter\<close> and the checker \<^verbatim>\<open>bpf_validate\<close> that an application's
  program has to pass before \<^verbatim>\<open>bpf_sfilter\<close> installs it.

  What C leaves undefined is a value of the model: a read outside the packet, an access
  outside the scratch memory, an instruction fetch outside the program and a shift or a
  division the language does not define are faults. The interpreter loop is a partial
  function, so a program that never returns has the value \<open>None\<close>.
\<close>

section \<open>Instruction codes\<close>

abbreviation BPF_LD :: u16 where "BPF_LD \<equiv> 0x00"
abbreviation BPF_LDX :: u16 where "BPF_LDX \<equiv> 0x01"
abbreviation BPF_ST :: u16 where "BPF_ST \<equiv> 0x02"
abbreviation BPF_STX :: u16 where "BPF_STX \<equiv> 0x03"
abbreviation BPF_ALU :: u16 where "BPF_ALU \<equiv> 0x04"
abbreviation BPF_JMP :: u16 where "BPF_JMP \<equiv> 0x05"
abbreviation BPF_RET :: u16 where "BPF_RET \<equiv> 0x06"
abbreviation BPF_MISC :: u16 where "BPF_MISC \<equiv> 0x07"
abbreviation BPF_W :: u16 where "BPF_W \<equiv> 0x00"
abbreviation BPF_H :: u16 where "BPF_H \<equiv> 0x08"
abbreviation BPF_B :: u16 where "BPF_B \<equiv> 0x10"
abbreviation BPF_IMM :: u16 where "BPF_IMM \<equiv> 0x00"
abbreviation BPF_ABS :: u16 where "BPF_ABS \<equiv> 0x20"
abbreviation BPF_IND :: u16 where "BPF_IND \<equiv> 0x40"
abbreviation BPF_MEM :: u16 where "BPF_MEM \<equiv> 0x60"
abbreviation BPF_LEN :: u16 where "BPF_LEN \<equiv> 0x80"
abbreviation BPF_MSH :: u16 where "BPF_MSH \<equiv> 0xa0"
abbreviation BPF_ADD :: u16 where "BPF_ADD \<equiv> 0x00"
abbreviation BPF_SUB :: u16 where "BPF_SUB \<equiv> 0x10"
abbreviation BPF_MUL :: u16 where "BPF_MUL \<equiv> 0x20"
abbreviation BPF_DIV :: u16 where "BPF_DIV \<equiv> 0x30"
abbreviation BPF_OR :: u16 where "BPF_OR \<equiv> 0x40"
abbreviation BPF_AND :: u16 where "BPF_AND \<equiv> 0x50"
abbreviation BPF_LSH :: u16 where "BPF_LSH \<equiv> 0x60"
abbreviation BPF_RSH :: u16 where "BPF_RSH \<equiv> 0x70"
abbreviation BPF_NEG :: u16 where "BPF_NEG \<equiv> 0x80"
abbreviation BPF_JA :: u16 where "BPF_JA \<equiv> 0x00"
abbreviation BPF_JEQ :: u16 where "BPF_JEQ \<equiv> 0x10"
abbreviation BPF_JGT :: u16 where "BPF_JGT \<equiv> 0x20"
abbreviation BPF_JGE :: u16 where "BPF_JGE \<equiv> 0x30"
abbreviation BPF_JSET :: u16 where "BPF_JSET \<equiv> 0x40"
abbreviation BPF_K :: u16 where "BPF_K \<equiv> 0x00"
abbreviation BPF_X :: u16 where "BPF_X \<equiv> 0x08"
abbreviation BPF_A :: u16 where "BPF_A \<equiv> 0x10"
abbreviation BPF_TAX :: u16 where "BPF_TAX \<equiv> 0x00"
abbreviation BPF_TXA :: u16 where "BPF_TXA \<equiv> 0x80"
abbreviation BPF_MEMWORDS :: nat where "BPF_MEMWORDS \<equiv> 16"

definition BPF_CLASS :: "u16 \<Rightarrow> u16" where
  "BPF_CLASS code = code AND 0x07"

definition BPF_OP :: "u16 \<Rightarrow> u16" where
  "BPF_OP code = code AND 0xf0"

record bpf_insn =
  icode :: u16
  ijt :: u8
  ijf :: u8
  ik :: u32

section \<open>The interpreter\<close>

text \<open>The registers \<^verbatim>\<open>A\<close> and \<^verbatim>\<open>X\<close> and the scratch memory \<^verbatim>\<open>mem\<close>.\<close>

record bpf_regs =
  bA :: u32
  bX :: u32
  bmem :: "u32 list"

datatype bpf_fault = Packet_Read | Scratch_Access | Code_Fetch | Undefined_Arith

text \<open>
  One instruction returns from the filter, faults, or continues at an instruction index.
\<close>

datatype bpf_step = Ret u32 | Fault bpf_fault | Next int bpf_regs

definition EXTRACT_SHORT :: "u8 list \<Rightarrow> nat \<Rightarrow> u32 option" where
  "EXTRACT_SHORT p i =
     (case (byte_at p i, byte_at p (i + 1)) of
        (Some b0, Some b1) \<Rightarrow> Some (ucast (be16 b0 b1))
      | _ \<Rightarrow> None)"

definition EXTRACT_LONG :: "u8 list \<Rightarrow> nat \<Rightarrow> u32 option" where
  "EXTRACT_LONG p i =
     (case (byte_at p i, byte_at p (i + 1), byte_at p (i + 2), byte_at p (i + 3)) of
        (Some b0, Some b1, Some b2, Some b3) \<Rightarrow> Some (be32 b0 b1 b2 b3)
      | _ \<Rightarrow> None)"

text \<open>
  The three packet loads. The bound is checked with the addition of the code,
  \<^verbatim>\<open>k + sizeof(long) > buflen\<close>, which wraps at 32 bits.
\<close>

definition packet_value :: "u32 option \<Rightarrow> int \<Rightarrow> (u32 \<Rightarrow> bpf_regs) \<Rightarrow> bpf_step" where
  "packet_value v pc upd = (case v of None \<Rightarrow> Fault Packet_Read | Some x \<Rightarrow> Next (pc + 1) (upd x))"

definition ld_w :: "u8 list \<Rightarrow> u32 \<Rightarrow> u32 \<Rightarrow> int \<Rightarrow> bpf_regs \<Rightarrow> bpf_step" where
  "ld_w p buflen i pc r =
     (if i + 4 > buflen then Ret 0
      else packet_value (EXTRACT_LONG p (unat i)) pc (\<lambda>v. r\<lparr>bA := v\<rparr>))"

definition ld_h :: "u8 list \<Rightarrow> u32 \<Rightarrow> u32 \<Rightarrow> int \<Rightarrow> bpf_regs \<Rightarrow> bpf_step" where
  "ld_h p buflen i pc r =
     (if i + 2 > buflen then Ret 0
      else packet_value (EXTRACT_SHORT p (unat i)) pc (\<lambda>v. r\<lparr>bA := v\<rparr>))"

definition ld_b :: "u8 list \<Rightarrow> u32 \<Rightarrow> u32 \<Rightarrow> int \<Rightarrow> bpf_regs \<Rightarrow> bpf_step" where
  "ld_b p buflen i pc r =
     (if i \<ge> buflen then Ret 0
      else packet_value (map_option ucast (byte_at p (unat i))) pc (\<lambda>v. r\<lparr>bA := v\<rparr>))"

definition ldx_msh :: "u8 list \<Rightarrow> u32 \<Rightarrow> u32 \<Rightarrow> int \<Rightarrow> bpf_regs \<Rightarrow> bpf_step" where
  "ldx_msh p buflen i pc r =
     (if i \<ge> buflen then Ret 0
      else packet_value (map_option (\<lambda>b. push_bit 2 (ucast b AND 0xf)) (byte_at p (unat i))) pc
             (\<lambda>v. r\<lparr>bX := v\<rparr>))"

text \<open>An access to \<^verbatim>\<open>mem[k]\<close>; the index is a signed \<^verbatim>\<open>long\<close>.\<close>

definition scratch :: "bpf_regs \<Rightarrow> u32 \<Rightarrow> (nat \<Rightarrow> bpf_step) \<Rightarrow> bpf_step" where
  "scratch r i f =
     (if 0 \<le> sint i \<and> nat (sint i) < length (bmem r) then f (nat (sint i))
      else Fault Scratch_Access)"

text \<open>
  The \<^verbatim>\<open>switch\<close> of the interpreter by groups of labels; \<open>None\<close> means that the code is
  not a label of the group.
\<close>

definition bpf_load :: "u8 list \<Rightarrow> u32 \<Rightarrow> u32 \<Rightarrow> bpf_insn \<Rightarrow> int \<Rightarrow> bpf_regs \<Rightarrow> bpf_step option" where
  "bpf_load p wirelen buflen i pc r =
     (if icode i = BPF_LD OR BPF_W OR BPF_ABS then Some (ld_w p buflen (ik i) pc r)
      else if icode i = BPF_LD OR BPF_H OR BPF_ABS then Some (ld_h p buflen (ik i) pc r)
      else if icode i = BPF_LD OR BPF_B OR BPF_ABS then Some (ld_b p buflen (ik i) pc r)
      else if icode i = BPF_LD OR BPF_W OR BPF_LEN then Some (Next (pc + 1) (r\<lparr>bA := wirelen\<rparr>))
      else if icode i = BPF_LDX OR BPF_W OR BPF_LEN then Some (Next (pc + 1) (r\<lparr>bX := wirelen\<rparr>))
      else if icode i = BPF_LD OR BPF_W OR BPF_IND then Some (ld_w p buflen (bX r + ik i) pc r)
      else if icode i = BPF_LD OR BPF_H OR BPF_IND then Some (ld_h p buflen (bX r + ik i) pc r)
      else if icode i = BPF_LD OR BPF_B OR BPF_IND then Some (ld_b p buflen (bX r + ik i) pc r)
      else if icode i = BPF_LDX OR BPF_MSH OR BPF_B then Some (ldx_msh p buflen (ik i) pc r)
      else if icode i = BPF_LD OR BPF_IMM then Some (Next (pc + 1) (r\<lparr>bA := ik i\<rparr>))
      else if icode i = BPF_LDX OR BPF_IMM then Some (Next (pc + 1) (r\<lparr>bX := ik i\<rparr>))
      else if icode i = BPF_LD OR BPF_MEM then
        Some (scratch r (ik i) (\<lambda>j. Next (pc + 1) (r\<lparr>bA := bmem r ! j\<rparr>)))
      else if icode i = BPF_LDX OR BPF_MEM then
        Some (scratch r (ik i) (\<lambda>j. Next (pc + 1) (r\<lparr>bX := bmem r ! j\<rparr>)))
      else None)"

definition bpf_store :: "bpf_insn \<Rightarrow> int \<Rightarrow> bpf_regs \<Rightarrow> bpf_step option" where
  "bpf_store i pc r =
     (if icode i = BPF_ST then
        Some (scratch r (ik i) (\<lambda>j. Next (pc + 1) (r\<lparr>bmem := (bmem r)[j := bA r]\<rparr>)))
      else if icode i = BPF_STX then
        Some (scratch r (ik i) (\<lambda>j. Next (pc + 1) (r\<lparr>bmem := (bmem r)[j := bX r]\<rparr>)))
      else None)"

text \<open>A taken jump moves \<^verbatim>\<open>pc\<close> by the offset, and the loop then advances it by one.\<close>

definition branch :: "bpf_insn \<Rightarrow> int \<Rightarrow> bpf_regs \<Rightarrow> bool \<Rightarrow> bpf_step" where
  "branch i pc r c = Next (pc + 1 + (if c then uint (ijt i) else uint (ijf i))) r"

definition bpf_jump :: "bpf_insn \<Rightarrow> int \<Rightarrow> bpf_regs \<Rightarrow> bpf_step option" where
  "bpf_jump i pc r =
     (if icode i = BPF_JMP OR BPF_JA then Some (Next (pc + 1 + sint (ik i)) r)
      else if icode i = BPF_JMP OR BPF_JGT OR BPF_K then Some (branch i pc r (sint (bA r) > sint (ik i)))
      else if icode i = BPF_JMP OR BPF_JGE OR BPF_K then Some (branch i pc r (sint (bA r) \<ge> sint (ik i)))
      else if icode i = BPF_JMP OR BPF_JEQ OR BPF_K then Some (branch i pc r (bA r = ik i))
      else if icode i = BPF_JMP OR BPF_JSET OR BPF_K then Some (branch i pc r (bA r AND ik i \<noteq> 0))
      else if icode i = BPF_JMP OR BPF_JGT OR BPF_X then Some (branch i pc r (sint (bA r) > sint (bX r)))
      else if icode i = BPF_JMP OR BPF_JGE OR BPF_X then Some (branch i pc r (sint (bA r) \<ge> sint (bX r)))
      else if icode i = BPF_JMP OR BPF_JEQ OR BPF_X then Some (branch i pc r (bA r = bX r))
      else if icode i = BPF_JMP OR BPF_JSET OR BPF_X then Some (branch i pc r (bA r AND bX r \<noteq> 0))
      else None)"

text \<open>
  Shifts by a count outside \<open>0..31\<close> and the quotients C does not define fault; a
  division by a zero \<^verbatim>\<open>X\<close> returns 0, one by a zero constant is left to the checker.
\<close>

definition acc :: "int \<Rightarrow> bpf_regs \<Rightarrow> u32 \<Rightarrow> bpf_step" where
  "acc pc r v = Next (pc + 1) (r\<lparr>bA := v\<rparr>)"

definition alu_shift :: "(nat \<Rightarrow> u32) \<Rightarrow> u32 \<Rightarrow> int \<Rightarrow> bpf_regs \<Rightarrow> bpf_step" where
  "alu_shift f n pc r =
     (if 0 \<le> sint n \<and> sint n < 32 then acc pc r (f (nat (sint n))) else Fault Undefined_Arith)"

definition alu_div :: "u32 \<Rightarrow> int \<Rightarrow> bpf_regs \<Rightarrow> bpf_step" where
  "alu_div d pc r =
     (if d = 0 \<or> (sint (bA r) = - (2 ^ 31) \<and> sint d = - 1) then Fault Undefined_Arith
      else acc pc r (word_of_int (sint (bA r) sdiv sint d)))"

definition bpf_alu :: "bpf_insn \<Rightarrow> int \<Rightarrow> bpf_regs \<Rightarrow> bpf_step option" where
  "bpf_alu i pc r =
     (if icode i = BPF_ALU OR BPF_ADD OR BPF_X then Some (acc pc r (bA r + bX r))
      else if icode i = BPF_ALU OR BPF_SUB OR BPF_X then Some (acc pc r (bA r - bX r))
      else if icode i = BPF_ALU OR BPF_MUL OR BPF_X then Some (acc pc r (bA r * bX r))
      else if icode i = BPF_ALU OR BPF_DIV OR BPF_X then
        Some (if bX r = 0 then Ret 0 else alu_div (bX r) pc r)
      else if icode i = BPF_ALU OR BPF_AND OR BPF_X then Some (acc pc r (bA r AND bX r))
      else if icode i = BPF_ALU OR BPF_OR OR BPF_X then Some (acc pc r (bA r OR bX r))
      else if icode i = BPF_ALU OR BPF_LSH OR BPF_X then Some (alu_shift (\<lambda>n. push_bit n (bA r)) (bX r) pc r)
      else if icode i = BPF_ALU OR BPF_RSH OR BPF_X then
        Some (alu_shift (\<lambda>n. signed_drop_bit n (bA r)) (bX r) pc r)
      else if icode i = BPF_ALU OR BPF_ADD OR BPF_K then Some (acc pc r (bA r + ik i))
      else if icode i = BPF_ALU OR BPF_SUB OR BPF_K then Some (acc pc r (bA r - ik i))
      else if icode i = BPF_ALU OR BPF_MUL OR BPF_K then Some (acc pc r (bA r * ik i))
      else if icode i = BPF_ALU OR BPF_DIV OR BPF_K then Some (alu_div (ik i) pc r)
      else if icode i = BPF_ALU OR BPF_AND OR BPF_K then Some (acc pc r (bA r AND ik i))
      else if icode i = BPF_ALU OR BPF_OR OR BPF_K then Some (acc pc r (bA r OR ik i))
      else if icode i = BPF_ALU OR BPF_LSH OR BPF_K then Some (alu_shift (\<lambda>n. push_bit n (bA r)) (ik i) pc r)
      else if icode i = BPF_ALU OR BPF_RSH OR BPF_K then
        Some (alu_shift (\<lambda>n. signed_drop_bit n (bA r)) (ik i) pc r)
      else if icode i = BPF_ALU OR BPF_NEG then Some (acc pc r (- bA r))
      else None)"

definition bpf_misc :: "bpf_insn \<Rightarrow> int \<Rightarrow> bpf_regs \<Rightarrow> bpf_step option" where
  "bpf_misc i pc r =
     (if icode i = BPF_MISC OR BPF_TAX then Some (Next (pc + 1) (r\<lparr>bX := bA r\<rparr>))
      else if icode i = BPF_MISC OR BPF_TXA then Some (Next (pc + 1) (r\<lparr>bA := bX r\<rparr>))
      else if icode i = BPF_RET OR BPF_K then Some (Ret (ik i))
      else if icode i = BPF_RET OR BPF_A then Some (Ret (bA r))
      else None)"

definition or_else :: "'a option \<Rightarrow> 'a option \<Rightarrow> 'a option" where
  "or_else a b = (case a of None \<Rightarrow> b | Some _ \<Rightarrow> a)"

definition bpf_exec :: "u8 list \<Rightarrow> u32 \<Rightarrow> u32 \<Rightarrow> bpf_insn \<Rightarrow> int \<Rightarrow> bpf_regs \<Rightarrow> bpf_step" where
  "bpf_exec p wirelen buflen i pc r =
     (case or_else (bpf_load p wirelen buflen i pc r)
             (or_else (bpf_store i pc r)
                (or_else (bpf_jump i pc r) (or_else (bpf_alu i pc r) (bpf_misc i pc r)))) of
        Some s \<Rightarrow> s
      | None \<Rightarrow> Ret 0)"

definition bpf_fetch :: "bpf_insn list \<Rightarrow> int \<Rightarrow> bpf_insn option" where
  "bpf_fetch f pc = (if 0 \<le> pc \<and> nat pc < length f then Some (f ! nat pc) else None)"

definition bpf_step1 :: "bpf_insn list \<Rightarrow> u8 list \<Rightarrow> u32 \<Rightarrow> u32 \<Rightarrow> int \<Rightarrow> bpf_regs \<Rightarrow> bpf_step" where
  "bpf_step1 f p wirelen buflen pc r =
     (case bpf_fetch f pc of
        None \<Rightarrow> Fault Code_Fetch
      | Some i \<Rightarrow> bpf_exec p wirelen buflen i pc r)"

partial_function (option) bpf_loop ::
  "bpf_insn list \<Rightarrow> u8 list \<Rightarrow> u32 \<Rightarrow> u32 \<Rightarrow> int \<Rightarrow> bpf_regs \<Rightarrow> bpf_step option" where
  "bpf_loop f p wirelen buflen pc r =
     (case bpf_step1 f p wirelen buflen pc r of
        Next pc' r' \<Rightarrow> bpf_loop f p wirelen buflen pc' r'
      | Ret v \<Rightarrow> Some (Ret v)
      | Fault e \<Rightarrow> Some (Fault e))"

text \<open>
  \<^verbatim>\<open>mem\<close> is a local array the code does not initialise: its contents on entry are an
  argument. A null program accepts the packet.
\<close>

definition bpf_filter ::
  "bpf_insn list option \<Rightarrow> u8 list \<Rightarrow> u32 \<Rightarrow> u32 \<Rightarrow> u32 list \<Rightarrow> bpf_step option" where
  "bpf_filter prog p wirelen buflen mem0 =
     (case prog of
        None \<Rightarrow> Some (Ret (- 1))
      | Some f \<Rightarrow> bpf_loop f p wirelen buflen 0 \<lparr>bA = 0, bX = 0, bmem = mem0\<rparr>)"

section \<open>The checker\<close>

text \<open>
  \<^verbatim>\<open>from + p->k\<close> is a signed 32-bit sum, \<^verbatim>\<open>from + p->jt\<close> an \<^verbatim>\<open>int\<close> one that
  cannot overflow for the at most 512 instructions \<^verbatim>\<open>bpf_sfilter\<close> lets through.
\<close>

definition bpf_insn_ok :: "nat \<Rightarrow> nat \<Rightarrow> bpf_insn \<Rightarrow> bool" where
  "bpf_insn_ok len i p =
     (let from = i + 1 in
      \<not> (BPF_CLASS (icode p) = BPF_JMP \<and>
           (if BPF_OP (icode p) = BPF_JA then sint (word_of_nat from + ik p) \<ge> int len
            else from + unat (ijt p) \<ge> len \<or> from + unat (ijf p) \<ge> len)) \<and>
      \<not> ((BPF_CLASS (icode p) = BPF_ST \<or>
            (BPF_CLASS (icode p) = BPF_LD \<and> icode p AND 0xe0 = BPF_MEM)) \<and>
         (sint (ik p) \<ge> int BPF_MEMWORDS \<or> sint (ik p) < 0)) \<and>
      \<not> (icode p = BPF_ALU OR BPF_DIV OR BPF_K \<and> ik p = 0))"

fun bpf_validate_loop :: "nat \<Rightarrow> nat \<Rightarrow> bpf_insn list \<Rightarrow> bool" where
  "bpf_validate_loop len i [] = True"
| "bpf_validate_loop len i (p # ps) =
     (if \<not> bpf_insn_ok len i p then False else bpf_validate_loop len (i + 1) ps)"

text \<open>With no instruction at all the code reads \<^verbatim>\<open>f[-1]\<close>: the result is \<open>None\<close>.\<close>

definition bpf_validate :: "bpf_insn list \<Rightarrow> bool option" where
  "bpf_validate f =
     (if \<not> bpf_validate_loop (length f) 0 f then Some False
      else if f = [] then None
      else Some (BPF_CLASS (icode (f ! (length f - 1))) = BPF_RET))"

section \<open>What a step does\<close>

text \<open>
  \<open>straight\<close>: the step went on to the next instruction; \<open>jumps\<close>: it took a branch. Both
  keep the size of the scratch memory.
\<close>

lemmas bpf_leaf_defs = ld_w_def ld_h_def ld_b_def ldx_msh_def packet_value_def scratch_def
  branch_def acc_def alu_shift_def alu_div_def BPF_CLASS_def BPF_OP_def

definition straight :: "bpf_insn \<Rightarrow> int \<Rightarrow> bpf_regs \<Rightarrow> int \<Rightarrow> bpf_regs \<Rightarrow> bool" where
  "straight i pc r pc' r' \<longleftrightarrow> BPF_CLASS (icode i) \<noteq> BPF_JMP \<and> BPF_CLASS (icode i) \<noteq> BPF_RET \<and>
     pc' = pc + 1 \<and> length (bmem r') = length (bmem r)"

lemma load_next: "bpf_load p wl bl i pc r = Some (Next pc' r') \<Longrightarrow> straight i pc r pc' r'"
  by (auto simp: straight_def bpf_load_def bpf_leaf_defs split: if_splits option.splits)
lemma store_next: "bpf_store i pc r = Some (Next pc' r') \<Longrightarrow> straight i pc r pc' r'"
  by (auto simp: straight_def bpf_store_def bpf_leaf_defs split: if_splits option.splits)
lemma alu_next: "bpf_alu i pc r = Some (Next pc' r') \<Longrightarrow> straight i pc r pc' r'"
  by (auto simp: straight_def bpf_alu_def bpf_leaf_defs split: if_splits option.splits)
lemma misc_next: "bpf_misc i pc r = Some (Next pc' r') \<Longrightarrow> straight i pc r pc' r'"
  by (auto simp: straight_def bpf_misc_def bpf_leaf_defs split: if_splits option.splits)
definition jumps :: "bpf_insn \<Rightarrow> int \<Rightarrow> bpf_regs \<Rightarrow> int \<Rightarrow> bpf_regs \<Rightarrow> bool" where
  "jumps i pc r pc' r' \<longleftrightarrow> r' = r \<and> BPF_CLASS (icode i) = BPF_JMP \<and>
    (if BPF_OP (icode i) = BPF_JA then icode i = BPF_JMP OR BPF_JA \<and> pc' = pc + 1 + sint (ik i)
     else pc' = pc + 1 + uint (ijt i) \<or> pc' = pc + 1 + uint (ijf i))"
lemma jump_next: "bpf_jump i pc r = Some (Next pc' r') \<Longrightarrow> jumps i pc r pc' r'"
  by (auto simp: jumps_def bpf_jump_def bpf_leaf_defs split: if_splits option.splits)

lemma or_else_Some: "or_else a b = Some c \<Longrightarrow> a = Some c \<or> b = Some c"
  by (auto simp: or_else_def split: option.splits)

lemma exec_cases:
  assumes "bpf_exec p wl bl i pc r = s" and "s \<noteq> Ret 0"
  shows "bpf_load p wl bl i pc r = Some s \<or> bpf_store i pc r = Some s \<or> bpf_jump i pc r = Some s \<or>
         bpf_alu i pc r = Some s \<or> bpf_misc i pc r = Some s"
  using assms by (auto simp: bpf_exec_def or_else_def split: option.splits)

lemma exec_next:
  assumes "bpf_exec p wl bl i pc r = Next pc' r'"
  shows "straight i pc r pc' r' \<or> jumps i pc r pc' r'"
  using exec_cases [OF assms, simplified]
  by (auto dest: load_next store_next jump_next alu_next misc_next)

lemma bpf_validate_loop_nth:
  "bpf_validate_loop len i ps \<longleftrightarrow> (\<forall>j < length ps. bpf_insn_ok len (i + j) (ps ! j))"
  by (induction ps arbitrary: i) (auto simp: All_less_Suc2)

text \<open>
  What the checker leaves open: unconditional jumps that go forward, scratch indices of
  \<^verbatim>\<open>LDX MEM\<close> and \<^verbatim>\<open>STX\<close> in range, packet offsets whose bound does not wrap.
\<close>

definition ja_forward :: "bpf_insn list \<Rightarrow> bool" where
  "ja_forward f = list_all (\<lambda>p. icode p = BPF_JMP OR BPF_JA \<longrightarrow>
      0 \<le> sint (ik p) \<and> sint (ik p) + int (length f) < 2 ^ 31) f"

lemma validate_D:
  assumes "bpf_validate f = Some True"
  shows "\<And>j. j < length f \<Longrightarrow> bpf_insn_ok (length f) j (f ! j)"
    and "BPF_CLASS (icode (f ! (length f - 1))) = BPF_RET" and "f \<noteq> []"
  using assms bpf_validate_loop_nth [of "length f" 0 f]
  by (auto simp: bpf_validate_def split: if_splits)

lemma fetch_Some: "bpf_fetch f pc = Some i \<longleftrightarrow> 0 \<le> pc \<and> nat pc < length f \<and> i = f ! nat pc"
  by (auto simp: bpf_fetch_def)

lemma fetch_in: "0 \<le> pc \<Longrightarrow> pc < int (length f) \<Longrightarrow> bpf_fetch f pc = Some (f ! nat pc)"
  by (simp add: bpf_fetch_def nat_less_iff)

lemma step1_progress:
  assumes v: "bpf_validate f = Some True" and ja: "ja_forward f"
    and s: "bpf_step1 f p wl bl pc r = Next pc' r'"
  shows "pc < pc' \<and> pc' < int (length f) \<and> length (bmem r') = length (bmem r)"
proof -
  obtain i where pc: "0 \<le> pc" "nat pc < length f" "i = f ! nat pc"
    and e: "bpf_exec p wl bl i pc r = Next pc' r'"
    using s by (auto simp: bpf_step1_def fetch_Some split: option.splits)
  have ok: "bpf_insn_ok (length f) (nat pc) i" using validate_D(1) [OF v] pc by simp
  from exec_next [OF e] show ?thesis
  proof
    assume st: "straight i pc r pc' r'"
    then have "nat pc \<noteq> length f - 1"
      using validate_D(2) [OF v] pc by (auto simp: straight_def)
    with st pc show ?thesis by (auto simp: straight_def)
  next
    assume j: "jumps i pc r pc' r'"
    show ?thesis
    proof (cases "BPF_OP (icode i) = BPF_JA")
      case True
      with j have c: "icode i = BPF_JMP OR BPF_JA" by (simp add: jumps_def)
      have "i \<in> set f" using pc by simp
      with ja c have b: "0 \<le> sint (ik i)" "sint (ik i) + int (length f) < 2 ^ 31"
        by (auto simp: ja_forward_def list_all_iff)
      have w: "sint (word_of_nat (nat pc + 1) :: u32) = int (nat pc + 1)"
        by (rule sint_word_of_nat_32) (use b pc in simp)
      have "sint (word_of_nat (nat pc + 1) + ik i) = int (nat pc + 1) + sint (ik i)"
        by (subst sint_plus_32) (use b pc w in auto)
      moreover have "\<not> sint (word_of_nat (nat pc + 1) + ik i) \<ge> int (length f)"
        using ok True j unfolding jumps_def bpf_insn_ok_def Let_def by metis
      ultimately show ?thesis using j True b pc by (auto simp: jumps_def)
    next
      case False
      with ok j have "nat pc + 1 + unat (ijt i) < length f" "nat pc + 1 + unat (ijf i) < length f"
        by (auto simp: jumps_def bpf_insn_ok_def Let_def)
      moreover have "uint (ijt i) = int (unat (ijt i))" "uint (ijf i) = int (unat (ijf i))"
        by simp_all
      ultimately have "pc + 1 + uint (ijt i) < int (length f)" "pc + 1 + uint (ijf i) < int (length f)"
        using pc(1) by linarith+
      then show ?thesis using j False by (auto simp: jumps_def add_pos_nonneg)
    qed
  qed
qed

definition in_scratch :: "bpf_regs \<Rightarrow> u32 \<Rightarrow> bool" where
  "in_scratch r i \<longleftrightarrow> 0 \<le> sint i \<and> sint i < int (length (bmem r))"

lemma load_fault:
  "bpf_load p wl bl i pc r = Some (Fault e) \<Longrightarrow>
     e = Packet_Read \<and>
       (icode i = BPF_LD OR BPF_W OR BPF_ABS \<and> ld_w p bl (ik i) pc r = Fault e \<or>
        icode i = BPF_LD OR BPF_H OR BPF_ABS \<and> ld_h p bl (ik i) pc r = Fault e \<or>
        icode i = BPF_LD OR BPF_W OR BPF_IND \<or> icode i = BPF_LD OR BPF_H OR BPF_IND \<or>
        (\<exists>j. ld_b p bl j pc r = Fault e) \<or> (\<exists>j. ldx_msh p bl j pc r = Fault e)) \<or>
     e = Scratch_Access \<and> (icode i = BPF_LD OR BPF_MEM \<or> icode i = BPF_LDX OR BPF_MEM) \<and>
       \<not> in_scratch r (ik i)"
  by (auto simp: bpf_load_def packet_value_def scratch_def in_scratch_def
        ld_w_def ld_h_def ld_b_def ldx_msh_def
      split: if_splits option.splits)

lemma store_fault:
  "bpf_store i pc r = Some (Fault e) \<Longrightarrow>
     e = Scratch_Access \<and> (icode i = BPF_ST \<or> icode i = BPF_STX) \<and> \<not> in_scratch r (ik i)"
  by (auto simp: bpf_store_def scratch_def in_scratch_def split: if_splits)

lemma jump_no_fault: "bpf_jump i pc r \<noteq> Some (Fault e)"
  by (simp add: bpf_jump_def branch_def)

lemma alu_fault: "bpf_alu i pc r = Some (Fault e) \<Longrightarrow> e = Undefined_Arith"
  by (auto simp: bpf_alu_def acc_def alu_shift_def alu_div_def split: if_splits)

lemma misc_no_fault: "bpf_misc i pc r \<noteq> Some (Fault e)"
  by (simp add: bpf_misc_def)

lemma exec_fault:
  assumes "bpf_exec p wl bl i pc r = Fault e" and "e \<noteq> Undefined_Arith"
  shows "bpf_load p wl bl i pc r = Some (Fault e) \<or> bpf_store i pc r = Some (Fault e)"
  using exec_cases [OF assms(1), simplified] assms(2)
  by (auto simp: jump_no_fault misc_no_fault dest: alu_fault)

lemma step1_fetch:
  "0 \<le> pc \<Longrightarrow> pc < int (length f) \<Longrightarrow> bpf_step1 f p wl bl pc r \<noteq> Fault Code_Fetch"
  by (auto simp: bpf_step1_def fetch_in dest!: exec_fault load_fault store_fault)

text \<open>A result of the loop is the result of one of the steps it takes.\<close>

lemma bpf_loop_safe:
  assumes v: "bpf_validate f = Some True" and ja: "ja_forward f"
    and ok: "\<And>pc r. 0 \<le> pc \<Longrightarrow> pc < int (length f) \<Longrightarrow> length (bmem r) = n \<Longrightarrow> bpf_step1 f p wl bl pc r \<noteq> Fault e"
    and pc: "0 \<le> pc" "pc < int (length f)" and n: "length (bmem r) = n"
  shows "\<exists>s. bpf_loop f p wl bl pc r = Some s \<and> s \<noteq> Fault e \<and> s \<noteq> Fault Code_Fetch"
  using pc n
proof (induction "nat (int (length f) - pc)" arbitrary: pc r rule: less_induct)
  case less
  show ?case
  proof (cases "bpf_step1 f p wl bl pc r")
    case (Next pc' r')
    from step1_progress [OF v ja Next] less.prems
    have lt: "pc < pc'" "pc' < int (length f)" "length (bmem r') = n" by auto
    then have "nat (int (length f) - pc') < nat (int (length f) - pc)" by linarith
    from less.hyps [OF this] lt less.prems
    obtain s where "bpf_loop f p wl bl pc' r' = Some s" "s \<noteq> Fault e" "s \<noteq> Fault Code_Fetch" by auto
    then show ?thesis using Next by (simp add: bpf_loop.simps [of f p wl bl pc r])
  next
    case (Ret x1)
    then show ?thesis by (simp add: bpf_loop.simps)
  next
    case (Fault x2)
    then show ?thesis using ok [OF less.prems(1,2,3)] step1_fetch [OF less.prems(1,2), of p wl bl r]
      by (simp add: bpf_loop.simps)
  qed
qed

definition mem_checked :: "bpf_insn list \<Rightarrow> bool" where
  "mem_checked f = list_all (\<lambda>p. icode p = BPF_LDX OR BPF_MEM \<or> icode p = BPF_STX \<longrightarrow>
      0 \<le> sint (ik p) \<and> sint (ik p) < int BPF_MEMWORDS) f"

lemma step1_scratch:
  assumes v: "bpf_validate f = Some True" and m: "mem_checked f"
    and pc: "0 \<le> pc" "pc < int (length f)" and n: "length (bmem r) = BPF_MEMWORDS"
  shows "bpf_step1 f p wl bl pc r \<noteq> Fault Scratch_Access"
proof
  let ?i = "f ! nat pc"
  assume "bpf_step1 f p wl bl pc r = Fault Scratch_Access"
  then have e: "bpf_exec p wl bl ?i pc r = Fault Scratch_Access"
    using pc by (simp add: bpf_step1_def fetch_in)
  have ok: "bpf_insn_ok (length f) (nat pc) ?i" using validate_D(1) [OF v] pc by simp
  have "?i \<in> set f" using pc by simp
  with m have mi: "icode ?i = BPF_LDX OR BPF_MEM \<or> icode ?i = BPF_STX \<Longrightarrow>
      0 \<le> sint (ik ?i) \<and> sint (ik ?i) < 16" by (auto simp: mem_checked_def list_all_iff)
  from exec_fault [OF e] ok mi n show False
    by (auto dest!: load_fault store_fault
        simp: in_scratch_def bpf_insn_ok_def Let_def BPF_CLASS_def)
qed

definition abs_bounded :: "bpf_insn list \<Rightarrow> bool" where
  "abs_bounded f = list_all (\<lambda>p. icode p \<noteq> BPF_LD OR BPF_W OR BPF_IND \<and> icode p \<noteq> BPF_LD OR BPF_H OR BPF_IND \<and>
      (icode p = BPF_LD OR BPF_W OR BPF_ABS \<or> icode p = BPF_LD OR BPF_H OR BPF_ABS \<longrightarrow>
      unat (ik p) + 4 < 2 ^ 32)) f"

lemma ld_w_safe: "unat bl \<le> length p \<Longrightarrow> unat i + 4 < 2 ^ 32 \<Longrightarrow> ld_w p bl i pc r \<noteq> Fault e"
  using unat_plus_32 [of i 4]
  by (auto simp: ld_w_def packet_value_def EXTRACT_LONG_def word_less_nat_alt split: option.splits)
lemma ld_h_safe: "unat bl \<le> length p \<Longrightarrow> unat i + 4 < 2 ^ 32 \<Longrightarrow> ld_h p bl i pc r \<noteq> Fault e"
  using unat_plus_32 [of i 2]
  by (auto simp: ld_h_def packet_value_def EXTRACT_SHORT_def word_less_nat_alt split: option.splits)
lemma ld_b_safe: "unat bl \<le> length p \<Longrightarrow> ld_b p bl i pc r \<noteq> Fault e"
  by (auto simp: ld_b_def packet_value_def word_le_nat_alt split: option.splits)
lemma ldx_msh_safe: "unat bl \<le> length p \<Longrightarrow> ldx_msh p bl i pc r \<noteq> Fault e"
  by (auto simp: ldx_msh_def packet_value_def word_le_nat_alt split: option.splits)

lemma step1_packet:
  assumes m: "abs_bounded f" and pc: "0 \<le> pc" "pc < int (length f)" and b: "unat bl \<le> length p"
  shows "bpf_step1 f p wl bl pc r \<noteq> Fault Packet_Read"
proof
  let ?i = "f ! nat pc"
  assume "bpf_step1 f p wl bl pc r = Fault Packet_Read"
  then have e: "bpf_exec p wl bl ?i pc r = Fault Packet_Read"
    using pc by (simp add: bpf_step1_def fetch_in)
  have "?i \<in> set f" using pc by simp
  with m have mi: "icode ?i \<noteq> BPF_LD OR BPF_W OR BPF_IND \<and> icode ?i \<noteq> BPF_LD OR BPF_H OR BPF_IND \<and>
      (icode ?i = BPF_LD OR BPF_W OR BPF_ABS \<or> icode ?i = BPF_LD OR BPF_H OR BPF_ABS \<longrightarrow>
      unat (ik ?i) + 4 < 2 ^ 32)" by (auto simp: abs_bounded_def list_all_iff)
  from exec_fault [OF e] mi show False
    by (auto dest!: load_fault store_fault simp: ld_w_safe [OF b] ld_h_safe [OF b] ld_b_safe [OF b] ldx_msh_safe [OF b])
qed

lemma loop_self:
  assumes "\<And>r. bpf_step1 f p wl bl pc r = Next pc r"
  shows "bpf_loop f p wl bl pc r = None"
proof (rule ccontr)
  assume "bpf_loop f p wl bl pc r \<noteq> None"
  then obtain s where s: "bpf_loop f p wl bl pc r = Some s" by auto
  have "\<not> (\<forall>r. bpf_step1 f p wl bl pc r = Next pc r)"
  by (rule bpf_loop.raw_induct [where P = "\<lambda>f p wl bl pc r s. \<not> (\<forall>r. bpf_step1 f p wl bl pc r = Next pc r)", OF _ s])
    (force split: bpf_step.splits)
  with assms show False by blast
qed


section \<open>Properties\<close>

definition insn :: "u16 \<Rightarrow> u32 \<Rightarrow> bpf_insn" where
  "insn c v = \<lparr>icode = c, ijt = 0, ijf = 0, ik = v\<rparr>"

definition sample_filter :: "bpf_insn list" where
  "sample_filter =
     [insn (BPF_LD OR BPF_H OR BPF_ABS) 12,
      \<lparr>icode = BPF_JMP OR BPF_JEQ OR BPF_K, ijt = 0, ijf = 2, ik = 0x800\<rparr>,
      insn BPF_ST 3,
      insn (BPF_RET OR BPF_K) 96,
      insn (BPF_RET OR BPF_K) 0]"

lemmas bpf_run_simps = bpf_filter_def bpf_loop.simps bpf_step1_def bpf_fetch_def bpf_exec_def
  or_else_def bpf_load_def bpf_store_def bpf_jump_def bpf_alu_def bpf_misc_def bpf_leaf_defs insn_def

lemmas bpf_check_simps = bpf_validate_def bpf_insn_ok_def BPF_CLASS_def BPF_OP_def insn_def

lemma sample_filter_checks:
  "bpf_validate sample_filter = Some True" "ja_forward sample_filter"
  "mem_checked sample_filter" "abs_bounded sample_filter"
  by (simp_all add: sample_filter_def bpf_check_simps ja_forward_def mem_checked_def abs_bounded_def)

text \<open>
  C6: a program that passes \<^verbatim>\<open>bpf_validate\<close>, and whose unconditional jumps go forward,
  makes the interpreter return for every packet, every length argument and every content
  of the scratch memory, and no instruction is fetched outside the program.
\<close>

theorem bpf_filter_returns:
  assumes "bpf_validate f = Some True" and "ja_forward f"
  shows "\<exists>s. bpf_filter (Some f) p wirelen buflen mem0 = Some s \<and> s \<noteq> Fault Code_Fetch"
proof -
  from validate_D(3) [OF assms(1)] have "(0 :: int) < int (length f)" by simp
  then have "\<exists>s. bpf_loop f p wirelen buflen 0 \<lparr>bA = 0, bX = 0, bmem = mem0\<rparr> = Some s \<and>
      s \<noteq> Fault Code_Fetch \<and> s \<noteq> Fault Code_Fetch"
    by (intro bpf_loop_safe [OF assms, where n = "length mem0"] step1_fetch) auto
  then show ?thesis by (auto simp: bpf_filter_def)
qed

theorem bpf_filter_returns_witness:
  "\<exists>s. bpf_filter (Some sample_filter) [] 0 0 [] = Some s \<and> s \<noteq> Fault Code_Fetch"
  by (rule bpf_filter_returns [OF sample_filter_checks(1,2)])





lemma gap_stx:
  "bpf_validate [insn BPF_STX 16, insn (BPF_RET OR BPF_K) 0] = Some True \<and>
   bpf_filter (Some [insn BPF_STX 16, insn (BPF_RET OR BPF_K) 0]) p wirelen buflen
     (replicate BPF_MEMWORDS v) = Some (Fault Scratch_Access)"
  by (simp add: bpf_check_simps bpf_run_simps)

lemma gap_load:
  "bpf_validate [insn (BPF_LD OR BPF_W OR BPF_ABS) (- 2), insn (BPF_RET OR BPF_K) 0] = Some True \<and>
   bpf_filter (Some [insn (BPF_LD OR BPF_W OR BPF_ABS) (- 2), insn (BPF_RET OR BPF_K) 0])
     [b0, b1] wirelen 2 mem0 = Some (Fault Packet_Read)"
  by (simp add: bpf_check_simps bpf_run_simps EXTRACT_LONG_def byte_at_def)

lemma gap_jump:
  "bpf_validate [insn (BPF_JMP OR BPF_JA) (- 1), insn (BPF_RET OR BPF_K) 0] = Some True \<and>
   bpf_filter (Some [insn (BPF_JMP OR BPF_JA) (- 1), insn (BPF_RET OR BPF_K) 0])
     p wirelen buflen mem0 = None"
proof -
  have "bpf_loop [insn (BPF_JMP OR BPF_JA) (- 1), insn (BPF_RET OR BPF_K) 0] p wirelen buflen 0 r = None"
    for r
    by (rule loop_self) (simp add: bpf_run_simps)
  then show ?thesis by (simp add: bpf_check_simps bpf_filter_def)
qed

text \<open>
  C9: the conditions of C1 to C3 are not implied by the checker. It accepts a store of
  \<^verbatim>\<open>X\<close> to \<^verbatim>\<open>mem[16]\<close>, which writes behind the scratch memory; a load at offset
  \<^verbatim>\<open>0xfffffffe\<close>, which passes the wrapped bound of every packet of at least two bytes
  and reads outside it; and a jump by \<open>-1\<close>, which makes the interpreter run for ever.
\<close>

theorem bpf_validate_gaps:
  "(bpf_validate [insn BPF_STX 16, insn (BPF_RET OR BPF_K) 0] = Some True \<and>
    bpf_filter (Some [insn BPF_STX 16, insn (BPF_RET OR BPF_K) 0]) p wirelen buflen
      (replicate BPF_MEMWORDS v) = Some (Fault Scratch_Access)) \<and>
   (bpf_validate [insn (BPF_LD OR BPF_W OR BPF_ABS) (- 2), insn (BPF_RET OR BPF_K) 0] = Some True \<and>
    bpf_filter (Some [insn (BPF_LD OR BPF_W OR BPF_ABS) (- 2), insn (BPF_RET OR BPF_K) 0])
      [b0, b1] wirelen 2 mem0 = Some (Fault Packet_Read)) \<and>
   (bpf_validate [insn (BPF_JMP OR BPF_JA) (- 1), insn (BPF_RET OR BPF_K) 0] = Some True \<and>
    bpf_filter (Some [insn (BPF_JMP OR BPF_JA) (- 1), insn (BPF_RET OR BPF_K) 0])
      p wirelen buflen mem0 = None)"
  by (intro conjI gap_stx gap_load gap_jump [THEN conjunct1] gap_jump [THEN conjunct2])

end
