(* ===== verification/DeltaQueue.thy ===== *)
theory DeltaQueue
  imports Prelude
begin

text \<open>
  Delta queues: lists of entries whose field holds the time to the entry before them. Both
  the timeout list of \<^verbatim>\<open>kernel/timeout.c\<close> and the event list of
  \<^verbatim>\<open>kernel/timer.c\<close> are such queues, with insertions of their own. This theory holds
  what the two share: the due time of an entry (the sum of the fields up to it, in 32-bit
  arithmetic), removal with the carry to the successor, the loop that takes the expired
  entries off the head, and the contract of an insertion as a locale.
\<close>

type_synonym 'i dq = "('i \<times> u32) list"

abbreviation dq_keys :: "'i dq \<Rightarrow> 'i list" where
  "dq_keys q \<equiv> map fst q"

fun dq_due :: "'i dq \<Rightarrow> 'i \<Rightarrow> u32 option" where
  "dq_due [] x = None"
| "dq_due ((y, d) # q) x = (if x = y then Some d else map_option (\<lambda>s. d + s) (dq_due q x))"

text \<open>\<open>dq_carry d q\<close> is \<^verbatim>\<open>if (next) next->when += d\<close>.\<close>

fun dq_carry :: "u32 \<Rightarrow> 'i dq \<Rightarrow> 'i dq" where
  "dq_carry d [] = []"
| "dq_carry d ((y, e) # q) = (y, e + d) # q"

fun dq_remove :: "'i \<Rightarrow> 'i dq \<Rightarrow> 'i dq" where
  "dq_remove x [] = []"
| "dq_remove x ((y, d) # q) = (if x = y then dq_carry d q else (y, d) # dq_remove x q)"

lemma length_dq_carry [simp]: "length (dq_carry d q) = length q"
  by (induction d q rule: dq_carry.induct) auto

lemma keys_dq_carry [simp]: "dq_keys (dq_carry d q) = dq_keys q"
  by (induction d q rule: dq_carry.induct) auto

lemma fst_set_dq_carry [simp]: "fst ` set (dq_carry d q) = fst ` set q"
  by (induction d q rule: dq_carry.induct) auto

text \<open>The loop that pops the expired entries off the head of the queue.\<close>

function dq_fire :: "'i dq \<Rightarrow> 'i list \<times> 'i dq" where
  "dq_fire [] = ([], [])"
| "dq_fire ((x, d) # q) =
     (if sint d \<le> 0 then (let (f, r) = dq_fire (dq_carry d q) in (x # f, r))
      else ([], (x, d) # q))"
  by pat_completeness auto
termination
  by (relation "measure length") auto

lemma dq_due_None [simp]: "dq_due q x = None \<longleftrightarrow> x \<notin> fst ` set q"
  by (induction q x rule: dq_due.induct) auto

lemma dq_due_carry [simp]: "dq_due (dq_carry d q) x = map_option (\<lambda>s. d + s) (dq_due q x)"
  by (induction d q rule: dq_carry.induct) (auto simp: option.map_comp comp_def algebra_simps intro: option.map_cong)

lemma dq_remove_absent [simp]: "x \<notin> fst ` set q \<Longrightarrow> dq_remove x q = q"
  by (induction q rule: dq_remove.induct) auto

lemma keys_dq_remove [simp]:
  "distinct (dq_keys q) \<Longrightarrow> dq_keys (dq_remove x q) = filter (\<lambda>y. y \<noteq> x) (dq_keys q)"
proof (induction x q rule: dq_remove.induct)
  case (2 x y d q)
  have "y \<notin> set (dq_keys q)" using 2 by auto
  then have "filter (\<lambda>z. z \<noteq> y) (dq_keys q) = dq_keys q"
    by (intro filter_True) blast
  with 2 show ?case by auto
qed simp

text \<open>Removing an entry changes no other entry's due time.\<close>

lemma dq_due_remove:
  assumes "distinct (dq_keys q)"
  shows "dq_due (dq_remove x q) = (dq_due q)(x := None)"
  using assms
proof (induction x q rule: dq_remove.induct)
  case (2 x y d q)
  show ?case
  proof (cases "x = y")
    case True
    have "dq_due q y = None" using 2 by auto
    with True show ?thesis by (auto simp: fun_eq_iff)
  next
    case False
    then show ?thesis using 2 by (auto simp: fun_eq_iff)
  qed
qed (simp add: fun_eq_iff)

lemma set_keys_dq_remove:
  "distinct (dq_keys q) \<Longrightarrow> fst ` set (dq_remove x q) = fst ` set q - {x}"
proof -
  assume "distinct (dq_keys q)"
  then have "set (dq_keys (dq_remove x q)) = set (filter (\<lambda>y. y \<noteq> x) (dq_keys q))"
    by (simp only: keys_dq_remove)
  then show ?thesis by (simp only: set_map set_filter) blast
qed

lemma distinct_dq_remove: "distinct (dq_keys q) \<Longrightarrow> distinct (dq_keys (dq_remove x q))"
  by simp

section \<open>Order\<close>

text \<open>
  The fields are signed. \<open>dq_mono q\<close>: every field but the first, which the clock counts
  down, is not negative.
\<close>

definition dq_mono :: "'i dq \<Rightarrow> bool" where
  "dq_mono q \<longleftrightarrow> (\<forall>d \<in> set (map snd (tl q)). 0 \<le> sint d)"

definition dq_nonneg :: "'i dq \<Rightarrow> bool" where
  "dq_nonneg q \<longleftrightarrow> (\<forall>d \<in> set (map snd q). 0 \<le> sint d)"

lemma dq_nonneg_mono: "dq_nonneg q \<Longrightarrow> dq_mono q"
  by (cases q) (auto simp: dq_nonneg_def dq_mono_def)

lemma dq_mono_Cons [simp]: "dq_mono ((x, d) # q) \<longleftrightarrow> dq_nonneg q"
  by (simp add: dq_mono_def dq_nonneg_def)

lemma dq_nonneg_simps [simp]:
  "dq_nonneg []" "dq_nonneg ((x, d) # q) \<longleftrightarrow> 0 \<le> sint d \<and> dq_nonneg q"
  by (auto simp: dq_nonneg_def)

lemma dq_mono_Nil [simp]: "dq_mono []"
  by (simp add: dq_mono_def)

lemma dq_mono_carry [simp]: "dq_nonneg q \<Longrightarrow> dq_mono (dq_carry d q)"
  by (induction d q rule: dq_carry.induct) auto

text \<open>
  \<open>dq_room d q\<close>: the head is not so late that the distance to the new entry overflows.
\<close>

fun dq_room :: "u32 \<Rightarrow> 'i dq \<Rightarrow> bool" where
  "dq_room d [] = True"
| "dq_room d ((x, e) # q) = (sint d - sint e < 2 ^ 31)"

lemma dq_room_nonneg: "0 \<le> sint e \<Longrightarrow> dq_room d ((x, e) # q)"
  using sint32_bounds [of d] by simp

text \<open>The time of the last entry as an integer, without wrap-around.\<close>

fun dq_span :: "'i dq \<Rightarrow> int" where
  "dq_span [] = 0"
| "dq_span ((x, d) # q) = sint d + dq_span q"

lemma dq_span_nonneg: "dq_nonneg q \<Longrightarrow> 0 \<le> dq_span q"
  by (induction q) auto

section \<open>Expiry\<close>

lemma dq_fire_keys:
  "distinct (dq_keys q) \<Longrightarrow> dq_keys q = fst (dq_fire q) @ dq_keys (snd (dq_fire q))"
  by (induction q rule: dq_fire.induct) (auto split: prod.splits)

text \<open>The survivors keep their due times.\<close>

lemma dq_fire_due:
  "distinct (dq_keys q) \<Longrightarrow>
   dq_due (snd (dq_fire q)) x = (if x \<in> set (fst (dq_fire q)) then None else dq_due q x)"
proof (induction q rule: dq_fire.induct)
  case (2 y d q)
  show ?case
  proof (cases "sint d \<le> 0")
    case True
    obtain f r where fr: "dq_fire (dq_carry d q) = (f, r)" by fastforce
    have dq: "distinct (dq_keys (dq_carry d q))" using 2 by simp
    have ih: "dq_due r x = (if x \<in> set f then None else map_option (\<lambda>s. d + s) (dq_due q x))"
      using "2.IH" [OF True] dq fr by simp
    have "y \<notin> set f \<union> set (dq_keys r)"
      using dq_fire_keys [OF dq] fr 2 by (metis Un_iff append_is_Nil_conv distinct.simps(2)
          fst_conv keys_dq_carry list.simps(9) set_append snd_conv)
    moreover have "y \<notin> fst ` set q" using 2 by auto
    ultimately show ?thesis using True fr ih by auto
  qed simp
qed simp

lemma dq_fire_takeWhile:
  "distinct (dq_keys q) \<Longrightarrow>
   fst (dq_fire q) = takeWhile (\<lambda>x. sint (the (dq_due q x)) \<le> 0) (dq_keys q)"
proof (induction q rule: dq_fire.induct)
  case (2 y d q)
  show ?case
  proof (cases "sint d \<le> 0")
    case True
    have y: "y \<notin> set (dq_keys q)" using 2 by auto
    have "fst (dq_fire (dq_carry d q)) =
        takeWhile (\<lambda>x. sint (the (dq_due (dq_carry d q) x)) \<le> 0) (dq_keys q)"
      using "2.IH" [OF True] 2 by simp
    also have "\<dots> = takeWhile (\<lambda>x. sint (the (dq_due ((y, d) # q) x)) \<le> 0) (dq_keys q)"
      using y by (intro takeWhile_cong) auto
    finally show ?thesis using True by (simp add: split_beta Let_def)
  qed simp
qed simp

lemma dq_due_sint:
  assumes "dq_nonneg q" and "dq_span q < 2 ^ 31" and "dq_due q x = Some t"
  shows "0 \<le> sint t \<and> sint t \<le> dq_span q"
  using assms
proof (induction q arbitrary: t)
  case (Cons a q)
  obtain y d where a: "a = (y, d)" by fastforce
  with Cons.prems have n: "dq_nonneg q" "0 \<le> sint d" "dq_span q < 2 ^ 31"
    using dq_span_nonneg [of q] by auto
  show ?case
  proof (cases "x = y")
    case True
    then show ?thesis using Cons.prems a n dq_span_nonneg [of q] by auto
  next
    case False
    with Cons.prems a obtain s where s: "dq_due q x = Some s" "t = d + s" by auto
    from Cons.IH [OF n(1,3) s(1)] have b: "0 \<le> sint s" "sint s \<le> dq_span q" by auto
    then have "sint t = sint d + sint s"
      unfolding s(2) by (intro sint_plus_32) (use Cons.prems a n in auto)
    with b a n show ?thesis by simp
  qed
qed simp

text \<open>
  Completeness of the expiry loop: with a monotone queue whose span stays below \<open>2 ^ 31\<close>
  it takes off exactly the entries whose time has come.
\<close>

lemma dq_fire_complete:
  assumes d: "distinct (dq_keys q)" and m: "dq_mono q"
    and b: "dq_span q < 2 ^ 31"
  shows "set (fst (dq_fire q)) = {x. \<exists>t. dq_due q x = Some t \<and> sint t \<le> 0}"
  using assms
proof (induction q rule: dq_fire.induct)
  case (2 y d q)
  have n: "dq_nonneg q" using 2 by simp
  show ?case
  proof (cases "sint d \<le> 0")
    case True
    have "dq_span (dq_carry d q) < 2 ^ 31"
    proof (cases q)
      case (Cons a r)
      obtain z e where a: "a = (z, e)" by fastforce
      have "sint (e + d) = sint e + sint d"
        using n Cons a True sint32_bounds [of e] sint32_bounds [of d]
        by (intro sint_plus_32) (auto simp: algebra_simps)
      then show ?thesis using 2 Cons a by simp
    qed simp
    with "2.IH" [OF True] 2 n
    have "set (fst (dq_fire (dq_carry d q))) =
        {x. \<exists>t. dq_due (dq_carry d q) x = Some t \<and> sint t \<le> 0}" by simp
    moreover have "y \<notin> fst ` set q" using 2 by auto
    ultimately show ?thesis using True by (auto simp: split_beta Let_def)
  next
    case False
    have "\<not> sint (d + s) \<le> 0" if "dq_due q x = Some s" for x s
    proof -
      have "dq_span q < 2 ^ 31" using 2 False by simp
      from dq_due_sint [OF n this that] have s: "0 \<le> sint s" "sint s \<le> dq_span q" by auto
      then have "sint (d + s) = sint d + sint s"
        by (intro sint_plus_32) (use 2 False in auto)
      with s False show ?thesis by simp
    qed
    with False show ?thesis by auto
  qed
qed simp

lemma dq_fire_result:
  assumes "distinct (dq_keys q)" and "dq_mono q" and "dq_span q < 2 ^ 31"
  shows "dq_due (snd (dq_fire q)) x =
    (case dq_due q x of None \<Rightarrow> None | Some w \<Rightarrow> if sint w \<le> 0 then None else Some w)"
  using dq_fire_due [OF assms(1), of x] dq_fire_complete [OF assms]
  by (auto split: option.splits simp del: dq_due_None)

section \<open>The contract of an insertion\<close>

locale delta_insert =
  fixes ins :: "'i \<Rightarrow> u32 \<Rightarrow> 'i dq \<Rightarrow> 'i dq"
  assumes ins_keys: "fst ` set (ins x d q) = insert x (fst ` set q)"
    and ins_distinct: "distinct (dq_keys q) \<Longrightarrow> x \<notin> fst ` set q \<Longrightarrow> distinct (dq_keys (ins x d q))"
    and ins_due: "distinct (dq_keys q) \<Longrightarrow> x \<notin> fst ` set q \<Longrightarrow>
      dq_due (ins x d q) = (dq_due q)(x := Some d)"
    and ins_mono: "dq_mono q \<Longrightarrow> 0 \<le> sint d \<Longrightarrow> dq_room d q \<Longrightarrow> dq_mono (ins x d q)"
begin

text \<open>Cancelling a just inserted entry restores every due time.\<close>

lemma remove_ins_due:
  assumes "distinct (dq_keys q)" and "x \<notin> fst ` set q"
  shows "dq_due (dq_remove x (ins x d q)) = dq_due q"
proof -
  have "dq_due q x = None" using assms(2) by simp
  then show ?thesis
    using assms by (simp add: dq_due_remove ins_distinct ins_due fun_upd_idem)
qed

text \<open>Moving an entry: it gets the new time and no other entry is disturbed.\<close>

lemma reschedule_due:
  assumes "distinct (dq_keys q)"
  shows "dq_due (ins x d (dq_remove x q)) = (dq_due q)(x := Some d)"
proof -
  have "x \<notin> fst ` set (dq_remove x q)" using assms by (simp add: set_keys_dq_remove)
  from ins_due [OF distinct_dq_remove [OF assms] this, of d] show ?thesis
    using assms by (simp add: dq_due_remove)
qed

lemma reschedule_distinct:
  "distinct (dq_keys q) \<Longrightarrow> distinct (dq_keys (ins x d (dq_remove x q)))"
  by (intro ins_distinct distinct_dq_remove) (simp_all add: set_keys_dq_remove)

lemma reschedule_keys:
  "distinct (dq_keys q) \<Longrightarrow> fst ` set (ins x d (dq_remove x q)) = insert x (fst ` set q)"
  by (auto simp: ins_keys set_keys_dq_remove)

end

end
