(* ===== verification/Timeout.thy ===== *)
theory Timeout
  imports DeltaQueue
begin

text \<open>
  The kernel timeouts of \<^verbatim>\<open>kernel/timeout.c\<close>, in the gcc build, with the pool
  allocator of \<^verbatim>\<open>kernel/timeouts.s\<close> it calls and the clock interrupt of
  \<^verbatim>\<open>kernel/etvtimer.s\<close>.

  A \<^verbatim>\<open>TIMEOUT\<close> is one of 64 static structures or an element of the pool. The lists
  \<^verbatim>\<open>tlist\<close> and \<^verbatim>\<open>expire_list\<close> are lists of references with their \<^verbatim>\<open>when\<close>
  fields; \<open>t_used\<close> is the flag \<^verbatim>\<open>TIMEOUT_USED\<close> of a static structure and the byte
  \<^verbatim>\<open>inuse\<close> of a pool element. Interrupts are masked around every list operation, so an
  operation is one step.
\<close>

section \<open>State\<close>

datatype tref = Static nat | Pool nat

type_synonym fn = nat

abbreviation TIMEOUTS :: nat where "TIMEOUTS \<equiv> 64"
abbreviation TIMEOUT_EXPIRE_LIMIT :: u32 where "TIMEOUT_EXPIRE_LIMIT \<equiv> 400"

record timeouts =
  tlist :: "tref dq"
  expire_list :: "tref dq"
  t_func :: "tref \<Rightarrow> fn"
  t_arg :: "tref \<Rightarrow> u32"
  t_proc :: "tref \<Rightarrow> nat"
  t_used :: "tref \<Rightarrow> bool"
  timeout_list :: "nat list"
  hz200 :: u32

section \<open>Operations\<close>

text \<open>
  The pool allocator takes the first free element and executes an \<^verbatim>\<open>illegal\<close>
  instruction when there is none: the outer \<open>None\<close> is a machine that has stopped.
\<close>

definition timeout_alloc :: "timeouts \<Rightarrow> (tref \<times> timeouts) option" where
  "timeout_alloc s =
     (case find (\<lambda>i. \<not> t_used s (Pool i)) (timeout_list s) of
        None \<Rightarrow> None
      | Some i \<Rightarrow> Some (Pool i, s\<lparr>t_used := (t_used s)(Pool i := True)\<rparr>))"

definition newtimeout :: "bool \<Rightarrow> timeouts \<Rightarrow> (tref option \<times> timeouts) option" where
  "newtimeout fromlist s =
     (if \<not> fromlist then
        (case timeout_alloc s of
           None \<Rightarrow> None
         | Some (t, s') \<Rightarrow> Some (Some t, s'\<lparr>t_arg := (t_arg s')(t := 0)\<rparr>))
      else
        (case find (\<lambda>i. \<not> t_used s (Static i)) [0..<TIMEOUTS] of
           None \<Rightarrow> Some (None, s)
         | Some i \<Rightarrow> Some (Some (Static i),
             s\<lparr>t_used := (t_used s)(Static i := True), t_arg := (t_arg s)(Static i := 0)\<rparr>)))"

definition disposetimeout :: "tref \<Rightarrow> timeouts \<Rightarrow> timeouts" where
  "disposetimeout t s = s\<lparr>t_used := (t_used s)(t := False)\<rparr>"

text \<open>
  The list of expired timeouts is scanned for the first one that is too old; it and all
  that follow are thrown away.
\<close>

definition too_old :: "u32 \<Rightarrow> tref \<times> u32 \<Rightarrow> bool" where
  "too_old now e \<longleftrightarrow> sint (snd e) < sint now"

definition dispose_old_timeouts :: "timeouts \<Rightarrow> timeouts" where
  "dispose_old_timeouts s =
     (let keep = takeWhile (\<lambda>e. \<not> too_old (hz200 s) e) (expire_list s);
          old = dropWhile (\<lambda>e. \<not> too_old (hz200 s) e) (expire_list s)
      in fold disposetimeout (dq_keys old) (s\<lparr>expire_list := keep\<rparr>))"

fun when_insert :: "'i \<Rightarrow> u32 \<Rightarrow> 'i dq \<Rightarrow> 'i dq" where
  "when_insert t delta [] = [(t, delta)]"
| "when_insert t delta ((c, w) # q) =
     (if sint w \<ge> sint delta then (t, delta) # (c, w - delta) # q
      else (c, w) # when_insert t (delta - w) q)"

definition inserttimeout :: "tref \<Rightarrow> u32 \<Rightarrow> timeouts \<Rightarrow> timeouts" where
  "inserttimeout t delta s = s\<lparr>tlist := when_insert t delta (tlist s)\<rparr>"

text \<open>Unlinking from the expired list; there the \<^verbatim>\<open>when\<close> fields are absolute.\<close>

fun expire_unlink :: "'i \<Rightarrow> 'i dq \<Rightarrow> 'i dq" where
  "expire_unlink x [] = []"
| "expire_unlink x (e # q) = (if fst e = x then q else e # expire_unlink x q)"

definition addroottimeout :: "u32 \<Rightarrow> fn \<Rightarrow> u16 \<Rightarrow> timeouts \<Rightarrow> (tref option \<times> timeouts) option" where
  "addroottimeout delta func flags s =
     (case (case find (\<lambda>e. t_func s (fst e) = func) (expire_list s) of
              Some e \<Rightarrow> Some (Some (fst e), s\<lparr>expire_list := expire_unlink (fst e) (expire_list s)\<rparr>)
            | None \<Rightarrow> newtimeout (flags AND 1 \<noteq> 0) s) of
        None \<Rightarrow> None
      | Some (None, s') \<Rightarrow> Some (None, s')
      | Some (Some t, s') \<Rightarrow>
          Some (Some t, inserttimeout t delta (s'\<lparr>t_func := (t_func s')(t := func)\<rparr>)))"

text \<open>Cancelling all the timeouts of a process, first the pending ones, then the expired ones.\<close>

function cancel_pending :: "(tref \<Rightarrow> bool) \<Rightarrow> tref dq \<Rightarrow> tref dq" where
  "cancel_pending mine [] = []"
| "cancel_pending mine ((t, w) # q) =
     (if mine t then cancel_pending mine (dq_carry w q) else (t, w) # cancel_pending mine q)"
  by pat_completeness auto
termination
  by (relation "measure (\<lambda>(m, q). length q)") auto

definition cancelalltimeouts :: "nat \<Rightarrow> timeouts \<Rightarrow> timeouts" where
  "cancelalltimeouts curproc s =
     (let mine = (\<lambda>t. t_proc s t = curproc);
          gone = filter mine (dq_keys (tlist s)) @ filter mine (dq_keys (expire_list s))
      in fold disposetimeout gone
           (s\<lparr>tlist := cancel_pending mine (tlist s),
              expire_list := filter (\<lambda>e. \<not> mine (fst e)) (expire_list s)\<rparr>))"

definition cancelroottimeout :: "tref \<Rightarrow> timeouts \<Rightarrow> timeouts" where
  "cancelroottimeout this s =
     (if this \<in> set (dq_keys (expire_list s)) then
        disposetimeout this (s\<lparr>expire_list := expire_unlink this (expire_list s)\<rparr>)
      else if this \<in> set (dq_keys (tlist s)) then
        disposetimeout this (s\<lparr>tlist := dq_remove this (tlist s)\<rparr>)
      else s)"

text \<open>The clock interrupt counts the head of the list down by 20 milliseconds.\<close>

definition new_etv_timer :: "timeouts \<Rightarrow> timeouts" where
  "new_etv_timer s = s\<lparr>tlist := dq_carry (- 20) (tlist s)\<rparr>"

text \<open>
  One turn of the loop of \<^verbatim>\<open>checkalarms\<close> takes an expired timeout off the list and
  parks it on \<^verbatim>\<open>expire_list\<close>; the timeout function then runs with interrupts on. The
  function is an argument of the model (\<^verbatim>\<open>evnt(p, args)\<close>): it may use every operation
  of this theory, and it may not return.
\<close>

definition expire_head :: "timeouts \<Rightarrow> (tref \<times> timeouts) option" where
  "expire_head s =
     (case tlist s of
        [] \<Rightarrow> None
      | (t, delta) # q \<Rightarrow>
          if sint delta \<le> 0 then
            Some (t, s\<lparr>tlist := dq_carry delta q,
                       expire_list := (t, hz200 s + TIMEOUT_EXPIRE_LIMIT) # expire_list s\<rparr>)
          else None)"

partial_function (option) checkalarms_loop ::
  "(fn \<Rightarrow> nat \<Rightarrow> u32 \<Rightarrow> timeouts \<Rightarrow> timeouts option) \<Rightarrow> timeouts \<Rightarrow> timeouts option" where
  "checkalarms_loop evnt s =
     (case expire_head s of
        None \<Rightarrow> Some s
      | Some (t, s') \<Rightarrow>
          Option.bind (evnt (t_func s t) (t_proc s t) (t_arg s t) s') (checkalarms_loop evnt))"

definition checkalarms ::
  "(fn \<Rightarrow> nat \<Rightarrow> u32 \<Rightarrow> timeouts \<Rightarrow> timeouts option) \<Rightarrow> timeouts \<Rightarrow> timeouts option" where
  "checkalarms evnt s = map_option dispose_old_timeouts (checkalarms_loop evnt s)"

section \<open>The queue\<close>

lemma when_insert_keys: "fst ` set (when_insert t d q) = insert t (fst ` set q)"
  by (induction t d q rule: when_insert.induct) auto

lemma when_insert_nonneg:
  "dq_nonneg q \<Longrightarrow> 0 \<le> sint d \<Longrightarrow> dq_nonneg (when_insert t d q)"
proof (induction t d q rule: when_insert.induct)
  case (2 t d c w q)
  have "sint (w - d) = sint w - sint d" if "sint w \<ge> sint d"
    using that 2 sint32_bounds [of w] sint32_bounds [of d] by (intro sint_minus_32) auto
  moreover have "sint (d - w) = sint d - sint w" if "\<not> sint w \<ge> sint d"
    using that 2 sint32_bounds [of w] sint32_bounds [of d] by (intro sint_minus_32) auto
  ultimately show ?case using 2 by auto
qed simp

interpretation tq: delta_insert when_insert
proof
  fix x :: 'i and d q
  show "fst ` set (when_insert x d q) = insert x (fst ` set q)" by (rule when_insert_keys)
  show "distinct (dq_keys q) \<Longrightarrow> x \<notin> fst ` set q \<Longrightarrow> distinct (dq_keys (when_insert x d q))"
    by (induction x d q rule: when_insert.induct) (auto simp: when_insert_keys image_iff)
  show "distinct (dq_keys q) \<Longrightarrow> x \<notin> fst ` set q \<Longrightarrow>
      dq_due (when_insert x d q) = (dq_due q)(x := Some d)"
    by (induction x d q rule: when_insert.induct)
      (auto simp: fun_eq_iff option.map_comp comp_def)
  show "dq_mono q \<Longrightarrow> 0 \<le> sint d \<Longrightarrow> dq_room d q \<Longrightarrow> dq_mono (when_insert x d q)"
  proof (cases q)
    case (Cons a r)
    obtain c w where a: "a = (c, w)" by fastforce
    assume q: "dq_mono q" "0 \<le> sint d" "dq_room d q"
    have "sint (w - d) = sint w - sint d" if "sint w \<ge> sint d"
      using that q sint32_bounds [of w] sint32_bounds [of d] by (intro sint_minus_32) auto
    moreover have "sint (d - w) = sint d - sint w" if "\<not> sint w \<ge> sint d"
      using that q Cons a by (intro sint_minus_32) auto
    ultimately show ?thesis using q Cons a by (auto intro: when_insert_nonneg)
  qed simp
qed

section \<open>Ownership of the timeout structures\<close>

text \<open>
  The invariant: no structure is linked twice, and a structure is marked as used exactly
  while it is linked on one of the two lists. It excludes both a leaked structure and one
  that is handed out while it still is on a list.
\<close>

definition timeouts_inv :: "timeouts \<Rightarrow> bool" where
  "timeouts_inv s \<longleftrightarrow>
     distinct (dq_keys (tlist s) @ dq_keys (expire_list s)) \<and>
     (\<forall>t. t_used s t \<longleftrightarrow> t \<in> set (dq_keys (tlist s) @ dq_keys (expire_list s)))"

lemma fold_disposetimeout [simp]:
  "t_used (fold disposetimeout ts s) t \<longleftrightarrow> t_used s t \<and> t \<notin> set ts"
  "tlist (fold disposetimeout ts s) = tlist s"
  "expire_list (fold disposetimeout ts s) = expire_list s"
  "t_func (fold disposetimeout ts s) = t_func s"
  by (induction ts arbitrary: s) (auto simp: disposetimeout_def)

lemma disposetimeout_simps [simp]:
  "t_used (disposetimeout t s) = (t_used s)(t := False)"
  "tlist (disposetimeout t s) = tlist s"
  "expire_list (disposetimeout t s) = expire_list s"
  "t_func (disposetimeout t s) = t_func s"
  by (auto simp: disposetimeout_def)

lemma expire_unlink_keys:
  "distinct (dq_keys q) \<Longrightarrow> dq_keys (expire_unlink x q) = filter (\<lambda>y. y \<noteq> x) (dq_keys q)"
  by (induction x q rule: expire_unlink.induct) (auto intro!: filter_True [symmetric])

lemma expire_unlink_set:
  "distinct (dq_keys q) \<Longrightarrow> fst ` set (expire_unlink x q) = fst ` set q - {x}"
  by (induction x q rule: expire_unlink.induct) (auto simp: image_iff)

lemma expire_unlink_distinct:
  "distinct (dq_keys q) \<Longrightarrow> distinct (dq_keys (expire_unlink x q))"
  by (simp add: expire_unlink_keys)

lemma cancel_pending_keys: "dq_keys (cancel_pending m q) = filter (\<lambda>t. \<not> m t) (dq_keys q)"
  by (induction m q rule: cancel_pending.induct) auto

lemma cancel_pending_due:
  "distinct (dq_keys q) \<Longrightarrow>
   dq_due (cancel_pending m q) t = (if m t then None else dq_due q t)"
  by (induction m q rule: cancel_pending.induct) (auto simp del: dq_due_None)

lemma newtimeout_fresh:
  assumes "newtimeout b s = Some (Some t, s')"
  shows "\<not> t_used s t" "t_used s' = (t_used s)(t := True)" "tlist s' = tlist s"
    "expire_list s' = expire_list s" "t_func s' = t_func s"
  using assms
  by (auto simp: newtimeout_def timeout_alloc_def find_Some_iff split: if_splits option.splits)

lemma newtimeout_none: "newtimeout b s = Some (None, s') \<Longrightarrow> s' = s"
  by (auto simp: newtimeout_def timeout_alloc_def split: if_splits option.splits)

text \<open>What \<^verbatim>\<open>addroottimeout\<close> does to the lists, in both of its ways to get a structure.\<close>

lemma addroottimeout_cases:
  assumes "addroottimeout d f fl s = Some (Some t, s')"
  obtains (reuse) "t \<in> fst ` set (expire_list s)" "t_func s t = f"
      "expire_list s' = expire_unlink t (expire_list s)" "t_used s' = t_used s"
      "tlist s' = when_insert t d (tlist s)" "t_func s' = (t_func s)(t := f)"
    | (fresh) "\<not> t_used s t" "expire_list s' = expire_list s" "t_used s' = (t_used s)(t := True)"
      "tlist s' = when_insert t d (tlist s)" "t_func s' = (t_func s)(t := f)"
proof (cases "find (\<lambda>e. t_func s (fst e) = f) (expire_list s)")
  case None
  with assms obtain s1 where "newtimeout (fl AND 1 \<noteq> 0) s = Some (Some t, s1)"
    and "s' = inserttimeout t d (s1\<lparr>t_func := (t_func s1)(t := f)\<rparr>)"
    by (auto simp: addroottimeout_def split: option.splits)
  with newtimeout_fresh [OF this(1)] show ?thesis
    by (intro fresh) (auto simp: inserttimeout_def)
next
  case (Some e)
  with assms have "t = fst e" "s' = inserttimeout t d
      (s\<lparr>expire_list := expire_unlink t (expire_list s), t_func := (t_func s)(t := f)\<rparr>)"
    by (auto simp: addroottimeout_def)
  with Some show ?thesis
    by (intro reuse) (auto simp: inserttimeout_def find_Some_iff intro!: nth_mem)
qed

lemma timeouts_inv_D:
  assumes "timeouts_inv s"
  shows "distinct (dq_keys (tlist s))" "distinct (dq_keys (expire_list s))"
    "fst ` set (tlist s) \<inter> fst ` set (expire_list s) = {}"
    "t_used s t \<longleftrightarrow> t \<in> fst ` set (tlist s) \<or> t \<in> fst ` set (expire_list s)"
  using assms by (auto simp: timeouts_inv_def)

lemma timeouts_invI:
  assumes "distinct (dq_keys (tlist s))" "distinct (dq_keys (expire_list s))"
    "fst ` set (tlist s) \<inter> fst ` set (expire_list s) = {}"
    "\<And>t. t_used s t \<longleftrightarrow> t \<in> fst ` set (tlist s) \<or> t \<in> fst ` set (expire_list s)"
  shows "timeouts_inv s"
  using assms by (auto simp: timeouts_inv_def)

lemma addroottimeout_inv:
  assumes inv: "timeouts_inv s" and a: "addroottimeout d f fl s = Some (r, s')"
  shows "timeouts_inv s'"
proof (cases r)
  case None
  with a have "s' = s"
    by (auto simp: addroottimeout_def split: option.splits prod.splits dest: newtimeout_none)
  with inv show ?thesis by simp
next
  case (Some t)
  note D = timeouts_inv_D [OF inv]
  from a [unfolded Some] show ?thesis
  proof (cases rule: addroottimeout_cases)
    case reuse
    with D have "t \<notin> fst ` set (tlist s)" by auto
    with reuse D show ?thesis
      by (intro timeouts_invI)
        (auto simp: tq.ins_distinct when_insert_keys expire_unlink_set expire_unlink_distinct)
  next
    case fresh
    with D have "t \<notin> fst ` set (tlist s)" "t \<notin> fst ` set (expire_list s)" by auto
    with fresh D show ?thesis
      by (intro timeouts_invI) (auto simp: tq.ins_distinct when_insert_keys)
  qed
qed

lemma cancelroottimeout_inv: "timeouts_inv s \<Longrightarrow> timeouts_inv (cancelroottimeout t s)"
  by (rule timeouts_invI; frule timeouts_inv_D(1); frule timeouts_inv_D(2);
      frule timeouts_inv_D(3); frule timeouts_inv_D(4))
    (auto simp: cancelroottimeout_def expire_unlink_set expire_unlink_distinct
        set_keys_dq_remove timeouts_inv_D(4))


lemma cancelalltimeouts_inv:
  assumes "timeouts_inv s"
  shows "timeouts_inv (cancelalltimeouts p s)"
proof -
  note D = timeouts_inv_D [OF assms]
  have k: "fst ` set (cancel_pending m (tlist s)) = fst ` set (tlist s) - {t. m t}" for m
    using arg_cong [OF cancel_pending_keys, of set m "tlist s"] by (simp only: set_map set_filter) blast
  have d: "distinct (dq_keys (filter P (expire_list s)))" for P
    using D(2) by (rule distinct_map_filter)
  show ?thesis
    using D by (intro timeouts_invI) (auto simp: cancelalltimeouts_def Let_def k d cancel_pending_keys)
qed

lemma dispose_old_timeouts_inv:
  assumes "timeouts_inv s"
  shows "timeouts_inv (dispose_old_timeouts s)"
proof -
  note D = timeouts_inv_D [OF assms]
  define P where "P = (\<lambda>e. \<not> too_old (hz200 s) e)"
  have e: "expire_list s = takeWhile P (expire_list s) @ dropWhile P (expire_list s)" by simp
  have k: "fst ` set (expire_list s) =
      fst ` set (takeWhile P (expire_list s)) \<union> fst ` set (dropWhile P (expire_list s))"
    by (subst e) (simp only: set_append image_Un)
  have d: "distinct (dq_keys (takeWhile P (expire_list s)) @ dq_keys (dropWhile P (expire_list s)))"
    using D(2) by (simp flip: map_append)
  show ?thesis
    using D(1,3,4) k d unfolding dispose_old_timeouts_def P_def [symmetric] Let_def
    by (intro timeouts_invI) auto
qed

lemma new_etv_timer_inv: "timeouts_inv s \<Longrightarrow> timeouts_inv (new_etv_timer s)"
  by (simp add: timeouts_inv_def new_etv_timer_def)

lemma expire_head_inv:
  assumes inv: "timeouts_inv s" and h: "expire_head s = Some (t, s')"
  shows "timeouts_inv s'"
proof -
  from h obtain d q where "tlist s = (t, d) # q" and "s' = s\<lparr>tlist := dq_carry d q,
      expire_list := (t, hz200 s + TIMEOUT_EXPIRE_LIMIT) # expire_list s\<rparr>"
    by (auto simp: expire_head_def split: list.splits if_splits)
  with inv show ?thesis by (simp add: timeouts_inv_def)
qed

section \<open>The component as a state machine\<close>

text \<open>
  A step is one operation by any client, the clock interrupt, a change of the 200 Hz
  counter, a client's store to the \<^verbatim>\<open>arg\<close> field of its timeout, or one turn of the loop
  of \<^verbatim>\<open>checkalarms\<close>.
\<close>

inductive timeout_step :: "timeouts \<Rightarrow> timeouts \<Rightarrow> bool" where
  add: "addroottimeout d f fl s = Some (r, s') \<Longrightarrow> timeout_step s s'"
| cancel: "timeout_step s (cancelroottimeout t s)"
| cancelall: "timeout_step s (cancelalltimeouts p s)"
| dispose: "timeout_step s (dispose_old_timeouts s)"
| clock: "timeout_step s (new_etv_timer s)"
| hz: "timeout_step s (s\<lparr>hz200 := h\<rparr>)"
| arg: "timeout_step s (s\<lparr>t_arg := a\<rparr>)"
| expire: "expire_head s = Some (t, s') \<Longrightarrow> timeout_step s s'"

definition timeouts_init :: "nat list \<Rightarrow> timeouts" where
  "timeouts_init pool = \<lparr>tlist = [], expire_list = [], t_func = (\<lambda>_. 0), t_arg = (\<lambda>_. 0),
     t_proc = (\<lambda>_. 0), t_used = (\<lambda>_. False), timeout_list = pool, hz200 = 0\<rparr>"

lemma timeout_step_inv: "timeout_step s s' \<Longrightarrow> timeouts_inv s \<Longrightarrow> timeouts_inv s'"
proof (induction rule: timeout_step.induct)
  case (hz s h)
  then show ?case by (simp add: timeouts_inv_def)
next
  case (arg s a)
  then show ?case by (simp add: timeouts_inv_def)
qed (auto intro: addroottimeout_inv cancelroottimeout_inv cancelalltimeouts_inv
    dispose_old_timeouts_inv new_etv_timer_inv expire_head_inv)

lemma timeout_steps_inv: "timeout_step\<^sup>*\<^sup>* s s' \<Longrightarrow> timeouts_inv s \<Longrightarrow> timeouts_inv s'"
  by (induction rule: rtranclp_induct) (auto intro: timeout_step_inv)

lemma timeouts_init_inv: "timeouts_inv (timeouts_init pool)"
  by (simp add: timeouts_inv_def timeouts_init_def)

lemma checkalarms_loop_steps:
  assumes ev: "\<And>f p a s s'. evnt f p a s = Some s' \<Longrightarrow> timeout_step\<^sup>*\<^sup>* s s'"
    and "checkalarms_loop evnt s = Some s'"
  shows "timeout_step\<^sup>*\<^sup>* s s'"
proof -
  have "(\<forall>f p a s s'. evnt f p a s = Some s' \<longrightarrow> timeout_step\<^sup>*\<^sup>* s s') \<longrightarrow> timeout_step\<^sup>*\<^sup>* s s'"
  proof (rule checkalarms_loop.raw_induct [where
        P = "\<lambda>evnt s s'. (\<forall>f p a s s'. evnt f p a s = Some s' \<longrightarrow> timeout_step\<^sup>*\<^sup>* s s') \<longrightarrow>
               timeout_step\<^sup>*\<^sup>* s s'", OF _ assms(2)], intro impI)
    fix loop evnt s r
    assume IH: "\<And>evnt s s'. loop evnt s = Some s' \<Longrightarrow>
        (\<forall>f p a s s'. evnt f p a s = Some s' \<longrightarrow> timeout_step\<^sup>*\<^sup>* s s') \<longrightarrow> timeout_step\<^sup>*\<^sup>* s s'"
      and eq: "(case expire_head s of None \<Rightarrow> Some s
        | Some (t, s') \<Rightarrow> Option.bind (evnt (t_func s t) (t_proc s t) (t_arg s t) s') (loop evnt)) = Some r"
      and ev: "\<forall>f p a s s'. evnt f p a s = Some s' \<longrightarrow> timeout_step\<^sup>*\<^sup>* s s'"
    show "timeout_step\<^sup>*\<^sup>* s r"
    proof (cases "expire_head s")
      case (Some ts)
      obtain t s1 where ts: "ts = (t, s1)" by fastforce
      with eq Some obtain s2 where s2: "evnt (t_func s t) (t_proc s t) (t_arg s t) s1 = Some s2"
        "loop evnt s2 = Some r" by (auto simp: Option.bind_eq_Some_conv)
      have "timeout_step s s1" using Some ts by (auto intro: timeout_step.expire)
      moreover have "timeout_step\<^sup>*\<^sup>* s1 s2" using ev s2 by blast
      moreover have "timeout_step\<^sup>*\<^sup>* s2 r" using IH [OF s2(2)] ev by blast
      ultimately show ?thesis by (meson converse_rtranclp_into_rtranclp rtranclp_trans)
    qed (use eq in simp)
  qed
  then show ?thesis using ev by blast
qed

text \<open>With a timeout function that leaves the lists alone, the loop is \<open>dq_fire\<close>.\<close>

lemma checkalarms_loop_fire:
  assumes ev: "\<And>f p a s. \<exists>s'. evnt f p a s = Some s' \<and> tlist s' = tlist s \<and>
      expire_list s' = expire_list s \<and> hz200 s' = hz200 s"
  shows "\<exists>s'. checkalarms_loop evnt s = Some s' \<and> tlist s' = snd (dq_fire (tlist s)) \<and>
    expire_list s' = map (\<lambda>t. (t, hz200 s + TIMEOUT_EXPIRE_LIMIT)) (rev (fst (dq_fire (tlist s))))
      @ expire_list s \<and> hz200 s' = hz200 s"
proof (induction "tlist s" arbitrary: s rule: dq_fire.induct)
  case 1
  then show ?case by (simp add: checkalarms_loop.simps expire_head_def flip: 1)
next
  case (2 t d q)
  show ?case
  proof (cases "sint d \<le> 0")
    case True
    let ?s1 = "s\<lparr>tlist := dq_carry d q, expire_list := (t, hz200 s + 400) # expire_list s\<rparr>"
    have h: "expire_head s = Some (t, ?s1)" using True by (simp add: expire_head_def flip: 2(2))
    obtain s2 where s2: "evnt (t_func s t) (t_proc s t) (t_arg s t) ?s1 = Some s2"
      "tlist s2 = dq_carry d q" "expire_list s2 = (t, hz200 s + 400) # expire_list s" "hz200 s2 = hz200 s"
      using ev [of "t_func s t" "t_proc s t" "t_arg s t" ?s1] by auto
    from 2(1) [OF True s2(2) [symmetric]] s2 show ?thesis
      using True h by (auto simp: checkalarms_loop.simps [of evnt s] split_beta Let_def simp flip: 2(2))
  next
    case False
    then show ?thesis by (simp add: checkalarms_loop.simps expire_head_def flip: 2(2))
  qed
qed

lemma addroottimeout_due:
  assumes "timeouts_inv s" and "addroottimeout delta f flags s = Some (Some t, s')"
  shows "dq_due (tlist s') = (dq_due (tlist s))(t := Some delta) \<and> dq_due (tlist s) t = None \<and>
    t_func s' t = f \<and> t_used s' t"
  using assms(2)
proof (cases rule: addroottimeout_cases)
  case reuse
  with timeouts_inv_D [OF assms(1)] have "t \<notin> fst ` set (tlist s)" "t_used s t" by auto
  with reuse timeouts_inv_D(1) [OF assms(1)] show ?thesis by (simp add: tq.ins_due)
next
  case fresh
  with timeouts_inv_D [OF assms(1)] have "t \<notin> fst ` set (tlist s)" by auto
  with fresh timeouts_inv_D(1) [OF assms(1)] show ?thesis by (simp add: tq.ins_due)
qed

lemma newtimeout_hz: "newtimeout b s = Some (r, s') \<Longrightarrow> hz200 s' = hz200 s"
  by (auto simp: newtimeout_def timeout_alloc_def split: if_splits option.splits)

lemma addroottimeout_hz: "addroottimeout d f fl s = Some (r, s') \<Longrightarrow> hz200 s' = hz200 s"
  using newtimeout_hz [of "fl AND 1 \<noteq> 0" s]
  by (auto simp: addroottimeout_def inserttimeout_def split: option.splits)

lemma cancelroottimeout_hz [simp]: "hz200 (cancelroottimeout t s) = hz200 s"
  by (simp add: cancelroottimeout_def disposetimeout_def)

section \<open>Properties\<close>





text \<open>
  C12: after \<^verbatim>\<open>cancelroottimeout(t)\<close> the timeout is neither pending nor expired and its
  structure is free; the due times of all the others are unchanged, and a timeout that is
  on neither list is left alone.
\<close>

theorem cancelroottimeout_cancels:
  assumes "timeouts_inv s"
  shows "dq_due (tlist (cancelroottimeout t s)) = (dq_due (tlist s))(t := None) \<and>
    t \<notin> set (dq_keys (expire_list (cancelroottimeout t s))) \<and>
    \<not> t_used (cancelroottimeout t s) t \<and>
    (\<not> t_used s t \<longrightarrow> cancelroottimeout t s = s)"
proof -
  note D = timeouts_inv_D [OF assms]
  have "dq_due (tlist s) t = None" if "t \<notin> fst ` set (tlist s)" using that by simp
  then have n: "(dq_due (tlist s))(t := None) = dq_due (tlist s)" if "t \<notin> fst ` set (tlist s)"
    using that by (simp add: fun_upd_idem)
  consider (e) "t \<in> fst ` set (expire_list s)" "t \<notin> fst ` set (tlist s)"
    | (p) "t \<in> fst ` set (tlist s)" "t \<notin> fst ` set (expire_list s)"
    | (none) "t \<notin> fst ` set (tlist s)" "t \<notin> fst ` set (expire_list s)"
    using D(3) by blast
  then show ?thesis
  proof cases
    case e
    then show ?thesis using n D by (simp add: cancelroottimeout_def expire_unlink_set)
  next
    case p
    then show ?thesis using D by (simp add: cancelroottimeout_def dq_due_remove)
  next
    case none
    then show ?thesis using n D by (simp add: cancelroottimeout_def)
  qed
qed

theorem cancelroottimeout_cancels_witness:
  "\<not> t_used (cancelroottimeout (Static 0) (timeouts_init [])) (Static 0)"
  using cancelroottimeout_cancels [OF timeouts_init_inv, where t = "Static 0"] by blast



text \<open>
  \<^verbatim>\<open>cancelalltimeouts\<close> removes the timeouts of the calling process and no other,
  and the due times of the rest are unchanged.
\<close>

lemma cancelalltimeouts_cancels:
  assumes "timeouts_inv s"
  shows "dq_due (tlist (cancelalltimeouts p s)) t =
      (if t_proc s t = p then None else dq_due (tlist s) t) \<and>
    (t_used (cancelalltimeouts p s) t \<longleftrightarrow> t_used s t \<and> t_proc s t \<noteq> p)"
  using timeouts_inv_D [OF assms]
  by (auto simp: cancelalltimeouts_def Let_def cancel_pending_due simp del: dq_due_None)

text \<open>
  \<^verbatim>\<open>addroottimeout\<close> stops the machine in exactly one case: the call is not from
  an interrupt, no expired timeout of the same function can be reused, and every pool
  element is in use. With bit 0 of \<^verbatim>\<open>flags\<close> set it always returns, as its comment
  promises to interrupt handlers.
\<close>

lemma addroottimeout_stops:
  "addroottimeout delta f flags s = None \<longleftrightarrow>
     flags AND 1 = 0 \<and> (\<forall>t \<in> set (dq_keys (expire_list s)). t_func s t \<noteq> f) \<and>
     (\<forall>i \<in> set (timeout_list s). t_used s (Pool i))"
proof -
  have "newtimeout (flags AND 1 \<noteq> 0) s = None \<longleftrightarrow>
      flags AND 1 = 0 \<and> (\<forall>i \<in> set (timeout_list s). t_used s (Pool i))"
    by (auto simp: newtimeout_def timeout_alloc_def find_None_iff split: option.splits
        dest: find_SomeD)
  then show ?thesis
    by (auto simp: addroottimeout_def find_None_iff split: option.splits dest!: find_SomeD)
qed

end
