(* ===== verification/Timer.thy ===== *)
theory Timer
  imports Timeout
begin

text \<open>
  The event timer of \<^verbatim>\<open>kernel/timer.c\<close>: events with an argument, kept in a second delta
  queue in units of 10 ms, which rests on one timeout of \<^verbatim>\<open>kernel/timeout.c\<close> armed for
  its head. An event structure belongs to its client; its \<^verbatim>\<open>func\<close> field is null while it
  is not queued. The functions of the events are an argument of the model and may not
  return; \<open>None\<close> is also the call of a null function pointer and a machine stopped by
  \<^verbatim>\<open>timeout_alloc\<close>. \<^verbatim>\<open>FATAL\<close> expands to nothing.
\<close>

section \<open>State\<close>

type_synonym eid = nat

record timer =
  allevents :: "eid dq"
  ev_func :: "eid \<Rightarrow> fn option"
  ev_arg :: "eid \<Rightarrow> u32"
  tm_last :: u32
  tm_init :: bool
  nexttimeout :: "tref option"
  touts :: timeouts

type_synonym handler = "fn \<Rightarrow> u32 \<Rightarrow> timer \<Rightarrow> timer option"

abbreviation EVTGRAN :: u32 where "EVTGRAN \<equiv> 10"

abbreviation CHECK_EVENTS :: fn where "CHECK_EVENTS \<equiv> 1"

section \<open>Operations\<close>

text \<open>\<^verbatim>\<open>DIFTIME(o, n)\<close> is \<^verbatim>\<open>((n) - (o)) >> 1\<close> on signed longs.\<close>

definition DIFTIME :: "u32 \<Rightarrow> u32 \<Rightarrow> u32" where
  "DIFTIME o' n = signed_drop_bit 1 (n - o')"

definition update_head :: "timer \<Rightarrow> timer" where
  "update_head s =
     (let curr = hz200 (touts s) in
      if tm_init s \<or> allevents s = [] \<or> sint (curr - tm_last s) < 0 then
        s\<lparr>tm_last := curr, tm_init := False\<rparr>
      else
        (let diff = DIFTIME (tm_last s) curr in
         s\<lparr>allevents := dq_carry (- diff) (allevents s), tm_last := tm_last s + diff * 2\<rparr>))"

text \<open>Arming the timeout that runs \<^verbatim>\<open>check_events\<close>.\<close>

definition arm :: "u32 \<Rightarrow> timer \<Rightarrow> timer option" where
  "arm delta s =
     map_option (\<lambda>(t, to). s\<lparr>nexttimeout := t, touts := to\<rparr>)
       (addroottimeout (delta * EVTGRAN) CHECK_EVENTS 0 (touts s))"

partial_function (option) check_loop :: "handler \<Rightarrow> timer \<Rightarrow> timer option" where
  "check_loop call s =
     (case allevents s of
        [] \<Rightarrow> Some s
      | (ep, delta) # q \<Rightarrow>
          if sint delta \<le> 0 then
            (case ev_func s ep of
               None \<Rightarrow> None
             | Some func \<Rightarrow>
                 Option.bind
                   (call func (ev_arg s ep)
                      (s\<lparr>allevents := dq_carry delta q, ev_func := (ev_func s)(ep := None)\<rparr>))
                   (\<lambda>s'. check_loop call (update_head s')))
          else Some s)"

definition check_events :: "handler \<Rightarrow> timer \<Rightarrow> timer option" where
  "check_events call s =
     Option.bind (check_loop call (update_head s))
       (\<lambda>s'. case allevents s' of
          (ep, delta) # _ \<Rightarrow> arm delta s'
        | [] \<Rightarrow> Some (s'\<lparr>nexttimeout := None\<rparr>))"

fun event_link :: "'i \<Rightarrow> u32 \<Rightarrow> 'i dq \<Rightarrow> 'i dq" where
  "event_link ep delta [] = [(ep, delta)]"
| "event_link ep delta ((c, d) # q) =
     (if sint d \<le> sint delta then (c, d) # event_link ep (delta - d) q
      else (ep, delta) # (c, d - delta) # q)"

definition event_insert :: "handler \<Rightarrow> eid \<Rightarrow> u32 \<Rightarrow> timer \<Rightarrow> timer option" where
  "event_insert call ep delta s =
     (if sint delta \<le> 0 then
        (case ev_func s ep of
           None \<Rightarrow> None
         | Some func \<Rightarrow> call func (ev_arg s ep) (s\<lparr>ev_func := (ev_func s)(ep := None)\<rparr>))
      else
        (let s1 = update_head s;
             s2 = s1\<lparr>allevents := event_link ep delta (allevents s1)\<rparr>
         in if fst (hd (allevents s2)) = ep then
              arm delta
                (case nexttimeout s2 of
                   None \<Rightarrow> s2
                 | Some t \<Rightarrow> s2\<lparr>touts := cancelroottimeout t (touts s2)\<rparr>)
            else Some s2))"

definition event_remove :: "eid \<Rightarrow> timer \<Rightarrow> bool \<times> timer" where
  "event_remove ep s =
     (ep \<in> set (dq_keys (allevents s)), s\<lparr>allevents := dq_remove ep (allevents s)\<rparr>)"

definition event_add :: "handler \<Rightarrow> eid \<Rightarrow> u32 \<Rightarrow> fn \<Rightarrow> u32 \<Rightarrow> timer \<Rightarrow> timer option" where
  "event_add call ep delta func arg s =
     (let s1 = (if ev_func s ep \<noteq> None then snd (event_remove ep s) else s);
          s2 = s1\<lparr>ev_func := (ev_func s1)(ep := Some func), ev_arg := (ev_arg s1)(ep := arg)\<rparr>
      in event_insert call ep delta s2)"

definition event_del :: "eid \<Rightarrow> timer \<Rightarrow> timer" where
  "event_del ep s =
     (if ev_func s ep \<noteq> None then
        (snd (event_remove ep s))\<lparr>ev_func := (ev_func s)(ep := None)\<rparr>
      else s)"

text \<open>The search that adds up the fields until it meets the event.\<close>

fun event_ticks :: "'i \<Rightarrow> u32 \<Rightarrow> 'i dq \<Rightarrow> u32 option" where
  "event_ticks ep ticks [] = None"
| "event_ticks ep ticks ((c, d) # q) =
     (if c = ep then Some (ticks + d) else event_ticks ep (ticks + d) q)"

definition event_delta :: "eid \<Rightarrow> timer \<Rightarrow> u32 \<times> timer" where
  "event_delta ep s =
     (let s1 = update_head s
      in (case event_ticks ep 0 (allevents s1) of Some t \<Rightarrow> t | None \<Rightarrow> 0, s1))"

text \<open>
  The fast case of \<^verbatim>\<open>event_reset\<close>: the event is unlinked and the search for its new
  place starts where it stood, with the time that is left from there.
\<close>

fun event_field :: "'i \<Rightarrow> 'i dq \<Rightarrow> u32" where
  "event_field ep [] = 0"
| "event_field ep ((c, d) # q) = (if c = ep then d else event_field ep q)"

fun relink_from :: "'i \<Rightarrow> u32 \<Rightarrow> 'i dq \<Rightarrow> 'i dq" where
  "relink_from ep delta [] = []"
| "relink_from ep delta ((c, d) # q) =
     (if c = ep then event_link ep delta (dq_carry d q) else (c, d) # relink_from ep delta q)"

definition event_reset :: "handler \<Rightarrow> eid \<Rightarrow> u32 \<Rightarrow> timer \<Rightarrow> timer option" where
  "event_reset call ep delta s =
     (let s1 = update_head s in
      case event_ticks ep 0 (allevents s1) of
        None \<Rightarrow> Some s1
      | Some ticks \<Rightarrow>
          if delta = ticks then Some s1
          else if sint delta > sint ticks then
            Some (s1\<lparr>allevents :=
              relink_from ep (delta - (ticks - event_field ep (allevents s1))) (allevents s1)\<rparr>)
          else event_insert call ep delta (s1\<lparr>allevents := dq_remove ep (allevents s1)\<rparr>))"

section \<open>The queue\<close>

lemma event_link_keys: "fst ` set (event_link t d q) = insert t (fst ` set q)"
  by (induction t d q rule: event_link.induct) auto

lemma event_link_nonneg:
  "dq_nonneg q \<Longrightarrow> 0 \<le> sint d \<Longrightarrow> dq_nonneg (event_link t d q)"
proof (induction t d q rule: event_link.induct)
  case (2 t d c w q)
  have "sint (w - d) = sint w - sint d" if "\<not> sint w \<le> sint d"
    using that 2 sint32_bounds [of w] sint32_bounds [of d] by (intro sint_minus_32) auto
  moreover have "sint (d - w) = sint d - sint w" if "sint w \<le> sint d"
    using that 2 sint32_bounds [of w] sint32_bounds [of d] by (intro sint_minus_32) auto
  ultimately show ?case using 2 by auto
qed simp

interpretation eq: delta_insert event_link
proof
  fix x :: 'i and d q
  show "fst ` set (event_link x d q) = insert x (fst ` set q)" by (rule event_link_keys)
  show "distinct (dq_keys q) \<Longrightarrow> x \<notin> fst ` set q \<Longrightarrow> distinct (dq_keys (event_link x d q))"
    by (induction x d q rule: event_link.induct) (auto simp: event_link_keys image_iff)
  show "distinct (dq_keys q) \<Longrightarrow> x \<notin> fst ` set q \<Longrightarrow>
      dq_due (event_link x d q) = (dq_due q)(x := Some d)"
    by (induction x d q rule: event_link.induct)
      (auto simp: fun_eq_iff option.map_comp comp_def)
  show "dq_mono q \<Longrightarrow> 0 \<le> sint d \<Longrightarrow> dq_room d q \<Longrightarrow> dq_mono (event_link x d q)"
  proof (cases q)
    case (Cons a r)
    obtain c w where a: "a = (c, w)" by fastforce
    assume q: "dq_mono q" "0 \<le> sint d" "dq_room d q"
    have "sint (w - d) = sint w - sint d" if "\<not> sint w \<le> sint d"
      using that q sint32_bounds [of w] sint32_bounds [of d] by (intro sint_minus_32) auto
    moreover have "sint (d - w) = sint d - sint w" if "sint w \<le> sint d"
      using that q Cons a by (intro sint_minus_32) auto
    ultimately show ?thesis using q Cons a by (auto intro: event_link_nonneg)
  qed simp
qed

lemma event_ticks_due: "event_ticks ep t q = map_option (\<lambda>s. t + s) (dq_due q ep)"
  by (induction ep t q rule: event_ticks.induct)
    (auto simp: option.map_comp comp_def algebra_simps intro: option.map_cong)

lemma event_ticks_0: "event_ticks ep 0 q = dq_due q ep"
  by (simp add: event_ticks_due option.map_ident)


lemma relink_from_keys:
  "distinct (dq_keys q) \<Longrightarrow> ep \<in> fst ` set q \<Longrightarrow>
   fst ` set (relink_from ep D q) = fst ` set q \<and> distinct (dq_keys (relink_from ep D q))"
proof (induction ep D q rule: relink_from.induct)
  case (2 ep D c d q)
  show ?case
  proof (cases "c = ep")
    case True
    with 2 have "ep \<notin> fst ` set (dq_carry d q)" "distinct (dq_keys (dq_carry d q))" by auto
    with True show ?thesis by (simp add: eq.ins_distinct event_link_keys)
  next
    case False
    with 2 have ih: "fst ` set (relink_from ep D q) = fst ` set q"
      "distinct (dq_keys (relink_from ep D q))" by auto
    have "c \<notin> fst ` set q" using 2 by auto
    with False ih show ?thesis by simp
  qed
qed simp

lemma relink_from_due:
  "distinct (dq_keys q) \<Longrightarrow> dq_due q ep = Some t \<Longrightarrow>
   dq_due (relink_from ep D q) = (dq_due q)(ep := Some (D + (t - event_field ep q)))"
proof (induction ep D q arbitrary: t rule: relink_from.induct)
  case (2 ep D c d q)
  show ?case
  proof (cases "c = ep")
    case True
    with 2 have "ep \<notin> fst ` set (dq_carry d q)" "distinct (dq_keys (dq_carry d q))" by auto
    then have "dq_due (event_link ep D (dq_carry d q)) = (dq_due (dq_carry d q))(ep := Some D)"
      by (intro eq.ins_due)
    with True 2 show ?thesis by (auto simp: fun_eq_iff)
  next
    case False
    with 2 obtain t' where t': "dq_due q ep = Some t'" "t = d + t'" by auto
    with 2 False have "dq_due (relink_from ep D q) =
        (dq_due q)(ep := Some (D + (t' - event_field ep q)))" by auto
    with False t' show ?thesis by (auto simp: fun_eq_iff algebra_simps)
  qed
qed simp

text \<open>The fast case finds the same place as a removal and an insertion from the head.\<close>

lemma relink_from_eq_insert:
  "dq_nonneg q \<Longrightarrow> dq_span q < 2 ^ 31 \<Longrightarrow> dq_due q ep = Some t \<Longrightarrow> sint t \<le> sint delta \<Longrightarrow>
   relink_from ep (delta - (t - event_field ep q)) q = event_link ep delta (dq_remove ep q)"
proof (induction q arbitrary: t delta)
  case (Cons a q)
  obtain c d where a: "a = (c, d)" by fastforce
  show ?case
  proof (cases "c = ep")
    case False
    with Cons.prems a obtain t' where t': "dq_due q ep = Some t'" "t = d + t'" by auto
    have n: "dq_nonneg q" "0 \<le> sint d" "dq_span q < 2 ^ 31"
      using Cons.prems a dq_span_nonneg [of q] by auto
    from dq_due_sint [OF n(1,3) t'(1)] have b: "0 \<le> sint t'" "sint t' \<le> dq_span q" by auto
    have t: "sint t = sint d + sint t'"
      unfolding t'(2) by (intro sint_plus_32) (use b n Cons.prems a in auto)
    have dl: "sint (delta - d) = sint delta - sint d"
      by (intro sint_minus_32) (use b n t Cons.prems sint32_bounds [of delta] in auto)
    have "relink_from ep ((delta - d) - (t' - event_field ep q)) q =
        event_link ep (delta - d) (dq_remove ep q)"
      by (rule Cons.IH [OF n(1,3) t'(1)]) (use dl t Cons.prems in linarith)
    moreover have "delta - d - (t' - event_field ep q) = delta - (t - event_field ep q)"
      using t'(2) by (simp add: algebra_simps)
    ultimately show ?thesis using False a t b Cons.prems t' by auto
  qed (use Cons.prems a in auto)
qed simp

section \<open>The clock\<close>

lemma update_head_keys [simp]: "dq_keys (allevents (update_head s)) = dq_keys (allevents s)"
  by (simp add: update_head_def Let_def)

lemma update_head_set [simp]: "fst ` set (allevents (update_head s)) = fst ` set (allevents s)"
  by (simp add: update_head_def Let_def)

lemma update_head_frame [simp]:
  "ev_func (update_head s) = ev_func s" "ev_arg (update_head s) = ev_arg s"
  "nexttimeout (update_head s) = nexttimeout s" "touts (update_head s) = touts s"
  by (simp_all add: update_head_def Let_def)

text \<open>How far the head is counted down by the next \<^verbatim>\<open>update_head\<close>.\<close>

definition elapsed :: "timer \<Rightarrow> u32" where
  "elapsed s =
     (if tm_init s \<or> sint (hz200 (touts s) - tm_last s) < 0 then 0
      else DIFTIME (tm_last s) (hz200 (touts s)))"

lemma update_head_due:
  "dq_due (allevents (update_head s)) x = map_option (\<lambda>t. t - elapsed s) (dq_due (allevents s) x)"
  by (auto simp: update_head_def Let_def elapsed_def option.map_ident intro: option.map_cong)

lemma update_head_remove_due:
  assumes "distinct (dq_keys (allevents s))"
  shows "dq_due (allevents (update_head (s\<lparr>allevents := dq_remove ep (allevents s)\<rparr>))) =
    (dq_due (allevents (update_head s)))(ep := None)"
  using assms by (auto simp: update_head_due dq_due_remove elapsed_def fun_eq_iff)

text \<open>\<open>synced s\<close>: the queue is up to date with the clock, so a further call changes no field.\<close>

definition synced :: "timer \<Rightarrow> bool" where
  "synced s \<longleftrightarrow> \<not> tm_init s \<and> 0 \<le> sint (hz200 (touts s) - tm_last s) \<and>
     sint (hz200 (touts s) - tm_last s) \<le> 1"

lemma half_word:
  fixes x :: u32
  assumes "0 \<le> sint x"
  shows "sint (signed_drop_bit 1 x) = sint x div 2" "sint (x - signed_drop_bit 1 x * 2) = sint x mod 2"
proof -
  show a: "sint (signed_drop_bit 1 x) = sint x div 2"
    by (simp add: sint_signed_drop_bit_eq drop_bit_eq_div)
  have m: "sint (signed_drop_bit 1 x * 2) = sint x div 2 * 2"
    using assms sint32_bounds [of x] a
    by (simp add: sint_word_ariths signed_take_bit_int_eq_self)
  show "sint (x - signed_drop_bit 1 x * 2) = sint x mod 2"
    by (subst sint_minus_32; use m assms sint32_bounds [of x] in
        \<open>simp add: minus_div_mult_eq_mod\<close>)
qed

lemma update_head_synced: "synced (update_head s)"
proof -
  let ?c = "hz200 (touts s)" and ?l = "tm_last s"
  show ?thesis
  proof (cases "tm_init s \<or> allevents s = [] \<or> sint (?c - ?l) < 0")
    case True
    then show ?thesis by (auto simp: update_head_def synced_def)
  next
    case False
    then have nn: "0 \<le> sint (?c - ?l)" by simp
    have "?c - (?l + DIFTIME ?l ?c * 2) = (?c - ?l) - signed_drop_bit 1 (?c - ?l) * 2"
      by (simp add: DIFTIME_def algebra_simps)
    then have "sint (?c - (?l + DIFTIME ?l ?c * 2)) = sint (?c - ?l) mod 2"
      by (simp only: half_word(2) [OF nn])
    with False show ?thesis by (simp add: update_head_def synced_def Let_def)
  qed
qed

lemma synced_elapsed: "synced s \<Longrightarrow> elapsed s = 0"
proof -
  let ?x = "hz200 (touts s) - tm_last s"
  assume "synced s"
  then have "0 \<le> sint ?x" "sint ?x \<le> 1" by (auto simp: synced_def)
  with half_word(1) [of ?x] have "sint (signed_drop_bit 1 ?x) = sint (0 :: u32)" by simp
  then have "signed_drop_bit 1 ?x = 0" by (simp only: signed_word_eqI)
  then show ?thesis by (simp add: elapsed_def DIFTIME_def)
qed

lemma dq_carry_0 [simp]: "dq_carry 0 q = q"
  by (induction "0 :: u32" q rule: dq_carry.induct) auto

lemma update_head_synced_id: "synced s \<Longrightarrow> allevents (update_head s) = allevents s"
  using synced_elapsed [of s] by (auto simp: update_head_def elapsed_def Let_def synced_def)

section \<open>The invariant\<close>

text \<open>
  An event is on the queue exactly while its \<^verbatim>\<open>func\<close> field is set, and at most once; the
  timeouts below are consistent.
\<close>

definition timer_inv :: "timer \<Rightarrow> bool" where
  "timer_inv s \<longleftrightarrow> distinct (dq_keys (allevents s)) \<and>
     (\<forall>e. e \<in> fst ` set (allevents s) \<longleftrightarrow> ev_func s e \<noteq> None) \<and> timeouts_inv (touts s)"

lemma timer_inv_D:
  assumes "timer_inv s"
  shows "distinct (dq_keys (allevents s))" "e \<in> fst ` set (allevents s) \<longleftrightarrow> ev_func s e \<noteq> None"
    "timeouts_inv (touts s)"
  using assms by (auto simp: timer_inv_def)

lemma update_head_inv: "timer_inv (update_head s) \<longleftrightarrow> timer_inv s"
  by (simp add: timer_inv_def)

lemma arm_frame:
  assumes "arm d s = Some s'"
  shows "allevents s' = allevents s" "ev_func s' = ev_func s" "ev_arg s' = ev_arg s"
    "timeouts_inv (touts s) \<Longrightarrow> timeouts_inv (touts s')"
    "tm_init s' = tm_init s" "tm_last s' = tm_last s"
  using assms by (auto simp: arm_def intro: addroottimeout_inv)

lemma event_insert_pos:
  assumes "0 < sint delta" and "event_insert call ep delta s = Some s'"
  shows "allevents s' = event_link ep delta (allevents (update_head s)) \<and> ev_func s' = ev_func s \<and>
    ev_arg s' = ev_arg s \<and> (timeouts_inv (touts s) \<longrightarrow> timeouts_inv (touts s'))"
proof -
  let ?s = "(update_head s)\<lparr>allevents := event_link ep delta (allevents (update_head s))\<rparr>"
  consider "s' = ?s"
    | s2 where "arm delta s2 = Some s'" "allevents s2 = allevents ?s" "ev_func s2 = ev_func s"
      "ev_arg s2 = ev_arg s" "timeouts_inv (touts s) \<longrightarrow> timeouts_inv (touts s2)"
    using assms by (fastforce simp: event_insert_def Let_def split: if_splits option.splits
        intro: cancelroottimeout_inv)
  then show ?thesis
    by cases (auto dest: arm_frame)
qed

lemma event_remove_simps [simp]:
  "snd (event_remove ep s) = s\<lparr>allevents := dq_remove ep (allevents s)\<rparr>"
  by (simp add: event_remove_def)

text \<open>\<^verbatim>\<open>event_add\<close> unlinks a queued event first, so its queue is the same in both cases.\<close>

lemma event_add_unlinks:
  assumes "timer_inv s"
  shows "(if ev_func s ep \<noteq> None then snd (event_remove ep s) else s) =
    s\<lparr>allevents := dq_remove ep (allevents s)\<rparr>"
  using timer_inv_D(2) [OF assms, of ep] by auto

lemma event_add_pos:
  assumes inv: "timer_inv s" and "0 < sint delta" and "event_add call ep delta f a s = Some s'"
  shows "allevents s' = event_link ep delta
      (allevents (update_head (s\<lparr>allevents := dq_remove ep (allevents s)\<rparr>)))"
    and "ev_func s' = (ev_func s)(ep := Some f)" and "ev_arg s' = (ev_arg s)(ep := a)"
    and "timeouts_inv (touts s')"
proof -
  let ?s = "s\<lparr>allevents := dq_remove ep (allevents s),
     ev_func := (ev_func s)(ep := Some f), ev_arg := (ev_arg s)(ep := a)\<rparr>"
  have e: "event_insert call ep delta ?s = Some s'"
    using assms(3) unfolding event_add_def Let_def event_add_unlinks [OF inv] by simp
  have u: "allevents (update_head ?s) =
      allevents (update_head (s\<lparr>allevents := dq_remove ep (allevents s)\<rparr>))"
    by (simp add: update_head_def Let_def)
  from event_insert_pos [OF assms(2) e] u timer_inv_D(3) [OF inv]
  show "allevents s' = event_link ep delta
      (allevents (update_head (s\<lparr>allevents := dq_remove ep (allevents s)\<rparr>)))"
    "ev_func s' = (ev_func s)(ep := Some f)" "ev_arg s' = (ev_arg s)(ep := a)"
    "timeouts_inv (touts s')" by simp_all
qed

lemma event_add_inv:
  assumes inv: "timer_inv s" and "0 < sint delta" and "event_add call ep delta f a s = Some s'"
  shows "timer_inv s'"
proof -
  note E = event_add_pos [OF assms]
  let ?q = "allevents (update_head (s\<lparr>allevents := dq_remove ep (allevents s)\<rparr>))"
  have d: "distinct (dq_keys ?q)" using timer_inv_D(1) [OF inv] by simp
  have k: "fst ` set ?q = fst ` set (allevents s) - {ep}"
    using timer_inv_D(1) [OF inv] by (simp add: set_keys_dq_remove)
  have "distinct (dq_keys (allevents s'))"
    unfolding E(1) by (rule eq.ins_distinct [OF d]) (simp only: k, simp)
  moreover have "fst ` set (allevents s') = insert ep (fst ` set (allevents s))"
    unfolding E(1) event_link_keys k by blast
  ultimately show ?thesis
    using E(2,4) timer_inv_D(2) [OF inv] by (auto simp: timer_inv_def)
qed

lemma event_del_inv: "timer_inv s \<Longrightarrow> timer_inv (event_del ep s)"
  by (auto simp: timer_inv_def event_del_def set_keys_dq_remove)


lemma synced_upd [simp]:
  "synced (s\<lparr>allevents := q\<rparr>) = synced s" "synced (s\<lparr>ev_func := g\<rparr>) = synced s"
  "synced (s\<lparr>ev_arg := h\<rparr>) = synced s"
  by (simp_all add: synced_def)

lemma synced_due:
  "synced s \<Longrightarrow> dq_due (allevents (update_head (s\<lparr>allevents := q\<rparr>))) x = dq_due q x"
  using synced_elapsed [of "s\<lparr>allevents := q\<rparr>"]
  by (simp add: update_head_due option.map_ident)

lemma event_insert_due:
  assumes "0 < sint delta" and "event_insert call ep delta s = Some s'"
    and "distinct (dq_keys (allevents s))" and "ep \<notin> fst ` set (allevents s)"
  shows "dq_due (allevents s') = (dq_due (allevents (update_head s)))(ep := Some delta)"
  using event_insert_pos [OF assms(1,2)] assms(3,4) by (simp add: eq.ins_due)

text \<open>The two cases of \<^verbatim>\<open>event_reset\<close> for a queued event that is not due at \<open>delta\<close> yet.\<close>

lemma event_reset_cases:
  assumes inv: "timer_inv s" and q: "ep \<in> fst ` set (allevents s)"
    and r: "event_reset call ep delta s = Some s'" and pos: "0 < sint delta"
  obtains (same) "dq_due (allevents (update_head s)) ep = Some delta" "s' = update_head s"
    | (fast) ticks where "dq_due (allevents (update_head s)) ep = Some ticks" "sint ticks < sint delta"
      "s' = (update_head s)\<lparr>allevents := relink_from ep
          (delta - (ticks - event_field ep (allevents (update_head s)))) (allevents (update_head s))\<rparr>"
    | (slow) "event_insert call ep delta
          ((update_head s)\<lparr>allevents := dq_remove ep (allevents (update_head s))\<rparr>) = Some s'"
proof -
  obtain t where t: "dq_due (allevents (update_head s)) ep = Some t"
    using q by (cases "dq_due (allevents (update_head s)) ep") auto
  show ?thesis
    using r t by (auto simp: event_reset_def Let_def event_ticks_0 split: if_splits
        intro: same fast slow)
qed

lemma event_reset_keeps:
  assumes inv: "timer_inv s" and q: "ep \<in> fst ` set (allevents s)"
    and r: "event_reset call ep delta s = Some s'" and pos: "0 < sint delta"
  shows "dq_due (allevents s') = (dq_due (allevents (update_head s)))(ep := Some delta)"
    and "timer_inv s'"
proof -
  let ?u = "update_head s"
  have D: "distinct (dq_keys (allevents ?u))" "fst ` set (allevents ?u) = fst ` set (allevents s)"
    using timer_inv_D(1) [OF inv] by simp_all
  have I: "timer_inv ?u" using inv by (simp add: update_head_inv)
  from inv q r pos
  have "dq_due (allevents s') = (dq_due (allevents ?u))(ep := Some delta) \<and> timer_inv s'"
  proof (cases rule: event_reset_cases)
    case same
    then show ?thesis using I by (simp add: fun_upd_idem)
  next
    case (fast ticks)
    from relink_from_due [OF D(1) fast(1)] relink_from_keys [OF D(1)] q fast I D
    show ?thesis by (simp add: timer_inv_def)
  next
    case slow
    let ?v = "?u\<lparr>allevents := dq_remove ep (allevents ?u)\<rparr>"
    have n: "ep \<notin> fst ` set (allevents ?v)" "distinct (dq_keys (allevents ?v))"
      using D(1) by (simp_all add: set_keys_dq_remove del: update_head_keys)
    have "dq_due (allevents s') = (dq_due (allevents ?v))(ep := Some delta)"
      using event_insert_due [OF pos slow n(2,1)] synced_due [OF update_head_synced [of s]]
      by (simp add: fun_eq_iff)
    moreover have "timer_inv s'"
    proof -
      note E = event_insert_pos [OF pos slow]
      have "distinct (dq_keys (allevents s'))"
        using E n by (simp add: eq.ins_distinct)
      moreover have "fst ` set (allevents s') = fst ` set (allevents s)"
        using E n D q by (auto simp: event_link_keys set_keys_dq_remove simp del: update_head_keys)
      ultimately show ?thesis using E I by (simp add: timer_inv_def)
    qed
    ultimately show ?thesis using D by (simp add: dq_due_remove fun_eq_iff del: update_head_keys)
  qed
  then show "dq_due (allevents s') = (dq_due (allevents ?u))(ep := Some delta)" "timer_inv s'"
    by auto
qed

section \<open>Expiry\<close>

text \<open>Event functions that act outside the timer.\<close>

definition observer :: handler where
  "observer f a s = Some s"

lemma check_loop_fire:
  assumes "synced s" and "distinct (dq_keys (allevents s))"
    and "\<And>e. e \<in> fst ` set (allevents s) \<Longrightarrow> ev_func s e \<noteq> None"
  shows "\<exists>s'. check_loop observer s = Some s' \<and> allevents s' = snd (dq_fire (allevents s)) \<and>
    ev_func s' = (\<lambda>e. if e \<in> set (fst (dq_fire (allevents s))) then None else ev_func s e) \<and>
    touts s' = touts s"
  using assms
proof (induction "allevents s" arbitrary: s rule: dq_fire.induct)
  case 1
  then show ?case by (simp add: check_loop.simps flip: 1(1))
next
  case (2 ep d q)
  note q = 2(2) [symmetric]
  show ?case
  proof (cases "sint d \<le> 0")
    case True
    let ?s = "s\<lparr>allevents := dq_carry d q, ev_func := (ev_func s)(ep := None)\<rparr>"
    let ?u = "update_head ?s"
    have u: "allevents ?u = dq_carry d q"
      using update_head_synced_id [of ?s] 2(3) by simp
    have ne: "e \<in> fst ` set (allevents ?u) \<Longrightarrow> ev_func ?u e \<noteq> None" for e
      using 2(4,5) q u by auto
    have "distinct (dq_keys (allevents ?u))" using 2(4) q u by simp
    from 2(1) [OF True u [symmetric] update_head_synced this ne]
    obtain s' where s0: "check_loop observer ?u = Some s'" "allevents s' = snd (dq_fire (allevents ?u))"
      "ev_func s' = (\<lambda>e. if e \<in> set (fst (dq_fire (allevents ?u))) then None else ev_func ?u e)"
      "touts s' = touts ?u" by blast
    note s' = s0(1) s0(2-) [unfolded u update_head_frame, simplified]
    obtain f where "ev_func s ep = Some f" using 2(5) [of ep] q by auto
    then have "check_loop observer s = Some s'"
      using s'(1) True q by (simp add: check_loop.simps [of observer s] observer_def)
    with s' True q show ?thesis by (auto simp: split_beta Let_def fun_eq_iff)
  next
    case False
    then show ?thesis using q by (simp add: check_loop.simps [of observer s])
  qed
qed

lemma addroottimeout_reuse:
  assumes "t \<in> set (dq_keys (expire_list s))" and "t_func s t = f"
  obtains t' s' where "addroottimeout d f fl s = Some (Some t', s')"
proof -
  obtain e where "find (\<lambda>e. t_func s (fst e) = f) (expire_list s) = Some e"
    using assms by (cases "find (\<lambda>e. t_func s (fst e) = f) (expire_list s)")
      (auto simp: find_None_iff)
  then show ?thesis using that by (simp add: addroottimeout_def)
qed

lemma event_add_due:
  assumes "timer_inv s" and "0 < sint delta" and "event_add call ep delta f a s = Some s'"
  shows "dq_due (allevents s') = (dq_due (allevents (update_head s)))(ep := Some delta)"
proof -
  note E = event_add_pos [OF assms] and d = timer_inv_D(1) [OF assms(1)]
  let ?q = "allevents (update_head (s\<lparr>allevents := dq_remove ep (allevents s)\<rparr>))"
  have "distinct (dq_keys ?q)" "ep \<notin> fst ` set ?q"
    using d by (simp_all add: set_keys_dq_remove)
  then have "dq_due (allevents s') = (dq_due ?q)(ep := Some delta)"
    unfolding E(1) by (rule eq.ins_due)
  then show ?thesis
    using update_head_remove_due [OF d, of ep] by simp
qed

lemma arm_synced: "arm d s = Some s' \<Longrightarrow> synced s \<Longrightarrow> synced s'"
  by (auto simp: arm_def synced_def dest: addroottimeout_hz)

lemma event_insert_synced:
  assumes "0 < sint delta" and "event_insert call ep delta s = Some s'"
  shows "synced s'"
proof -
  have "synced ((update_head s)\<lparr>allevents := q, touts := cancelroottimeout t (touts s)\<rparr>)" for q t
    using update_head_synced [of s] by (simp add: synced_def)
  then show ?thesis
    using assms update_head_synced [of s]
    by (auto simp: event_insert_def Let_def split: if_splits option.splits intro: arm_synced)
qed

lemma event_add_synced:
  "0 < sint delta \<Longrightarrow> event_add call ep delta f a s = Some s' \<Longrightarrow> synced s'"
  by (auto simp: event_add_def Let_def intro: event_insert_synced)

section \<open>Properties\<close>


definition sample_timer :: timer where
  "sample_timer = \<lparr>allevents = [], ev_func = (\<lambda>_. None), ev_arg = (\<lambda>_. 0), tm_last = 0,
     tm_init = True, nexttimeout = None, touts = timeouts_init [3, 4]\<rparr>"

lemma sample_timer_inv: "timer_inv sample_timer"
  by (simp add: timer_inv_def sample_timer_def timeouts_init_inv)

lemmas timer_run_simps = event_add_def event_insert_def arm_def addroottimeout_def newtimeout_def
  timeout_alloc_def timeouts_init_def sample_timer_def update_head_def Let_def

lemma sample_add:
  "event_add observer 5 20 9 1 sample_timer = Some (the (event_add observer 5 20 9 1 sample_timer))"
  by (simp add: timer_run_simps)


text \<open>
  \<^verbatim>\<open>event_reset\<close> of a queued event to a positive delay makes it due after exactly
  that delay, on its fast and on its slow path, and leaves every other event's due time as
  it was.
\<close>

lemma event_reset_reschedules:
  assumes "timer_inv s" and "ep \<in> set (dq_keys (allevents s))" and "0 < sint delta"
    and "event_reset call ep delta s = Some s'"
  shows "dq_due (allevents s') = (dq_due (allevents (update_head s)))(ep := Some delta) \<and>
    timer_inv s'"
  using event_reset_keeps [OF assms(1) _ assms(4,3)] assms(2) by simp

definition sample_timer2 :: timer where
  "sample_timer2 = sample_timer\<lparr>allevents := [(5, 20), (6, 7)], tm_init := False,
     ev_func := (\<lambda>_. None)(5 := Some 9, 6 := Some 9)\<rparr>"

lemma sample_timer2_inv: "timer_inv sample_timer2"
  by (auto simp: timer_inv_def sample_timer2_def sample_timer_def timeouts_init_inv)

text \<open>
  On a queue of non-negative fields the fast path of \<^verbatim>\<open>event_reset\<close>, which searches
  from the old place of the event, builds the very queue that unlinking the event and
  inserting it from the head would build.
\<close>

lemma event_reset_fast_path:
  assumes "timer_inv s" and "dq_nonneg (allevents (update_head s))"
    and "dq_span (allevents (update_head s)) < 2 ^ 31"
    and "dq_due (allevents (update_head s)) ep = Some ticks" and "sint ticks < sint delta"
  shows "event_reset call ep delta s =
    Some ((update_head s)\<lparr>allevents :=
      event_link ep delta (dq_remove ep (allevents (update_head s)))\<rparr>)"
proof -
  have "delta \<noteq> ticks" using assms(5) by auto
  then show ?thesis
    using relink_from_eq_insert [OF assms(2,3,4), of delta] assms(4,5)
    by (simp add: event_reset_def Let_def event_ticks_0)
qed


definition sample_timer3 :: timer where
  "sample_timer3 = sample_timer2\<lparr>allevents := [(5, - 3), (6, 7)], touts := (timeouts_init [3, 4])
     \<lparr>expire_list := [(Pool 3, 400)], t_func := (\<lambda>_. 0)(Pool 3 := CHECK_EVENTS),
      t_used := (\<lambda>t. t = Pool 3)\<rparr>\<rparr>"


text \<open>
  right after \<^verbatim>\<open>event_add\<close> the query \<^verbatim>\<open>event_delta\<close> answers with the delay the
  event was added with.
\<close>

lemma event_delta_add:
  assumes "timer_inv s" and "0 < sint delta" and "event_add call ep delta f a s = Some s'"
  shows "fst (event_delta ep s') = delta"
proof -
  have "dq_due (allevents s') ep = Some delta"
    using event_add_due [OF assms] by simp
  moreover have "allevents (update_head s') = allevents s'"
    by (rule update_head_synced_id [OF event_add_synced [OF assms(2,3)]])
  ultimately show ?thesis by (simp add: event_delta_def Let_def event_ticks_0)
qed

end
