(* ===== verification/Netif.thy ===== *)
theory Netif
  imports Prelude
begin

text \<open>
  Interfaces: the packet queues and the address lookups of \<^verbatim>\<open>kernel/if.c\<close>, and the
  address classification of \<^verbatim>\<open>kernel/ip.c\<close> that works on the interface list. The build
  is the configured one, without \<^verbatim>\<open>IGMP_SUPPORT\<close> and \<^verbatim>\<open>NOTYET\<close>.
\<close>

section \<open>Packet queues\<close>

text \<open>
  A queue holds one list per priority (there are two); \<^verbatim>\<open>curr\<close> drives the weighted
  choice between them. Packets are of any type; a packet the code gives back with
  \<^verbatim>\<open>buf_deref\<close> is returned by the operation.
\<close>

abbreviation IF_PRIORITIES :: nat where "IF_PRIORITIES \<equiv> 2"

record 'b ifq =
  maxqlen :: u16
  qlen :: u16
  curr :: u16
  qlists :: "nat \<Rightarrow> 'b list"

definition GET_QUEUE :: "u16 \<Rightarrow> nat" where
  "GET_QUEUE c = unat (drop_bit 1 c AND 1)"

definition SET_QUEUE :: "nat \<Rightarrow> u16" where
  "SET_QUEUE n = push_bit 1 (word_of_nat n)"

definition INC_QUEUE :: "u16 \<Rightarrow> nat \<Rightarrow> u16" where
  "INC_QUEUE c n = c + word_of_nat (IF_PRIORITIES - n)"

definition clamp_pri :: "u16 \<Rightarrow> nat" where
  "clamp_pri pri = (if unat pri \<ge> IF_PRIORITIES then IF_PRIORITIES - 1 else unat pri)"

definition if_enqueue :: "'b ifq \<Rightarrow> 'b \<Rightarrow> u16 \<Rightarrow> (errno + unit) \<times> 'b list \<times> 'b ifq" where
  "if_enqueue q buf pri =
     (if sint (qlen q) \<ge> sint (maxqlen q) then (Inl ENOMEM, [buf], q)
      else
        (let p = clamp_pri pri in
         (Inr (), [],
          q\<lparr>qlists := (qlists q)(p := qlists q p @ [buf]), qlen := qlen q + 1\<rparr>)))"

definition if_putback :: "'b ifq \<Rightarrow> 'b \<Rightarrow> u16 \<Rightarrow> (errno + unit) \<times> 'b list \<times> 'b ifq" where
  "if_putback q buf pri =
     (if sint (qlen q) \<ge> sint (maxqlen q) then (Inl ENOMEM, [buf], q)
      else
        (let p = clamp_pri pri in
         (Inr (), [],
          q\<lparr>qlists := (qlists q)(p := buf # qlists q p), qlen := qlen q + 1\<rparr>)))"

text \<open>The search of \<^verbatim>\<open>if_dequeue\<close>: \<open>i\<close> counts down from \<^verbatim>\<open>IF_PRIORITIES\<close>.\<close>

fun dequeue_from :: "nat \<Rightarrow> nat \<Rightarrow> 'b ifq \<Rightarrow> 'b option \<times> 'b ifq" where
  "dequeue_from 0 que q = (None, q)"
| "dequeue_from (Suc i) que q =
     (case qlists q que of
        buf # rest \<Rightarrow>
          (let c = (if Suc i < IF_PRIORITIES then SET_QUEUE que else curr q)
           in (Some buf, q\<lparr>qlists := (qlists q)(que := rest), curr := INC_QUEUE c que,
                           qlen := qlen q - 1\<rparr>))
      | [] \<Rightarrow> dequeue_from i ((que + 1) mod IF_PRIORITIES) q)"

definition if_dequeue :: "'b ifq \<Rightarrow> 'b option \<times> 'b ifq" where
  "if_dequeue q =
     (if sint (qlen q) > 0 then dequeue_from IF_PRIORITIES (GET_QUEUE (curr q)) q else (None, q))"

definition if_flushq :: "'b ifq \<Rightarrow> 'b list \<times> 'b ifq" where
  "if_flushq q = (qlists q 0 @ qlists q 1, q\<lparr>qlists := (\<lambda>_. []), qlen := 0\<rparr>)"

section \<open>Interfaces and addresses\<close>

abbreviation AF_INET :: u16 where "AF_INET \<equiv> 2"
abbreviation INADDR_ANY :: u32 where "INADDR_ANY \<equiv> 0"
abbreviation INADDR_BROADCAST :: u32 where "INADDR_BROADCAST \<equiv> 0xffffffff"
abbreviation INADDR_LOOPBACK :: u32 where "INADDR_LOOPBACK \<equiv> 0x7f000001"
abbreviation IN_CLASSA_NET :: u32 where "IN_CLASSA_NET \<equiv> 0xff000000"
abbreviation IN_CLASSB_NET :: u32 where "IN_CLASSB_NET \<equiv> 0xffff0000"
abbreviation IN_CLASSC_NET :: u32 where "IN_CLASSC_NET \<equiv> 0xffffff00"
abbreviation IFF_UP :: u16 where "IFF_UP \<equiv> 0x0001"
abbreviation IFF_BROADCAST :: u16 where "IFF_BROADCAST \<equiv> 0x0002"
abbreviation IFF_LOOPBACK :: u16 where "IFF_LOOPBACK \<equiv> 0x0008"
abbreviation IFF_POINTOPOINT :: u16 where "IFF_POINTOPOINT \<equiv> 0x0010"

definition IN_CLASSA :: "u32 \<Rightarrow> bool" where
  "IN_CLASSA a \<longleftrightarrow> a AND 0x80000000 = 0"

definition IN_CLASSB :: "u32 \<Rightarrow> bool" where
  "IN_CLASSB a \<longleftrightarrow> a AND 0xc0000000 = 0x80000000"

definition IN_CLASSC :: "u32 \<Rightarrow> bool" where
  "IN_CLASSC a \<longleftrightarrow> a AND 0xe0000000 = 0xc0000000"

text \<open>
  An address record; \<^verbatim>\<open>ifu\<close> is a union of the broadcast and the destination address,
  so the two share one field.
\<close>

record ifaddr =
  ia_family :: u16
  ia_addr :: u32
  ia_ifu :: u32
  ia_net :: u32
  ia_netmask :: u32
  ia_subnet :: u32
  ia_subnetmask :: u32
  ia_net_broadaddr :: u32

record netif =
  nif_id :: nat
  nif_flags :: u16
  nif_mtu :: u32
  nif_maxpackets :: u16
  nif_addrlist :: "ifaddr list"

definition if_af2ifaddr :: "netif \<Rightarrow> u16 \<Rightarrow> ifaddr option" where
  "if_af2ifaddr nif family = find (\<lambda>ifa. ia_family ifa = family) (nif_addrlist nif)"

definition if_direct :: "u32 \<Rightarrow> netif \<Rightarrow> bool" where
  "if_direct addr nif \<longleftrightarrow> nif_flags nif AND IFF_UP \<noteq> 0 \<and>
     (case if_af2ifaddr nif AF_INET of
        None \<Rightarrow> False
      | Some ifa \<Rightarrow>
          (nif_flags nif AND IFF_POINTOPOINT \<noteq> 0 \<and> addr = ia_ifu ifa) \<or>
          (nif_flags nif AND IFF_BROADCAST \<noteq> 0 \<and> addr = ia_ifu ifa))"

definition if_onnet :: "u32 \<Rightarrow> netif \<Rightarrow> bool" where
  "if_onnet addr nif \<longleftrightarrow> nif_flags nif AND IFF_UP \<noteq> 0 \<and>
     (case if_af2ifaddr nif AF_INET of
        None \<Rightarrow> False
      | Some ifa \<Rightarrow> addr AND ia_netmask ifa = ia_net ifa)"

definition if_net2if :: "netif list \<Rightarrow> u32 \<Rightarrow> netif option" where
  "if_net2if allinterfaces addr =
     (case find (if_direct addr) allinterfaces of
        Some nif \<Rightarrow> Some nif
      | None \<Rightarrow> find (if_onnet addr) allinterfaces)"

definition ip_is_brdcst_addr :: "netif list \<Rightarrow> u32 \<Rightarrow> bool" where
  "ip_is_brdcst_addr allinterfaces addr \<longleftrightarrow>
     addr = INADDR_ANY \<or> addr = INADDR_BROADCAST \<or>
     list_ex (\<lambda>nif. case if_af2ifaddr nif AF_INET of
         None \<Rightarrow> False
       | Some ifa \<Rightarrow>
           addr = ia_net ifa \<or> addr = ia_subnet ifa \<or> addr = ia_net_broadaddr ifa \<or>
           (nif_flags nif AND IFF_BROADCAST \<noteq> 0 \<and> addr = ia_ifu ifa)) allinterfaces"

definition ip_is_local_addr :: "netif list \<Rightarrow> u32 \<Rightarrow> bool" where
  "ip_is_local_addr allinterfaces addr \<longleftrightarrow>
     addr = INADDR_LOOPBACK \<or>
     list_ex (\<lambda>nif. case if_af2ifaddr nif AF_INET of
         None \<Rightarrow> False
       | Some ifa \<Rightarrow> addr = ia_addr ifa) allinterfaces"

text \<open>
  \<^verbatim>\<open>ip_same_addr\<close>: the loop shifts the mask left by eight until it is zero, so it tries
  three masks.
\<close>

fun same_addr_loop :: "u32 \<Rightarrow> u32 \<Rightarrow> u32 list \<Rightarrow> bool" where
  "same_addr_loop loc foreign [] = False"
| "same_addr_loop loc foreign (msk # msks) =
     (if (loc XOR foreign) AND msk \<noteq> 0 then same_addr_loop loc foreign msks
      else foreign AND NOT msk = 0 \<or> foreign AND NOT msk = NOT msk)"

definition ip_same_addr :: "u32 \<Rightarrow> u32 \<Rightarrow> bool" where
  "ip_same_addr loc foreign =
     (if loc = foreign \<or> loc = 0 \<or> foreign = 0 \<or> NOT foreign = 0 then True
      else same_addr_loop loc foreign [0xffffff00, 0xffff0000, 0xff000000])"

definition ip_netmask :: "netif list \<Rightarrow> u32 \<Rightarrow> u32" where
  "ip_netmask allinterfaces addr =
     (let classmask = (if IN_CLASSA addr then Some IN_CLASSA_NET
                       else if IN_CLASSB addr then Some IN_CLASSB_NET
                       else if IN_CLASSC addr then Some IN_CLASSC_NET
                       else None)
      in case classmask of
           None \<Rightarrow> 0
         | Some netmask \<Rightarrow>
             (case find (\<lambda>nif. case if_af2ifaddr nif AF_INET of
                           None \<Rightarrow> False
                         | Some ifa \<Rightarrow> ia_net ifa = addr AND netmask) allinterfaces of
                None \<Rightarrow> netmask
              | Some nif \<Rightarrow>
                  (case if_af2ifaddr nif AF_INET of
                     None \<Rightarrow> netmask
                   | Some ifa \<Rightarrow> ia_subnetmask ifa)))"

definition ip_dst_addr :: "netif \<Rightarrow> u32 \<Rightarrow> u32" where
  "ip_dst_addr if_primary addr =
     (if addr = INADDR_ANY then
        (case if_af2ifaddr if_primary AF_INET of
           None \<Rightarrow> INADDR_LOOPBACK
         | Some ifa \<Rightarrow> ia_addr ifa)
      else if addr = INADDR_BROADCAST then
        (case (if nif_flags if_primary AND IFF_BROADCAST \<noteq> 0
               then if_af2ifaddr if_primary AF_INET else None) of
           None \<Rightarrow> INADDR_BROADCAST
         | Some ifa \<Rightarrow> ia_ifu ifa)
      else addr)"

section \<open>What the queues do\<close>

text \<open>The invariant: \<^verbatim>\<open>qlen\<close> counts the queued packets of both priorities.\<close>

definition ifq_inv :: "'b ifq \<Rightarrow> bool" where
  "ifq_inv q \<longleftrightarrow> sint (qlen q) = int (length (qlists q 0) + length (qlists q 1))"

lemma GET_QUEUE_01: "GET_QUEUE c = 0 \<or> GET_QUEUE c = 1"
proof -
  have "drop_bit 1 c AND 1 = 0 \<or> drop_bit 1 c AND 1 = (1 :: u16)"
    by (simp add: and_one_eq mod2_eq_if)
  then show ?thesis by (auto simp: GET_QUEUE_def)
qed

lemma clamp_pri_01: "clamp_pri p = 0 \<or> clamp_pri p = 1"
  by (auto simp: clamp_pri_def)

lemma sint16_bounds: "- (2 ^ 15) \<le> sint (x :: u16) \<and> sint (x :: u16) < 2 ^ 15"
  using sint_ge [of x] sint_lt [of x] by simp

lemma sint_plus1_16: "sint (x :: u16) < sint (y :: u16) \<Longrightarrow> sint (x + 1) = sint x + 1"
  using sint16_bounds [of y] sint16_bounds [of x]
  by (simp add: sint_word_ariths signed_take_bit_int_eq_self)

lemma sint_minus1_16: "0 < sint (x :: u16) \<Longrightarrow> sint (x - 1) = sint x - 1"
  using sint16_bounds [of x] by (simp add: sint_word_ariths signed_take_bit_int_eq_self)


lemma if_enqueue_inv: "ifq_inv q \<Longrightarrow> ifq_inv (snd (snd (if_enqueue q b p)))"
  using clamp_pri_01 [of p] sint_plus1_16 [of "qlen q" "maxqlen q"]
  by (auto simp: ifq_inv_def if_enqueue_def Let_def)

lemma if_putback_inv: "ifq_inv q \<Longrightarrow> ifq_inv (snd (snd (if_putback q b p)))"
  using clamp_pri_01 [of p] sint_plus1_16 [of "qlen q" "maxqlen q"]
  by (auto simp: ifq_inv_def if_putback_def Let_def)

lemma if_flushq_inv: "ifq_inv (snd (if_flushq q))"
  by (simp add: ifq_inv_def if_flushq_def)

lemma dequeue_from_2:
  "dequeue_from 2 que q = dequeue_from (Suc (Suc 0)) que q"
  by (simp add: numeral_2_eq_2)

text \<open>The two ways \<^verbatim>\<open>if_dequeue\<close> can find a packet.\<close>

lemma if_dequeue_cases:
  assumes "ifq_inv q" and "\<not> (qlists q 0 = [] \<and> qlists q 1 = [])"
  obtains (chosen) b rest where "qlists q (GET_QUEUE (curr q)) = b # rest"
      "if_dequeue q = (Some b, q\<lparr>qlists := (qlists q)(GET_QUEUE (curr q) := rest),
         curr := INC_QUEUE (curr q) (GET_QUEUE (curr q)), qlen := qlen q - 1\<rparr>)"
    | (other) p b rest where "p = 1 - GET_QUEUE (curr q)" "qlists q (GET_QUEUE (curr q)) = []"
      "qlists q p = b # rest"
      "if_dequeue q = (Some b, q\<lparr>qlists := (qlists q)(p := rest),
         curr := INC_QUEUE (SET_QUEUE p) p, qlen := qlen q - 1\<rparr>)"
proof -
  let ?g = "GET_QUEUE (curr q)"
  have pos: "sint (qlen q) > 0" using assms by (cases "qlists q 0"; cases "qlists q 1") (auto simp: ifq_inv_def)
  have g: "?g = 0 \<or> ?g = 1" by (rule GET_QUEUE_01)
  show ?thesis
  proof (cases "qlists q ?g")
    case (Cons b rest)
    then show ?thesis using pos by (intro chosen) (simp_all add: if_dequeue_def dequeue_from_2 Let_def)
  next
    case Nil
    obtain b rest where r: "qlists q (1 - ?g) = b # rest"
      using Nil g assms(2) by (cases "qlists q (1 - ?g)") auto
    have m: "(?g + 1) mod 2 = 1 - ?g" using g by auto
    show ?thesis using Nil r pos m
      by (intro other [OF refl Nil r]) (simp add: if_dequeue_def dequeue_from_2 Let_def)
  qed
qed

lemma if_dequeue_empty:
  "ifq_inv q \<Longrightarrow> qlists q 0 = [] \<Longrightarrow> qlists q 1 = [] \<Longrightarrow> if_dequeue q = (None, q)"
  by (simp add: ifq_inv_def if_dequeue_def)

lemma if_dequeue_inv:
  assumes inv: "ifq_inv q"
  shows "ifq_inv (snd (if_dequeue q))"
proof (cases "qlists q 0 = [] \<and> qlists q 1 = []")
  case True
  with inv show ?thesis by (simp add: if_dequeue_empty)
next
  case False
  have g: "GET_QUEUE (curr q) = 0 \<or> GET_QUEUE (curr q) = 1" by (rule GET_QUEUE_01)
  from inv False show ?thesis
  proof (cases rule: if_dequeue_cases)
    case (chosen b rest)
    have "0 < sint (qlen q)" using inv chosen(1) g by (auto simp: ifq_inv_def)
    with inv chosen g show ?thesis by (auto simp: ifq_inv_def sint_minus1_16)
  next
    case (other p b rest)
    have "0 < sint (qlen q)" using inv other(1,3) g by (auto simp: ifq_inv_def)
    with inv other g show ?thesis by (auto simp: ifq_inv_def sint_minus1_16)
  qed
qed

section \<open>Fairness\<close>

text \<open>
  How many packets of the other priority can still be taken before one of priority \<open>p\<close>,
  as a function of \<^verbatim>\<open>curr\<close>: priority 1 gets two turns for each turn of priority 0.
\<close>

definition turns_before :: "nat \<Rightarrow> u16 \<Rightarrow> nat" where
  "turns_before p c =
     (if p = 0 then [0, 0, 2, 1] ! (unat c mod 4) else [1, 1, 0, 0] ! (unat c mod 4))"

lemma GET_QUEUE_unat: "GET_QUEUE c = unat c div 2 mod 2"
  unfolding GET_QUEUE_def
  by (simp add: and_one_eq, simp add: unat_mod drop_bit_eq_div unat_div)

lemma curr_next_mod4:
  "unat (INC_QUEUE c 0) mod 4 = (unat c + 2) mod 4"
  "unat (INC_QUEUE c 1) mod 4 = (unat c + 1) mod 4"
  by (simp_all add: INC_QUEUE_def unat_word_ariths mod_mod_cancel)

lemma curr_reset_mod4:
  "unat (INC_QUEUE (SET_QUEUE 0) 0) mod 4 = 2"
  "unat (INC_QUEUE (SET_QUEUE 1) 1) mod 4 = 3"
  by (simp_all add: INC_QUEUE_def SET_QUEUE_def)

lemma mod4_cases:
  fixes n :: nat
  obtains "n mod 4 = 0" | "n mod 4 = 1" | "n mod 4 = 2" | "n mod 4 = 3"
proof -
  have "n mod 4 < 4" by simp
  then consider "n mod 4 = 0" | "n mod 4 = 1" | "n mod 4 = 2" | "n mod 4 = 3" by linarith
  then show ?thesis by cases (use that in auto)
qed

lemma div2_mod2: "(n :: nat) div 2 mod 2 = (n mod 4) div 2"
  by presburger

lemma add_mod4: "((n :: nat) + k) mod 4 = (n mod 4 + k) mod 4"
  by (simp add: mod_simps)

lemma turns_before_le2: "turns_before p c \<le> 2"
  by (rule mod4_cases [of "unat c"]) (auto simp: turns_before_def numeral_2_eq_2 numeral_3_eq_3)

text \<open>A dequeue that passes over priority \<open>p\<close> uses up one of its turns.\<close>

lemma turns_step:
  assumes "p < IF_PRIORITIES" and "GET_QUEUE c = 1 - p"
  shows "turns_before p (INC_QUEUE c (1 - p)) < turns_before p c"
proof -
  have g: "(unat c mod 4) div 2 = 1 - p"
    using assms(2) unfolding GET_QUEUE_unat div2_mod2 .
  define r where "r = unat c mod 4"
  have r4: "r < 4" by (simp add: r_def)
  have n0: "unat (INC_QUEUE c 0) mod 4 = (r + 2) mod 4"
    and n1: "unat (INC_QUEUE c 1) mod 4 = (r + 1) mod 4"
    unfolding curr_next_mod4 r_def by (rule add_mod4)+
  consider "p = 0" "r = 2 \<or> r = 3" | "p = 1" "r = 0 \<or> r = 1"
    using assms(1) g r4 unfolding r_def [symmetric] by linarith
  then show ?thesis
  proof cases
    case 1
    then show ?thesis unfolding turns_before_def r_def [symmetric] using n1 by auto
  next
    case 2
    then show ?thesis unfolding turns_before_def r_def [symmetric] using n0 by auto
  qed
qed

text \<open>
  One dequeue from a queue with a packet \<open>b\<close> at the head of priority \<open>p\<close>: either it is
  \<open>b\<close>, or \<open>b\<close> stays at the head with one turn less to wait.
\<close>

lemma if_dequeue_turn:
  assumes inv: "ifq_inv q" and p: "p < IF_PRIORITIES" and hd: "qlists q p = b # rest"
  shows "fst (if_dequeue q) = Some b \<or>
    (qlists (snd (if_dequeue q)) p = b # rest \<and>
     turns_before p (curr (snd (if_dequeue q))) < turns_before p (curr q))"
proof -
  have p01: "p = 0 \<or> p = 1" using p by auto
  have ne: "\<not> (qlists q 0 = [] \<and> qlists q 1 = [])" using hd p01 by auto
  have g: "GET_QUEUE (curr q) = p \<or> GET_QUEUE (curr q) = 1 - p"
    using p01 GET_QUEUE_01 [of "curr q"] by auto
  from inv ne show ?thesis
  proof (cases rule: if_dequeue_cases)
    case (chosen b' rest')
    show ?thesis
    proof (cases "GET_QUEUE (curr q) = p")
      case True
      with chosen hd show ?thesis by simp
    next
      case False
      with g have o: "GET_QUEUE (curr q) = 1 - p" by simp
      with chosen hd False turns_step [OF p o] show ?thesis by simp
    qed
  next
    case (other p' b' rest')
    then have "p' = p" using g hd p01 by auto
    with other hd show ?thesis by simp
  qed
qed

text \<open>Sequences of operations on one queue, with the packets the dequeues return.\<close>

datatype 'b ifq_op = Enq 'b u16 | Deq

fun ifq_run :: "'b ifq_op list \<Rightarrow> 'b ifq \<Rightarrow> 'b option list" where
  "ifq_run [] q = []"
| "ifq_run (Enq b pri # ops) q = ifq_run ops (snd (snd (if_enqueue q b pri)))"
| "ifq_run (Deq # ops) q = fst (if_dequeue q) # ifq_run ops (snd (if_dequeue q))"

definition is_Deq :: "'b ifq_op \<Rightarrow> bool" where
  "is_Deq op = (case op of Deq \<Rightarrow> True | _ \<Rightarrow> False)"

lemma is_Deq_simps [simp]: "is_Deq Deq" "\<not> is_Deq (Enq b pri)"
  by (simp_all add: is_Deq_def)

lemma if_enqueue_head:
  "qlists q p = b # rest \<Longrightarrow>
   \<exists>rest'. qlists (snd (snd (if_enqueue q b' pri))) p = b # rest'"
  "curr (snd (snd (if_enqueue q b' pri))) = curr q"
  by (auto simp: if_enqueue_def Let_def)

lemma ifq_run_served:
  assumes "ifq_inv q" and "p < IF_PRIORITIES" and "qlists q p = b # rest"
    and "turns_before p (curr q) < length (filter is_Deq ops)"
  shows "Some b \<in> set (take (Suc (turns_before p (curr q))) (ifq_run ops q))"
  using assms
proof (induction ops arbitrary: q rest)
  case Nil
  then show ?case by simp
next
  case (Cons op ops)
  show ?case
  proof (cases op)
    case (Enq b' pri)
    let ?q = "snd (snd (if_enqueue q b' pri))"
    obtain rest' where "qlists ?q p = b # rest'"
      using if_enqueue_head(1) [OF Cons.prems(3)] by blast
    with Cons.IH [of ?q rest'] Cons.prems Enq show ?thesis
      by (simp add: if_enqueue_inv if_enqueue_head(2))
  next
    case Deq
    let ?q = "snd (if_dequeue q)"
    from if_dequeue_turn [OF Cons.prems(1-3)] show ?thesis
    proof
      assume "fst (if_dequeue q) = Some b"
      with Deq show ?thesis by simp
    next
      assume t: "qlists ?q p = b # rest \<and> turns_before p (curr ?q) < turns_before p (curr q)"
      have "Some b \<in> set (take (Suc (turns_before p (curr ?q))) (ifq_run ops ?q))"
        using Cons.IH [of ?q rest] Cons.prems t Deq by (simp add: if_dequeue_inv)
      moreover have "set (take (Suc (turns_before p (curr ?q))) (ifq_run ops ?q))
          \<subseteq> set (take (turns_before p (curr q)) (ifq_run ops ?q))"
        using t by (intro set_take_subset_set_take) simp
      ultimately show ?thesis using Deq by auto
    qed
  qed
qed


definition example_ifq :: "nat ifq" where
  "example_ifq = \<lparr>maxqlen = 5, qlen = 3, curr = 2, qlists = (\<lambda>_. [])(0 := [7], 1 := [8, 9])\<rparr>"

lemma example_ifq_inv: "ifq_inv example_ifq"
  by (simp add: ifq_inv_def example_ifq_def)


text \<open>
  C18: No priority starves. From any consistent queue, whatever packets are queued in
  between, the packet at the head of a priority is returned by one of the next three
  dequeues: high priority packets pass a waiting low priority packet at most twice.
\<close>
theorem if_dequeue_fair:
  assumes "ifq_inv q" and "p < IF_PRIORITIES" and "qlists q p = b # rest"
    and "3 \<le> length (filter is_Deq ops)"
  shows "Some b \<in> set (take 3 (ifq_run ops q))"
proof -
  have le: "Suc (turns_before p (curr q)) \<le> 3" using turns_before_le2 [of p "curr q"] by simp
  have "Some b \<in> set (take (Suc (turns_before p (curr q))) (ifq_run ops q))"
    using ifq_run_served [OF assms(1-3)] le assms(4) by simp
  with set_take_subset_set_take [OF le, of "ifq_run ops q"] show ?thesis by blast
qed

theorem if_dequeue_fair_witness:
  "Some 7 \<in> set (take 3 (ifq_run [Deq, Enq 10 1, Deq, Enq 11 1, Deq] example_ifq))"
  by (rule if_dequeue_fair [OF example_ifq_inv, of 0 7 "[]"]) (simp_all add: example_ifq_def)

section \<open>Local addresses\<close>

lemma drop_agree: "drop_bit n x = drop_bit n (y :: u32) \<longleftrightarrow> (\<forall>i\<ge>n. bit x i = bit y i)"
proof
  assume h: "drop_bit n x = drop_bit n y"
  show "\<forall>i\<ge>n. bit x i = bit y i"
  proof (intro allI impI)
    fix i assume "n \<le> i"
    then have "bit x i = bit (drop_bit n x) (i - n)" "bit y i = bit (drop_bit n y) (i - n)"
      by (simp_all add: bit_drop_bit_eq)
    then show "bit x i = bit y i" using h by simp
  qed
next
  assume "\<forall>i\<ge>n. bit x i = bit y i"
  then show "drop_bit n x = drop_bit n y" by (auto simp: bit_eq_iff bit_drop_bit_eq)
qed

lemma bit32: "bit (x :: u32) i \<Longrightarrow> i < 32"
  using bit_imp_le_length [of x i] by simp

lemma prefix_agree:
  "(x XOR y) AND NOT (mask n) = 0 \<longleftrightarrow> drop_bit n x = drop_bit n (y :: u32)"
  unfolding drop_agree by (auto simp: bit_eq_iff bit_simps) (metis bit32 leD)+

lemma byte_masks:
  "0xffffff00 = NOT (mask 8 :: u32)" "0xffff0000 = NOT (mask 16 :: u32)"
  "0xff000000 = NOT (mask 24 :: u32)"
  by (simp_all add: mask_eq_exp_minus_1 not_eq_complement)

lemma take_shorter:
  fixes f :: u32
  assumes "take_bit n f = take_bit n g" and "m \<le> n"
  shows "take_bit m f = take_bit m g"
proof -
  from assms have "take_bit m (take_bit n f) = take_bit m (take_bit n g)" by simp
  with \<open>m \<le> n\<close> show ?thesis by (simp add: min_def)
qed

lemma host_part_shorter:
  fixes f :: u32
  assumes "take_bit n f = 0 \<or> take_bit n f = mask n" and "m \<le> n"
  shows "take_bit m f = 0 \<or> take_bit m f = mask m"
  using assms take_shorter [of n f 0 m] take_shorter [of n f "- 1" m] by auto

lemma drop_shorter:
  fixes x :: u32
  shows "drop_bit m x = drop_bit m y \<Longrightarrow> m \<le> n \<Longrightarrow> drop_bit n x = drop_bit n y"
  by (auto simp: drop_agree)

text \<open>
  \<^verbatim>\<open>ip_same_addr\<close> recognises exactly the addresses its comment describes: the address
  itself, a wildcard on either side, the limited broadcast, and the network and
  directed broadcast addresses of every byte-aligned network around the local address;
  looking only at the longest common byte prefix loses nothing.
\<close>
lemma ip_same_addr_iff:
  "ip_same_addr loc foreign \<longleftrightarrow>
     loc = foreign \<or> loc = INADDR_ANY \<or> foreign = INADDR_ANY \<or> foreign = INADDR_BROADCAST \<or>
     (\<exists>n \<in> {8, 16, 24}. drop_bit n loc = drop_bit n foreign \<and>
        (take_bit n foreign = 0 \<or> take_bit n foreign = mask n))"
proof -
  let ?host = "\<lambda>n. take_bit n foreign = 0 \<or> take_bit n foreign = mask n"
  let ?net = "\<lambda>n. drop_bit n loc = drop_bit n foreign"
  have loop: "same_addr_loop loc foreign [0xffffff00, 0xffff0000, 0xff000000] \<longleftrightarrow>
      (if ?net 8 then ?host 8 else if ?net 16 then ?host 16 else ?net 24 \<and> ?host 24)"
    by (simp add: byte_masks prefix_agree take_bit_eq_mask del: bit.double_compl)
  have h: "?host 16 \<Longrightarrow> ?host 8" "?host 24 \<Longrightarrow> ?host 8" "?host 24 \<Longrightarrow> ?host 16"
    by (erule host_part_shorter, simp)+
  have e: "(if ?net 8 then ?host 8 else if ?net 16 then ?host 16 else ?net 24 \<and> ?host 24)
      \<longleftrightarrow> (\<exists>n \<in> {8, 16, 24}. ?net n \<and> ?host n)"
    using h by (simp only: bex_simps split: if_split) argo
  have bc: "NOT foreign = 0 \<longleftrightarrow> foreign = INADDR_BROADCAST"
  proof -
    have "INADDR_BROADCAST = NOT 0" by simp
    then show ?thesis by (metis bit.double_compl)
  qed
  show ?thesis unfolding ip_same_addr_def loop e bc by simp
qed

end
