(* ===== verification/Route.thy ===== *)
theory Route
  imports Netif "HOL-Library.Monad_Syntax"
begin

text \<open>
  The router of \<^verbatim>\<open>kernel/route.c\<close> and \<^verbatim>\<open>kernel/route.h\<close>. Route structures live in a
  heap, because clients (connections, packets on their way) hold counted references to
  them while the table changes; an access to a structure that has been freed is a failure
  of the model, the outer \<open>None\<close>. \<^verbatim>\<open>kmalloc\<close> belongs to the system: the pointer it
  returns is an argument.
\<close>

section \<open>State\<close>

abbreviation RT_HASH_SIZE :: nat where "RT_HASH_SIZE \<equiv> 256"
abbreviation RT_TTL :: u16 where "RT_TTL \<equiv> 100"
abbreviation RTF_UP :: u16 where "RTF_UP \<equiv> 0x0001"
abbreviation RTF_GATEWAY :: u16 where "RTF_GATEWAY \<equiv> 0x0002"
abbreviation RTF_HOST :: u16 where "RTF_HOST \<equiv> 0x0004"
abbreviation RTF_STATIC :: u16 where "RTF_STATIC \<equiv> 0x0010"
abbreviation RTF_LOCAL :: u16 where "RTF_LOCAL \<equiv> 0x0100"

record route =
  rt_net :: u32
  rt_mask :: u32
  rt_gway :: u32
  rt_metric :: u32
  rt_nif :: nat
  rt_ttl :: u16
  rt_flags :: u16
  rt_usecnt :: u32
  rt_refcnt :: u16

record routes =
  rheap :: "nat \<rightharpoonup> route"
  allroutes :: "nat \<Rightarrow> nat list"
  defroute :: "nat option"

section \<open>Operations\<close>

definition route_deref :: "nat \<Rightarrow> routes \<Rightarrow> routes option" where
  "route_deref a s = do {
     rt \<leftarrow> rheap s a;
     let n = rt_refcnt rt - 1;
     Some (if sint n \<le> 0 then s\<lparr>rheap := (rheap s)(a := None)\<rparr>
           else s\<lparr>rheap := (rheap s)(a \<mapsto> rt\<lparr>rt_refcnt := n\<rparr>)\<rparr>)
   }"

definition route_hash :: "u32 \<Rightarrow> nat" where
  "route_hash d =
     unat ((if IN_CLASSA d then ucast (drop_bit 24 d)
            else if IN_CLASSB d then ucast (drop_bit 16 d XOR drop_bit 24 d)
            else if IN_CLASSC d then ucast (drop_bit 8 d XOR drop_bit 16 d XOR drop_bit 24 d)
            else ucast (d XOR drop_bit 8 d XOR drop_bit 16 d XOR drop_bit 24 d)) AND (0xff :: u16))"

definition rt_usable :: "route \<Rightarrow> bool" where
  "rt_usable rt \<longleftrightarrow> sint (rt_ttl rt) > 0 \<and> rt_flags rt AND RTF_UP \<noteq> 0"

text \<open>The scan of one chain: the host route it stopped at, and the last net route it saw.\<close>

fun route_scan ::
  "(nat \<rightharpoonup> route) \<Rightarrow> u32 \<Rightarrow> nat option \<Rightarrow> nat list \<Rightarrow> (nat option \<times> nat option) option" where
  "route_scan h daddr netrt [] = Some (None, netrt)"
| "route_scan h daddr netrt (a # as) =
     (case h a of
        None \<Rightarrow> None
      | Some rt \<Rightarrow>
          if \<not> rt_usable rt then route_scan h daddr netrt as
          else if rt_mask rt AND daddr = rt_net rt then
            (if rt_flags rt AND RTF_HOST \<noteq> 0 then Some (Some a, netrt)
             else route_scan h daddr (Some a) as)
          else route_scan h daddr netrt as)"

definition route_get :: "u32 \<Rightarrow> routes \<Rightarrow> (nat option \<times> routes) option" where
  "route_get daddr s = do {
     (hostrt, netrt) \<leftarrow> route_scan (rheap s) daddr None (allroutes s (route_hash daddr));
     case (case hostrt of
             Some a \<Rightarrow> Some a
           | None \<Rightarrow> (case netrt of Some a \<Rightarrow> Some a | None \<Rightarrow> defroute s)) of
       None \<Rightarrow> Some (None, s)
     | Some a \<Rightarrow> do {
         rt \<leftarrow> rheap s a;
         if rt_flags rt AND RTF_UP \<noteq> 0 then
           Some (Some a, s\<lparr>rheap := (rheap s)(a \<mapsto> rt\<lparr>rt_refcnt := rt_refcnt rt + 1,
                                                      rt_usecnt := rt_usecnt rt + 1\<rparr>)\<rparr>)
         else Some (None, s)
       }
   }"

definition route_alloc ::
  "nat option \<Rightarrow> nat \<Rightarrow> u32 \<Rightarrow> u32 \<Rightarrow> u32 \<Rightarrow> u16 \<Rightarrow> u16 \<Rightarrow> u32 \<Rightarrow> routes \<Rightarrow> nat option \<times> routes" where
  "route_alloc kmalloc nif net msk gway flags ttl metric s =
     (case kmalloc of
        None \<Rightarrow> (None, s)
      | Some a \<Rightarrow>
          if flags AND RTF_GATEWAY \<noteq> 0 \<and> gway = INADDR_ANY then (None, s)
          else (Some a, s\<lparr>rheap := (rheap s)(a \<mapsto>
                 \<lparr>rt_net = net, rt_mask = msk,
                  rt_gway = (if flags AND RTF_GATEWAY \<noteq> 0 then gway else INADDR_ANY),
                  rt_metric = metric, rt_nif = nif, rt_ttl = ttl, rt_flags = flags,
                  rt_usecnt = 0, rt_refcnt = 1\<rparr>)\<rparr>))"

text \<open>The chain entry \<^verbatim>\<open>route_add\<close> stops at, and its replacement in the chain.\<close>

fun chain_find :: "(nat \<rightharpoonup> route) \<Rightarrow> u32 \<Rightarrow> u32 \<Rightarrow> nat list \<Rightarrow> nat option option" where
  "chain_find h net msk [] = Some None"
| "chain_find h net msk (a # as) =
     (case h a of
        None \<Rightarrow> None
      | Some rt \<Rightarrow> if rt_mask rt = msk \<and> rt_net rt = net then Some (Some a)
                   else chain_find h net msk as)"

definition route_add ::
  "nat option \<Rightarrow> nat \<Rightarrow> u32 \<Rightarrow> u32 \<Rightarrow> u32 \<Rightarrow> u16 \<Rightarrow> u16 \<Rightarrow> u32 \<Rightarrow> routes \<Rightarrow>
     ((errno + unit) \<times> routes) option" where
  "route_add kmalloc nif net msk gway flags ttl metric s =
     (case route_alloc kmalloc nif net msk gway flags ttl metric s of
        (None, s1) \<Rightarrow> Some (Inl ENOMEM, s1)
      | (Some new, s1) \<Rightarrow>
          if net = INADDR_ANY then do {
            s2 \<leftarrow> (case defroute s1 of None \<Rightarrow> Some s1 | Some a \<Rightarrow> route_deref a s1);
            Some (Inr (), s2\<lparr>defroute := Some new\<rparr>)
          }
          else do {
            let i = route_hash net;
            found \<leftarrow> chain_find (rheap s1) net msk (allroutes s1 i);
            case found of
              None \<Rightarrow> Some (Inr (), s1\<lparr>allroutes := (allroutes s1)(i := allroutes s1 i @ [new])\<rparr>)
            | Some a \<Rightarrow> do {
                rt \<leftarrow> rheap s1 a;
                if flags AND RTF_STATIC = 0 \<and> rt_flags rt AND RTF_STATIC \<noteq> 0 then
                  Some (Inl EACCES, s1\<lparr>rheap := (rheap s1)(new := None)\<rparr>)
                else do {
                  s2 \<leftarrow> route_deref a s1;
                  Some (Inr (), s2\<lparr>allroutes := (allroutes s2)
                    (i := map (\<lambda>x. if x = a then new else x) (allroutes s2 i))\<rparr>)
                }
              }
          })"

text \<open>Unlinking and dereferencing every entry of a chain that satisfies a test.\<close>

fun chain_remove :: "(route \<Rightarrow> bool) \<Rightarrow> nat list \<Rightarrow> routes \<Rightarrow> (nat list \<times> routes) option" where
  "chain_remove P [] s = Some ([], s)"
| "chain_remove P (a # as) s = do {
     rt \<leftarrow> rheap s a;
     if P rt then do { s1 \<leftarrow> route_deref a s; chain_remove P as s1 }
     else do { (as', s1) \<leftarrow> chain_remove P as s; Some (a # as', s1) }
   }"

definition route_del :: "u32 \<Rightarrow> u32 \<Rightarrow> routes \<Rightarrow> routes option" where
  "route_del net msk s =
     (case (if net = INADDR_ANY then defroute s else None) of
        Some a \<Rightarrow> do { s1 \<leftarrow> route_deref a s; Some (s1\<lparr>defroute := None\<rparr>) }
      | None \<Rightarrow> do {
          let i = route_hash net;
          (as', s1) \<leftarrow> chain_remove (\<lambda>rt. rt_mask rt = msk \<and> rt_net rt = net) (allroutes s i) s;
          Some (s1\<lparr>allroutes := (allroutes s1)(i := as')\<rparr>)
        })"

fun flush_chains :: "nat \<Rightarrow> nat list \<Rightarrow> routes \<Rightarrow> routes option" where
  "flush_chains nif [] s = Some s"
| "flush_chains nif (i # is) s = do {
     (as', s1) \<leftarrow> chain_remove (\<lambda>rt. rt_nif rt = nif \<and> rt_flags rt AND RTF_LOCAL = 0)
        (allroutes s i) s;
     flush_chains nif is (s1\<lparr>allroutes := (allroutes s1)(i := as')\<rparr>)
   }"

definition route_flush :: "nat \<Rightarrow> routes \<Rightarrow> routes option" where
  "route_flush nif s = do {
     s1 \<leftarrow> (case defroute s of
             None \<Rightarrow> Some s
           | Some a \<Rightarrow> do {
               rt \<leftarrow> rheap s a;
               if rt_nif rt = nif then do { s1 \<leftarrow> route_deref a s; Some (s1\<lparr>defroute := None\<rparr>) }
               else Some s });
     flush_chains nif [0..<RT_HASH_SIZE] s1
   }"

text \<open>The request of the routing \<^verbatim>\<open>ioctl\<close>s.\<close>

record rtentry =
  rte_dst_family :: u16
  rte_dst :: u32
  rte_gateway_family :: u16
  rte_gateway :: u32
  rte_flags :: u16
  rte_metric :: u32

datatype route_cmd = SIOCADDRT | SIOCDELRT | OTHER_IOCTL

definition route_ioctl ::
  "netif list \<Rightarrow> u16 \<Rightarrow> nat option \<Rightarrow> route_cmd \<Rightarrow> rtentry \<Rightarrow> routes \<Rightarrow>
     ((errno + unit) \<times> routes) option" where
  "route_ioctl allinterfaces geteuid kmalloc cmd rte s =
     (if cmd = OTHER_IOCTL then Some (Inl ENOSYS, s)
      else if geteuid \<noteq> 0 then Some (Inl EACCES, s)
      else if rte_dst_family rte \<noteq> AF_INET then Some (Inl EAFNOSUPPORT, s)
      else
        let net = rte_dst rte; m = ip_netmask allinterfaces net in
        if m = 0 then Some (Inl EADDRNOTAVAIL, s)
        else
          let host = (net AND NOT m \<noteq> 0);
              flags = (if host then rte_flags rte OR RTF_HOST else rte_flags rte AND NOT RTF_HOST);
              msk = (if host then 0xffffffff else m)
          in case cmd of
               SIOCADDRT \<Rightarrow>
                 if flags AND RTF_GATEWAY \<noteq> 0 \<and> rte_gateway_family rte \<noteq> AF_INET
                 then Some (Inl EAFNOSUPPORT, s)
                 else
                   let gway = (if flags AND RTF_GATEWAY \<noteq> 0 then rte_gateway rte else INADDR_ANY)
                   in (case if_net2if allinterfaces
                              (if flags AND RTF_GATEWAY \<noteq> 0 then gway else net) of
                         None \<Rightarrow> Some (Inl ENETUNREACH, s)
                       | Some nif \<Rightarrow>
                           route_add kmalloc (nif_id nif) net msk gway flags RT_TTL (rte_metric rte) s)
             | _ \<Rightarrow> do { s' \<leftarrow> route_del net msk s; Some (Inr (), s') })"

definition route_init :: "routes \<Rightarrow> routes" where
  "route_init s = s\<lparr>allroutes := (\<lambda>_. []), defroute := None\<rparr>"

section \<open>Dropping references\<close>

text \<open>The effect of one \<^verbatim>\<open>route_deref\<close> on the heap cell.\<close>

definition drop1 :: "route option \<Rightarrow> route option" where
  "drop1 cell = (case cell of
     None \<Rightarrow> None
   | Some rt \<Rightarrow> if sint (rt_refcnt rt - 1) \<le> 0 then None
                else Some (rt\<lparr>rt_refcnt := rt_refcnt rt - 1\<rparr>))"

lemma route_deref_eq:
  "rheap s a = Some rt \<Longrightarrow>
   route_deref a s = Some (s\<lparr>rheap := (rheap s)(a := drop1 (rheap s a))\<rparr>)"
  by (simp add: route_deref_def drop1_def Let_def)

definition dropping :: "nat set \<Rightarrow> (nat \<rightharpoonup> route) \<Rightarrow> (nat \<rightharpoonup> route)" where
  "dropping R h = (\<lambda>x. if x \<in> R then drop1 (h x) else h x)"

lemma dropping_simps [simp]:
  "dropping {} h = h"
  "x \<notin> R \<Longrightarrow> dropping R h x = h x"
  by (auto simp: dropping_def)

definition hits :: "(route \<Rightarrow> bool) \<Rightarrow> (nat \<rightharpoonup> route) \<Rightarrow> nat \<Rightarrow> bool" where
  "hits P h a = (case h a of None \<Rightarrow> False | Some rt \<Rightarrow> P rt)"

lemma chain_remove_eq:
  assumes "distinct as" and "\<forall>a \<in> set as. rheap s a \<noteq> None"
  shows "chain_remove P as s =
    Some (filter (\<lambda>a. \<not> hits P (rheap s) a) as,
          s\<lparr>rheap := dropping {a \<in> set as. hits P (rheap s) a} (rheap s)\<rparr>)"
  using assms
proof (induction as arbitrary: s)
  case (Cons a as)
  then obtain rt where rt: "rheap s a = Some rt" by auto
  show ?case
  proof (cases "P rt")
    case True
    let ?s = "s\<lparr>rheap := (rheap s)(a := drop1 (rheap s a))\<rparr>"
    have h: "hits P (rheap ?s) x = hits P (rheap s) x" if "x \<in> set as" for x
      using that Cons.prems by (auto simp: hits_def)
    have hs: "{x \<in> set as. hits P (rheap ?s) x} = {x \<in> set as. hits P (rheap s) x}"
      using h by blast
    have f: "filter (\<lambda>a. \<not> hits P (rheap ?s) a) as = filter (\<lambda>a. \<not> hits P (rheap s) a) as"
      using h by (simp cong: filter_cong)
    have "chain_remove P as ?s = Some (filter (\<lambda>a. \<not> hits P (rheap ?s) a) as,
        ?s\<lparr>rheap := dropping {x \<in> set as. hits P (rheap ?s) x} (rheap ?s)\<rparr>)"
      using Cons.prems by (intro Cons.IH) auto
    moreover have "dropping {x \<in> set as. hits P (rheap s) x} (rheap ?s) =
        dropping {x \<in> set (a # as). hits P (rheap s) x} (rheap s)"
      using Cons.prems rt True by (auto simp: dropping_def hits_def fun_eq_iff)
    ultimately show ?thesis using rt True unfolding hs f
      by (simp add: route_deref_eq hits_def)
  next
    case False
    have "{x \<in> set (a # as). hits P (rheap s) x} = {x \<in> set as. hits P (rheap s) x}"
      using rt False by (auto simp: hits_def)
    with Cons.IH [of s] Cons.prems rt False show ?thesis
      by (simp add: hits_def)
  qed
qed simp

section \<open>The invariant\<close>

definition linked :: "routes \<Rightarrow> nat \<Rightarrow> bool" where
  "linked s a \<longleftrightarrow> defroute s = Some a \<or> (\<exists>i. a \<in> set (allroutes s i))"

text \<open>
  \<open>held a\<close> is the number of references clients hold. A structure exists exactly while it
  is linked or held, its count is the number of these references, each chain holds the
  routes of its hash value once, and no two routes have the same network and mask.
\<close>

definition routes_inv :: "(nat \<Rightarrow> nat) \<Rightarrow> routes \<Rightarrow> bool" where
  "routes_inv held s \<longleftrightarrow>
     (\<forall>i. distinct (allroutes s i)) \<and>
     (\<forall>i. \<forall>a \<in> set (allroutes s i). \<exists>rt. rheap s a = Some rt \<and>
        rt_net rt \<noteq> INADDR_ANY \<and> route_hash (rt_net rt) = i) \<and>
     (\<forall>a. defroute s = Some a \<longrightarrow> (\<exists>rt. rheap s a = Some rt \<and> rt_net rt = INADDR_ANY)) \<and>
     (\<forall>i. \<forall>a \<in> set (allroutes s i). \<forall>b \<in> set (allroutes s i). \<forall>rt rt'.
        rheap s a = Some rt \<longrightarrow> rheap s b = Some rt' \<longrightarrow>
        rt_net rt = rt_net rt' \<longrightarrow> rt_mask rt = rt_mask rt' \<longrightarrow> a = b) \<and>
     (\<forall>a. case rheap s a of
            None \<Rightarrow> held a = 0
          | Some rt \<Rightarrow> sint (rt_refcnt rt) = int ((if linked s a then 1 else 0) + held a) \<and>
                       (linked s a \<or> held a > 0))"

lemma routes_invD:
  assumes "routes_inv held s"
  shows "distinct (allroutes s i)"
    "a \<in> set (allroutes s i) \<Longrightarrow> \<exists>rt. rheap s a = Some rt \<and> rt_net rt \<noteq> INADDR_ANY \<and> route_hash (rt_net rt) = i"
    "defroute s = Some a \<Longrightarrow> \<exists>rt. rheap s a = Some rt \<and> rt_net rt = INADDR_ANY"
    "a \<in> set (allroutes s i) \<Longrightarrow> b \<in> set (allroutes s i) \<Longrightarrow> rheap s a = Some rt \<Longrightarrow>
       rheap s b = Some rt' \<Longrightarrow> rt_net rt = rt_net rt' \<Longrightarrow> rt_mask rt = rt_mask rt' \<Longrightarrow> a = b"
    "rheap s a = None \<Longrightarrow> held a = 0"
    "rheap s a = Some rt \<Longrightarrow> sint (rt_refcnt rt) = int ((if linked s a then 1 else 0) + held a)"
    "rheap s a = Some rt \<Longrightarrow> linked s a \<or> held a > 0"
proof -
  note i = assms [unfolded routes_inv_def]
  show "distinct (allroutes s i)" using i by blast
  show "a \<in> set (allroutes s i) \<Longrightarrow> \<exists>rt. rheap s a = Some rt \<and> rt_net rt \<noteq> INADDR_ANY \<and> route_hash (rt_net rt) = i"
    using i by blast
  show "defroute s = Some a \<Longrightarrow> \<exists>rt. rheap s a = Some rt \<and> rt_net rt = INADDR_ANY" using i by blast
  show "a \<in> set (allroutes s i) \<Longrightarrow> b \<in> set (allroutes s i) \<Longrightarrow> rheap s a = Some rt \<Longrightarrow>
       rheap s b = Some rt' \<Longrightarrow> rt_net rt = rt_net rt' \<Longrightarrow> rt_mask rt = rt_mask rt' \<Longrightarrow> a = b"
    using i by blast
  have c: "case rheap s a of None \<Rightarrow> held a = 0
    | Some rt \<Rightarrow> sint (rt_refcnt rt) = int ((if linked s a then 1 else 0) + held a) \<and>
        (linked s a \<or> held a > 0)" using i by blast
  show "rheap s a = None \<Longrightarrow> held a = 0"
    "rheap s a = Some rt \<Longrightarrow> sint (rt_refcnt rt) = int ((if linked s a then 1 else 0) + held a)"
    "rheap s a = Some rt \<Longrightarrow> linked s a \<or> held a > 0" using c by simp_all
qed

lemma routes_invI:
  assumes "\<And>i. distinct (allroutes s i)"
    "\<And>i a. a \<in> set (allroutes s i) \<Longrightarrow> \<exists>rt. rheap s a = Some rt \<and> rt_net rt \<noteq> INADDR_ANY \<and> route_hash (rt_net rt) = i"
    "\<And>a. defroute s = Some a \<Longrightarrow> \<exists>rt. rheap s a = Some rt \<and> rt_net rt = INADDR_ANY"
    "\<And>i a b rt rt'. a \<in> set (allroutes s i) \<Longrightarrow> b \<in> set (allroutes s i) \<Longrightarrow> rheap s a = Some rt \<Longrightarrow>
       rheap s b = Some rt' \<Longrightarrow> rt_net rt = rt_net rt' \<Longrightarrow> rt_mask rt = rt_mask rt' \<Longrightarrow> a = b"
    "\<And>a. rheap s a = None \<Longrightarrow> held a = 0"
    "\<And>a rt. rheap s a = Some rt \<Longrightarrow>
       sint (rt_refcnt rt) = int ((if linked s a then 1 else 0) + held a) \<and> (linked s a \<or> held a > 0)"
  shows "routes_inv held s"
proof -
  have "case rheap s a of None \<Rightarrow> held a = 0
    | Some rt \<Rightarrow> sint (rt_refcnt rt) = int ((if linked s a then 1 else 0) + held a) \<and>
        (linked s a \<or> held a > 0)" for a
    using assms(5,6) by (cases "rheap s a") auto
  then show ?thesis unfolding routes_inv_def using assms(1-4) by blast
qed

lemma linked_heap_upd [simp]: "linked (s\<lparr>rheap := h\<rparr>) = linked s"
  by (simp add: linked_def fun_eq_iff)

lemma linked_heap: "routes_inv held s \<Longrightarrow> linked s a \<Longrightarrow> \<exists>rt. rheap s a = Some rt"
  unfolding linked_def using routes_invD(2,3) by blast

lemma held_heap: "routes_inv held s \<Longrightarrow> held a > 0 \<Longrightarrow> \<exists>rt. rheap s a = Some rt"
  using routes_invD(5) by (cases "rheap s a") fastforce+

lemma drop1_core:
  assumes "drop1 h = Some rt'"
  obtains rt where "h = Some rt" "rt_net rt' = rt_net rt" "rt_mask rt' = rt_mask rt"
    "rt_nif rt' = rt_nif rt" "rt_flags rt' = rt_flags rt" "rt_ttl rt' = rt_ttl rt"
  using assms by (auto simp: drop1_def split: option.splits if_splits)

lemma drop1_count:
  assumes "sint (rt_refcnt rt) = int n" and "n > 0"
  shows "n = 1 \<Longrightarrow> drop1 (Some rt) = None"
    "n > 1 \<Longrightarrow> \<exists>rt'. drop1 (Some rt) = Some rt' \<and> sint (rt_refcnt rt') = int (n - 1) \<and>
       rt' = rt\<lparr>rt_refcnt := rt_refcnt rt'\<rparr>"
  using assms sint_minus1_16 [of "rt_refcnt rt"] by (auto simp: drop1_def)

section \<open>Unlinking and linking\<close>

text \<open>
  All the operations that remove routes unlink a set of linked structures and drop the
  table's reference to each; all that add one link a new structure.
\<close>

definition unlinking :: "nat set \<Rightarrow> routes \<Rightarrow> routes" where
  "unlinking R s = s\<lparr>rheap := dropping R (rheap s),
     allroutes := (\<lambda>i. filter (\<lambda>a. a \<notin> R) (allroutes s i)),
     defroute := (case defroute s of None \<Rightarrow> None | Some a \<Rightarrow> if a \<in> R then None else Some a)\<rparr>"

lemma unlinking_sel [simp]:
  "rheap (unlinking R s) = dropping R (rheap s)"
  "allroutes (unlinking R s) i = filter (\<lambda>a. a \<notin> R) (allroutes s i)"
  "defroute (unlinking R s) = Some a \<longleftrightarrow> defroute s = Some a \<and> a \<notin> R"
  "linked (unlinking R s) a \<longleftrightarrow> linked s a \<and> a \<notin> R"
  by (auto simp: unlinking_def linked_def split: option.splits if_splits)

lemma unlink_inv:
  assumes inv: "routes_inv held s" and R: "\<And>a. a \<in> R \<Longrightarrow> linked s a"
  shows "routes_inv held (unlinking R s)"
proof (rule routes_invI)
  fix i a assume "a \<in> set (allroutes (unlinking R s) i)"
  then have "a \<in> set (allroutes s i)" "a \<notin> R" by auto
  then show "\<exists>rt. rheap (unlinking R s) a = Some rt \<and> rt_net rt \<noteq> INADDR_ANY \<and> route_hash (rt_net rt) = i"
    using routes_invD(2) [OF inv] by simp
next
  fix i a b rt rt'
  assume "a \<in> set (allroutes (unlinking R s) i)" "b \<in> set (allroutes (unlinking R s) i)"
    "rheap (unlinking R s) a = Some rt" "rheap (unlinking R s) b = Some rt'"
    "rt_net rt = rt_net rt'" "rt_mask rt = rt_mask rt'"
  then show "a = b" using routes_invD(4) [OF inv, of a i b rt rt'] by simp
next
  fix a assume n: "rheap (unlinking R s) a = None"
  show "held a = 0"
  proof (cases "a \<in> R")
    case True
    then obtain rt where rt: "rheap s a = Some rt" using linked_heap [OF inv] R by blast
    with routes_invD(6) [OF inv this] True R n drop1_count(2) [of rt "Suc (held a)"] show ?thesis
      by (auto simp: dropping_def split: if_splits)
  next
    case False
    with n show ?thesis using routes_invD(5) [OF inv] by simp
  qed
next
  fix a rt assume rt: "rheap (unlinking R s) a = Some rt"
  show "sint (rt_refcnt rt) = int ((if linked (unlinking R s) a then 1 else 0) + held a) \<and>
      (linked (unlinking R s) a \<or> held a > 0)"
  proof (cases "a \<in> R")
    case True
    then obtain rt0 where rt0: "rheap s a = Some rt0" using linked_heap [OF inv] R by blast
    have c: "sint (rt_refcnt rt0) = int (Suc (held a))" using routes_invD(6) [OF inv rt0] R True by simp
    have "held a > 0"
      using drop1_count(1) [OF c] rt True rt0 by (cases "held a") (auto simp: dropping_def)
    then show ?thesis using drop1_count(2) [OF c] rt True rt0 by (auto simp: dropping_def)
  next
    case False
    then show ?thesis using routes_invD(6,7) [OF inv] rt by simp
  qed
qed (use routes_invD(1,3) [OF inv] in \<open>auto simp: distinct_filter\<close>)

definition fresh_cell :: "routes \<Rightarrow> nat \<Rightarrow> route \<Rightarrow> bool" where
  "fresh_cell s new rt \<longleftrightarrow> rheap s new = None \<and> rt_refcnt rt = 1"

lemma fresh_unlinked: "routes_inv held s \<Longrightarrow> fresh_cell s new rt \<Longrightarrow> \<not> linked s new \<and> held new = 0"
  using linked_heap [of held s new] routes_invD(5) [of held s new] by (auto simp: fresh_cell_def)

lemma link_chain_inv:
  assumes inv: "routes_inv held s" and f: "fresh_cell s new rt"
    and net: "rt_net rt \<noteq> INADDR_ANY" and i: "route_hash (rt_net rt) = i"
    and ch: "allroutes s i = xs @ ys"
    and uniq: "\<And>b rt'. b \<in> set (allroutes s i) \<Longrightarrow> rheap s b = Some rt' \<Longrightarrow>
      \<not> (rt_net rt = rt_net rt' \<and> rt_mask rt = rt_mask rt')"
  shows "routes_inv held (s\<lparr>rheap := (rheap s)(new \<mapsto> rt), allroutes := (allroutes s)(i := xs @ new # ys)\<rparr>)"
    (is "routes_inv held ?s")
proof -
  note nl = fresh_unlinked [OF inv f]
  have mem: "a \<in> set (allroutes ?s j) \<longleftrightarrow> a \<in> set (allroutes s j) \<or> (a = new \<and> j = i)" for a j
    using ch by auto
  have l: "linked ?s a \<longleftrightarrow> linked s a \<or> a = new" for a
    unfolding linked_def mem by auto
  have neq: "a \<noteq> new" if "linked s a" for a using nl that by blast
  have old: "a \<noteq> new" if "a \<in> set (allroutes s j)" for a j
    using neq [of a] that by (auto simp: linked_def)
  show ?thesis
  proof (rule routes_invI)
    fix j show "distinct (allroutes ?s j)"
      using routes_invD(1) [OF inv, of j] old [of new i] ch by auto
  next
    fix j a assume "a \<in> set (allroutes ?s j)"
    then show "\<exists>rt. rheap ?s a = Some rt \<and> rt_net rt \<noteq> INADDR_ANY \<and> route_hash (rt_net rt) = j"
      unfolding mem using routes_invD(2) [OF inv, of a j] net i old [of a j] by auto
  next
    fix a assume "defroute ?s = Some a"
    then show "\<exists>rt. rheap ?s a = Some rt \<and> rt_net rt = INADDR_ANY"
      using routes_invD(3) [OF inv, of a] neq [of a] by (auto simp: linked_def)
  next
    fix j a b r r'
    assume h: "a \<in> set (allroutes ?s j)" "b \<in> set (allroutes ?s j)" "rheap ?s a = Some r"
      "rheap ?s b = Some r'" "rt_net r = rt_net r'" "rt_mask r = rt_mask r'"
    show "a = b"
    proof (cases "a = new \<or> b = new")
      case True
      then show ?thesis
        using h uniq [of a r] uniq [of b r'] old [of new j] unfolding mem by (auto split: if_splits)
    next
      case False
      then show ?thesis using h routes_invD(4) [OF inv, of a j b r r'] unfolding mem by auto
    qed
  next
    fix a assume "rheap ?s a = None"
    then show "held a = 0" using routes_invD(5) [OF inv] by (auto split: if_splits)
  next
    fix a r assume "rheap ?s a = Some r"
    then show "sint (rt_refcnt r) = int ((if linked ?s a then 1 else 0) + held a) \<and> (linked ?s a \<or> held a > 0)"
      unfolding l using routes_invD(6,7) [OF inv, of a r] nl f
      by (cases "a = new") (auto simp: fresh_cell_def)
  qed
qed

lemma link_def_inv:
  assumes inv: "routes_inv held s" and f: "fresh_cell s new rt"
    and net: "rt_net rt = INADDR_ANY" and d: "defroute s = None"
  shows "routes_inv held (s\<lparr>rheap := (rheap s)(new \<mapsto> rt), defroute := Some new\<rparr>)"
    (is "routes_inv held ?s")
proof -
  note nl = fresh_unlinked [OF inv f]
  have l: "linked ?s a \<longleftrightarrow> linked s a \<or> a = new" for a
    using d by (auto simp: linked_def)
  have old: "a \<noteq> new" if "a \<in> set (allroutes s j)" for a j
    using nl that by (auto simp: linked_def)
  show ?thesis
  proof (rule routes_invI)
    fix j a b r r'
    assume "a \<in> set (allroutes ?s j)" "b \<in> set (allroutes ?s j)" "rheap ?s a = Some r"
      "rheap ?s b = Some r'" "rt_net r = rt_net r'" "rt_mask r = rt_mask r'"
    then show "a = b" using routes_invD(4) [OF inv, of a j b r r'] old by auto
  next
    fix a r assume "rheap ?s a = Some r"
    then show "sint (rt_refcnt r) = int ((if linked ?s a then 1 else 0) + held a) \<and> (linked ?s a \<or> held a > 0)"
      unfolding l using routes_invD(6,7) [OF inv, of a r] nl f
      by (cases "a = new") (auto simp: fresh_cell_def)
  qed (use routes_invD(1,2,5) [OF inv] old net in \<open>auto split: if_splits\<close>)
qed

section \<open>The operations on the invariant\<close>

lemma chain_unique: "routes_inv held s \<Longrightarrow> a \<in> set (allroutes s i) \<Longrightarrow> a \<in> set (allroutes s j) \<Longrightarrow> i = j"
  using routes_invD(2) [of held s a i] routes_invD(2) [of held s a j] by auto

lemma chain_not_default: "routes_inv held s \<Longrightarrow> a \<in> set (allroutes s i) \<Longrightarrow> defroute s \<noteq> Some a"
  using routes_invD(2) [of held s a i] routes_invD(3) [of held s a] by auto

lemma unlink_default_eq:
  assumes "routes_inv held s" and "defroute s = Some a"
  shows "s\<lparr>rheap := (rheap s)(a := drop1 (rheap s a)), defroute := None\<rparr> = unlinking {a} s"
proof -
  have "filter (\<lambda>x. x \<noteq> a) (allroutes s i) = allroutes s i" for i
    using chain_not_default [OF assms(1), of _ i] assms(2) by (intro filter_True) auto
  moreover have "(rheap s)(a := drop1 (rheap s a)) = dropping {a} (rheap s)"
    by (auto simp: dropping_def)
  ultimately show ?thesis using assms(2) by (simp add: unlinking_def)
qed

lemma unlink_chain_eq:
  assumes inv: "routes_inv held s" and R: "R \<subseteq> set (allroutes s i)"
  shows "s\<lparr>rheap := dropping R (rheap s), allroutes := (allroutes s)(i := filter (\<lambda>a. a \<notin> R) (allroutes s i))\<rparr>
    = unlinking R s"
proof -
  have "filter (\<lambda>a. a \<notin> R) (allroutes s j) = allroutes s j" if "j \<noteq> i" for j
    using chain_unique [OF inv] R that by (intro filter_True) blast
  then have "(\<lambda>j. filter (\<lambda>a. a \<notin> R) (allroutes s j)) =
      (allroutes s)(i := filter (\<lambda>a. a \<notin> R) (allroutes s i))" by auto
  moreover have "(case defroute s of None \<Rightarrow> None | Some a \<Rightarrow> if a \<in> R then None else Some a) = defroute s"
    using chain_not_default [OF inv] R by (auto split: option.splits)
  ultimately show ?thesis by (simp add: unlinking_def)
qed

lemma chain_remove_unlinks:
  assumes inv: "routes_inv held s"
  shows "\<exists>as' s1. chain_remove P (allroutes s i) s = Some (as', s1) \<and>
    s1\<lparr>allroutes := (allroutes s1)(i := as')\<rparr>
      = unlinking {a \<in> set (allroutes s i). hits P (rheap s) a} s"
proof -
  let ?R = "{a \<in> set (allroutes s i). hits P (rheap s) a}"
  have "chain_remove P (allroutes s i) s = Some (filter (\<lambda>a. \<not> hits P (rheap s) a) (allroutes s i),
      s\<lparr>rheap := dropping ?R (rheap s)\<rparr>)"
    using routes_invD(1,2) [OF inv] by (intro chain_remove_eq) fastforce+
  moreover have "filter (\<lambda>a. \<not> hits P (rheap s) a) (allroutes s i) = filter (\<lambda>a. a \<notin> ?R) (allroutes s i)"
    by (intro filter_cong) auto
  ultimately show ?thesis using unlink_chain_eq [OF inv, of ?R i] by simp
qed

text \<open>\<^verbatim>\<open>route_del\<close>: the structures it unlinks.\<close>

definition del_set :: "u32 \<Rightarrow> u32 \<Rightarrow> routes \<Rightarrow> nat set" where
  "del_set net msk s =
     (case (if net = INADDR_ANY then defroute s else None) of
        Some a \<Rightarrow> {a}
      | None \<Rightarrow> {a \<in> set (allroutes s (route_hash net)).
                   hits (\<lambda>rt. rt_mask rt = msk \<and> rt_net rt = net) (rheap s) a})"

lemma route_del_eq:
  assumes inv: "routes_inv held s"
  shows "route_del net msk s = Some (unlinking (del_set net msk s) s)"
proof (cases "if net = INADDR_ANY then defroute s else None")
  case None
  then show ?thesis
    using chain_remove_unlinks [OF inv, of "\<lambda>rt. rt_mask rt = msk \<and> rt_net rt = net" "route_hash net"]
    by (auto simp: route_del_def del_set_def Let_def)
next
  case (Some a)
  then have d: "defroute s = Some a" by (auto split: if_splits)
  then obtain rt where "rheap s a = Some rt" using routes_invD(3) [OF inv] by blast
  with Some unlink_default_eq [OF inv d] show ?thesis
    by (simp add: route_del_def del_set_def route_deref_eq)
qed

lemma del_set_linked: "a \<in> del_set net msk s \<Longrightarrow> linked s a"
  by (auto simp: del_set_def linked_def split: option.splits if_splits)

lemma unlinking_empty: "unlinking {} s = s"
  by (cases s) (auto simp: unlinking_def split: option.splits)

lemma unlinking_upd:
  assumes "\<And>a. a \<in> R \<Longrightarrow> defroute s \<noteq> Some a"
  shows "(unlinking R s)\<lparr>rheap := X, allroutes := Y\<rparr> = s\<lparr>rheap := X, allroutes := Y\<rparr>"
proof -
  have "(case defroute s of None \<Rightarrow> None | Some a \<Rightarrow> if a \<in> R then None else Some a) = defroute s"
    using assms by (auto split: option.splits)
  then show ?thesis by (simp add: unlinking_def)
qed

lemma unlinking_unlinking:
  "R1 \<inter> R2 = {} \<Longrightarrow> unlinking R2 (unlinking R1 s) = unlinking (R1 \<union> R2) s"
proof -
  assume "R1 \<inter> R2 = {}"
  then have "dropping R2 (dropping R1 (rheap s)) = dropping (R1 \<union> R2) (rheap s)"
    by (auto simp: dropping_def fun_eq_iff)
  then show ?thesis by (auto simp: unlinking_def conj_commute split: option.splits)
qed

definition flush_hits :: "nat \<Rightarrow> routes \<Rightarrow> nat \<Rightarrow> bool" where
  "flush_hits nif s = hits (\<lambda>rt. rt_nif rt = nif \<and> rt_flags rt AND RTF_LOCAL = 0) (rheap s)"

lemma flush_hits_unlinking: "a \<notin> R \<Longrightarrow> flush_hits nif (unlinking R s) a = flush_hits nif s a"
  by (simp add: flush_hits_def hits_def)

lemma flush_chains_eq:
  assumes "routes_inv held s" and "distinct is"
  shows "flush_chains nif is s =
    Some (unlinking {a. (\<exists>i \<in> set is. a \<in> set (allroutes s i)) \<and> flush_hits nif s a} s)"
  using assms
proof (induction "is" arbitrary: s)
  case Nil
  then show ?case by (simp add: unlinking_empty)
next
  case (Cons i "is")
  let ?R = "{a \<in> set (allroutes s i). flush_hits nif s a}"
  let ?Q = "{a. (\<exists>i \<in> set is. a \<in> set (allroutes s i)) \<and> flush_hits nif s a}"
  have inv': "routes_inv held (unlinking ?R s)"
    using Cons.prems(1) by (rule unlink_inv) (auto simp: linked_def)
  have n: "a \<notin> ?R" if "j \<in> set is" "a \<in> set (allroutes s j)" for a j
  proof
    assume "a \<in> ?R"
    then have "i = j" using chain_unique [OF Cons.prems(1)] that(2) by blast
    then show False using Cons.prems(2) that(1) by simp
  qed
  have dis: "?R \<inter> ?Q = {}" using n by blast
  have q: "{a. (\<exists>j \<in> set is. a \<in> set (allroutes (unlinking ?R s) j)) \<and> flush_hits nif (unlinking ?R s) a} = ?Q"
  proof -
    define s' where "s' = unlinking ?R s"
    have f: "flush_hits nif s' a = flush_hits nif s a" if "j \<in> set is" "a \<in> set (allroutes s j)" for a j
      unfolding s'_def using n [OF that] by (rule flush_hits_unlinking)
    have m: "a \<in> set (allroutes s' j) \<longleftrightarrow> a \<in> set (allroutes s j)" if "j \<in> set is" for a j
      unfolding s'_def using n [OF that] by auto
    show ?thesis unfolding s'_def [symmetric] by (rule Collect_cong) (use f m in blast)
  qed
  have "flush_chains nif (i # is) s = flush_chains nif is (unlinking ?R s)"
    using chain_remove_unlinks [OF Cons.prems(1), of
        "\<lambda>rt. rt_nif rt = nif \<and> rt_flags rt AND RTF_LOCAL = 0" i]
    by (auto simp: flush_hits_def)
  also have "\<dots> = Some (unlinking ?Q (unlinking ?R s))"
    using Cons.IH [OF inv'] Cons.prems(2) by (simp only: q distinct.simps simp_thms)
  also have "\<dots> = Some (unlinking (?R \<union> ?Q) s)" using dis by (simp add: unlinking_unlinking)
  also have "?R \<union> ?Q = {a. (\<exists>j \<in> set (i # is). a \<in> set (allroutes s j)) \<and> flush_hits nif s a}" by auto
  finally show ?case .
qed

lemma route_hash_lt: "route_hash d < RT_HASH_SIZE"
proof -
  have "unat (x AND 0xff) < 256" for x :: u16
  proof -
    have "x AND 0xff = take_bit 8 x" by (simp add: take_bit_eq_mask mask_eq_exp_minus_1)
    then show ?thesis by (simp add: unsigned_take_bit_eq take_bit_nat_less_exp [of 8, simplified])
  qed
  then show ?thesis unfolding route_hash_def by blast
qed

definition flush_set :: "nat \<Rightarrow> routes \<Rightarrow> nat set" where
  "flush_set nif s =
     {a. defroute s = Some a \<and> hits (\<lambda>rt. rt_nif rt = nif) (rheap s) a} \<union>
     {a. (\<exists>i. a \<in> set (allroutes s i)) \<and> flush_hits nif s a}"

lemma flush_set_linked: "a \<in> flush_set nif s \<Longrightarrow> linked s a"
  by (auto simp: flush_set_def linked_def)

lemma route_flush_eq:
  assumes inv: "routes_inv held s"
  shows "route_flush nif s = Some (unlinking (flush_set nif s) s)"
proof -
  let ?D = "{a. defroute s = Some a \<and> hits (\<lambda>rt. rt_nif rt = nif) (rheap s) a}"
  let ?C = "{a. (\<exists>i. a \<in> set (allroutes s i)) \<and> flush_hits nif s a}"
  have inv': "routes_inv held (unlinking ?D s)"
    using inv by (rule unlink_inv) (auto simp: linked_def)
  have dis: "?D \<inter> ?C = {}" using chain_not_default [OF inv] by auto
  have lt: "i < RT_HASH_SIZE" if "a \<in> set (allroutes s i)" for a i
    using routes_invD(2) [OF inv that] route_hash_lt by blast
  have nd: "a \<notin> ?D" if "a \<in> set (allroutes s i)" for a i
    using chain_not_default [OF inv that] by auto
  have c: "{a. (\<exists>i \<in> set [0..<RT_HASH_SIZE]. a \<in> set (allroutes (unlinking ?D s) i)) \<and>
      flush_hits nif (unlinking ?D s) a} = ?C"
  proof -
    define s' where "s' = unlinking ?D s"
    have f: "flush_hits nif s' a = flush_hits nif s a" if "a \<in> set (allroutes s i)" for a i
      unfolding s'_def using nd [OF that] by (rule flush_hits_unlinking)
    have m: "a \<in> set (allroutes s' i) \<longleftrightarrow> a \<in> set (allroutes s i)" for a i
      unfolding s'_def using nd [of a i] by auto
    have l: "i \<in> set [0..<RT_HASH_SIZE]" if "a \<in> set (allroutes s i)" for a i
      using lt [OF that] by simp
    show ?thesis unfolding s'_def [symmetric] by (rule Collect_cong) (use f m l in blast)
  qed
  have "route_flush nif s = flush_chains nif [0..<RT_HASH_SIZE] (unlinking ?D s)"
  proof (cases "defroute s")
    case None
    then show ?thesis by (simp add: route_flush_def unlinking_empty)
  next
    case (Some a)
    then obtain rt where rt: "rheap s a = Some rt" using routes_invD(3) [OF inv] by blast
    have "?D = (if rt_nif rt = nif then {a} else {})" using Some rt by (auto simp: hits_def)
    then show ?thesis using Some rt unlink_default_eq [OF inv Some]
      by (simp add: route_flush_def route_deref_eq unlinking_empty)
  qed
  also have "\<dots> = Some (unlinking ?C (unlinking ?D s))"
    using flush_chains_eq [where nif = nif, OF inv' distinct_upt [of 0 RT_HASH_SIZE]] by (simp only: c)
  also have "\<dots> = Some (unlinking (?D \<union> ?C) s)" using dis by (simp add: unlinking_unlinking)
  finally show ?thesis by (simp add: flush_set_def)
qed

lemma chain_find_eq:
  "\<forall>a \<in> set as. h a \<noteq> None \<Longrightarrow>
   chain_find h net msk as = Some (find (hits (\<lambda>rt. rt_mask rt = msk \<and> rt_net rt = net) h) as)"
  by (induction as) (auto simp: hits_def)

section \<open>The table as a map\<close>

text \<open>
  The specification of the router's table: a map from network and mask to the rest of the
  route, and a default route. \<open>entry\<close> forgets the counters.
\<close>

definition entry :: "route \<Rightarrow> route" where
  "entry rt = rt\<lparr>rt_refcnt := 0, rt_usecnt := 0\<rparr>"

abbreviation has_key :: "u32 \<Rightarrow> u32 \<Rightarrow> route \<Rightarrow> bool" where
  "has_key net msk \<equiv> (\<lambda>rt. rt_mask rt = msk \<and> rt_net rt = net)"

definition rtab :: "routes \<Rightarrow> u32 \<times> u32 \<rightharpoonup> route" where
  "rtab s = (\<lambda>(net, msk).
     Option.bind (find (hits (has_key net msk) (rheap s)) (allroutes s (route_hash net)))
       (\<lambda>a. map_option entry (rheap s a)))"

definition rdefault :: "routes \<Rightarrow> route option" where
  "rdefault s = Option.bind (defroute s) (\<lambda>a. map_option entry (rheap s a))"

lemma rtab_Some:
  assumes inv: "routes_inv held s"
  shows "rtab s (net, msk) = Some e \<longleftrightarrow>
    (\<exists>a \<in> set (allroutes s (route_hash net)). \<exists>rt. rheap s a = Some rt \<and> has_key net msk rt \<and> e = entry rt)"
    (is "?l \<longleftrightarrow> ?r")
proof
  assume ?l
  then obtain a where f: "find (hits (has_key net msk) (rheap s)) (allroutes s (route_hash net)) = Some a"
    and e: "map_option entry (rheap s a) = Some e" by (auto simp: rtab_def Option.bind_eq_Some_conv)
  from e obtain rt where "rheap s a = Some rt" "e = entry rt" by auto
  moreover from this find_SomeD [OF f] have "has_key net msk rt" "a \<in> set (allroutes s (route_hash net))"
    by (simp_all add: hits_def)
  ultimately show ?r by blast
next
  assume ?r
  then obtain a rt where a: "a \<in> set (allroutes s (route_hash net))" "rheap s a = Some rt"
    "has_key net msk rt" "e = entry rt" by blast
  then have h: "hits (has_key net msk) (rheap s) a" by (simp add: hits_def)
  then obtain b where f: "find (hits (has_key net msk) (rheap s)) (allroutes s (route_hash net)) = Some b"
    using a(1) by (cases "find (hits (has_key net msk) (rheap s)) (allroutes s (route_hash net))")
      (auto simp: find_None_iff)
  with find_SomeD [OF f] obtain rt' where "rheap s b = Some rt'" "has_key net msk rt'"
    "b \<in> set (allroutes s (route_hash net))" by (auto simp: hits_def split: option.splits)
  with a routes_invD(4) [OF inv, of a _ b rt rt'] have "b = a" by auto
  with f a show ?l by (auto simp: rtab_def)
qed

lemma rtab_eqI:
  assumes "\<And>net msk e. rtab s (net, msk) = Some e \<longleftrightarrow> m (net, msk) = Some e"
  shows "rtab s = m"
proof
  fix k :: "u32 \<times> u32"
  obtain net msk where "k = (net, msk)" by fastforce
  with assms [of net msk] show "rtab s k = m k" by (intro option_eqI) simp
qed

lemma entry_sel [simp]:
  "rt_net (entry rt) = rt_net rt" "rt_mask (entry rt) = rt_mask rt" "rt_gway (entry rt) = rt_gway rt"
  "rt_nif (entry rt) = rt_nif rt" "rt_flags (entry rt) = rt_flags rt" "rt_ttl (entry rt) = rt_ttl rt"
  by (simp_all add: entry_def)

text \<open>Unlinking the routes that satisfy a test on their entries.\<close>

lemma rtab_unlinking:
  assumes inv: "routes_inv held s" and R: "\<And>a. a \<in> R \<Longrightarrow> linked s a"
    and sel: "\<And>i a rt. a \<in> set (allroutes s i) \<Longrightarrow> rheap s a = Some rt \<Longrightarrow> a \<in> R \<longleftrightarrow> P (entry rt)"
  shows "rtab (unlinking R s) = (\<lambda>k. case rtab s k of None \<Rightarrow> None | Some e \<Rightarrow> if P e then None else Some e)"
proof (rule rtab_eqI)
  fix net msk e
  let ?i = "route_hash net"
  have inv': "routes_inv held (unlinking R s)" using inv R by (rule unlink_inv)
  have "rtab (unlinking R s) (net, msk) = Some e \<longleftrightarrow>
      (\<exists>a \<in> set (allroutes s ?i). a \<notin> R \<and> (\<exists>rt. rheap s a = Some rt \<and> has_key net msk rt \<and> e = entry rt))"
    unfolding rtab_Some [OF inv'] by auto
  also have "\<dots> \<longleftrightarrow> (\<exists>a \<in> set (allroutes s ?i). \<exists>rt. rheap s a = Some rt \<and> has_key net msk rt \<and> e = entry rt) \<and> \<not> P e"
    using sel by blast
  also have "\<dots> \<longleftrightarrow> rtab s (net, msk) = Some e \<and> \<not> P e" using rtab_Some [OF inv] by blast
  also have "\<dots> \<longleftrightarrow> (case rtab s (net, msk) of None \<Rightarrow> None | Some e \<Rightarrow> if P e then None else Some e) = Some e"
    by (auto split: option.splits)
  finally show "rtab (unlinking R s) (net, msk) = Some e \<longleftrightarrow>
     (case rtab s (net, msk) of None \<Rightarrow> None | Some e \<Rightarrow> if P e then None else Some e) = Some e" .
qed

lemma rtab_key: "routes_inv held s \<Longrightarrow> rtab s (net, msk) = Some e \<Longrightarrow> rt_net e = net \<and> rt_mask e = msk"
  by (auto simp: rtab_Some)

lemma rdefault_unlinking:
  "rdefault (unlinking R s) = (case defroute s of None \<Rightarrow> None
    | Some a \<Rightarrow> if a \<in> R then None else rdefault s)"
  by (auto simp: rdefault_def unlinking_def split: option.splits)

lemma rtab_link:
  assumes inv: "routes_inv held s" and f: "fresh_cell s new rt"
    and net: "rt_net rt \<noteq> INADDR_ANY" and ch: "allroutes s (route_hash (rt_net rt)) = xs @ ys"
    and uniq: "rtab s (rt_net rt, rt_mask rt) = None"
    and s': "s' = s\<lparr>rheap := (rheap s)(new \<mapsto> rt), allroutes := (allroutes s)(route_hash (rt_net rt) := xs @ new # ys)\<rparr>"
  shows "routes_inv held s'" "rtab s' = (rtab s)((rt_net rt, rt_mask rt) \<mapsto> entry rt)"
    "rdefault s' = rdefault s"
proof -
  let ?i = "route_hash (rt_net rt)"
  have u: "\<not> (rt_net rt = rt_net rt' \<and> rt_mask rt = rt_mask rt')"
    if "b \<in> set (allroutes s ?i)" "rheap s b = Some rt'" for b rt'
  proof
    assume "rt_net rt = rt_net rt' \<and> rt_mask rt = rt_mask rt'"
    then have "rtab s (rt_net rt, rt_mask rt) = Some (entry rt')"
      unfolding rtab_Some [OF inv] using that by auto
    with uniq show False by simp
  qed
  show inv': "routes_inv held s'" unfolding s' using inv f net refl ch u by (rule link_chain_inv)
  have nl: "\<not> linked s new" using fresh_unlinked [OF inv f] by blast
  show "rtab s' = (rtab s)((rt_net rt, rt_mask rt) \<mapsto> entry rt)"
  proof (rule rtab_eqI)
    fix net msk e
    let ?Q = "\<lambda>h a. \<exists>r. h a = Some r \<and> has_key net msk r \<and> e = entry r"
    have h: "?Q (rheap s') a = ?Q (rheap s) a" if "a \<noteq> new" for a using that by (simp add: s')
    have hn: "?Q (rheap s') new \<longleftrightarrow> net = rt_net rt \<and> msk = rt_mask rt \<and> e = entry rt"
      by (auto simp: s')
    have old: "new \<notin> set (allroutes s j)" for j using nl by (auto simp: linked_def)
    have m: "a \<in> set (allroutes s' (route_hash net)) \<longleftrightarrow>
        a \<in> set (allroutes s (route_hash net)) \<or> (a = new \<and> route_hash net = ?i)" for a
      using ch by (auto simp: s')
    have "rtab s' (net, msk) = Some e \<longleftrightarrow> (\<exists>a \<in> set (allroutes s' (route_hash net)). ?Q (rheap s') a)"
      by (rule rtab_Some [OF inv'])
    also have "\<dots> \<longleftrightarrow> (\<exists>a \<in> set (allroutes s (route_hash net)). ?Q (rheap s') a) \<or>
        (route_hash net = ?i \<and> ?Q (rheap s') new)"
      unfolding Bex_def m by blast
    also have "\<dots> \<longleftrightarrow> (\<exists>a \<in> set (allroutes s (route_hash net)). ?Q (rheap s) a) \<or>
        (route_hash net = ?i \<and> net = rt_net rt \<and> msk = rt_mask rt \<and> e = entry rt)"
      unfolding hn by (intro arg_cong2 [where f = "(\<or>)"] bex_cong refl h) (use old in blast)
    also have "\<dots> \<longleftrightarrow> (net = rt_net rt \<and> msk = rt_mask rt \<and> e = entry rt) \<or>
        (\<exists>a \<in> set (allroutes s (route_hash net)). ?Q (rheap s) a)" by blast
    also have "\<dots> \<longleftrightarrow> (net = rt_net rt \<and> msk = rt_mask rt \<and> e = entry rt) \<or> rtab s (net, msk) = Some e"
      using rtab_Some [OF inv] by simp
    also have "\<dots> \<longleftrightarrow> ((rtab s)((rt_net rt, rt_mask rt) \<mapsto> entry rt)) (net, msk) = Some e"
      using uniq by auto
    finally show "rtab s' (net, msk) = Some e \<longleftrightarrow> ((rtab s)((rt_net rt, rt_mask rt) \<mapsto> entry rt)) (net, msk) = Some e" .
  qed
  show "rdefault s' = rdefault s"
    using nl by (cases "defroute s") (auto simp: rdefault_def s' linked_def)
qed

section \<open>Adding, finding and releasing\<close>

definition new_route :: "nat \<Rightarrow> u32 \<Rightarrow> u32 \<Rightarrow> u32 \<Rightarrow> u16 \<Rightarrow> u16 \<Rightarrow> u32 \<Rightarrow> route" where
  "new_route nif net msk gway flags ttl metric =
     \<lparr>rt_net = net, rt_mask = msk, rt_gway = (if flags AND RTF_GATEWAY \<noteq> 0 then gway else INADDR_ANY),
      rt_metric = metric, rt_nif = nif, rt_ttl = ttl, rt_flags = flags, rt_usecnt = 0, rt_refcnt = 1\<rparr>"

lemma new_route_sel [simp]:
  "rt_net (new_route nif net msk gway flags ttl metric) = net"
  "rt_mask (new_route nif net msk gway flags ttl metric) = msk"
  "rt_refcnt (new_route nif net msk gway flags ttl metric) = 1"
  "rt_flags (new_route nif net msk gway flags ttl metric) = flags"
  by (simp_all add: new_route_def)

lemma dropping_upd: "new \<notin> R \<Longrightarrow> (dropping R h)(new \<mapsto> rt) = dropping R (h(new \<mapsto> rt))"
  by (auto simp: dropping_def fun_eq_iff)

lemma route_alloc_ok:
  assumes "\<not> (flags AND RTF_GATEWAY \<noteq> 0 \<and> gway = INADDR_ANY)"
  shows "route_alloc (Some new) nif net msk gway flags ttl metric s =
    (Some new, s\<lparr>rheap := (rheap s)(new \<mapsto> new_route nif net msk gway flags ttl metric)\<rparr>)"
  using assms by (auto simp: route_alloc_def new_route_def)

lemma rtab_link_default:
  assumes inv: "routes_inv held s" and f: "fresh_cell s new rt"
    and net: "rt_net rt = INADDR_ANY" and d: "defroute s = None"
    and s': "s' = s\<lparr>rheap := (rheap s)(new \<mapsto> rt), defroute := Some new\<rparr>"
  shows "routes_inv held s'" "rtab s' = rtab s" "rdefault s' = Some (entry rt)"
proof -
  show inv': "routes_inv held s'" unfolding s' using inv f net d by (rule link_def_inv)
  have old: "new \<notin> set (allroutes s j)" for j
    using fresh_unlinked [OF inv f] by (auto simp: linked_def)
  have h: "rheap s' a = rheap s a" if "a \<in> set (allroutes s j)" for a j
    using old [of j] that by (auto simp: s')
  have c: "allroutes s' = allroutes s" by (simp add: s')
  show "rtab s' = rtab s"
    by (rule rtab_eqI) (simp add: rtab_Some [OF inv] rtab_Some [OF inv'] c h cong: bex_cong)
  show "rdefault s' = Some (entry rt)" by (simp add: rdefault_def s')
qed

lemma route_add_default:
  fixes nif net msk gway flags ttl metric
  assumes inv: "routes_inv held s" and fresh: "rheap s new = None"
    and gw: "\<not> (flags AND RTF_GATEWAY \<noteq> 0 \<and> gway = INADDR_ANY)" and net: "net = INADDR_ANY"
  shows "\<exists>s'. route_add (Some new) nif net msk gway flags ttl metric s = Some (Inr (), s') \<and>
    routes_inv held s' \<and> rtab s' = rtab s \<and>
    rdefault s' = Some (entry (new_route nif net msk gway flags ttl metric))"
proof -
  define rt where "rt = new_route nif net msk gway flags ttl metric"
  have al: "route_alloc (Some new) nif net msk gway flags ttl metric s =
      (Some new, s\<lparr>rheap := (rheap s)(new \<mapsto> rt)\<rparr>)"
    unfolding rt_def using gw by (rule route_alloc_ok)
  have f: "fresh_cell s new rt" using fresh by (simp add: fresh_cell_def rt_def)
  have nl: "\<not> linked s new" using fresh_unlinked [OF inv f] by blast
  define R where "R = (case defroute s of None \<Rightarrow> {} | Some a \<Rightarrow> {a})"
  have R: "linked s a" if "a \<in> R" for a using that by (auto simp: R_def linked_def split: option.splits)
  have invR: "routes_inv held (unlinking R s)" using inv R by (rule unlink_inv)
  define s' where "s' = (unlinking R s)\<lparr>rheap := (rheap (unlinking R s))(new \<mapsto> rt), defroute := Some new\<rparr>"
  have "new \<notin> R" using nl R by blast
  then have fR: "fresh_cell (unlinking R s) new rt" using f by (simp add: fresh_cell_def)
  have dR: "defroute (unlinking R s) = None"
    by (auto simp: unlinking_def R_def split: option.splits)
  have "route_add (Some new) nif net msk gway flags ttl metric s = Some (Inr (), s')"
  proof (cases "defroute s")
    case None
    then show ?thesis using net al by (simp add: route_add_def R_def unlinking_empty s'_def)
  next
    case (Some a)
    then obtain r where r: "rheap s a = Some r" "a \<noteq> new"
      using routes_invD(3) [OF inv Some] nl by (auto simp: linked_def)
    have "s' = (s\<lparr>rheap := (rheap s)(a := drop1 (rheap s a)), defroute := None\<rparr>)
        \<lparr>rheap := ((rheap s)(a := drop1 (rheap s a)))(new \<mapsto> rt), defroute := Some new\<rparr>"
      unfolding s'_def R_def Some option.case unlink_default_eq [OF inv Some, symmetric] by simp
    then show ?thesis using net al Some r
      by (simp add: route_add_def route_deref_eq fun_upd_twist)
  qed
  moreover have "rtab (unlinking R s) = rtab s"
  proof -
    have "rtab (unlinking R s) = (\<lambda>k. case rtab s k of None \<Rightarrow> None | Some e \<Rightarrow> if False then None else Some e)"
      using inv R by (rule rtab_unlinking)
        (auto simp: R_def dest: chain_not_default [OF inv] split: option.splits)
    then show ?thesis by (auto simp: fun_eq_iff split: option.splits)
  qed
  ultimately show ?thesis
    using rtab_link_default [OF invR fR _ dR s'_def] net unfolding rt_def by simp
qed

lemma rtab_unlink_one:
  assumes inv: "routes_inv held s" and a: "a \<in> set (allroutes s i)" and r: "rheap s a = Some r"
  shows "rtab (unlinking {a} s) = (rtab s)((rt_net r, rt_mask r) := None)"
proof -
  let ?P = "\<lambda>e. rt_net e = rt_net r \<and> rt_mask e = rt_mask r"
  have i: "i = route_hash (rt_net r)" using routes_invD(2) [OF inv a] r by simp
  have u: "rtab (unlinking {a} s) = (\<lambda>k. case rtab s k of None \<Rightarrow> None | Some e \<Rightarrow> if ?P e then None else Some e)"
  proof (rule rtab_unlinking [OF inv])
    fix b assume "b \<in> {a}" then show "linked s b" using a by (auto simp: linked_def)
  next
    fix j b rt assume b: "b \<in> set (allroutes s j)" "rheap s b = Some rt"
    show "b \<in> {a} \<longleftrightarrow> ?P (entry rt)"
    proof
      assume P: "?P (entry rt)"
      have "j = i" using routes_invD(2) [OF inv b(1)] b(2) P i by simp
      then show "b \<in> {a}" using routes_invD(4) [OF inv b(1) _ b(2) r] a P by simp
    qed (use b r in simp)
  qed
  show ?thesis
  proof (rule ext)
    fix k :: "u32 \<times> u32"
    obtain net msk where k: "k = (net, msk)" by fastforce
    show "rtab (unlinking {a} s) k = ((rtab s)((rt_net r, rt_mask r) := None)) k"
      using rtab_key [OF inv, of net msk] unfolding u k
      by (cases "rtab s (net, msk)") auto
  qed
qed

lemma route_add_chain:
  fixes nif net msk gway flags ttl metric
  assumes inv: "routes_inv held s" and fresh: "rheap s new = None"
    and gw: "\<not> (flags AND RTF_GATEWAY \<noteq> 0 \<and> gway = INADDR_ANY)" and net: "net \<noteq> INADDR_ANY"
  shows "if \<exists>e. rtab s (net, msk) = Some e \<and> rt_flags e AND RTF_STATIC \<noteq> 0 \<and> flags AND RTF_STATIC = 0
    then route_add (Some new) nif net msk gway flags ttl metric s = Some (Inl EACCES, s)
    else \<exists>s'. route_add (Some new) nif net msk gway flags ttl metric s = Some (Inr (), s') \<and>
      routes_inv held s' \<and> rdefault s' = rdefault s \<and>
      rtab s' = (rtab s)((net, msk) \<mapsto> entry (new_route nif net msk gway flags ttl metric))"
proof -
  define rt where "rt = new_route nif net msk gway flags ttl metric"
  have al: "route_alloc (Some new) nif net msk gway flags ttl metric s =
      (Some new, s\<lparr>rheap := (rheap s)(new \<mapsto> rt)\<rparr>)"
    unfolding rt_def using gw by (rule route_alloc_ok)
  have sel: "rt_net rt = net" "rt_mask rt = msk" by (simp_all add: rt_def)
  have f: "fresh_cell s new rt" using fresh by (simp add: fresh_cell_def rt_def)
  have nl: "\<not> linked s new" using fresh_unlinked [OF inv f] by blast
  let ?i = "route_hash net"
  let ?ch = "allroutes s ?i"
  let ?h = "(rheap s)(new \<mapsto> rt)"
  have new: "new \<notin> set ?ch" using nl by (auto simp: linked_def)
  have cells: "\<forall>a \<in> set ?ch. ?h a \<noteq> None" using routes_invD(2) [OF inv, of _ ?i] new by fastforce
  have hs: "hits P ?h a = hits P (rheap s) a" if "a \<in> set ?ch" for a P
    using that new by (auto simp: hits_def)
  have fnd: "find (hits (has_key net msk) ?h) ?ch = find (hits (has_key net msk) (rheap s)) ?ch"
    using hs by (intro find_cong) auto
  have cf: "chain_find ?h net msk ?ch = Some (find (hits (has_key net msk) (rheap s)) ?ch)"
    using chain_find_eq [where h = ?h and net = net and msk = msk, OF cells] unfolding fnd .
  show ?thesis
  proof (cases "find (hits (has_key net msk) (rheap s)) ?ch")
    case None
    then have n: "rtab s (net, msk) = None" by (simp add: rtab_def)
    let ?s' = "s\<lparr>rheap := ?h, allroutes := (allroutes s)(?i := ?ch @ [new])\<rparr>"
    have "route_add (Some new) nif net msk gway flags ttl metric s = Some (Inr (), ?s')"
      using None net by (simp add: route_add_def al Let_def cf del: fun_upd_apply)
    moreover note rtab_link [OF inv f, unfolded sel, OF net, of ?ch "[]" ?s'] n
    ultimately show ?thesis by (simp add: rt_def)
  next
    case (Some a)
    then have a: "a \<in> set ?ch" "hits (has_key net msk) (rheap s) a" using find_SomeD by force+
    then obtain r where r: "rheap s a = Some r" "has_key net msk r"
      by (auto simp: hits_def split: option.splits)
    have t: "rtab s (net, msk) = Some (entry r)" using Some r by (simp add: rtab_def)
    have an: "a \<noteq> new" using a new by auto
    show ?thesis
    proof (cases "flags AND RTF_STATIC = 0 \<and> rt_flags r AND RTF_STATIC \<noteq> 0")
      case True
      have "s\<lparr>rheap := (rheap s)(new := None)\<rparr> = s" using fresh by (simp add: fun_upd_idem)
      then show ?thesis using True Some net r an t
        by (simp add: route_add_def al Let_def cf del: fun_upd_apply) simp
    next
      case False
      obtain xs ys where ch: "?ch = xs @ a # ys" using a by (meson split_list)
      then have nx: "a \<notin> set xs" "a \<notin> set ys" using routes_invD(1) [OF inv, of ?i] by auto
      have R: "linked s b" if "b \<in> {a}" for b using that a by (auto simp: linked_def)
      have invR: "routes_inv held (unlinking {a} s)" using inv R by (rule unlink_inv)
      have fR: "fresh_cell (unlinking {a} s) new rt" using f an by (simp add: fresh_cell_def)
      have tR: "rtab (unlinking {a} s) = (rtab s)((net, msk) := None)"
        using rtab_unlink_one [OF inv a(1) r(1)] r(2) by simp
      have chR: "allroutes (unlinking {a} s) ?i = xs @ ys"
      proof -
        have "filter (\<lambda>x. x \<noteq> a) xs = xs" "filter (\<lambda>x. x \<noteq> a) ys = ys"
          using nx by (auto intro!: filter_True)
        with ch show ?thesis by simp
      qed
      have oth: "filter (\<lambda>x. x \<noteq> a) (allroutes s j) = allroutes s j" if "j \<noteq> ?i" for j
        using chain_unique [OF inv a(1), of j] that by (intro filter_True) auto
      let ?s' = "(unlinking {a} s)\<lparr>rheap := (rheap (unlinking {a} s))(new \<mapsto> rt),
          allroutes := (allroutes (unlinking {a} s))(?i := xs @ new # ys)\<rparr>"
      have "route_add (Some new) nif net msk gway flags ttl metric s = Some (Inr (), ?s')"
      proof -
        have mp: "map (\<lambda>x. if x = a then new else x) ?ch = xs @ new # ys"
          using nx by (auto simp: ch intro!: map_idI)
        have h: "(rheap (unlinking {a} s))(new \<mapsto> rt) = ?h(a := drop1 (?h a))"
          using an by (auto simp: dropping_def fun_eq_iff)
        have c: "(allroutes s)(?i := xs @ new # ys) = (allroutes (unlinking {a} s))(?i := xs @ new # ys)"
          using oth by (auto simp: fun_eq_iff)
        have "?s' = s\<lparr>rheap := ?h(a := drop1 (?h a)), allroutes := (allroutes s)(?i := xs @ new # ys)\<rparr>"
          unfolding c h by (rule unlinking_upd) (use chain_not_default [OF inv a(1)] in auto)
        moreover have ha: "?h a = Some r" using r an by simp
        moreover have "route_deref a (s\<lparr>rheap := ?h\<rparr>) = Some (s\<lparr>rheap := ?h(a := drop1 (?h a))\<rparr>)"
          using route_deref_eq [of "s\<lparr>rheap := ?h\<rparr>" a r] ha by (simp del: fun_upd_apply)
        ultimately show ?thesis using Some net False r mp
          by (simp add: route_add_def al Let_def cf del: fun_upd_apply)
      qed
      moreover note rtab_link [OF invR fR, unfolded sel, OF net chR _ refl] tR
      moreover have "rdefault (unlinking {a} s) = rdefault s"
        using chain_not_default [OF inv a(1)]
        by (cases "defroute s") (auto simp: rdefault_unlinking, simp add: rdefault_def)
      ultimately show ?thesis using False t by (simp add: rt_def) blast
    qed
  qed
qed

text \<open>The scan: the first usable host route that matches, else the last usable net route.\<close>

definition rt_match :: "u32 \<Rightarrow> route \<Rightarrow> bool" where
  "rt_match daddr rt \<longleftrightarrow> rt_usable rt \<and> rt_mask rt AND daddr = rt_net rt"

definition rt_host :: "route \<Rightarrow> bool" where
  "rt_host rt \<longleftrightarrow> rt_flags rt AND RTF_HOST \<noteq> 0"

lemma hits_Some: "h a = Some rt \<Longrightarrow> hits P h a = P rt"
  by (simp add: hits_def)

lemma route_scan_Cons:
  "h a = Some rt \<Longrightarrow> route_scan h d n (a # as) =
     (if rt_match d rt then if rt_host rt then Some (Some a, n) else route_scan h d (Some a) as
      else route_scan h d n as)"
  by (simp add: rt_match_def rt_host_def)

lemma route_scan_eq:
  assumes "\<forall>a \<in> set as. h a \<noteq> None"
  shows "case find (hits (\<lambda>rt. rt_match d rt \<and> rt_host rt) h) as of
      Some a \<Rightarrow> \<exists>n'. route_scan h d n as = Some (Some a, n')
    | None \<Rightarrow> route_scan h d n as = Some (None,
        if filter (hits (rt_match d) h) as = [] then n else Some (last (filter (hits (rt_match d) h) as)))"
  using assms
proof (induction as arbitrary: n)
  case (Cons a as)
  then obtain rt where rt: "h a = Some rt" by auto
  show ?case
    using Cons.IH [of n] Cons.IH [of "Some a"] Cons.prems
    by (auto simp: route_scan_Cons [where h = h, OF rt] hits_Some [where h = h, OF rt] simp del: route_scan.simps split: option.splits if_splits)
qed simp

text \<open>The structure \<^verbatim>\<open>route_get\<close> chooses.\<close>

definition rt_choice :: "u32 \<Rightarrow> routes \<Rightarrow> nat option" where
  "rt_choice d s =
     (let ch = allroutes s (route_hash d) in
      case find (hits (\<lambda>rt. rt_match d rt \<and> rt_host rt) (rheap s)) ch of
        Some a \<Rightarrow> Some a
      | None \<Rightarrow> if filter (hits (rt_match d) (rheap s)) ch = [] then defroute s
                else Some (last (filter (hits (rt_match d) (rheap s)) ch)))"

lemma route_get_choice:
  assumes inv: "routes_inv held s"
  shows "route_get d s = (case rt_choice d s of
      None \<Rightarrow> Some (None, s)
    | Some a \<Rightarrow> Option.bind (rheap s a) (\<lambda>rt.
        if rt_flags rt AND RTF_UP \<noteq> 0 then
          Some (Some a, s\<lparr>rheap := (rheap s)(a \<mapsto> rt\<lparr>rt_refcnt := rt_refcnt rt + 1,
                                                     rt_usecnt := rt_usecnt rt + 1\<rparr>)\<rparr>)
        else Some (None, s)))"
proof -
  let ?ch = "allroutes s (route_hash d)"
  have "\<forall>a \<in> set ?ch. rheap s a \<noteq> None" using routes_invD(2) [OF inv] by fastforce
  from route_scan_eq [OF this, of d None] show ?thesis
    by (cases "find (hits (\<lambda>rt. rt_match d rt \<and> rt_host rt) (rheap s)) ?ch")
      (auto simp: route_get_def rt_choice_def split: option.splits)
qed

lemma rt_choice_linked:
  assumes "rt_choice d s = Some a"
  shows "linked s a"
proof -
  let ?ch = "allroutes s (route_hash d)" and ?f = "hits (rt_match d) (rheap s)"
  have "last (filter ?f ?ch) \<in> set ?ch" if "filter ?f ?ch \<noteq> []"
    using last_in_set [OF that] by simp
  with assms show ?thesis
    by (auto simp: rt_choice_def Let_def linked_def split: option.splits if_splits dest!: find_SomeD)
qed

lemma route_get_total:
  assumes inv: "routes_inv held s"
  obtains (none) "route_get d s = Some (None, s)"
    | (found) a rt where "rt_choice d s = Some a" "linked s a" "rheap s a = Some rt" "rt_flags rt AND RTF_UP \<noteq> 0"
      "route_get d s = Some (Some a, s\<lparr>rheap := (rheap s)(a \<mapsto> rt\<lparr>rt_refcnt := rt_refcnt rt + 1,
          rt_usecnt := rt_usecnt rt + 1\<rparr>)\<rparr>)"
proof (cases "rt_choice d s")
  case None
  then show ?thesis using route_get_choice [OF inv, of d] none by simp
next
  case (Some a)
  then have l: "linked s a" by (rule rt_choice_linked)
  then obtain rt where rt: "rheap s a = Some rt" using linked_heap [OF inv] by blast
  show ?thesis
  proof (cases "rt_flags rt AND RTF_UP \<noteq> 0")
    case True
    then show ?thesis using route_get_choice [OF inv, of d] Some rt l found by simp
  next
    case False
    then show ?thesis using route_get_choice [OF inv, of d] Some rt none by simp
  qed
qed

text \<open>Changing the counters of a structure, with the ghost count in step.\<close>

lemma counters_inv:
  assumes inv: "routes_inv held s" and rt: "rheap s a = Some rt"
    and rt': "entry rt' = entry rt"
    and c: "sint (rt_refcnt rt') = int ((if linked s a then 1 else 0) + n)" "linked s a \<or> n > 0"
  shows "routes_inv (held(a := n)) (s\<lparr>rheap := (rheap s)(a \<mapsto> rt')\<rparr>)" (is "routes_inv _ ?s")
proof -
  have e: "rt_net rt' = rt_net rt" "rt_mask rt' = rt_mask rt"
    using arg_cong [OF rt', of rt_net] arg_cong [OF rt', of rt_mask] by simp_all
  have l: "linked ?s b = linked s b" for b by (simp add: linked_def)
  show ?thesis
  proof (rule routes_invI)
    fix i show "distinct (allroutes ?s i)" using routes_invD(1) [OF inv] by simp
  next
    fix i b assume "b \<in> set (allroutes ?s i)"
    then show "\<exists>r. rheap ?s b = Some r \<and> rt_net r \<noteq> INADDR_ANY \<and> route_hash (rt_net r) = i"
      using routes_invD(2) [OF inv, of b i] rt e by auto
  next
    fix b assume "defroute ?s = Some b"
    then show "\<exists>r. rheap ?s b = Some r \<and> rt_net r = INADDR_ANY"
      using routes_invD(3) [OF inv, of b] rt e by auto
  next
    fix i b c r r'
    assume h: "b \<in> set (allroutes ?s i)" "c \<in> set (allroutes ?s i)" "rheap ?s b = Some r"
      "rheap ?s c = Some r'" "rt_net r = rt_net r'" "rt_mask r = rt_mask r'"
    define r0 where "r0 = (if b = a then rt else r)"
    define r1 where "r1 = (if c = a then rt else r')"
    have "rheap s b = Some r0" "rheap s c = Some r1" "rt_net r0 = rt_net r1" "rt_mask r0 = rt_mask r1"
      using h rt e by (auto simp: r0_def r1_def split: if_splits)
    then show "b = c" using routes_invD(4) [OF inv, of b i c r0 r1] h by simp
  next
    fix b assume "rheap ?s b = None"
    then show "(held(a := n)) b = 0" using routes_invD(5) [OF inv] by (auto split: if_splits)
  next
    fix b r assume "rheap ?s b = Some r"
    then show "sint (rt_refcnt r) = int ((if linked ?s b then 1 else 0) + (held(a := n)) b) \<and>
        (linked ?s b \<or> (held(a := n)) b > 0)"
      unfolding l using routes_invD(6,7) [OF inv, of b r] c by (auto split: if_splits)
  qed
qed

lemma route_get_inv:
  assumes inv: "routes_inv held s" and g: "route_get d s = Some (Some a, s')" and b: "held a < 2 ^ 15 - 2"
  shows "routes_inv (held(a := held a + 1)) s'"
  using inv
proof (cases rule: route_get_total [where d = d])
  case none
  with g show ?thesis by simp
next
  case (found a' rt)
  with g have a: "a' = a" and s': "s' = s\<lparr>rheap := (rheap s)(a \<mapsto> rt\<lparr>rt_refcnt := rt_refcnt rt + 1,
      rt_usecnt := rt_usecnt rt + 1\<rparr>)\<rparr>" by auto
  have c: "sint (rt_refcnt rt) = int (1 + held a)" using routes_invD(6) [OF inv] found a by simp
  then have "sint (rt_refcnt rt + 1) = int (1 + (held a + 1))"
    using sint_plus1_16 [of "rt_refcnt rt" "0x7fff"] b by simp
  then show ?thesis unfolding s' using found a
    by (intro counters_inv [OF inv]) (auto simp: entry_def)
qed

lemma forget_inv:
  assumes inv: "routes_inv held s" and nl: "\<not> linked s a"
  shows "routes_inv (held(a := 0)) (s\<lparr>rheap := (rheap s)(a := None)\<rparr>)" (is "routes_inv _ ?s")
proof -
  have na: "b \<noteq> a" if "b \<in> set (allroutes s i)" for b i using nl that by (auto simp: linked_def)
  have nd: "b \<noteq> a" if "defroute s = Some b" for b using nl that by (auto simp: linked_def)
  show ?thesis
  proof (rule routes_invI)
    fix i show "distinct (allroutes ?s i)" using routes_invD(1) [OF inv] by simp
  next
    fix i b assume "b \<in> set (allroutes ?s i)"
    then show "\<exists>r. rheap ?s b = Some r \<and> rt_net r \<noteq> INADDR_ANY \<and> route_hash (rt_net r) = i"
      using routes_invD(2) [OF inv, of b i] na [of b i] by simp
  next
    fix b assume "defroute ?s = Some b"
    then show "\<exists>r. rheap ?s b = Some r \<and> rt_net r = INADDR_ANY"
      using routes_invD(3) [OF inv, of b] nd [of b] by simp
  next
    fix i b c r r'
    assume h: "b \<in> set (allroutes ?s i)" "c \<in> set (allroutes ?s i)" "rheap ?s b = Some r"
      "rheap ?s c = Some r'" and k: "rt_net r = rt_net r'" "rt_mask r = rt_mask r'"
    then have "b \<noteq> a" "c \<noteq> a" by (simp_all add: na)
    then show "b = c" using routes_invD(4) [OF inv, of b i c r r'] h k by simp
  next
    fix b assume "rheap ?s b = None"
    then show "(held(a := 0)) b = 0"
      using routes_invD(5) [OF inv, of b] by (cases "b = a") simp_all
  next
    fix b r assume r: "rheap ?s b = Some r"
    then have "b \<noteq> a" "rheap s b = Some r" by (auto split: if_splits)
    then show "sint (rt_refcnt r) = int ((if linked ?s b then 1 else 0) + (held(a := 0)) b) \<and>
        (linked ?s b \<or> (held(a := 0)) b > 0)"
      using routes_invD(6,7) [OF inv, of b r] by (simp only: linked_heap_upd fun_upd_other simp_thms)
  qed
qed

lemma route_deref_inv:
  assumes inv: "routes_inv held s" and h: "held a > 0"
  shows "\<exists>s'. route_deref a s = Some s' \<and> routes_inv (held(a := held a - 1)) s'"
proof -
  obtain rt where rt: "rheap s a = Some rt" using held_heap [OF inv h] by blast
  define n where "n = (if linked s a then 1 else 0) + held a"
  have c: "sint (rt_refcnt rt) = int n" unfolding n_def using routes_invD(6) [OF inv rt] .
  have pos: "n > 0" using h by (simp add: n_def)
  let ?s = "s\<lparr>rheap := (rheap s)(a := drop1 (Some rt))\<rparr>"
  have "routes_inv (held(a := held a - 1)) ?s"
  proof (cases "n = 1")
    case True
    then have nl: "\<not> linked s a" "held a - 1 = 0" using h by (auto simp: n_def split: if_splits)
    have d: "drop1 (Some rt) = None" using drop1_count(1) [OF c pos True] .
    show ?thesis unfolding d nl(2) using inv nl(1) by (rule forget_inv)
  next
    case False
    then have n1: "n > 1" using pos by linarith
    from drop1_count(2) [OF c pos this] obtain rt' where rt': "drop1 (Some rt) = Some rt'"
      "sint (rt_refcnt rt') = int (n - 1)" "rt' = rt\<lparr>rt_refcnt := rt_refcnt rt'\<rparr>" by blast
    have e: "entry rt' = entry rt" by (subst rt'(3)) (simp add: entry_def)
    have n: "n - 1 = (if linked s a then 1 else 0) + (held a - 1)" using h by (simp add: n_def)
    have "linked s a \<or> held a - 1 > 0" using n1 by (auto simp: n_def split: if_splits)
    then show ?thesis unfolding rt'(1) using rt'(2) unfolding n
      by (intro counters_inv [OF inv rt e]) simp_all
  qed
  then show ?thesis using route_deref_eq [OF rt] rt by auto
qed

lemma entry_fields:
  assumes "entry r = entry r'"
  shows "rt_flags r = rt_flags r'" "rt_net r = rt_net r'" "rt_mask r = rt_mask r'" "rt_ttl r = rt_ttl r'" "rt_nif r = rt_nif r'"
    "rt_gway r = rt_gway r'"
  using arg_cong [OF assms, of rt_flags] arg_cong [OF assms, of rt_net] arg_cong [OF assms, of rt_mask] arg_cong [OF assms, of rt_ttl]
    arg_cong [OF assms, of rt_nif] arg_cong [OF assms, of rt_gway] by (simp_all add: entry_def)

lemma rt_choice_counters:
  assumes "allroutes s' = allroutes s" "defroute s' = defroute s" "\<And>b. map_option entry (rheap s' b) = map_option entry (rheap s b)"
  shows "rt_choice d s' = rt_choice d s"
proof -
  have hh: "hits P (rheap s') b = hits P (rheap s) b" if "\<And>r r'. entry r = entry r' \<Longrightarrow> P r = P r'" for P b
    using assms(3) [of b] by (cases "rheap s b"; cases "rheap s' b") (simp_all add: hits_def, rule that, simp)
  have mm: "rt_match d r = rt_match d r'" "(rt_match d r \<and> rt_host r) = (rt_match d r' \<and> rt_host r')" if "entry r = entry r'" for r r'
    unfolding rt_match_def rt_host_def rt_usable_def entry_fields [OF that] by simp_all
  have "hits (rt_match d) (rheap s') = hits (rt_match d) (rheap s)"
    "hits (\<lambda>rt. rt_match d rt \<and> rt_host rt) (rheap s') = hits (\<lambda>rt. rt_match d rt \<and> rt_host rt) (rheap s)"
    by (rule ext, rule hh, erule mm)+
  then show ?thesis unfolding rt_choice_def by (simp only: assms(1,2))
qed

lemma route_get_again:
  assumes inv: "routes_inv held s" and g: "route_get d s = Some (Some a, s1)" and h: "held a < 2 ^ 15 - 2" and f: "route_deref a s1 = Some s2"
    and rt: "rheap s1 a = Some rt"
  shows "\<exists>s3 rt'. route_get d s2 = Some (Some a, s3) \<and> rheap s3 a = Some rt' \<and> entry rt' = entry rt"
  using inv
proof (cases rule: route_get_total [where d = d])
  case none
  then show ?thesis using g by simp
next
  case (found a' r)
  then have s1: "a' = a" "s1 = s\<lparr>rheap := (rheap s)(a \<mapsto> r\<lparr>rt_refcnt := rt_refcnt r + 1, rt_usecnt := rt_usecnt r + 1\<rparr>)\<rparr>" using g by auto
  have i2: "routes_inv held s2" using route_deref_inv [of "held(a := held a + 1)" s1 a] route_get_inv [OF inv g h] f by simp
  have "sint (rt_refcnt r) = int (1 + held a)" using routes_invD(6) [OF inv] found s1(1) by simp
  then have s2: "s2 = s1\<lparr>rheap := (rheap s1)(a \<mapsto> rt\<lparr>rt_refcnt := rt_refcnt rt - 1\<rparr>)\<rparr>"
    using f rt s1 by (auto simp: route_deref_def)
  have e: "entry rt = entry r" using rt s1 by (auto simp: entry_def)
  have "rt_choice d s2 = Some a" using rt_choice_counters [of s2 s d] found(1,3) s1 e
    by (simp add: s2) (simp add: s1(2) entry_def)
  then show ?thesis using route_get_choice [OF i2, of d] found(4) entry_fields(1) [OF e] s2 by (simp add: entry_def)
qed

section \<open>Hashing\<close>

text \<open>
  The hash looks only at the network part of the address class. A route whose mask covers
  that part is therefore on the chain of every address it matches.
\<close>

definition class_bits :: "u32 \<Rightarrow> nat" where
  "class_bits d = (if IN_CLASSA d then 24 else if IN_CLASSB d then 16 else if IN_CLASSC d then 8 else 0)"

definition class_mask :: "u32 \<Rightarrow> u32" where
  "class_mask d = (if IN_CLASSA d then IN_CLASSA_NET else if IN_CLASSB d then IN_CLASSB_NET
     else if IN_CLASSC d then IN_CLASSC_NET else 0xffffffff)"

lemma class_mask_bits: "class_mask d = NOT (mask (class_bits d))"
  by (simp add: class_mask_def class_bits_def byte_masks)

lemma and_high:
  fixes x y m :: u32
  assumes "drop_bit k x = drop_bit k y" and "take_bit k m = 0"
  shows "x AND m = y AND m"
proof (rule bit_word_eqI)
  fix i
  have "\<not> bit m i" if "i < k"
    using arg_cong [OF assms(2), of "\<lambda>w. bit w i"] that by (simp add: bit_take_bit_iff)
  moreover have "bit x i = bit y i" if "k \<le> i" using assms(1) that by (simp add: drop_agree)
  ultimately show "bit (x AND m) i = bit (y AND m) i" by (cases "i < k") (auto simp: bit_and_iff)
qed

lemma class_agree:
  assumes "drop_bit 24 x = drop_bit 24 (y :: u32)"
  shows "IN_CLASSA x = IN_CLASSA y" "IN_CLASSB x = IN_CLASSB y" "IN_CLASSC x = IN_CLASSC y"
  by (simp_all add: IN_CLASSA_def IN_CLASSB_def IN_CLASSC_def and_high [OF assms])

lemma route_hash_agree:
  assumes "drop_bit (class_bits d) n = drop_bit (class_bits d) d"
  shows "route_hash n = route_hash d"
proof -
  have 24: "drop_bit 24 n = drop_bit 24 d"
    using assms by (rule drop_shorter) (simp add: class_bits_def)
  show ?thesis
  proof (cases "IN_CLASSA d")
    case True
    then show ?thesis using 24 class_agree [OF 24] by (simp add: route_hash_def)
  next
    case A: False
    then have 16: "drop_bit 16 n = drop_bit 16 d"
      using assms by (elim drop_shorter) (simp add: class_bits_def)
    show ?thesis
    proof (cases "IN_CLASSB d")
      case True
      then show ?thesis using 24 16 A class_agree [OF 24] by (simp add: route_hash_def)
    next
      case B: False
      with A have 8: "drop_bit 8 n = drop_bit 8 d"
        using assms by (elim drop_shorter) (simp add: class_bits_def)
      show ?thesis
      proof (cases "IN_CLASSC d")
        case True
        then show ?thesis using 24 16 8 A B class_agree [OF 24] by (simp add: route_hash_def)
      next
        case False
        with A B have "n = d" using assms by (simp add: class_bits_def)
        then show ?thesis by simp
      qed
    qed
  qed
qed

definition covers_class :: "u32 \<Rightarrow> route \<Rightarrow> bool" where
  "covers_class d rt \<longleftrightarrow> rt_mask rt AND class_mask d = class_mask d"

lemma match_hash:
  assumes "rt_match d rt" and "covers_class d rt"
  shows "route_hash (rt_net rt) = route_hash d"
proof (rule route_hash_agree)
  have m: "bit (rt_mask rt) i" if "class_bits d \<le> i" "i < 32" for i
    using arg_cong [OF assms(2) [unfolded covers_class_def class_mask_bits], of "\<lambda>w. bit w i"] that
    by (simp add: bit_simps)
  have "bit (rt_mask rt AND d) i = bit d i" if "class_bits d \<le> i" for i
    using m [OF that] bit32 [of d i] by (auto simp: bit_and_iff)
  then show "drop_bit (class_bits d) (rt_net rt) = drop_bit (class_bits d) d"
    using assms(1) by (simp add: drop_agree rt_match_def flip: conj_assoc)
qed

lemma rt_match_entry [simp]: "rt_match d (entry rt) = rt_match d rt" "rt_host (entry rt) = rt_host rt"
  "covers_class d (entry rt) = covers_class d rt"
  by (simp_all add: rt_match_def rt_usable_def rt_host_def covers_class_def)

section \<open>The router as a state machine\<close>

text \<open>
  A step is one operation of the kernel. A client that got a route holds a reference until
  it calls \<^verbatim>\<open>route_deref\<close>; \<^verbatim>\<open>refcnt\<close> is a \<^verbatim>\<open>short\<close>, so a route can be held at
  most \<open>2 ^ 15 - 2\<close> times. \<^verbatim>\<open>kmalloc\<close> returns memory that is not in use.
\<close>

inductive route_step :: "(nat \<Rightarrow> nat) \<times> routes \<Rightarrow> (nat \<Rightarrow> nat) \<times> routes \<Rightarrow> bool" where
  get_found: "route_get d s = Some (Some a, s') \<Longrightarrow> held a < 2 ^ 15 - 2 \<Longrightarrow>
    route_step (held, s) (held(a := held a + 1), s')"
| get_none: "route_get d s = Some (None, s') \<Longrightarrow> route_step (held, s) (held, s')"
| deref: "held a > 0 \<Longrightarrow> route_deref a s = Some s' \<Longrightarrow> route_step (held, s) (held(a := held a - 1), s')"
| add: "(\<And>a. km = Some a \<Longrightarrow> rheap s a = None) \<Longrightarrow>
    route_add km nif net msk gway flags ttl metric s = Some (r, s') \<Longrightarrow> route_step (held, s) (held, s')"
| del: "route_del net msk s = Some s' \<Longrightarrow> route_step (held, s) (held, s')"
| flush: "route_flush nif s = Some s' \<Longrightarrow> route_step (held, s) (held, s')"
| ioctl: "(\<And>a. km = Some a \<Longrightarrow> rheap s a = None) \<Longrightarrow>
    route_ioctl ifs euid km cmd rte s = Some (r, s') \<Longrightarrow> route_step (held, s) (held, s')"

lemma route_add_result:
  assumes inv: "routes_inv held s" and km: "\<And>a. km = Some a \<Longrightarrow> rheap s a = None"
  shows "\<exists>r s'. route_add km nif net msk gway flags ttl metric s = Some (r, s') \<and> routes_inv held s'"
proof (cases km)
  case None
  then show ?thesis using inv by (simp add: route_add_def route_alloc_def)
next
  case (Some new)
  show ?thesis
  proof (cases "flags AND RTF_GATEWAY \<noteq> 0 \<and> gway = INADDR_ANY")
    case True
    then show ?thesis using inv Some by (simp add: route_add_def route_alloc_def)
  next
    case gw: False
    have f: "rheap s new = None" using km Some by simp
    show ?thesis
    proof (cases "net = INADDR_ANY")
      case True
      from route_add_default [OF inv f gw True] show ?thesis unfolding Some by blast
    next
      case False
      from route_add_chain [OF inv f gw False, of msk nif ttl metric] inv show ?thesis
        unfolding Some by (auto split: if_splits)
    qed
  qed
qed

lemma route_del_result:
  assumes inv: "routes_inv held s"
  shows "\<exists>s'. route_del net msk s = Some s' \<and> routes_inv held s'"
proof (intro exI conjI)
  show "route_del net msk s = Some (unlinking (del_set net msk s) s)" using inv by (rule route_del_eq)
  show "routes_inv held (unlinking (del_set net msk s) s)" using inv del_set_linked by (rule unlink_inv)
qed

lemma route_flush_result:
  assumes inv: "routes_inv held s"
  shows "\<exists>s'. route_flush nif s = Some s' \<and> routes_inv held s'"
proof (intro exI conjI)
  show "route_flush nif s = Some (unlinking (flush_set nif s) s)" using inv by (rule route_flush_eq)
  show "routes_inv held (unlinking (flush_set nif s) s)" using inv flush_set_linked by (rule unlink_inv)
qed

lemma route_ioctl_result:
  assumes inv: "routes_inv held s" and km: "\<And>a. km = Some a \<Longrightarrow> rheap s a = None"
  shows "\<exists>r s'. route_ioctl ifs euid km cmd rte s = Some (r, s') \<and> routes_inv held s'"
proof -
  define ok :: "((errno + unit) \<times> routes) option \<Rightarrow> bool" where
    "ok X \<longleftrightarrow> (\<exists>r s'. X = Some (r, s') \<and> routes_inv held s')" for X
  have a: "ok (route_add km nif net msk gway flags ttl metric s)" for nif net msk gway flags ttl metric
    unfolding ok_def using inv km by (rule route_add_result)
  have d: "ok (Option.bind (route_del net msk s) (\<lambda>s'. Some (Inr (), s')))" for net msk
    unfolding ok_def using route_del_result [OF inv, of net msk] by auto
  have b: "ok (Some (r, s))" for r unfolding ok_def using inv by simp
  have "ok (route_ioctl ifs euid km cmd rte s)"
    unfolding route_ioctl_def Let_def
    by (simp only: a d b if_split route_cmd.split option.split simp_thms)
  then show ?thesis by (simp add: ok_def)
qed

lemma route_step_inv: "route_step x y \<Longrightarrow> routes_inv (fst x) (snd x) \<Longrightarrow> routes_inv (fst y) (snd y)"
proof (induction rule: route_step.induct)
  case (get_found d s a s' held)
  then show ?case using route_get_inv [of held s d a s'] by (simp add: fun_upd_def)
next
  case (get_none d s s' held)
  then have "routes_inv held s" by simp
  then show ?case using get_none(1) by (cases rule: route_get_total [where d = d]) (use get_none in simp_all)
next
  case (deref held a s s')
  then show ?case using route_deref_inv [of held s a] by (auto simp: fun_upd_def)
next
  case (add km s nif net msk gway flags ttl metric r s' held)
  then show ?case using route_add_result [of held s km nif net msk gway flags ttl metric] by auto
next
  case (del net msk s s' held)
  then show ?case using route_del_result [of held s net msk] by auto
next
  case (flush nif s s' held)
  then show ?case using route_flush_result [of held s nif] by auto
next
  case (ioctl km s ifs euid cmd rte r s' held)
  then show ?case using route_ioctl_result [of held s km ifs euid cmd rte] by auto
qed

lemma route_steps_inv: "route_step\<^sup>*\<^sup>* x y \<Longrightarrow> routes_inv (fst x) (snd x) \<Longrightarrow> routes_inv (fst y) (snd y)"
  by (induction rule: rtranclp_induct) (auto intro: route_step_inv)

definition routes0 :: routes where
  "routes0 = route_init \<lparr>rheap = Map.empty, allroutes = (\<lambda>_. []), defroute = None\<rparr>"

lemma routes0_inv: "routes_inv (\<lambda>_. 0) routes0"
  by (rule routes_invI) (simp_all add: routes0_def route_init_def)

section \<open>Properties\<close>


definition routes1 :: routes where
  "routes1 = snd (the (route_add (Some 7) 1 0x0a000000 0xff000000 0 RTF_UP RT_TTL 0 routes0))"

lemma routes1_eq: "route_add (Some 7) 1 0x0a000000 0xff000000 0 RTF_UP RT_TTL 0 routes0 = Some (Inr (), routes1)"
  by (simp add: routes1_def routes0_def route_init_def route_add_def route_alloc_def Let_def)

lemma routes1_inv: "routes_inv (\<lambda>_. 0) routes1"
proof -
  have "rheap routes0 7 = None" by (simp add: routes0_def route_init_def)
  then show ?thesis
    using route_add_result [OF routes0_inv, of "Some 7" 1 "0x0a000000" "0xff000000" 0 RTF_UP RT_TTL 0] routes1_eq
    by auto
qed

lemma routes1_reachable: "route_step\<^sup>*\<^sup>* ((\<lambda>_. 0), routes0) ((\<lambda>_. 0), routes1)"
proof -
  have "rheap routes0 7 = None" by (simp add: routes0_def route_init_def)
  then show ?thesis using routes1_eq by (intro r_into_rtranclp route_step.add) auto
qed


definition rt_candidates :: "u32 \<Rightarrow> routes \<Rightarrow> route set" where
  "rt_candidates d s = {e. \<exists>k. rtab s k = Some e \<and> rt_match d e \<and> covers_class d e}"

lemma candidate_in_chain:
  assumes inv: "routes_inv held s" and c: "c \<in> rt_candidates d s"
  shows "\<exists>a \<in> set (allroutes s (route_hash d)). \<exists>rt. rheap s a = Some rt \<and> rt_match d rt \<and> c = entry rt"
proof -
  from c obtain net msk where k: "rtab s (net, msk) = Some c" and m: "rt_match d c" "covers_class d c"
    by (auto simp: rt_candidates_def)
  from k obtain a rt where a: "a \<in> set (allroutes s (route_hash net))" "rheap s a = Some rt"
    "has_key net msk rt" "c = entry rt" unfolding rtab_Some [OF inv] by blast
  moreover from a m have "route_hash net = route_hash d" using match_hash [of d rt] by simp
  ultimately show ?thesis using m by auto
qed

lemma rtab_entry:
  assumes inv: "routes_inv held s" and "a \<in> set (allroutes s i)" and "rheap s a = Some rt"
  shows "rtab s (rt_net rt, rt_mask rt) = Some (entry rt)"
  using assms routes_invD(2) [OF inv assms(2)] unfolding rtab_Some [OF inv] by auto

text \<open>What the choice means for the table.\<close>

lemma rt_choice_spec:
  assumes inv: "routes_inv held s"
  shows "case rt_choice d s of
      None \<Rightarrow> rt_candidates d s = {} \<and> defroute s = None
    | Some a \<Rightarrow> \<exists>rt. rheap s a = Some rt \<and>
        ((rtab s (rt_net rt, rt_mask rt) = Some (entry rt) \<and> rt_match d rt \<and>
          (\<forall>c \<in> rt_candidates d s. rt_host c \<longrightarrow> rt_host rt)) \<or>
         (defroute s = Some a \<and> rt_candidates d s = {}))"
proof -
  let ?ch = "allroutes s (route_hash d)" and ?h = "rheap s"
  have none: "rt_candidates d s = {}" if "filter (hits (rt_match d) ?h) ?ch = []"
    using candidate_in_chain [OF inv] that by (fastforce simp: filter_empty_conv hits_def)
  show ?thesis
  proof (cases "find (hits (\<lambda>rt. rt_match d rt \<and> rt_host rt) ?h) ?ch")
    case (Some a)
    then obtain rt where "a \<in> set ?ch" "?h a = Some rt" "rt_match d rt" "rt_host rt"
      using find_SomeD [OF Some] by (auto simp: hits_def split: option.splits)
    then show ?thesis using Some rtab_entry [OF inv] by (simp add: rt_choice_def)
  next
    case None
    have nh: "\<not> rt_host c" if "c \<in> rt_candidates d s" for c
    proof
      assume "rt_host c"
      with candidate_in_chain [OF inv that] obtain a rt where
        "a \<in> set ?ch" "?h a = Some rt" "rt_match d rt" "rt_host rt" by auto
      with None show False by (auto simp: find_None_iff hits_def)
    qed
    show ?thesis
    proof (cases "filter (hits (rt_match d) ?h) ?ch = []")
      case True
      then show ?thesis using None none routes_invD(3) [OF inv]
        by (cases "defroute s") (auto simp: rt_choice_def)
    next
      case False
      let ?a = "last (filter (hits (rt_match d) ?h) ?ch)"
      have "?a \<in> set ?ch" "hits (rt_match d) ?h ?a" using last_in_set [OF False] by auto
      then obtain rt where "?h ?a = Some rt" "rt_match d rt" "?a \<in> set ?ch"
        by (auto simp: hits_def split: option.splits)
      then show ?thesis using None False nh rtab_entry [OF inv] by (auto simp: rt_choice_def)
    qed
  qed
qed

text \<open>
  C20: \<^verbatim>\<open>route_get\<close> implements its comment. It returns a usable route of the table that
  matches the address, a host route whenever some host route matches; failing that the
  default route, if that is up; and it returns \<^verbatim>\<open>NULL\<close> only if there is no such route.
  The routes considered are those whose mask covers the network part of the address's
  class, because only these are on the chain the address hashes to. The table itself does
  not change.
\<close>
theorem route_get_spec:
  assumes "routes_inv held s"
  shows "case route_get d s of
      None \<Rightarrow> False
    | Some (None, s') \<Rightarrow> s' = s \<and> rt_candidates d s = {} \<and>
        (\<forall>e. rdefault s = Some e \<longrightarrow> rt_flags e AND RTF_UP = 0)
    | Some (Some a, s') \<Rightarrow>
        (\<exists>e. map_option entry (rheap s' a) = Some e \<and>
          ((rtab s (rt_net e, rt_mask e) = Some e \<and> rt_match d e \<and>
            (\<forall>c \<in> rt_candidates d s. rt_host c \<longrightarrow> rt_host e)) \<or>
           (rdefault s = Some e \<and> rt_flags e AND RTF_UP \<noteq> 0 \<and> rt_candidates d s = {})))"
proof (cases "rt_choice d s")
  case None
  with rt_choice_spec [OF assms, of d] route_get_choice [OF assms, of d] show ?thesis
    by (simp add: rdefault_def)
next
  case (Some a)
  with rt_choice_spec [OF assms, of d] obtain rt where rt: "rheap s a = Some rt"
    and c: "(rtab s (rt_net rt, rt_mask rt) = Some (entry rt) \<and> rt_match d rt \<and>
          (\<forall>c \<in> rt_candidates d s. rt_host c \<longrightarrow> rt_host rt)) \<or>
         (defroute s = Some a \<and> rt_candidates d s = {})" by auto
  have g: "route_get d s = (if rt_flags rt AND RTF_UP \<noteq> 0 then
          Some (Some a, s\<lparr>rheap := (rheap s)(a \<mapsto> rt\<lparr>rt_refcnt := rt_refcnt rt + 1,
                                                     rt_usecnt := rt_usecnt rt + 1\<rparr>)\<rparr>)
        else Some (None, s))"
    using route_get_choice [OF assms, of d] Some rt by simp
  have e: "entry (rt\<lparr>rt_refcnt := x, rt_usecnt := y\<rparr>) = entry rt" for x y by (simp add: entry_def)
  have d: "rdefault s = Some (entry rt)" if "defroute s = Some a" using that rt by (simp add: rdefault_def)
  have up: "rt_flags rt AND RTF_UP \<noteq> 0" if "rt_match d rt" using that by (simp add: rt_match_def rt_usable_def)
  show ?thesis
  proof (cases "rt_flags rt AND RTF_UP \<noteq> 0")
    case True
    then show ?thesis using c d unfolding g by (auto simp: e)
  next
    case False
    then show ?thesis using c d up unfolding g by auto
  qed
qed

theorem route_get_spec_witness:
  "\<exists>s'. route_get 0x0a010203 routes1 = Some (Some 7, s')"
proof -
  have g: "\<exists>s'. route_get 0x0a010203 routes1 = Some (Some 7, s')"
    by (simp add: routes1_def routes0_def route_init_def route_add_def route_alloc_def Let_def
        route_get_def route_hash_def IN_CLASSA_def rt_usable_def)
  from route_get_spec [OF routes1_inv, of "0x0a010203"] g show ?thesis by simp
qed

text \<open>
  C21: \<^verbatim>\<open>route_add\<close> is an update of the table as a map. A gateway route without a gateway
  is refused and a dynamic route never replaces a static one, both without any effect; a
  route for network 0 becomes the default route; every other route becomes the one entry
  for its network and mask and no other entry changes.
\<close>
theorem route_add_refines:
  assumes inv: "routes_inv held s" and fresh: "rheap s new = None"
  shows "\<exists>r s'. route_add (Some new) nif net msk gway flags ttl metric s = Some (r, s') \<and>
    (let e = entry (new_route nif net msk gway flags ttl metric) in
     if flags AND RTF_GATEWAY \<noteq> 0 \<and> gway = INADDR_ANY then r = Inl ENOMEM \<and> s' = s
     else if net = INADDR_ANY then r = Inr () \<and> rtab s' = rtab s \<and> rdefault s' = Some e
     else if \<exists>old. rtab s (net, msk) = Some old \<and> rt_flags old AND RTF_STATIC \<noteq> 0 \<and>
               flags AND RTF_STATIC = 0
     then r = Inl EACCES \<and> s' = s
     else r = Inr () \<and> rtab s' = (rtab s)((net, msk) \<mapsto> e) \<and> rdefault s' = rdefault s)"
proof (cases "flags AND RTF_GATEWAY \<noteq> 0 \<and> gway = INADDR_ANY")
  case True
  then show ?thesis by (simp add: route_add_def route_alloc_def)
next
  case gw: False
  show ?thesis
  proof (cases "net = INADDR_ANY")
    case True
    from route_add_default [OF inv fresh gw True, of nif msk ttl metric] True gw show ?thesis
      unfolding Let_def by auto
  next
    case False
    show ?thesis
    proof (cases "\<exists>e. rtab s (net, msk) = Some e \<and> rt_flags e AND RTF_STATIC \<noteq> 0 \<and> flags AND RTF_STATIC = 0")
      case True
      with route_add_chain [OF inv fresh gw False, of msk nif ttl metric] gw False show ?thesis
        unfolding Let_def by (simp only: if_True if_False simp_thms) blast
    next
      case old: False
      with route_add_chain [OF inv fresh gw False, of msk nif ttl metric] gw False show ?thesis
        unfolding Let_def by (simp only: if_True if_False simp_thms) blast
    qed
  qed
qed

theorem route_add_refines_witness:
  "\<exists>r s'. route_add (Some 8) 1 0x0b000000 0xff000000 0 RTF_UP RT_TTL 0 routes1 = Some (r, s') \<and>
     rtab s' (0x0b000000, 0xff000000) \<noteq> None"
proof -
  have f: "rheap routes1 8 = None"
    by (simp add: routes1_def routes0_def route_init_def route_add_def route_alloc_def Let_def)
  have n: "rtab routes1 (0x0b000000, 0xff000000) = None"
    by (simp add: routes1_def routes0_def route_init_def route_add_def route_alloc_def Let_def
        rtab_def route_hash_def IN_CLASSA_def)
  from route_add_refines [where nif = 1 and net = "0x0b000000" and msk = "0xff000000" and gway = 0
      and flags = RTF_UP and ttl = RT_TTL and metric = 0, OF routes1_inv f] n
  show ?thesis by (auto simp: Let_def)
qed

lemma rtab_del_set:
  assumes inv: "routes_inv held s" and d: "\<not> (net = INADDR_ANY \<and> defroute s \<noteq> None)"
  shows "rtab (unlinking (del_set net msk s) s) = (rtab s)((net, msk) := None)"
    "rdefault (unlinking (del_set net msk s) s) = rdefault s"
proof -
  have ds: "a \<in> del_set net msk s \<longleftrightarrow> a \<in> set (allroutes s (route_hash net)) \<and>
      hits (has_key net msk) (rheap s) a" for a
    using d by (auto simp: del_set_def)
  have "rtab (unlinking (del_set net msk s) s) =
      (\<lambda>k. case rtab s k of None \<Rightarrow> None | Some e \<Rightarrow> if has_key net msk e then None else Some e)"
    using inv del_set_linked
  proof (rule rtab_unlinking)
    fix i a rt assume a: "a \<in> set (allroutes s i)" "rheap s a = Some rt"
    then have "i = route_hash (rt_net rt)" using routes_invD(2) [OF inv a(1)] by simp
    then show "a \<in> del_set net msk s \<longleftrightarrow> has_key net msk (entry rt)"
      using a by (auto simp: ds hits_def)
  qed
  moreover have "(case rtab s (n, m) of None \<Rightarrow> None | Some e \<Rightarrow> if has_key net msk e then None else Some e)
      = ((rtab s)((net, msk) := None)) (n, m)" for n m
    using rtab_key [OF inv, of n m] by (auto split: option.splits)
  ultimately show "rtab (unlinking (del_set net msk s) s) = (rtab s)((net, msk) := None)"
    by (auto simp: fun_eq_iff)
  show "rdefault (unlinking (del_set net msk s) s) = rdefault s"
    using chain_not_default [OF inv, of _ "route_hash net"]
    by (cases "defroute s") (auto simp: rdefault_unlinking ds, simp add: rdefault_def)
qed

lemma rtab_flush_set:
  assumes inv: "routes_inv held s"
  shows "rtab (unlinking (flush_set nif s) s) =
    (\<lambda>k. case rtab s k of None \<Rightarrow> None
       | Some e \<Rightarrow> if rt_nif e = nif \<and> rt_flags e AND RTF_LOCAL = 0 then None else Some e)"
  using inv flush_set_linked
proof (rule rtab_unlinking)
  fix i a rt assume a: "a \<in> set (allroutes s i)" "rheap s a = Some rt"
  then show "a \<in> flush_set nif s \<longleftrightarrow> rt_nif (entry rt) = nif \<and> rt_flags (entry rt) AND RTF_LOCAL = 0"
    using chain_not_default [OF inv a(1)] by (auto simp: flush_set_def flush_hits_def hits_def)
qed

text \<open>
  C22: \<^verbatim>\<open>route_del\<close> and \<^verbatim>\<open>route_flush\<close> on the table as a map: the first removes the entry for
  its network and mask (for network 0 the default route, if there is one) and nothing else;
  the second removes the entries of the interface that are not marked \<^verbatim>\<open>RTF_LOCAL\<close>, and
  the default route if it goes over the interface.
\<close>
theorem route_del_flush_refine:
  assumes inv: "routes_inv held s"
  shows "(\<exists>s'. route_del net msk s = Some s' \<and>
      (if net = INADDR_ANY \<and> defroute s \<noteq> None then rtab s' = rtab s \<and> rdefault s' = None
       else rtab s' = (rtab s)((net, msk) := None) \<and> rdefault s' = rdefault s)) \<and>
    (\<exists>s'. route_flush nif s = Some s' \<and>
      rtab s' = (\<lambda>k. case rtab s k of None \<Rightarrow> None
        | Some e \<Rightarrow> if rt_nif e = nif \<and> rt_flags e AND RTF_LOCAL = 0 then None else Some e) \<and>
      rdefault s' = (case rdefault s of None \<Rightarrow> None
        | Some e \<Rightarrow> if rt_nif e = nif then None else Some e))"
proof (intro conjI exI)
  show "route_del net msk s = Some (unlinking (del_set net msk s) s)" using inv by (rule route_del_eq)
  show "route_flush nif s = Some (unlinking (flush_set nif s) s)" using inv by (rule route_flush_eq)
  show "rtab (unlinking (flush_set nif s) s) =
    (\<lambda>k. case rtab s k of None \<Rightarrow> None
       | Some e \<Rightarrow> if rt_nif e = nif \<and> rt_flags e AND RTF_LOCAL = 0 then None else Some e)"
    using inv by (rule rtab_flush_set)
  show "rdefault (unlinking (flush_set nif s) s) = (case rdefault s of None \<Rightarrow> None
        | Some e \<Rightarrow> if rt_nif e = nif then None else Some e)"
  proof (cases "defroute s")
    case None
    then show ?thesis by (simp add: rdefault_unlinking) (simp add: rdefault_def)
  next
    case (Some a)
    then obtain rt where rt: "rheap s a = Some rt" using routes_invD(3) [OF inv] by blast
    have "a \<in> flush_set nif s \<longleftrightarrow> rt_nif rt = nif"
      using Some rt chain_not_default [OF inv, of a] by (auto simp: flush_set_def hits_def)
    then show ?thesis using Some rt by (simp add: rdefault_unlinking) (simp add: rdefault_def)
  qed
  show "if net = INADDR_ANY \<and> defroute s \<noteq> None
    then rtab (unlinking (del_set net msk s) s) = rtab s \<and> rdefault (unlinking (del_set net msk s) s) = None
    else rtab (unlinking (del_set net msk s) s) = (rtab s)((net, msk) := None) \<and>
      rdefault (unlinking (del_set net msk s) s) = rdefault s"
  proof (cases "net = INADDR_ANY \<and> defroute s \<noteq> None")
    case False
    then show ?thesis using rtab_del_set [OF inv False, of msk] by (simp only: if_False simp_thms)
  next
    case True
    then obtain a where a: "defroute s = Some a" "del_set net msk s = {a}" by (auto simp: del_set_def)
    have "rtab (unlinking {a} s) = (\<lambda>k. case rtab s k of None \<Rightarrow> None | Some e \<Rightarrow> if False then None else Some e)"
      using inv by (rule rtab_unlinking) (use a chain_not_default [OF inv] in \<open>auto simp: linked_def\<close>)
    then have "rtab (unlinking {a} s) = rtab s" by (auto simp: fun_eq_iff split: option.splits)
    then show ?thesis using a True by (simp add: rdefault_unlinking)
  qed
qed

theorem route_del_flush_refine_witness:
  "\<exists>s'. route_del 0x0a000000 0xff000000 routes1 = Some s' \<and> rtab s' (0x0a000000, 0xff000000) = None"
proof -
  from route_del_flush_refine [OF routes1_inv, of "0x0a000000" "0xff000000" 0]
  obtain s' where "route_del 0x0a000000 0xff000000 routes1 = Some s'"
    "rtab s' = (rtab routes1)((0x0a000000, 0xff000000) := None)" by auto
  then show ?thesis by simp
qed

end
