(* ===== verification/LinkedList.thy ===== *)
theory LinkedList
  imports Prelude "HOL-Library.Monad_Syntax"
begin

text \<open>
  Singly linked lists through a \<^verbatim>\<open>next\<close> field, as the kernel keeps its sockets, its
  transport protocols and the clients of IP: the objects are in a store, a map from
  addresses, and the address 0 is \<^verbatim>\<open>NULL\<close>. The loops over such a list are stated once
  here, and so is what they compute on a list without a cycle.
\<close>

section \<open>The loops\<close>

text \<open>
  \<^verbatim>\<open>for (p = first; p; p = p->next) if (...) break;\<close> with the value of \<^verbatim>\<open>p\<close> behind the
  loop. \<open>None\<close> is a read of an object that does not exist, or a loop without end.
\<close>

partial_function (option) search :: "('a \<Rightarrow> nat) \<Rightarrow> (nat \<Rightarrow> 'a \<Rightarrow> bool) \<Rightarrow> (nat \<rightharpoonup> 'a) \<Rightarrow> nat \<Rightarrow> nat option" where
  "search nxt P m p =
     (if p = 0 then Some 0
      else (case m p of
        None \<Rightarrow> None
      | Some ob \<Rightarrow> if P p ob then Some p else search nxt P m (nxt ob)))"

lemma search_0 [simp]: "search nxt P m 0 = Some 0"
  by (subst search.simps) simp

lemma search_step [simp]:
  "p \<noteq> 0 \<Longrightarrow> m p = Some ob \<Longrightarrow> search nxt P m p = (if P p ob then Some p else search nxt P m (nxt ob))"
  by (subst search.simps) simp

text \<open>\<open>chain nxt m p xs\<close>: from \<open>p\<close> the list of the addresses \<open>xs\<close> is linked.\<close>

primrec chain :: "('a \<Rightarrow> nat) \<Rightarrow> (nat \<rightharpoonup> 'a) \<Rightarrow> nat \<Rightarrow> nat list \<Rightarrow> bool" where
  "chain nxt m p [] = (p = 0)"
| "chain nxt m p (x # xs) = (p = x \<and> x \<noteq> 0 \<and> (case m x of None \<Rightarrow> False | Some ob \<Rightarrow> chain nxt m (nxt ob) xs))"

lemma chain_fun: "chain nxt m p xs \<Longrightarrow> chain nxt m p ys \<Longrightarrow> xs = ys"
proof (induction xs arbitrary: p ys)
  case (Cons x xs)
  then show ?case by (cases ys) (auto split: option.splits)
next
  case Nil
  then show ?case by (cases ys) auto
qed

lemma chain_split:
  "chain nxt m p (xs @ y # ys) \<Longrightarrow> \<exists>ob. m y = Some ob \<and> y \<noteq> 0 \<and> chain nxt m (nxt ob) ys \<and> chain nxt m y (y # ys)"
  by (induction xs arbitrary: p) (auto split: option.splits)

lemma chain_distinct: "chain nxt m p xs \<Longrightarrow> distinct xs"
proof (induction xs arbitrary: p)
  case (Cons x xs)
  then obtain ob where ob: "m x = Some ob" "chain nxt m (nxt ob) xs" by (auto split: option.splits)
  have "x \<notin> set xs"
  proof
    assume "x \<in> set xs"
    then obtain us vs where xs: "xs = us @ x # vs" by (meson split_list)
    from chain_split [OF ob(2) [unfolded xs]] have "chain nxt m x (x # vs)" by blast
    with chain_fun Cons.prems have "x # xs = x # vs" by (metis chain.simps(2))
    with xs show False by simp
  qed
  with Cons.IH [OF ob(2)] show ?case by simp
qed simp

lemma chain_frame:
  assumes "\<And>x. x \<in> set xs \<Longrightarrow> map_option nxt (m' x) = map_option nxt (m x)"
  shows "chain nxt m' p xs = chain nxt m p xs"
  using assms
proof (induction xs arbitrary: p)
  case (Cons x xs)
  then have "map_option nxt (m' x) = map_option nxt (m x)" by simp
  with Cons.IH Cons.prems show ?case by (cases "m x"; cases "m' x") auto
qed simp

lemma chain_nonzero: "chain nxt m p xs \<Longrightarrow> 0 \<notin> set xs"
  by (induction xs arbitrary: p) (auto split: option.splits)

lemma chain_Some: "chain nxt m p xs \<Longrightarrow> x \<in> set xs \<Longrightarrow> \<exists>ob. m x = Some ob"
  by (induction xs arbitrary: p) (auto split: option.splits)

lemma search_chain:
  "chain nxt m p xs \<Longrightarrow>
   search nxt P m p = Some (case find (\<lambda>x. P x (the (m x))) xs of None \<Rightarrow> 0 | Some x \<Rightarrow> x)"
  by (induction xs arbitrary: p) (auto split: option.splits)

lemma search_member:
  assumes "chain nxt m p xs"
  shows "search nxt (\<lambda>x _. x = a) m p = Some (if a \<in> set xs then a else 0)"
proof -
  have "find (\<lambda>x. x = a) xs = (if a \<in> set xs then Some a else None)" by (induction xs) auto
  then show ?thesis using search_chain [OF assms, of "\<lambda>x _. x = a"] by simp
qed

section \<open>Insertion and removal\<close>

text \<open>
  An object type with a link: what a link field gives to the lists that run through it,
  whatever else the objects hold.
\<close>

locale intrusive_list =
  fixes nxt :: "'a \<Rightarrow> nat" and set_nxt :: "nat \<Rightarrow> 'a \<Rightarrow> 'a"
  assumes nxt_set: "nxt (set_nxt n ob) = n"
begin

lemma push_front:
  assumes "chain nxt m p xs" and "m a = Some ob" and "a \<noteq> 0" and "a \<notin> set xs"
  shows "chain nxt (m(a \<mapsto> set_nxt p ob)) a (a # xs)"
proof -
  have "chain nxt (m(a \<mapsto> set_nxt p ob)) p xs"
    using assms(1) by (subst chain_frame [of xs nxt _ m]) (use assms(4) in auto)
  with assms(3) show ?thesis by (simp add: nxt_set)
qed

lemma unlink_behind:
  assumes "chain nxt m p (xs @ e # a # ys)" and "m e = Some oe" and "m a = Some oa"
  shows "chain nxt (m(e \<mapsto> set_nxt (nxt oa) oe)) p (xs @ e # ys)"
  using assms(1)
proof (induction xs arbitrary: p)
  case Nil
  then have c: "chain nxt m (nxt oa) ys" "p = e" "e \<noteq> 0" using assms(2,3) by auto
  have "e \<notin> set ys" using chain_distinct [OF Nil] by auto
  then have "chain nxt (m(e \<mapsto> set_nxt (nxt oa) oe)) (nxt oa) ys"
    using c(1) by (subst chain_frame [of ys nxt _ m]) auto
  with c show ?case by (simp add: nxt_set fun_upd_def)
next
  case (Cons x xs)
  then have "x \<noteq> e" using chain_distinct [OF Cons.prems] by auto
  with Cons show ?case by (auto split: option.splits)
qed

lemma clear_link:
  assumes "chain nxt m p xs" and "a \<notin> set xs"
  shows "chain nxt (m(a \<mapsto> ob)) p xs"
  using assms by (subst chain_frame [of xs nxt _ m]) auto

text \<open>The predecessor of an element: the search for the object whose link is \<open>a\<close>.\<close>

lemma predecessor:
  assumes "chain nxt m p xs" and "p \<noteq> a" and "a \<noteq> 0"
  shows "if a \<in> set xs then \<exists>us e vs. xs = us @ e # a # vs \<and> search nxt (\<lambda>_ ob. nxt ob = a) m p = Some e
         else search nxt (\<lambda>_ ob. nxt ob = a) m p = Some 0"
  using assms(1,2)
proof (induction xs arbitrary: p)
  case (Cons x xs)
  then obtain ob where ob: "m x = Some ob" "chain nxt m (nxt ob) xs" "p = x" "x \<noteq> 0" "x \<noteq> a" by (auto split: option.splits)
  show ?case
  proof (cases "nxt ob = a")
    case True
    then obtain vs where "xs = a # vs" using ob(2) assms(3) by (cases xs) auto
    moreover have "search nxt (\<lambda>_ ob. nxt ob = a) m p = Some x" using ob True by simp
    ultimately show ?thesis by (auto intro: exI [of _ "[]"])
  next
    case False
    have s: "search nxt (\<lambda>_ ob. nxt ob = a) m p = search nxt (\<lambda>_ ob. nxt ob = a) m (nxt ob)"
      using ob False by simp
    show ?thesis
    proof (cases "a \<in> set xs")
      case True
      with Cons.IH [OF ob(2) False] obtain us e vs where
        e: "xs = us @ e # a # vs" "search nxt (\<lambda>_ ob. nxt ob = a) m (nxt ob) = Some e" by auto
      then have "x # xs = (x # us) @ e # a # vs" by simp
      with e(2) s show ?thesis using True by (metis list.set_intros(2))
    qed (use Cons.IH [OF ob(2) False] s ob in auto)
  qed
qed simp

text \<open>Unlinking an element: through the head, or through its predecessor.\<close>

lemma unlink_any:
  assumes c: "chain nxt m p xs" and a: "a \<in> set xs" "m a = Some oa"
  shows "if p = a then chain nxt m (nxt oa) (remove1 a xs)
         else \<exists>e oe. search nxt (\<lambda>_ ob. nxt ob = a) m p = Some e \<and> e \<noteq> 0 \<and> e \<noteq> a \<and> e \<in> set xs \<and> m e = Some oe \<and>
           chain nxt (m(e \<mapsto> set_nxt (nxt oa) oe)) p (remove1 a xs)"
proof (cases "p = a")
  case True
  then show ?thesis using c a by (cases xs) auto
next
  case False
  have "a \<noteq> 0" using chain_nonzero [OF c] a(1) by metis
  from predecessor [OF c False this] a(1) obtain us e vs where
    e: "xs = us @ e # a # vs" "search nxt (\<lambda>_ ob. nxt ob = a) m p = Some e" by auto
  from chain_split [OF c [unfolded e(1)]] obtain oe where oe: "m e = Some oe" "e \<noteq> 0" by blast
  have d: "e \<noteq> a" "a \<notin> set us" using chain_distinct [OF c] e(1) by auto
  then have "remove1 a xs = us @ e # vs" by (simp add: e(1) remove1_append)
  with unlink_behind [OF c [unfolded e(1)] oe(1) a(2)] have "chain nxt (m(e \<mapsto> set_nxt (nxt oa) oe)) p (remove1 a xs)" by simp
  with False e oe d show ?thesis by auto
qed

lemma unlink_absent:
  assumes "chain nxt m p xs" and "a \<notin> set xs" and "a \<noteq> 0"
  shows "p \<noteq> a \<and> search nxt (\<lambda>_ ob. nxt ob = a) m p = Some 0"
proof -
  have "p \<noteq> a" using assms by (cases xs) auto
  with predecessor [OF assms(1) this assms(3)] assms(2) show ?thesis by simp
qed

end

end
