(* ===== verification/Buf.thy ===== *)
theory Buf
  imports Timeout "HOL-Library.Monad_Syntax"
begin

text \<open>
  The network memory of \<^verbatim>\<open>kernel/buf.c\<close>: blocks of 32 KByte from \<^verbatim>\<open>kmalloc\<close> are cut
  into buffers, each with a header; \<^verbatim>\<open>_n\<close> and \<^verbatim>\<open>_p\<close> link the buffers of a block in
  memory order, and eight lists hold the free buffers by size.

  Addresses and lengths are numbers below \<open>2 ^ 32\<close>, with the wrap-around of \<^verbatim>\<open>ulong\<close>
  written out; \<open>0\<close> is \<^verbatim>\<open>NULL\<close>. A free list is the list of its buffers; unlinking a
  buffer that is on no list would follow null pointers and is a failure of the model, as
  is an access to a header that does not exist: the outer \<open>None\<close>. \<^verbatim>\<open>kmalloc\<close> is an
  argument. Interrupts are masked around each change of the lists.
\<close>

section \<open>State\<close>

abbreviation BUF_BLOCK_SIZE :: nat where "BUF_BLOCK_SIZE \<equiv> 32768"
abbreviation BUF_NSPLIT :: nat where "BUF_NSPLIT \<equiv> 7"
abbreviation SIZEOF_BUF :: nat where "SIZEOF_BUF \<equiv> 46"
abbreviation GC_TIMEOUT :: u32 where "GC_TIMEOUT \<equiv> 60000"
definition ADDMEM :: fn where "ADDMEM = 2"
definition GC :: fn where "GC = 3"

datatype buf_mode = BUF_NORMAL | BUF_ATOMIC
datatype reserve_mode = BUF_RESERVE_START | BUF_RESERVE_END | BAD_RESERVE

text \<open>\<open>bn\<close> and \<open>bp\<close> are \<^verbatim>\<open>_n\<close> and \<^verbatim>\<open>_p\<close>.\<close>

record buf =
  buflen :: nat
  dstart :: nat
  dend :: nat
  blinks :: u16
  binfo :: u32
  bn :: nat
  bp :: nat

record bufpool =
  bufs :: "nat \<rightharpoonup> buf"
  bmem :: "nat \<Rightarrow> u8"
  freelist :: "nat \<Rightarrow> nat list"
  failed_allocs :: u32
  mem_used :: u32
  buf_tmout :: "tref option"
  btimeouts :: timeouts

definition BUF_SIZE :: "nat \<Rightarrow> nat" where
  "BUF_SIZE b = BUF_BLOCK_SIZE div 2 ^ b"

definition add32 :: "nat \<Rightarrow> nat \<Rightarrow> nat" where
  "add32 a b = (a + b) mod 2 ^ 32"

definition sub32 :: "nat \<Rightarrow> nat \<Rightarrow> nat" where
  "sub32 a b = (a + 2 ^ 32 - b) mod 2 ^ 32"

text \<open>The reading of a \<^verbatim>\<open>long\<close>.\<close>

definition slong :: "nat \<Rightarrow> int" where
  "slong x = (if x < 2 ^ 31 then int x else int x - 2 ^ 32)"

text \<open>\<^verbatim>\<open>(x + k) & ~1\<close> on a \<^verbatim>\<open>ulong\<close>.\<close>

definition even_up :: "nat \<Rightarrow> nat \<Rightarrow> nat" where
  "even_up k x = add32 x k div 2 * 2"

section \<open>Blocks\<close>

definition free_insert :: "nat \<Rightarrow> nat \<Rightarrow> bufpool \<Rightarrow> bufpool" where
  "free_insert i a s = s\<lparr>freelist := (freelist s)(i := a # freelist s i)\<rparr>"

definition free_unlink :: "nat \<Rightarrow> bufpool \<Rightarrow> bufpool option" where
  "free_unlink a s =
     (if list_ex (\<lambda>i. a \<in> set (freelist s i)) [0..<BUF_NSPLIT + 1]
      then Some (s\<lparr>freelist := (\<lambda>i. remove1 a (freelist s i))\<rparr>) else None)"

definition set_p :: "nat \<Rightarrow> nat \<Rightarrow> bufpool \<Rightarrow> bufpool option" where
  "set_p a x s = do { h \<leftarrow> bufs s a; Some (s\<lparr>bufs := (bufs s)(a \<mapsto> h\<lparr>bp := x\<rparr>)\<rparr>) }"

definition set_links :: "nat \<Rightarrow> u16 \<Rightarrow> bufpool \<Rightarrow> bufpool option" where
  "set_links a x s = do { h \<leftarrow> bufs s a; Some (s\<lparr>bufs := (bufs s)(a \<mapsto> h\<lparr>blinks := x\<rparr>)\<rparr>) }"

text \<open>The result is the C value: \<^verbatim>\<open>True\<close> is 1, out of memory.\<close>

definition buf_add_block :: "(bufpool \<Rightarrow> nat option) \<Rightarrow> bufpool \<Rightarrow> bool \<times> bufpool" where
  "buf_add_block kmalloc s =
     (case kmalloc s of
        None \<Rightarrow> (True, s)
      | Some new \<Rightarrow>
          let s1 = free_insert 0 new
            (s\<lparr>bufs := (bufs s)(new \<mapsto> \<lparr>buflen = BUF_BLOCK_SIZE, dstart = 0, dend = 0,
                 blinks = 0, binfo = 0, bn = 0, bp = 0\<rparr>)\<rparr>);
              s2 = s1\<lparr>mem_used := mem_used s1 + of_nat BUF_BLOCK_SIZE\<rparr>
          in (False,
              case buf_tmout s2 of
                None \<Rightarrow> s2
              | Some t \<Rightarrow> s2\<lparr>btimeouts := cancelroottimeout t (btimeouts s2), buf_tmout := None\<rparr>))"

definition addmem :: "(bufpool \<Rightarrow> nat option) \<Rightarrow> bufpool \<Rightarrow> bufpool" where
  "addmem kmalloc s = snd (buf_add_block kmalloc (s\<lparr>buf_tmout := None\<rparr>))"

text \<open>The first free block is given back unless it is the only one.\<close>

definition buf_free_block :: "bufpool \<Rightarrow> (bool \<times> bufpool) option" where
  "buf_free_block s =
     (case freelist s 0 of
        a # b # rest \<Rightarrow> do {
          h \<leftarrow> bufs s a;
          Some (True, s\<lparr>mem_used := mem_used s - of_nat (buflen h),
                        freelist := (freelist s)(0 := b # rest),
                        bufs := (bufs s)(a := None)\<rparr>)
        }
      | _ \<Rightarrow> Some (False, s))"

fun gc_loop :: "nat \<Rightarrow> bufpool \<Rightarrow> bufpool option" where
  "gc_loop 0 s = None"
| "gc_loop (Suc fuel) s = do {
     (more, s') \<leftarrow> buf_free_block s;
     if more then gc_loop fuel s' else Some s'
   }"

text \<open>One turn of the loop for every free block and the last, that finds only one, are enough.\<close>

definition gc :: "bufpool \<Rightarrow> bufpool option" where
  "gc s = do {
     s1 \<leftarrow> gc_loop (Suc (length (freelist s 0))) s;
     (t, tm) \<leftarrow> addroottimeout GC_TIMEOUT GC 0 (btimeouts s1);
     Some (s1\<lparr>btimeouts := tm\<rparr>)
   }"

definition buf_init :: "(bufpool \<Rightarrow> nat option) \<Rightarrow> bufpool \<Rightarrow> (bool \<times> bufpool) option" where
  "buf_init kmalloc s =
     (case buf_add_block kmalloc (s\<lparr>freelist := (\<lambda>_. [])\<rparr>) of
        (True, s1) \<Rightarrow> Some (False, s1)
      | (False, s1) \<Rightarrow> do {
          (t, tm) \<leftarrow> addroottimeout GC_TIMEOUT GC 0 (btimeouts s1);
          Some (True, s1\<lparr>btimeouts := tm\<rparr>)
        })"

section \<open>Allocation\<close>

text \<open>The free list to start at, counting down from \<^verbatim>\<open>BUF_NSPLIT\<close>; \<open>None\<close> is \<^verbatim>\<open>idx < 0\<close>.\<close>

definition size_index :: "nat \<Rightarrow> nat option" where
  "size_index bsize = find (\<lambda>i. bsize \<le> BUF_SIZE i) (rev [0..<BUF_NSPLIT + 1])"

definition nonempty_index :: "nat \<Rightarrow> bufpool \<Rightarrow> nat option" where
  "nonempty_index idx s = find (\<lambda>i. freelist s i \<noteq> []) (rev [0..<Suc idx])"

text \<open>\<^verbatim>\<open>while (nxtbuf->buflen < BUF_SIZE(i)) i++\<close>\<close>

function class_from :: "nat \<Rightarrow> nat \<Rightarrow> nat" where
  "class_from len i = (if len < BUF_SIZE i then class_from len (Suc i) else i)"
  by pat_completeness auto
termination
proof (relation "measure (\<lambda>(len, i). 16 - i)")
  fix len i
  assume "len < BUF_SIZE i"
  then have "BUF_SIZE i \<noteq> 0" by simp
  then have "2 ^ i \<le> BUF_BLOCK_SIZE" by (simp add: BUF_SIZE_def div_eq_0_iff)
  also have "BUF_BLOCK_SIZE < 2 ^ 16" by simp
  finally have "i < 16" by (rule power_less_imp_less_exp [rotated]) simp
  then show "((len, Suc i), len, i) \<in> measure (\<lambda>(len, i). 16 - i)" by simp
qed simp

declare class_from.simps [simp del]

text \<open>Taking the first buffer of list \<open>i\<close> and cutting off what is not needed.\<close>

definition buf_take :: "nat \<Rightarrow> nat \<Rightarrow> nat \<Rightarrow> bufpool \<Rightarrow> (nat option \<times> bufpool) option" where
  "buf_take bsize reserve i s = do {
     let a = hd (freelist s i);
     s1 \<leftarrow> free_unlink a s;
     h \<leftarrow> bufs s1 a;
     (ok, s2) \<leftarrow>
       (if sub32 (buflen h) bsize \<ge> BUF_SIZE BUF_NSPLIT then do {
          let nxt = add32 a bsize;
          s2 \<leftarrow> (if bn h \<noteq> 0 then set_p (bn h) nxt s1 else Some s1);
          let len = sub32 (buflen h) bsize;
          let s3 = s2\<lparr>bufs := (bufs s2)(nxt \<mapsto> \<lparr>buflen = len, dstart = 0, dend = 0,
                blinks = 0, binfo = 0, bn = bn h, bp = a\<rparr>, a \<mapsto> h\<lparr>buflen := bsize, bn := nxt\<rparr>)\<rparr>;
          let j = class_from len i;
          Some (if j > BUF_NSPLIT then (False, s3) else (True, free_insert j nxt s3))
        }
        else Some (True, s1));
     if \<not> ok then Some (None, s2)
     else do {
       h2 \<leftarrow> bufs s2 a;
       let d = add32 (a + SIZEOF_BUF) reserve;
       Some (Some a, s2\<lparr>bufs := (bufs s2)(a \<mapsto> h2\<lparr>blinks := 1, dstart := d, dend := d\<rparr>)\<rparr>)
     }
   }"

definition fail_alloc :: "bufpool \<Rightarrow> bufpool" where
  "fail_alloc s = s\<lparr>failed_allocs := failed_allocs s + 1\<rparr>"

partial_function (option) buf_try ::
  "(bufpool \<Rightarrow> nat option) \<Rightarrow> nat \<Rightarrow> nat \<Rightarrow> buf_mode \<Rightarrow> nat \<Rightarrow> bufpool \<Rightarrow> (nat option \<times> bufpool) option" where
  "buf_try kmalloc bsize reserve mode idx s =
     (case nonempty_index idx s of
        Some i \<Rightarrow> buf_take bsize reserve i s
      | None \<Rightarrow>
          if mode = BUF_ATOMIC then
            (case buf_tmout s of
               Some t \<Rightarrow> Some (None, fail_alloc s)
             | None \<Rightarrow> Option.bind (addroottimeout 0 ADDMEM 1 (btimeouts s))
                 (\<lambda>(t, tm). Some (None, fail_alloc (s\<lparr>btimeouts := tm, buf_tmout := t\<rparr>))))
          else
            let (failed, s') = buf_add_block kmalloc s
            in if failed then Some (None, fail_alloc s')
               else buf_try kmalloc bsize reserve mode idx s')"

definition alloc_size :: "nat \<Rightarrow> nat" where
  "alloc_size bsize =
     (let sz = even_up 0 (add32 bsize (SIZEOF_BUF + 2))
      in if sz < BUF_SIZE BUF_NSPLIT then BUF_SIZE BUF_NSPLIT else sz)"

definition buf_alloc ::
  "(bufpool \<Rightarrow> nat option) \<Rightarrow> nat \<Rightarrow> nat \<Rightarrow> buf_mode \<Rightarrow> bufpool \<Rightarrow> (nat option \<times> bufpool) option" where
  "buf_alloc kmalloc bsize reserve mode s =
     (case size_index (alloc_size bsize) of
        None \<Rightarrow> Some (None, fail_alloc s)
      | Some idx \<Rightarrow> buf_try kmalloc (alloc_size bsize) (even_up 1 reserve) mode idx s)"

section \<open>Freeing\<close>

text \<open>Merging a free buffer in front; the result is the address of the merged buffer.\<close>

definition merge_prev :: "nat \<Rightarrow> bufpool \<Rightarrow> (nat \<times> bufpool) option" where
  "merge_prev a s = do {
     h \<leftarrow> bufs s a;
     if bp h = 0 then Some (a, s)
     else do {
       hp \<leftarrow> bufs s (bp h);
       if blinks hp \<noteq> 0 then Some (a, s)
       else do {
         s1 \<leftarrow> free_unlink (bp h) s;
         s2 \<leftarrow> (if bn h \<noteq> 0 then set_p (bn h) (bp h) s1 else Some s1);
         Some (bp h, s2\<lparr>bufs := (bufs s2)(bp h \<mapsto> hp\<lparr>bn := bn h, buflen := add32 (buflen hp) (buflen h)\<rparr>,
                                          a := None)\<rparr>)
       }
     }
   }"

definition merge_next :: "nat \<Rightarrow> bufpool \<Rightarrow> bufpool option" where
  "merge_next a s = do {
     h \<leftarrow> bufs s a;
     if bn h = 0 then Some s
     else do {
       hn \<leftarrow> bufs s (bn h);
       if blinks hn \<noteq> 0 then Some s
       else do {
         s1 \<leftarrow> free_unlink (bn h) s;
         s2 \<leftarrow> (if bn hn \<noteq> 0 then set_p (bn hn) a s1 else Some s1);
         Some (s2\<lparr>bufs := (bufs s2)(a \<mapsto> h\<lparr>bn := bn hn, buflen := add32 (buflen h) (buflen hn)\<rparr>,
                                    bn h := None)\<rparr>)
       }
     }
   }"

definition free_class :: "nat \<Rightarrow> nat option" where
  "free_class len = find (\<lambda>i. len \<ge> BUF_SIZE i) [0..<BUF_NSPLIT + 1]"

definition buf_free :: "nat \<Rightarrow> bufpool \<Rightarrow> bufpool option" where
  "buf_free buf s = do {
     (a, s1) \<leftarrow> merge_prev buf s;
     s2 \<leftarrow> merge_next a s1;
     h \<leftarrow> bufs s2 a;
     case (if buflen h > BUF_BLOCK_SIZE then None else free_class (buflen h)) of
       None \<Rightarrow> Some s2
     | Some i \<Rightarrow> do { s3 \<leftarrow> set_links a 0 s2; Some (free_insert i a s3) }
   }"

text \<open>\<^verbatim>\<open>buf_deref\<close> holds a copy of the text of \<^verbatim>\<open>buf_free\<close>.\<close>

definition buf_deref :: "nat \<Rightarrow> bufpool \<Rightarrow> bufpool option" where
  "buf_deref buf s = do {
     h \<leftarrow> bufs s buf;
     s1 \<leftarrow> set_links buf (blinks h - 1) s;
     if sint (blinks h - 1) > 0 then Some s1 else buf_free buf s1
   }"

definition buf_ref :: "nat \<Rightarrow> bufpool \<Rightarrow> bufpool option" where
  "buf_ref buf s = do { h \<leftarrow> bufs s buf; set_links buf (blinks h + 1) s }"

section \<open>Copies\<close>

definition mem_copy :: "nat \<Rightarrow> nat \<Rightarrow> nat \<Rightarrow> bufpool \<Rightarrow> bufpool" where
  "mem_copy dst src len s =
     s\<lparr>bmem := (\<lambda>x. if dst \<le> x \<and> x < dst + len then bmem s (src + (x - dst)) else bmem s x)\<rparr>"

text \<open>The common part: copy the data of \<open>buf\<close> into the new buffer and finish its header.\<close>

definition copy_into :: "nat \<Rightarrow> nat \<Rightarrow> bufpool \<Rightarrow> bufpool option" where
  "copy_into nbuf buf s = do {
     h \<leftarrow> bufs s buf;
     hn \<leftarrow> bufs s nbuf;
     let len = sub32 (dend h) (dstart h);
     let s1 = mem_copy (dstart hn) (dstart h) len s;
     Some (s1\<lparr>bufs := (bufs s1)(nbuf \<mapsto> hn\<lparr>dend := add32 (dstart hn) len, binfo := binfo h\<rparr>)\<rparr>)
   }"

definition buf_reserve ::
  "(bufpool \<Rightarrow> nat option) \<Rightarrow> nat \<Rightarrow> nat \<Rightarrow> reserve_mode \<Rightarrow> bufpool \<Rightarrow> (nat option \<times> bufpool) option" where
  "buf_reserve kmalloc buf reserve0 mode s = do {
     h \<leftarrow> bufs s buf;
     let reserve = even_up 1 reserve0;
     let ospace = sub32 (buflen h) SIZEOF_BUF;
     case (case mode of
             BUF_RESERVE_START \<Rightarrow> Some (add32 (sub32 (add32 buf (buflen h)) (dstart h)) reserve, reserve)
           | BUF_RESERVE_END \<Rightarrow> Some (add32 (sub32 (dend h) (add32 buf SIZEOF_BUF)) reserve,
                                      sub32 (dstart h) (add32 buf SIZEOF_BUF))
           | BAD_RESERVE \<Rightarrow> None) of
       None \<Rightarrow> Some (None, s)
     | Some (nspace, lead) \<Rightarrow>
         if slong nspace \<le> slong ospace then Some (Some buf, s)
         else do {
           (r, s1) \<leftarrow> buf_alloc kmalloc nspace lead BUF_NORMAL s;
           case r of
             None \<Rightarrow> Some (None, s1)
           | Some nbuf \<Rightarrow> do {
               s2 \<leftarrow> copy_into nbuf buf s1;
               s3 \<leftarrow> buf_deref buf s2;
               Some (Some nbuf, s3)
             }
         }
   }"

definition buf_clone ::
  "(bufpool \<Rightarrow> nat option) \<Rightarrow> nat \<Rightarrow> buf_mode \<Rightarrow> bufpool \<Rightarrow> (nat option \<times> bufpool) option" where
  "buf_clone kmalloc buf mode s = do {
     h \<leftarrow> bufs s buf;
     let lead = sub32 (dstart h) (add32 buf SIZEOF_BUF);
     (r, s1) \<leftarrow> buf_alloc kmalloc (sub32 (buflen h) SIZEOF_BUF) lead mode s;
     case r of
       None \<Rightarrow> Some (None, s1)
     | Some nbuf \<Rightarrow> do { s2 \<leftarrow> copy_into nbuf buf s1; Some (Some nbuf, s2) }
   }"

section \<open>The invariant\<close>

text \<open>
  \<open>B a\<close> is the block a buffer lies in. Every buffer lies inside its block; the buffers of a
  block are chained in memory order without gaps; buffers do not overlap; the free buffers
  are on the list of their size class, once, and no two of them are neighbours. The buffers
  in \<open>X\<close> are in the hands of an operation: they are on no list, whatever their count.
\<close>

definition geom :: "(nat \<Rightarrow> nat) \<Rightarrow> nat \<Rightarrow> buf \<Rightarrow> bool" where
  "geom B a h \<longleftrightarrow> a \<noteq> 0 \<and> BUF_SIZE BUF_NSPLIT \<le> buflen h \<and> B a \<le> a \<and>
     a + buflen h \<le> B a + BUF_BLOCK_SIZE \<and> B a + BUF_BLOCK_SIZE < 2 ^ 32 \<and>
     (bn h = 0 \<longrightarrow> a + buflen h = B a + BUF_BLOCK_SIZE) \<and> (bp h = 0 \<longrightarrow> a = B a)"

definition pool_inv :: "(nat \<Rightarrow> nat) \<Rightarrow> nat set \<Rightarrow> bufpool \<Rightarrow> bool" where
  "pool_inv B X s \<longleftrightarrow>
     (\<forall>a h. bufs s a = Some h \<longrightarrow> geom B a h) \<and>
     (\<forall>a h. bufs s a = Some h \<longrightarrow> bn h \<noteq> 0 \<longrightarrow>
        bn h = a + buflen h \<and> B (bn h) = B a \<and> (\<exists>k. bufs s (bn h) = Some k \<and> bp k = a)) \<and>
     (\<forall>a h. bufs s a = Some h \<longrightarrow> bp h \<noteq> 0 \<longrightarrow> (\<exists>k. bufs s (bp h) = Some k \<and> bn k = a)) \<and>
     (\<forall>a h b k. bufs s a = Some h \<longrightarrow> bufs s b = Some k \<longrightarrow> a < b \<longrightarrow> a + buflen h \<le> b) \<and>
     (\<forall>i. distinct (freelist s i)) \<and>
     (\<forall>i a. a \<in> set (freelist s i) \<longrightarrow> a \<notin> X \<and>
        (\<exists>h. bufs s a = Some h \<and> blinks h = 0 \<and> free_class (buflen h) = Some i)) \<and>
     (\<forall>a h. bufs s a = Some h \<longrightarrow> a \<notin> X \<longrightarrow> blinks h = 0 \<longrightarrow> (\<exists>i. a \<in> set (freelist s i))) \<and>
     (\<forall>a h k. bufs s a = Some h \<longrightarrow> a \<notin> X \<longrightarrow> blinks h = 0 \<longrightarrow> bn h \<noteq> 0 \<longrightarrow> bn h \<notin> X \<longrightarrow>
        bufs s (bn h) = Some k \<longrightarrow> blinks k \<noteq> 0)"

lemma pool_invD:
  assumes "pool_inv B X s"
  shows "bufs s a = Some h \<Longrightarrow> geom B a h"
    "bufs s a = Some h \<Longrightarrow> bn h \<noteq> 0 \<Longrightarrow>
        bn h = a + buflen h \<and> B (bn h) = B a \<and> (\<exists>k. bufs s (bn h) = Some k \<and> bp k = a)"
    "bufs s a = Some h \<Longrightarrow> bp h \<noteq> 0 \<Longrightarrow> \<exists>k. bufs s (bp h) = Some k \<and> bn k = a"
    "bufs s a = Some h \<Longrightarrow> bufs s b = Some k \<Longrightarrow> a < b \<Longrightarrow> a + buflen h \<le> b"
    "distinct (freelist s i)"
    "a \<in> set (freelist s i) \<Longrightarrow> a \<notin> X \<and>
        (\<exists>h. bufs s a = Some h \<and> blinks h = 0 \<and> free_class (buflen h) = Some i)"
    "bufs s a = Some h \<Longrightarrow> a \<notin> X \<Longrightarrow> blinks h = 0 \<Longrightarrow> \<exists>i. a \<in> set (freelist s i)"
    "bufs s a = Some h \<Longrightarrow> a \<notin> X \<Longrightarrow> blinks h = 0 \<Longrightarrow> bn h \<noteq> 0 \<Longrightarrow> bn h \<notin> X \<Longrightarrow>
        bufs s (bn h) = Some k \<Longrightarrow> blinks k \<noteq> 0"
proof -
  note i = assms [unfolded pool_inv_def]
  from i show "bufs s a = Some h \<Longrightarrow> geom B a h" by (elim conjE) blast
  from i show "bufs s a = Some h \<Longrightarrow> bn h \<noteq> 0 \<Longrightarrow>
        bn h = a + buflen h \<and> B (bn h) = B a \<and> (\<exists>k. bufs s (bn h) = Some k \<and> bp k = a)"
    by (elim conjE) blast
  from i show "bufs s a = Some h \<Longrightarrow> bp h \<noteq> 0 \<Longrightarrow> \<exists>k. bufs s (bp h) = Some k \<and> bn k = a"
    by (elim conjE) blast
  from i show "bufs s a = Some h \<Longrightarrow> bufs s b = Some k \<Longrightarrow> a < b \<Longrightarrow> a + buflen h \<le> b"
    by (elim conjE) blast
  from i show "distinct (freelist s i)" by (elim conjE) blast
  from i show "a \<in> set (freelist s i) \<Longrightarrow> a \<notin> X \<and>
        (\<exists>h. bufs s a = Some h \<and> blinks h = 0 \<and> free_class (buflen h) = Some i)" by (elim conjE) blast
  from i show "bufs s a = Some h \<Longrightarrow> a \<notin> X \<Longrightarrow> blinks h = 0 \<Longrightarrow> \<exists>i. a \<in> set (freelist s i)"
    by (elim conjE) blast
  from i show "bufs s a = Some h \<Longrightarrow> a \<notin> X \<Longrightarrow> blinks h = 0 \<Longrightarrow> bn h \<noteq> 0 \<Longrightarrow> bn h \<notin> X \<Longrightarrow>
        bufs s (bn h) = Some k \<Longrightarrow> blinks k \<noteq> 0" by (elim conjE) blast
qed

lemma pool_invI:
  assumes "\<And>a h. bufs s a = Some h \<Longrightarrow> geom B a h"
    "\<And>a h. bufs s a = Some h \<Longrightarrow> bn h \<noteq> 0 \<Longrightarrow>
        bn h = a + buflen h \<and> B (bn h) = B a \<and> (\<exists>k. bufs s (bn h) = Some k \<and> bp k = a)"
    "\<And>a h. bufs s a = Some h \<Longrightarrow> bp h \<noteq> 0 \<Longrightarrow> \<exists>k. bufs s (bp h) = Some k \<and> bn k = a"
    "\<And>a h b k. bufs s a = Some h \<Longrightarrow> bufs s b = Some k \<Longrightarrow> a < b \<Longrightarrow> a + buflen h \<le> b"
    "\<And>i. distinct (freelist s i)"
    "\<And>i a. a \<in> set (freelist s i) \<Longrightarrow> a \<notin> X \<and>
        (\<exists>h. bufs s a = Some h \<and> blinks h = 0 \<and> free_class (buflen h) = Some i)"
    "\<And>a h. bufs s a = Some h \<Longrightarrow> a \<notin> X \<Longrightarrow> blinks h = 0 \<Longrightarrow> \<exists>i. a \<in> set (freelist s i)"
    "\<And>a h k. bufs s a = Some h \<Longrightarrow> a \<notin> X \<Longrightarrow> blinks h = 0 \<Longrightarrow> bn h \<noteq> 0 \<Longrightarrow> bn h \<notin> X \<Longrightarrow>
        bufs s (bn h) = Some k \<Longrightarrow> blinks k \<noteq> 0"
  shows "pool_inv B X s"
  unfolding pool_inv_def by (intro conjI; intro allI impI; rule assms; assumption)

lemma geomD:
  assumes "geom B a h"
  shows "a \<noteq> 0" "256 \<le> buflen h" "B a \<le> a" "a + buflen h \<le> B a + BUF_BLOCK_SIZE"
    "B a + BUF_BLOCK_SIZE < 2 ^ 32" "bn h = 0 \<Longrightarrow> a + buflen h = B a + BUF_BLOCK_SIZE" "bp h = 0 \<Longrightarrow> a = B a"
    "buflen h \<le> BUF_BLOCK_SIZE" "a + buflen h < 2 ^ 32" "a < 2 ^ 32"
  using assms by (auto simp: geom_def BUF_SIZE_def)

lemma class_unique:
  "pool_inv B X s \<Longrightarrow> a \<in> set (freelist s i) \<Longrightarrow> a \<in> set (freelist s j) \<Longrightarrow> i = j"
  using pool_invD(6) [of B X s a i] pool_invD(6) [of B X s a j] by auto

lemma free_class_le: "free_class len = Some i \<Longrightarrow> i \<le> BUF_NSPLIT"
  by (auto simp: free_class_def dest!: find_SomeD)

text \<open>Taking a free buffer into the hand.\<close>

lemma unlink_hand:
  assumes inv: "pool_inv B X s" and a: "a \<in> set (freelist s i)"
  defines "s' \<equiv> s\<lparr>freelist := (\<lambda>i. remove1 a (freelist s i))\<rparr>"
  shows "free_unlink a s = Some s'" and "pool_inv B (insert a X) s'"
proof -
  have "i \<le> BUF_NSPLIT" using pool_invD(6) [OF inv a] free_class_le by blast
  then have "list_ex (\<lambda>i. a \<in> set (freelist s i)) [0..<BUF_NSPLIT + 1]"
    using a by (auto simp: list_ex_iff)
  then show "free_unlink a s = Some s'" by (simp only: free_unlink_def if_True s'_def)
  have b: "bufs s' = bufs s" by (simp add: s'_def)
  have m: "x \<in> set (freelist s' j) \<longleftrightarrow> x \<in> set (freelist s j) \<and> x \<noteq> a" for x j
    using pool_invD(5) [OF inv, of j] by (simp add: s'_def)
  show "pool_inv B (insert a X) s'"
  proof (rule pool_invI)
    fix j show "distinct (freelist s' j)" using pool_invD(5) [OF inv, of j] by (simp add: s'_def)
  next
    fix j x assume "x \<in> set (freelist s' j)"
    then show "x \<notin> insert a X \<and> (\<exists>h. bufs s' x = Some h \<and> blinks h = 0 \<and> free_class (buflen h) = Some j)"
      using pool_invD(6) [OF inv, of x j] by (simp add: m b)
  next
    fix x h assume "bufs s' x = Some h" "x \<notin> insert a X" "blinks h = 0"
    then show "\<exists>i. x \<in> set (freelist s' i)" using pool_invD(7) [OF inv, of x h] by (simp add: m b)
  next
    fix x h k assume "bufs s' x = Some h" "x \<notin> insert a X" "blinks h = 0" "bn h \<noteq> 0"
      "bn h \<notin> insert a X" "bufs s' (bn h) = Some k"
    then show "blinks k \<noteq> 0" using pool_invD(8) [OF inv, of x h k] by (simp add: b)
  qed (use pool_invD(1-4) [OF inv] in \<open>simp_all add: b\<close>)
qed

text \<open>Putting a buffer on its list.\<close>

lemma insert_free:
  assumes inv: "pool_inv B (insert a X) s" and a: "bufs s a = Some h" "blinks h = 0" "free_class (buflen h) = Some i"
    and nx: "\<And>k. bn h \<noteq> 0 \<Longrightarrow> bufs s (bn h) = Some k \<Longrightarrow> bn h \<in> X \<or> blinks k \<noteq> 0"
    and pv: "\<And>k. bp h \<noteq> 0 \<Longrightarrow> bufs s (bp h) = Some k \<Longrightarrow> bp h \<in> X \<or> blinks k \<noteq> 0"
    and aX: "a \<notin> X"
  shows "pool_inv B X (free_insert i a s)" (is "pool_inv B X ?s")
proof -
  have b: "bufs ?s = bufs s" by (simp add: free_insert_def)
  have na: "a \<notin> set (freelist s j)" for j using pool_invD(6) [OF inv, of a j] by auto
  have m: "x \<in> set (freelist ?s j) \<longleftrightarrow> x \<in> set (freelist s j) \<or> (x = a \<and> j = i)" for x j
    by (auto simp: free_insert_def)
  show ?thesis
  proof (rule pool_invI)
    fix j show "distinct (freelist ?s j)"
      using pool_invD(5) [OF inv, of j] na by (auto simp: free_insert_def)
  next
    fix j x assume "x \<in> set (freelist ?s j)"
    then show "x \<notin> X \<and> (\<exists>h. bufs ?s x = Some h \<and> blinks h = 0 \<and> free_class (buflen h) = Some j)"
      using pool_invD(6) [OF inv, of x j] a aX unfolding m b by auto
  next
    fix x h' assume "bufs ?s x = Some h'" "x \<notin> X" "blinks h' = 0"
    then show "\<exists>i. x \<in> set (freelist ?s i)"
      using pool_invD(7) [OF inv, of x h'] unfolding m b by (cases "x = a") auto
  next
    fix x h' k assume x: "bufs ?s x = Some h'" "x \<notin> X" "blinks h' = 0" "bn h' \<noteq> 0"
      "bn h' \<notin> X" "bufs ?s (bn h') = Some k"
    consider "x = a" | "x \<noteq> a" "bn h' = a" | "x \<noteq> a" "bn h' \<noteq> a" by blast
    then show "blinks k \<noteq> 0"
    proof cases
      case 1
      then show ?thesis using x nx [of k] a unfolding b by simp
    next
      case 2
      then have "bp h = x" using pool_invD(2) [OF inv, of x h'] x a unfolding b by auto
      moreover have "x \<noteq> 0" using pool_invD(1) [OF inv, of x h'] geomD(1) x unfolding b by blast
      ultimately show ?thesis using pv [of h'] x unfolding b by simp
    next
      case 3
      then show ?thesis using pool_invD(8) [OF inv, of x h' k] x unfolding b by simp
    qed
  qed (use pool_invD(1-4) [OF inv] in \<open>simp_all add: b\<close>)
qed

text \<open>Joining two neighbours that are in the hand.\<close>

definition join_heap :: "nat \<Rightarrow> buf \<Rightarrow> nat \<Rightarrow> buf \<Rightarrow> (nat \<rightharpoonup> buf) \<Rightarrow> nat \<rightharpoonup> buf" where
  "join_heap a h c hc m = (\<lambda>x.
     if x = a then Some (h\<lparr>bn := bn hc, buflen := buflen h + buflen hc\<rparr>)
     else if x = c then None
     else if x = bn hc then map_option (\<lambda>k. k\<lparr>bp := a\<rparr>) (m x) else m x)"

lemma join_heap_other:
  assumes "join_heap a h c hc m x = Some k" and "x \<noteq> a"
  obtains k0 where "m x = Some k0" "x \<noteq> c" "buflen k = buflen k0" "bn k = bn k0" "blinks k = blinks k0"
    "bp k = (if x = bn hc then a else bp k0)"
  using assms by (auto simp: join_heap_def split: if_splits)

lemma join_heap_some:
  assumes "m x = Some k0" and "x \<noteq> a" and "x \<noteq> c"
  obtains k where "join_heap a h c hc m x = Some k" "buflen k = buflen k0" "bn k = bn k0" "blinks k = blinks k0"
    "bp k = (if x = bn hc then a else bp k0)"
proof (cases "x = bn hc")
  case True
  with assms show ?thesis by (intro that [of "k0\<lparr>bp := a\<rparr>"]) (simp_all add: join_heap_def)
next
  case False
  with assms show ?thesis by (intro that [of k0]) (simp_all add: join_heap_def)
qed

lemma join_heap_this: "join_heap a h c hc m a = Some (h\<lparr>bn := bn hc, buflen := buflen h + buflen hc\<rparr>)"
  by (simp add: join_heap_def)

lemma join_hand:
  assumes inv: "pool_inv B (insert a (insert c X)) s" and a: "bufs s a = Some h" "bn h = c"
    and c: "bufs s c = Some hc" and aX: "a \<notin> X" and cX: "c \<notin> X"
  shows "pool_inv B (insert a X) (s\<lparr>bufs := join_heap a h c hc (bufs s)\<rparr>)" (is "pool_inv B _ ?s")
proof -
  let ?h = "h\<lparr>bn := bn hc, buflen := buflen h + buflen hc\<rparr>"
  note ga = pool_invD(1) [OF inv a(1)] and gc = pool_invD(1) [OF inv c]
  have c0: "bn h \<noteq> 0" using a(2) geomD(1) [OF gc] by simp
  have ac: "c = a + buflen h" "B c = B a" "bp hc = a"
    using pool_invD(2) [OF inv a(1) c0] a(2) c by auto
  have lt: "a < c" using ac(1) geomD(2) [OF ga] by linarith
  have n: "bn hc = c + buflen hc \<and> B (bn hc) = B a \<and> (\<exists>k. bufs s (bn hc) = Some k \<and> bp k = c)"
    if "bn hc \<noteq> 0" using pool_invD(2) [OF inv c that, unfolded ac(2)] .
  have nc: "c < bn hc" if "bn hc \<noteq> 0" using n [OF that] geomD(2) [OF gc] by linarith
  have at: "bufs ?s a = Some ?h" by (simp add: join_heap_this)
  have other: "\<exists>k0. bufs s x = Some k0 \<and> x \<noteq> c \<and> buflen k = buflen k0 \<and> bn k = bn k0 \<and>
      blinks k = blinks k0 \<and> bp k = (if x = bn hc then a else bp k0)"
    if "bufs ?s x = Some k" "x \<noteq> a" for x k
  proof -
    from that(1) have "join_heap a h c hc (bufs s) x = Some k" by simp
    then show ?thesis using that(2) by (rule join_heap_other) blast
  qed
  have some: "\<exists>k. bufs ?s x = Some k \<and> buflen k = buflen k0 \<and> bn k = bn k0 \<and>
      blinks k = blinks k0 \<and> bp k = (if x = bn hc then a else bp k0)"
    if "bufs s x = Some k0" "x \<noteq> a" "x \<noteq> c" for x k0
    using that by (rule join_heap_some [where h = h and hc = hc]) (intro exI conjI, simp_all)
  show ?thesis
  proof (rule pool_invI)
    fix x k assume k: "bufs ?s x = Some k"
    show "geom B x k"
    proof (cases "x = a")
      case True
      then have kk: "k = ?h" using k at by simp
      have "bn hc = 0 \<Longrightarrow> a + (buflen h + buflen hc) = B a + BUF_BLOCK_SIZE"
        using geomD(6) [OF gc] ac(1,2) by simp
      moreover have "a + (buflen h + buflen hc) \<le> B a + BUF_BLOCK_SIZE"
        using geomD(4) [OF gc] ac(1,2) by simp
      ultimately show ?thesis unfolding True kk geom_def BUF_SIZE_def
        using geomD(1,2,3,5,7) [OF ga] ac(1) by simp
    next
      case False
      with other [OF k] obtain k0 where k0: "bufs s x = Some k0" "buflen k = buflen k0" "bn k = bn k0"
        "bp k = (if x = bn hc then a else bp k0)" by blast
      show ?thesis using pool_invD(1) [OF inv k0(1)] k0 geomD(1) [OF ga]
        by (simp add: geom_def split: if_splits)
    qed
  next
    fix x k assume k: "bufs ?s x = Some k" and nz: "bn k \<noteq> 0"
    show "bn k = x + buflen k \<and> B (bn k) = B x \<and> (\<exists>k'. bufs ?s (bn k) = Some k' \<and> bp k' = x)"
    proof (cases "x = a")
      case True
      then have kk: "k = ?h" using k at by simp
      then have "bn hc \<noteq> 0" using nz by simp
      with n [OF this] nc [OF this] lt obtain k0 where
        "bn hc = c + buflen hc" "B (bn hc) = B a" "bufs s (bn hc) = Some k0" "bn hc \<noteq> a" "bn hc \<noteq> c" by auto
      with some [of "bn hc" k0] True kk ac show ?thesis by auto
    next
      case False
      with other [OF k] obtain k0 where k0: "bufs s x = Some k0" "x \<noteq> c" "buflen k = buflen k0" "bn k = bn k0" by blast
      from pool_invD(2) [OF inv k0(1)] nz k0 obtain k1 where
        k1: "bn k0 = x + buflen k0" "B (bn k0) = B x" "bufs s (bn k0) = Some k1" "bp k1 = x" by auto
      have "bn k0 \<noteq> c" using k1 c ac(3) False by auto
      moreover have "bn k0 \<noteq> bn hc" using k1 n nz k0 by auto
      ultimately have "\<exists>k'. bufs ?s (bn k0) = Some k' \<and> bp k' = x"
        using some [OF k1(3)] k1 a at by (cases "bn k0 = a") auto
      then show ?thesis using k1 k0 by auto
    qed
  next
    fix x k assume k: "bufs ?s x = Some k" and nz: "bp k \<noteq> 0"
    show "\<exists>k'. bufs ?s (bp k) = Some k' \<and> bn k' = x"
    proof (cases "x = a")
      case True
      then have "bp k = bp h" using k at by simp
      with pool_invD(3) [OF inv a(1)] nz obtain k1 where k1: "bufs s (bp k) = Some k1" "bn k1 = a" by auto
      have "bp k < a" using pool_invD(2) [OF inv k1(1)] k1(2) geomD(1) [OF ga]
          geomD(2) [OF pool_invD(1) [OF inv k1(1)]] by linarith
      then show ?thesis using some [OF k1(1)] k1 lt True by auto
    next
      case False
      with other [OF k] obtain k0 where k0: "bufs s x = Some k0" "x \<noteq> c"
        "bp k = (if x = bn hc then a else bp k0)" by blast
      show ?thesis
      proof (cases "x = bn hc")
        case True
        then show ?thesis using k0 at by simp
      next
        case nb: False
        with k0 nz pool_invD(3) [OF inv k0(1)] obtain k1 where k1: "bufs s (bp k0) = Some k1" "bn k1 = x" by auto
        have "bp k0 \<noteq> a" using k1 a k0 by auto
        moreover have "bp k0 \<noteq> c" using k1 c nb by auto
        ultimately show ?thesis using some [OF k1(1)] k1 k0 nb by auto
      qed
    qed
  next
    fix x k y l assume k: "bufs ?s x = Some k" and l: "bufs ?s y = Some l" and xy: "x < y"
    show "x + buflen k \<le> y"
    proof (cases "x = a")
      case True
      with xy other [OF l] obtain l0 where l0: "bufs s y = Some l0" "y \<noteq> c" by auto
      have "c \<le> y" using pool_invD(4) [OF inv a(1) l0(1)] xy True ac by simp
      then have "c + buflen hc \<le> y" using pool_invD(4) [OF inv c l0(1)] l0(2) by simp
      then show ?thesis using True k at ac by simp
    next
      case False
      with other [OF k] obtain k0 where k0: "bufs s x = Some k0" "buflen k = buflen k0" by blast
      show ?thesis
      proof (cases "y = a")
        case True
        then show ?thesis using pool_invD(4) [OF inv k0(1) a(1)] xy k0 by simp
      next
        case ya: False
        with other [OF l] obtain l0 where "bufs s y = Some l0" by blast
        then show ?thesis using pool_invD(4) [OF inv k0(1)] xy k0 by simp
      qed
    qed
  next
    fix i show "distinct (freelist ?s i)" using pool_invD(5) [OF inv] by simp
  next
    fix i x assume "x \<in> set (freelist ?s i)"
    then have "x \<notin> insert a (insert c X)"
      and "\<exists>k. bufs s x = Some k \<and> blinks k = 0 \<and> free_class (buflen k) = Some i"
      using pool_invD(6) [OF inv, of x i] by auto
    then show "x \<notin> insert a X \<and> (\<exists>k. bufs ?s x = Some k \<and> blinks k = 0 \<and> free_class (buflen k) = Some i)"
      using some [of x] by auto
  next
    fix x k assume x: "bufs ?s x = Some k" "x \<notin> insert a X" "blinks k = 0"
    then have "x \<noteq> a" by simp
    from other [OF x(1) this] obtain k0 where "bufs s x = Some k0" "x \<noteq> c" "blinks k0 = 0" using x by auto
    then show "\<exists>i. x \<in> set (freelist ?s i)" using pool_invD(7) [OF inv, of x k0] x by auto
  next
    fix x k l assume x: "bufs ?s x = Some k" "x \<notin> insert a X" "blinks k = 0" "bn k \<noteq> 0"
      "bn k \<notin> insert a X" "bufs ?s (bn k) = Some l"
    then have na: "x \<noteq> a" "bn k \<noteq> a" by auto
    from other [OF x(1) na(1)] obtain k0 where k0: "bufs s x = Some k0" "x \<noteq> c" "blinks k0 = 0" "bn k = bn k0"
      using x by auto
    from other [OF x(6) na(2)] obtain l0 where l0: "bufs s (bn k) = Some l0" "bn k \<noteq> c" "blinks l = blinks l0"
      by blast
    then show "blinks l \<noteq> 0" using pool_invD(8) [OF inv, of x k0 l0] x k0 by auto
  qed
qed

text \<open>Cutting a buffer that is in the hand; both parts are in the hand afterwards.\<close>

definition split_heap :: "nat \<Rightarrow> buf \<Rightarrow> nat \<Rightarrow> buf \<Rightarrow> (nat \<rightharpoonup> buf) \<Rightarrow> nat \<rightharpoonup> buf" where
  "split_heap a ha c hc m = (\<lambda>x.
     if x = a then Some ha else if x = c then Some hc
     else if x = bn hc then map_option (\<lambda>k. k\<lparr>bp := c\<rparr>) (m x) else m x)"

lemma split_hand:
  assumes inv: "pool_inv B (insert a X) s" and a: "bufs s a = Some h"
    and sz: "256 \<le> sz" "sz + 256 \<le> buflen h"
    and c: "c = a + sz" and ha: "buflen ha = sz" "bn ha = c" "bp ha = bp h"
    and hc: "buflen hc = buflen h - sz" "bn hc = bn h" "bp hc = a"
    and cX: "c \<notin> X" and aX: "a \<notin> X"
  shows "bufs s c = None"
    and "pool_inv (B(c := B a)) (insert c (insert a X)) (s\<lparr>bufs := split_heap a ha c hc (bufs s)\<rparr>)"
      (is "pool_inv ?B _ ?s")
proof -
  note ga = pool_invD(1) [OF inv a]
  have ac: "a < c" using c sz by simp
  have end_c: "c + buflen hc = a + buflen h" using c hc sz by simp
  show new: "bufs s c = None"
  proof (rule ccontr)
    assume "bufs s c \<noteq> None"
    then obtain k where "bufs s c = Some k" by blast
    from pool_invD(4) [OF inv a this ac] show False using c sz by simp
  qed
  have n: "bn h = a + buflen h \<and> B (bn h) = B a \<and> (\<exists>k. bufs s (bn h) = Some k \<and> bp k = a)"
    if "bn h \<noteq> 0" using pool_invD(2) [OF inv a that] .
  have at: "bufs ?s a = Some ha" "bufs ?s c = Some hc" using ac by (simp_all add: split_heap_def)
  have other: "\<exists>k0. bufs s x = Some k0 \<and> buflen k = buflen k0 \<and> bn k = bn k0 \<and>
      blinks k = blinks k0 \<and> bp k = (if x = bn h then c else bp k0)"
    if "bufs ?s x = Some k" "x \<noteq> a" "x \<noteq> c" for x k
    using that hc(2) by (cases "x = bn h") (auto simp: split_heap_def)
  have some: "\<exists>k. bufs ?s x = Some k \<and> buflen k = buflen k0 \<and> bn k = bn k0 \<and>
      blinks k = blinks k0 \<and> bp k = (if x = bn h then c else bp k0)"
    if "bufs s x = Some k0" "x \<noteq> a" "x \<noteq> c" for x k0
    using that hc(2) by (cases "x = bn h") (auto simp: split_heap_def)
  have nc: "x \<noteq> c" if "bufs s x = Some k" for x k using that new by auto
  show "pool_inv ?B (insert c (insert a X)) ?s"
  proof (rule pool_invI)
    fix x k assume k: "bufs ?s x = Some k"
    consider "x = a" | "x = c" | "x \<noteq> a" "x \<noteq> c" by blast
    then show "geom ?B x k"
    proof cases
      case 1
      then have kk: "k = ha" using k at by simp
      show ?thesis unfolding 1 kk geom_def BUF_SIZE_def
        using geomD [OF ga] ac ha sz by simp
    next
      case 2
      then have kk: "k = hc" using k at by simp
      have "bn h = 0 \<Longrightarrow> c + buflen hc = B a + BUF_BLOCK_SIZE" using geomD(6) [OF ga] end_c by simp
      then show ?thesis unfolding 2 kk geom_def BUF_SIZE_def
        using geomD(1,2,3,4,5) [OF ga] ac hc sz end_c by simp
    next
      case 3
      with other [OF k] obtain k0 where k0: "bufs s x = Some k0" "buflen k = buflen k0" "bn k = bn k0"
        "bp k = (if x = bn h then c else bp k0)" by blast
      show ?thesis using pool_invD(1) [OF inv k0(1)] k0 3 ac
        by (simp add: geom_def split: if_splits)
    qed
  next
    fix x k assume k: "bufs ?s x = Some k" and nz: "bn k \<noteq> 0"
    consider "x = a" | "x = c" | "x \<noteq> a" "x \<noteq> c" by blast
    then show "bn k = x + buflen k \<and> ?B (bn k) = ?B x \<and> (\<exists>k'. bufs ?s (bn k) = Some k' \<and> bp k' = x)"
    proof cases
      case 1
      then have kk: "k = ha" using k at by simp
      show ?thesis unfolding 1 kk ha(2) using at(2) ha hc c ac by simp
    next
      case 2
      then have kk: "k = hc" using k at by simp
      then have "bn h \<noteq> 0" using nz hc by simp
      from n [OF this] obtain k0 where k0: "bn h = a + buflen h" "B (bn h) = B a" "bufs s (bn h) = Some k0" by blast
      have "bn h \<noteq> a" "bn h \<noteq> c" using k0(1) c sz by simp_all
      with some [OF k0(3)] obtain k' where "bufs ?s (bn h) = Some k'" "bp k' = c" by auto
      then show ?thesis unfolding 2 kk hc(2) using k0 end_c \<open>bn h \<noteq> c\<close> ac by auto
    next
      case 3
      with other [OF k] obtain k0 where k0: "bufs s x = Some k0" "buflen k = buflen k0" "bn k = bn k0" by blast
      from pool_invD(2) [OF inv k0(1)] nz k0 obtain k1 where
        k1: "bn k0 = x + buflen k0" "B (bn k0) = B x" "bufs s (bn k0) = Some k1" "bp k1 = x" by auto
      have nn: "bn k0 \<noteq> bn h" using k1 n nz k0 3 by auto
      have "\<exists>k'. bufs ?s (bn k0) = Some k' \<and> bp k' = x"
        using some [OF k1(3) _ nc [OF k1(3)]] k1 a at ha nn by (cases "bn k0 = a") auto
      then show ?thesis using k1 k0 3 nc [OF k1(3)] by auto
    qed
  next
    fix x k assume k: "bufs ?s x = Some k" and nz: "bp k \<noteq> 0"
    consider "x = a" | "x = c" | "x \<noteq> a" "x \<noteq> c" by blast
    then show "\<exists>k'. bufs ?s (bp k) = Some k' \<and> bn k' = x"
    proof cases
      case 1
      then have kk: "k = ha" using k at by simp
      with nz ha pool_invD(3) [OF inv a] obtain k1 where k1: "bufs s (bp h) = Some k1" "bn k1 = a" by auto
      have "bp h < a" using pool_invD(2) [OF inv k1(1)] k1(2) geomD(1) [OF ga]
          geomD(2) [OF pool_invD(1) [OF inv k1(1)]] by linarith
      then show ?thesis using some [OF k1(1)] k1 ac 1 kk ha by auto
    next
      case 2
      then show ?thesis using k at hc ha by simp
    next
      case 3
      with other [OF k] obtain k0 where k0: "bufs s x = Some k0" "bp k = (if x = bn h then c else bp k0)" by blast
      show ?thesis
      proof (cases "x = bn h")
        case True
        then show ?thesis using k0 at hc by simp
      next
        case nb: False
        with k0 nz pool_invD(3) [OF inv k0(1)] obtain k1 where k1: "bufs s (bp k0) = Some k1" "bn k1 = x" by auto
        have "bp k0 \<noteq> a" using k1 a nb by auto
        then show ?thesis using some [OF k1(1) _ nc [OF k1(1)]] k1 k0 nb by auto
      qed
    qed
  next
    fix x k y l assume k: "bufs ?s x = Some k" and l: "bufs ?s y = Some l" and xy: "x < y"
    have lo: "y + buflen l \<le> a + buflen h \<and> a \<le> y \<or> (\<exists>l0. bufs s y = Some l0 \<and> buflen l = buflen l0 \<and> y \<noteq> a)"
      using other [OF l] l at ha hc c sz by (cases "y = a"; cases "y = c") auto
    consider "x = a" | "x = c" | "x \<noteq> a" "x \<noteq> c" by blast
    then show "x + buflen k \<le> y"
    proof cases
      case 1
      then have "buflen k = sz" using k at ha by simp
      moreover have "y = c \<or> a + buflen h \<le> y"
        using other [OF l] pool_invD(4) [OF inv a] xy 1 by (cases "y = c") auto
      ultimately show ?thesis using 1 c sz by auto
    next
      case 2
      then have "buflen k = buflen h - sz" using k at hc by simp
      moreover have "a + buflen h \<le> y"
        using other [OF l] pool_invD(4) [OF inv a] xy 2 ac by auto
      ultimately show ?thesis using 2 c sz by auto
    next
      case 3
      with other [OF k] obtain k0 where k0: "bufs s x = Some k0" "buflen k = buflen k0" by blast
      consider "y = a" | "y = c" | "y \<noteq> a" "y \<noteq> c" by blast
      then show ?thesis
      proof cases
        case 1
        then show ?thesis using pool_invD(4) [OF inv k0(1) a] xy k0 by simp
      next
        case 2
        have "x < a"
        proof (rule ccontr)
          assume "\<not> x < a"
          then have "a + buflen h \<le> x" using pool_invD(4) [OF inv a k0(1)] 3 by simp
          then show False using xy 2 c sz by simp
        qed
        then show ?thesis using pool_invD(4) [OF inv k0(1) a] k0 2 ac by simp
      next
        case y: 3
        with other [OF l] obtain l0 where "bufs s y = Some l0" by blast
        then show ?thesis using pool_invD(4) [OF inv k0(1)] xy k0 by simp
      qed
    qed
  next
    fix i show "distinct (freelist ?s i)" using pool_invD(5) [OF inv] by simp
  next
    fix i x assume "x \<in> set (freelist ?s i)"
    then obtain k where x: "x \<notin> insert a X" "bufs s x = Some k" "blinks k = 0" "free_class (buflen k) = Some i"
      using pool_invD(6) [OF inv, of x i] by auto
    then show "x \<notin> insert c (insert a X) \<and> (\<exists>k. bufs ?s x = Some k \<and> blinks k = 0 \<and> free_class (buflen k) = Some i)"
      using some [OF x(2)] nc [OF x(2)] by auto
  next
    fix x k assume x: "bufs ?s x = Some k" "x \<notin> insert c (insert a X)" "blinks k = 0"
    with other [OF x(1)] obtain k0 where "bufs s x = Some k0" "blinks k0 = 0" by auto
    then show "\<exists>i. x \<in> set (freelist ?s i)" using pool_invD(7) [OF inv, of x k0] x by auto
  next
    fix x k l assume x: "bufs ?s x = Some k" "x \<notin> insert c (insert a X)" "blinks k = 0" "bn k \<noteq> 0"
      "bn k \<notin> insert c (insert a X)" "bufs ?s (bn k) = Some l"
    with other [OF x(1)] obtain k0 where k0: "bufs s x = Some k0" "blinks k0 = 0" "bn k = bn k0" by auto
    with other [OF x(6)] x obtain l0 where "bufs s (bn k) = Some l0" "blinks l = blinks l0" by auto
    then show "blinks l \<noteq> 0" using pool_invD(8) [OF inv, of x k0 l0] x k0 by auto
  qed
qed

text \<open>Changes of a buffer in the hand, and letting go of it.\<close>

lemma hand_fields:
  assumes inv: "pool_inv B (insert a X) s" and a: "bufs s a = Some h"
    and h': "buflen h' = buflen h" "bn h' = bn h" "bp h' = bp h"
  shows "pool_inv B (insert a X) (s\<lparr>bufs := (bufs s)(a \<mapsto> h')\<rparr>)" (is "pool_inv B _ ?s")
proof -
  have fwd: "\<exists>k. bufs ?s x = Some k \<and> buflen k = buflen k0 \<and> bn k = bn k0 \<and> bp k = bp k0 \<and> (x \<noteq> a \<longrightarrow> k = k0)"
    if "bufs s x = Some k0" for x k0 using that a h' by (cases "x = a") auto
  have bwd: "\<exists>k0. bufs s x = Some k0 \<and> buflen k = buflen k0 \<and> bn k = bn k0 \<and> bp k = bp k0 \<and> (x \<noteq> a \<longrightarrow> k = k0)"
    if "bufs ?s x = Some k" for x k using that a h' by (cases "x = a") auto
  show ?thesis
  proof (rule pool_invI)
    fix x k assume "bufs ?s x = Some k"
    from bwd [OF this] pool_invD(1) [OF inv] show "geom B x k" by (auto simp: geom_def)
  next
    fix x k assume k: "bufs ?s x = Some k" "bn k \<noteq> 0"
    from bwd [OF k(1)] obtain k0 where k0: "bufs s x = Some k0" "buflen k = buflen k0" "bn k = bn k0" by blast
    from pool_invD(2) [OF inv k0(1)] k k0 obtain k1 where
      "bn k = x + buflen k" "B (bn k) = B x" "bufs s (bn k) = Some k1" "bp k1 = x" by auto
    then show "bn k = x + buflen k \<and> B (bn k) = B x \<and> (\<exists>k'. bufs ?s (bn k) = Some k' \<and> bp k' = x)"
      using fwd [of "bn k" k1] by auto
  next
    fix x k assume k: "bufs ?s x = Some k" "bp k \<noteq> 0"
    from bwd [OF k(1)] obtain k0 where k0: "bufs s x = Some k0" "bp k = bp k0" by blast
    from pool_invD(3) [OF inv k0(1)] k k0 obtain k1 where "bufs s (bp k) = Some k1" "bn k1 = x" by auto
    then show "\<exists>k'. bufs ?s (bp k) = Some k' \<and> bn k' = x" using fwd [of "bp k" k1] by auto
  next
    fix x k y l assume k: "bufs ?s x = Some k" and l: "bufs ?s y = Some l" and xy: "x < y"
    from bwd [OF k] bwd [OF l] pool_invD(4) [OF inv, of x _ y] xy show "x + buflen k \<le> y" by auto
  next
    fix i show "distinct (freelist ?s i)" using pool_invD(5) [OF inv] by simp
  next
    fix i x assume "x \<in> set (freelist ?s i)"
    then show "x \<notin> insert a X \<and> (\<exists>h. bufs ?s x = Some h \<and> blinks h = 0 \<and> free_class (buflen h) = Some i)"
      using pool_invD(6) [OF inv, of x i] by auto
  next
    fix x k assume "bufs ?s x = Some k" "x \<notin> insert a X" "blinks k = 0"
    then show "\<exists>i. x \<in> set (freelist ?s i)" using pool_invD(7) [OF inv, of x k] by auto
  next
    fix x k l assume "bufs ?s x = Some k" "x \<notin> insert a X" "blinks k = 0" "bn k \<noteq> 0"
      "bn k \<notin> insert a X" "bufs ?s (bn k) = Some l"
    then show "blinks l \<noteq> 0" using pool_invD(8) [OF inv, of x k l] by auto
  qed
qed

lemma hand_release:
  assumes inv: "pool_inv B (insert a X) s" and a: "bufs s a = Some h" "blinks h \<noteq> 0"
  shows "pool_inv B X s"
proof (rule pool_invI)
  fix i x assume "x \<in> set (freelist s i)"
  then show "x \<notin> X \<and> (\<exists>h. bufs s x = Some h \<and> blinks h = 0 \<and> free_class (buflen h) = Some i)"
    using pool_invD(6) [OF inv, of x i] by auto
next
  fix x k assume "bufs s x = Some k" "x \<notin> X" "blinks k = 0"
  then show "\<exists>i. x \<in> set (freelist s i)" using pool_invD(7) [OF inv, of x k] a by (cases "x = a") auto
next
  fix x k l assume x: "bufs s x = Some k" "x \<notin> X" "blinks k = 0" "bn k \<noteq> 0" "bn k \<notin> X" "bufs s (bn k) = Some l"
  then have "x \<noteq> a" using a by auto
  then show "blinks l \<noteq> 0" using pool_invD(8) [OF inv, of x k l] x a by (cases "bn k = a") auto
qed (use pool_invD(1-5) [OF inv] in \<open>assumption | blast\<close>)+

lemma hand_live:
  assumes inv: "pool_inv B X s" and a: "bufs s a = Some h" "blinks h \<noteq> 0"
  shows "pool_inv B (insert a X) s"
proof (rule pool_invI)
  fix i x assume "x \<in> set (freelist s i)"
  then show "x \<notin> insert a X \<and> (\<exists>h. bufs s x = Some h \<and> blinks h = 0 \<and> free_class (buflen h) = Some i)"
    using pool_invD(6) [OF inv, of x i] a by auto
next
  fix x k assume "bufs s x = Some k" "x \<notin> insert a X" "blinks k = 0"
  then show "\<exists>i. x \<in> set (freelist s i)" using pool_invD(7) [OF inv, of x k] by auto
next
  fix x k l assume "bufs s x = Some k" "x \<notin> insert a X" "blinks k = 0" "bn k \<noteq> 0" "bn k \<notin> insert a X"
    "bufs s (bn k) = Some l"
  then show "blinks l \<noteq> 0" using pool_invD(8) [OF inv, of x k l] by auto
qed (use pool_invD(1-5) [OF inv] in \<open>assumption | blast\<close>)+

text \<open>A new block.\<close>

definition block_fits :: "nat \<Rightarrow> bufpool \<Rightarrow> bool" where
  "block_fits new s \<longleftrightarrow> new \<noteq> 0 \<and> new + BUF_BLOCK_SIZE < 2 ^ 32 \<and>
     (\<forall>x k. bufs s x = Some k \<longrightarrow> x + buflen k \<le> new \<or> new + BUF_BLOCK_SIZE \<le> x)"

definition kmalloc_ok :: "(bufpool \<Rightarrow> nat option) \<Rightarrow> bool" where
  "kmalloc_ok kmalloc \<longleftrightarrow> (\<forall>s new. kmalloc s = Some new \<longrightarrow> block_fits new s)"

definition new_block :: buf where
  "new_block = \<lparr>buflen = BUF_BLOCK_SIZE, dstart = 0, dend = 0, blinks = 0, binfo = 0, bn = 0, bp = 0\<rparr>"

lemma block_hand:
  assumes inv: "pool_inv B {} s" and f: "block_fits new s"
  shows "bufs s new = None" "pool_inv (B(new := new)) {new} (s\<lparr>bufs := (bufs s)(new \<mapsto> new_block)\<rparr>)"
    (is "pool_inv ?B _ ?s")
proof -
  show n: "bufs s new = None"
  proof (rule ccontr)
    assume "bufs s new \<noteq> None"
    then obtain k where k: "bufs s new = Some k" by blast
    from f k have "new + buflen k \<le> new \<or> new + BUF_BLOCK_SIZE \<le> new"
      unfolding block_fits_def by blast
    then show False using geomD(2) [OF pool_invD(1) [OF inv k]] by simp
  qed
  have bwd: "x = new \<and> k = new_block \<or> x \<noteq> new \<and> bufs s x = Some k" if "bufs ?s x = Some k" for x k
    using that by (auto split: if_splits)
  have nn: "x \<noteq> new" if "bufs s x = Some k" for x k using that n by auto
  show "pool_inv ?B {new} ?s"
  proof (rule pool_invI)
    fix x k assume "bufs ?s x = Some k"
    from bwd [OF this] show "geom ?B x k"
      using f pool_invD(1) [OF inv, of x k] by (auto simp: geom_def block_fits_def new_block_def BUF_SIZE_def)
  next
    fix x k assume k: "bufs ?s x = Some k" "bn k \<noteq> 0"
    with bwd [OF k(1)] have x: "x \<noteq> new" "bufs s x = Some k" by (auto simp: new_block_def)
    from pool_invD(2) [OF inv x(2) k(2)] obtain k1 where
      "bn k = x + buflen k" "B (bn k) = B x" "bufs s (bn k) = Some k1" "bp k1 = x" by auto
    then show "bn k = x + buflen k \<and> ?B (bn k) = ?B x \<and> (\<exists>k'. bufs ?s (bn k) = Some k' \<and> bp k' = x)"
      using nn x by auto
  next
    fix x k assume k: "bufs ?s x = Some k" "bp k \<noteq> 0"
    with bwd [OF k(1)] have x: "x \<noteq> new" "bufs s x = Some k" by (auto simp: new_block_def)
    from pool_invD(3) [OF inv x(2) k(2)] show "\<exists>k'. bufs ?s (bp k) = Some k' \<and> bn k' = x" using nn by auto
  next
    fix x k y l assume k: "bufs ?s x = Some k" and l: "bufs ?s y = Some l" and xy: "x < y"
    have d: "z + buflen m \<le> new \<or> new + BUF_BLOCK_SIZE \<le> z" if "bufs s z = Some m" for z m
      using f that by (simp add: block_fits_def)
    from bwd [OF k] bwd [OF l] show "x + buflen k \<le> y"
      using d [of x k] d [of y l] xy pool_invD(4) [OF inv, of x k y l] by (auto simp: new_block_def)
  next
    fix i show "distinct (freelist ?s i)" using pool_invD(5) [OF inv] by simp
  next
    fix i x assume "x \<in> set (freelist ?s i)"
    then show "x \<notin> {new} \<and> (\<exists>h. bufs ?s x = Some h \<and> blinks h = 0 \<and> free_class (buflen h) = Some i)"
      using pool_invD(6) [OF inv, of x i] nn by auto
  next
    fix x k assume "bufs ?s x = Some k" "x \<notin> {new}" "blinks k = 0"
    then show "\<exists>i. x \<in> set (freelist ?s i)" using pool_invD(7) [OF inv, of x k] by auto
  next
    fix x k l assume "bufs ?s x = Some k" "x \<notin> {new}" "blinks k = 0" "bn k \<noteq> 0" "bn k \<notin> {new}"
      "bufs ?s (bn k) = Some l"
    then show "blinks l \<noteq> 0" using pool_invD(8) [OF inv, of x k l] by auto
  qed
qed

section \<open>Size classes\<close>

lemma BUF_SIZE_antimono: "i \<le> j \<Longrightarrow> BUF_SIZE j \<le> BUF_SIZE i"
  unfolding BUF_SIZE_def by (intro div_le_mono2 power_increasing) simp_all

lemma BUF_SIZE_7 [simp]: "BUF_SIZE 7 = 256"
  by (simp add: BUF_SIZE_def)

lemma upt8: "[0..<BUF_NSPLIT + 1] = [0, 1, 2, 3, 4, 5, 6, 7]"
  by (simp add: upt_rec)

lemma find_upt_Some: "find P [0..<n] = Some i \<longleftrightarrow> i < n \<and> P i \<and> (\<forall>j < i. \<not> P j)"
  by (auto simp: find_Some_iff)

lemma free_class_Some:
  "free_class len = Some i \<longleftrightarrow> i \<le> BUF_NSPLIT \<and> BUF_SIZE i \<le> len \<and> (\<forall>j < i. len < BUF_SIZE j)"
  unfolding free_class_def find_upt_Some by auto

lemma class_from_free_class:
  assumes "256 \<le> len" and "i \<le> BUF_NSPLIT" and "\<forall>j < i. len < BUF_SIZE j"
  shows "free_class len = Some (class_from len i)"
  using assms
proof (induction len i rule: class_from.induct)
  case (1 len i)
  show ?case
  proof (cases "len < BUF_SIZE i")
    case True
    then have "i \<noteq> 7" using 1(2) by auto
    then have "Suc i \<le> 7" using 1(3) by simp
    moreover have "\<forall>j < Suc i. len < BUF_SIZE j" using 1(4) True by (simp add: less_Suc_eq)
    ultimately show ?thesis using 1(1) [OF True 1(2)] True by (simp add: class_from.simps [of len i])
  next
    case False
    then show ?thesis using 1 by (simp add: class_from.simps [of len i] free_class_Some)
  qed
qed

lemma free_class_total: "256 \<le> len \<Longrightarrow> \<exists>i. free_class len = Some i"
  using class_from_free_class [of len 0] by auto

lemma size_index_le: "size_index sz = Some i \<Longrightarrow> sz \<le> BUF_SIZE i \<and> i \<le> BUF_NSPLIT"
  by (auto simp: size_index_def dest!: find_SomeD)

lemma find_rev_upt: "find P (rev [0..<n]) = Some i \<Longrightarrow> i < j \<Longrightarrow> j < n \<Longrightarrow> \<not> P j"
  by (induction n) (auto simp: less_Suc_eq split: if_splits)

lemma size_index_None: "size_index sz = None \<longleftrightarrow> BUF_BLOCK_SIZE < sz"
proof -
  have "size_index sz = None \<longleftrightarrow> (\<forall>i \<le> 7. BUF_SIZE i < sz)"
    unfolding size_index_def find_None_iff by (auto simp: not_le less_Suc_eq_le)
  also have "\<dots> \<longleftrightarrow> BUF_SIZE 0 < sz" using BUF_SIZE_antimono [of 0] by (auto intro: le_less_trans)
  finally show ?thesis by (simp add: BUF_SIZE_def)
qed

lemma nonempty_index_Some: "nonempty_index idx s = Some i \<Longrightarrow> i \<le> idx \<and> freelist s i \<noteq> []"
  by (auto simp: nonempty_index_def simp del: upt_Suc dest!: find_SomeD)

lemma nonempty_index_None: "nonempty_index idx s = None \<longleftrightarrow> (\<forall>i \<le> idx. freelist s i = [])"
  by (auto simp: nonempty_index_def find_None_iff simp del: upt_Suc)

lemma sub32_eq: "b \<le> a \<Longrightarrow> a < 2 ^ 32 \<Longrightarrow> sub32 a b = a - b"
proof -
  assume "b \<le> a" "a < 2 ^ 32"
  then have e: "a + 2 ^ 32 - b = (a - b) + 2 ^ 32" and l: "a - b < 2 ^ 32" by linarith+
  show ?thesis by (simp only: sub32_def e mod_add_self2 mod_less [OF l])
qed

lemma add32_eq: "a + b < 2 ^ 32 \<Longrightarrow> add32 a b = a + b"
  by (simp add: add32_def)

section \<open>Allocation keeps the invariant\<close>

text \<open>The fields of a buffer a client relies on, and that other buffers keep them.\<close>

definition sig :: "buf \<Rightarrow> nat \<times> nat \<times> nat \<times> u16 \<times> u32" where
  "sig k = (buflen k, dstart k, dend k, blinks k, binfo k)"

definition live_frame :: "nat set \<Rightarrow> bufpool \<Rightarrow> bufpool \<Rightarrow> bool" where
  "live_frame X s s' \<longleftrightarrow> (\<forall>x k. x \<notin> X \<longrightarrow> bufs s x = Some k \<longrightarrow> blinks k \<noteq> 0 \<longrightarrow>
     (\<exists>k'. bufs s' x = Some k' \<and> sig k' = sig k))"

definition is_live :: "bufpool \<Rightarrow> nat \<Rightarrow> bool" where
  "is_live s a = (case bufs s a of None \<Rightarrow> False | Some h \<Rightarrow> blinks h \<noteq> 0)"

lemma take_split:
  assumes inv: "pool_inv B {} s" and i: "freelist s i \<noteq> []" and h: "bufs s (hd (freelist s i)) = Some h"
    and sz: "256 \<le> sz" "sz + 256 \<le> buflen h"
  defines "a \<equiv> hd (freelist s i)"
  defines "s1 \<equiv> s\<lparr>freelist := (\<lambda>i. remove1 a (freelist s i))\<rparr>"
  defines "ha \<equiv> h\<lparr>buflen := sz, bn := a + sz\<rparr>"
  defines "hc \<equiv> \<lparr>buflen = buflen h - sz, dstart = 0, dend = 0, blinks = 0, binfo = 0, bn = bn h, bp = a\<rparr>"
  defines "j \<equiv> class_from (buflen h - sz) i"
  defines "s2 \<equiv> free_insert j (a + sz) (s1\<lparr>bufs := split_heap a ha (a + sz) hc (bufs s1)\<rparr>)"
  shows "j \<le> BUF_NSPLIT" "pool_inv (B(a + sz := B a)) {a} s2" "bufs s2 a = Some ha"
    "live_frame {a} s s2" "bmem s2 = bmem s"
proof -
  have a: "a \<in> set (freelist s i)" using i by (simp add: a_def)
  note ha0 = h [folded a_def]
  have hf: "blinks h = 0" "free_class (buflen h) = Some i" using pool_invD(6) [OF inv a] ha0 by auto
  have inv1: "pool_inv B {a} s1" using unlink_hand(2) [OF inv a] by (simp add: s1_def)
  have h1: "bufs s1 a = Some h" using ha0 by (simp add: s1_def)
  let ?c = "a + sz"
  have ca: "?c \<noteq> a" using sz by simp
  have spl: "pool_inv (B(?c := B a)) (insert ?c {a}) (s1\<lparr>bufs := split_heap a ha ?c hc (bufs s1)\<rparr>)"
    by (rule split_hand(2) [OF inv1 h1 sz refl]) (simp_all add: ha_def hc_def sz)
  have new: "bufs s1 ?c = None"
    by (rule split_hand(1) [OF inv1 h1 sz refl, where ha = ha and hc = hc]) (simp_all add: ha_def hc_def sz)
  have j: "free_class (buflen h - sz) = Some j" unfolding j_def
  proof (rule class_from_free_class)
    show "256 \<le> buflen h - sz" using sz by simp
    show "i \<le> BUF_NSPLIT" using hf(2) by (simp add: free_class_Some)
    show "\<forall>j < i. buflen h - sz < BUF_SIZE j" using hf(2) by (auto simp: free_class_Some)
  qed
  then show "j \<le> BUF_NSPLIT" by (simp add: free_class_Some)
  show "pool_inv (B(?c := B a)) {a} s2" unfolding s2_def
  proof (rule insert_free [OF spl])
    show "bufs (s1\<lparr>bufs := split_heap a ha ?c hc (bufs s1)\<rparr>) ?c = Some hc"
      using ca by (simp add: split_heap_def)
    show "blinks hc = 0" "free_class (buflen hc) = Some j" using j by (simp_all add: hc_def)
  next
    fix k assume n: "bn hc \<noteq> 0" and k: "bufs (s1\<lparr>bufs := split_heap a ha ?c hc (bufs s1)\<rparr>) (bn hc) = Some k"
    have nh: "bn h \<noteq> 0" "bn hc = bn h" using n by (simp_all add: hc_def)
    from pool_invD(2) [OF inv ha0 nh(1)] obtain k0 where k0: "bn h = a + buflen h" "bufs s (bn h) = Some k0" by blast
    then have "blinks k0 \<noteq> 0" using pool_invD(8) [OF inv ha0 _ hf(1) nh(1)] by simp
    moreover have "blinks k = blinks k0"
      using k k0 nh sz by (auto simp: split_heap_def s1_def)
    ultimately show "bn hc \<in> {a} \<or> blinks k \<noteq> 0" by simp
  next
    show "bp hc \<in> {a} \<or> blinks k \<noteq> 0" for k by (simp add: hc_def)
    show "?c \<notin> {a}" using ca by simp
  qed
  show "bufs s2 a = Some ha" by (simp add: s2_def free_insert_def split_heap_def)
  show "bmem s2 = bmem s" by (simp add: s2_def free_insert_def s1_def)
  show "live_frame {a} s s2" unfolding live_frame_def
  proof (intro allI impI)
    fix x k assume x: "x \<notin> {a}" "bufs s x = Some k" "blinks k \<noteq> 0"
    then have "x \<noteq> ?c" using new by (auto simp: s1_def)
    with x show "\<exists>k'. bufs s2 x = Some k' \<and> sig k' = sig k"
      by (cases "x = bn hc") (auto simp: s2_def free_insert_def split_heap_def s1_def sig_def)
  qed
qed

lemma set_p_heap:
  "bufs s x = Some k \<Longrightarrow> set_p x v s = Some (s\<lparr>bufs := (bufs s)(x \<mapsto> k\<lparr>bp := v\<rparr>)\<rparr>)"
  by (simp add: set_p_def)

lemma buf_take_split:
  assumes inv: "pool_inv B {} s" and i: "freelist s i \<noteq> []" and h: "bufs s (hd (freelist s i)) = Some h"
    and sz: "256 \<le> sz" "sz + 256 \<le> buflen h"
  shows "\<exists>s2. buf_take sz reserve i s =
      (let a = hd (freelist s i); d = add32 (a + SIZEOF_BUF) reserve in
       Some (Some a, s2\<lparr>bufs := (bufs s2)(a \<mapsto> h\<lparr>buflen := sz, bn := a + sz, blinks := 1, dstart := d, dend := d\<rparr>)\<rparr>)) \<and>
      pool_inv (B(hd (freelist s i) + sz := B (hd (freelist s i)))) {hd (freelist s i)} s2 \<and>
      bufs s2 (hd (freelist s i)) = Some (h\<lparr>buflen := sz, bn := hd (freelist s i) + sz\<rparr>) \<and>
      live_frame {hd (freelist s i)} s s2 \<and> bmem s2 = bmem s"
proof -
  define a where "a = hd (freelist s i)"
  define s1 where "s1 = s\<lparr>freelist := (\<lambda>i. remove1 a (freelist s i))\<rparr>"
  define ha where "ha = h\<lparr>buflen := sz, bn := a + sz\<rparr>"
  define hc where "hc = \<lparr>buflen = buflen h - sz, dstart = 0, dend = 0, blinks = 0, binfo = 0, bn = bn h, bp = a\<rparr>"
  define j where "j = class_from (buflen h - sz) i"
  define s2 where "s2 = free_insert j (a + sz) (s1\<lparr>bufs := split_heap a ha (a + sz) hc (bufs s1)\<rparr>)"
  note T = take_split [OF inv i h sz, folded a_def, folded s1_def ha_def hc_def j_def, folded s2_def]
  have a: "a \<in> set (freelist s i)" using i by (simp add: a_def)
  note h' = h [folded a_def]
  note g = geomD [OF pool_invD(1) [OF inv h']]
  have sub: "sub32 (buflen h) sz = buflen h - sz" using sz g(8) by (intro sub32_eq) simp_all
  have nxt: "add32 a sz = a + sz" using sz g(9) by (intro add32_eq) simp
  have u: "free_unlink a s = Some s1" using unlink_hand(1) [OF inv a] by (simp add: s1_def)
  have b1: "bufs s1 = bufs s" by (simp add: s1_def)
  have h1: "bufs s1 a = Some h" using h' by (simp add: b1)
  have st: "\<exists>sp. (if bn h \<noteq> 0 then set_p (bn h) (a + sz) s1 else Some s1) = Some sp \<and>
      sp\<lparr>bufs := (bufs sp)(a + sz \<mapsto> hc, a \<mapsto> ha)\<rparr> = s1\<lparr>bufs := split_heap a ha (a + sz) hc (bufs s1)\<rparr>"
  proof (cases "bn h = 0")
    case True
    have "bufs s 0 = None" using pool_invD(1) [OF inv, of 0] geomD(1) by (cases "bufs s 0") auto
    then have "(bufs s1)(a + sz \<mapsto> hc, a \<mapsto> ha) = split_heap a ha (a + sz) hc (bufs s1)"
      using True sz by (auto simp: split_heap_def hc_def b1 fun_eq_iff)
    then show ?thesis using True by simp
  next
    case False
    from pool_invD(2) [OF inv h' False] obtain k where k: "bn h = a + buflen h" "bufs s1 (bn h) = Some k"
      by (auto simp: b1)
    then have "(bufs s1)(bn h \<mapsto> k\<lparr>bp := a + sz\<rparr>, a + sz \<mapsto> hc, a \<mapsto> ha) = split_heap a ha (a + sz) hc (bufs s1)"
      using sz by (auto simp: split_heap_def hc_def fun_eq_iff)
    then show ?thesis using False set_p_heap [OF k(2)] by simp
  qed
  then obtain sp where sp: "(if bn h \<noteq> 0 then set_p (bn h) (a + sz) s1 else Some s1) = Some sp"
    "sp\<lparr>bufs := (bufs sp)(a + sz \<mapsto> hc, a \<mapsto> ha)\<rparr> = s1\<lparr>bufs := split_heap a ha (a + sz) hc (bufs s1)\<rparr>" by blast
  have s2': "free_insert j (a + sz) (sp\<lparr>bufs := (bufs sp)(a + sz \<mapsto> hc, a \<mapsto> ha)\<rparr>) = s2"
    unfolding sp(2) s2_def ..
  have "buf_take sz reserve i s = Some (Some a, s2\<lparr>bufs := (bufs s2)
      (a \<mapsto> ha\<lparr>blinks := 1, dstart := add32 (a + SIZEOF_BUF) reserve, dend := add32 (a + SIZEOF_BUF) reserve\<rparr>)\<rparr>)"
  proof -
    have big: "(256 \<le> buflen h - sz) = True" using sz by simp
    have small: "(7 < j) = False" using T(1) by simp
    show ?thesis
      unfolding buf_take_def Let_def a_def [symmetric]
      by (simp only: u Option.bind.simps h1 sub nxt sp(1) BUF_SIZE_7 big if_True hc_def [symmetric]
          ha_def [symmetric] j_def [symmetric] small if_False s2' prod.case T(3) not_True_eq_False)
  qed
  then show ?thesis using T(2-5) unfolding a_def [symmetric] Let_def
    by (intro exI [of _ s2]) (simp add: ha_def)
qed

text \<open>
  What a successful allocation promises: the buffer was free before, it is large enough,
  and every buffer in use keeps its fields and its data.
\<close>

definition alloc_post :: "bufpool \<Rightarrow> nat \<Rightarrow> nat \<Rightarrow> nat \<Rightarrow> bufpool \<Rightarrow> bool" where
  "alloc_post s a sz reserve s' \<longleftrightarrow> \<not> is_live s a \<and>
     (\<exists>h. bufs s' a = Some h \<and> blinks h = 1 \<and> dstart h = add32 (a + SIZEOF_BUF) reserve \<and>
          dend h = dstart h \<and> sz \<le> buflen h) \<and>
     live_frame {} s s' \<and> bmem s' = bmem s"

lemma live_frame_notlive: "\<not> is_live s a \<Longrightarrow> live_frame (insert a X) s s' \<Longrightarrow> live_frame X s s'"
proof (unfold live_frame_def, intro allI impI)
  fix x k
  assume nl: "\<not> is_live s a" and x: "x \<notin> X" "bufs s x = Some k" "blinks k \<noteq> 0"
    and f: "\<forall>x k. x \<notin> insert a X \<longrightarrow> bufs s x = Some k \<longrightarrow> blinks k \<noteq> 0 \<longrightarrow> (\<exists>k'. bufs s' x = Some k' \<and> sig k' = sig k)"
  from nl x have "x \<noteq> a" by (auto simp: is_live_def)
  with f x show "\<exists>k'. bufs s' x = Some k' \<and> sig k' = sig k" by blast
qed

lemma live_frame_notlive1: "\<not> is_live s a \<Longrightarrow> live_frame {a} s s' \<Longrightarrow> live_frame {} s s'"
  by (rule live_frame_notlive)

lemma live_frame_upd:
  "live_frame {a} s s' \<Longrightarrow> live_frame {a} s (s'\<lparr>bufs := (bufs s')(a \<mapsto> h)\<rparr>)"
  by (auto simp: live_frame_def)

lemma live_frame_trans: "live_frame X s s' \<Longrightarrow> live_frame Y s' s'' \<Longrightarrow> live_frame (X \<union> Y) s s''"
proof (unfold live_frame_def, intro allI impI)
  fix x k
  assume 1: "\<forall>x k. x \<notin> X \<longrightarrow> bufs s x = Some k \<longrightarrow> blinks k \<noteq> 0 \<longrightarrow> (\<exists>k'. bufs s' x = Some k' \<and> sig k' = sig k)"
    and 2: "\<forall>x k. x \<notin> Y \<longrightarrow> bufs s' x = Some k \<longrightarrow> blinks k \<noteq> 0 \<longrightarrow> (\<exists>k'. bufs s'' x = Some k' \<and> sig k' = sig k)"
    and x: "x \<notin> X \<union> Y" "bufs s x = Some k" "blinks k \<noteq> 0"
  from 1 x obtain k1 where k1: "bufs s' x = Some k1" "sig k1 = sig k" by blast
  then have "blinks k1 \<noteq> 0" using x(3) by (simp add: sig_def)
  with 2 x(1) k1 show "\<exists>k'. bufs s'' x = Some k' \<and> sig k' = sig k" by fastforce
qed

lemma buf_take_result:
  assumes inv: "pool_inv B {} s" and i: "freelist s i \<noteq> []" and sz: "256 \<le> sz" "sz \<le> BUF_SIZE i"
  shows "\<exists>a B' s'. buf_take sz reserve i s = Some (Some a, s') \<and> pool_inv B' {} s' \<and>
    alloc_post s a sz reserve s'"
proof -
  define a where "a = hd (freelist s i)"
  have a: "a \<in> set (freelist s i)" using i by (simp add: a_def)
  from pool_invD(6) [OF inv a] obtain h where h: "bufs s a = Some h" "blinks h = 0"
    "free_class (buflen h) = Some i" by blast
  have len: "sz \<le> buflen h" using h(3) sz by (auto simp: free_class_Some)
  have nl: "\<not> is_live s a" using h by (simp add: is_live_def)
  let ?d = "add32 (a + SIZEOF_BUF) reserve"
  note g = geomD [OF pool_invD(1) [OF inv h(1)]]
  show ?thesis
  proof (cases "sz + 256 \<le> buflen h")
    case True
    from buf_take_split [OF inv i h(1) [unfolded a_def] sz(1) True, of reserve, folded a_def]
    obtain s2 where s2: "buf_take sz reserve i s = Some (Some a, s2\<lparr>bufs := (bufs s2)
        (a \<mapsto> h\<lparr>buflen := sz, bn := a + sz, blinks := 1, dstart := ?d, dend := ?d\<rparr>)\<rparr>)"
      "pool_inv (B(a + sz := B a)) {a} s2" "bufs s2 a = Some (h\<lparr>buflen := sz, bn := a + sz\<rparr>)"
      "live_frame {a} s s2" "bmem s2 = bmem s" unfolding Let_def by blast
    let ?h = "h\<lparr>buflen := sz, bn := a + sz, blinks := 1, dstart := ?d, dend := ?d\<rparr>"
    let ?s = "s2\<lparr>bufs := (bufs s2)(a \<mapsto> ?h)\<rparr>"
    have "pool_inv (B(a + sz := B a)) {a} ?s" using s2(2,3) by (rule hand_fields) simp_all
    then have "pool_inv (B(a + sz := B a)) {} ?s" by (rule hand_release [where h = ?h]) simp_all
    moreover have "alloc_post s a sz reserve ?s"
      using nl live_frame_notlive1 [OF nl live_frame_upd [OF s2(4)]] s2(5) by (simp add: alloc_post_def)
    ultimately show ?thesis using s2(1) by blast
  next
    case False
    define s1 where "s1 = s\<lparr>freelist := (\<lambda>i. remove1 a (freelist s i))\<rparr>"
    have u: "free_unlink a s = Some s1" "pool_inv B {a} s1" using unlink_hand [OF inv a] by (simp_all add: s1_def)
    have h1: "bufs s1 a = Some h" using h by (simp add: s1_def)
    have sub: "sub32 (buflen h) sz = buflen h - sz" using len g(8) by (intro sub32_eq) simp_all
    let ?h = "h\<lparr>blinks := 1, dstart := ?d, dend := ?d\<rparr>"
    let ?s = "s1\<lparr>bufs := (bufs s1)(a \<mapsto> ?h)\<rparr>"
    have t: "buf_take sz reserve i s = Some (Some a, ?s)"
    proof -
      have small: "(256 \<le> buflen h - sz) = False" using False len by simp
      show ?thesis unfolding buf_take_def Let_def a_def [symmetric]
        by (simp only: u(1) Option.bind.simps h1 sub BUF_SIZE_7 small if_False prod.case
            not_True_eq_False)
    qed
    have "pool_inv B {a} ?s" using u(2) h1 by (rule hand_fields) simp_all
    then have p: "pool_inv B {} ?s" by (rule hand_release [where h = ?h]) simp_all
    have "live_frame {a} s s1" by (simp add: live_frame_def s1_def)
    then have "live_frame {} s ?s" by (intro live_frame_notlive1 [OF nl] live_frame_upd)
    moreover have "bmem ?s = bmem s" by (simp add: s1_def)
    ultimately have "alloc_post s a sz reserve ?s" using nl len by (simp add: alloc_post_def)
    with t p show ?thesis by blast
  qed
qed

lemma buf_add_block_result:
  assumes inv: "pool_inv B {} s" and km: "kmalloc_ok kmalloc" and r: "buf_add_block kmalloc s = (r, s')"
  shows "if r then s' = s \<and> kmalloc s = None
    else \<exists>B'. pool_inv B' {} s' \<and> freelist s' 0 \<noteq> [] \<and> live_frame {} s s' \<and> bmem s' = bmem s \<and>
      (\<forall>x. is_live s' x \<longrightarrow> is_live s x)"
proof (cases "kmalloc s")
  case None
  then show ?thesis using r by (auto simp: buf_add_block_def)
next
  case (Some new)
  then have f: "block_fits new s" using km by (simp add: kmalloc_ok_def)
  define s1 where "s1 = s\<lparr>bufs := (bufs s)(new \<mapsto> new_block)\<rparr>"
  have nr: "\<not> r" and s': "bufs s' = bufs s1" "freelist s' = freelist (free_insert 0 new s1)" "bmem s' = bmem s"
    using r Some by (auto simp: buf_add_block_def Let_def s1_def new_block_def free_insert_def split: option.splits)
  have "pool_inv (B(new := new)) {new} s1" using block_hand(2) [OF inv f] by (simp add: s1_def)
  then have "pool_inv (B(new := new)) {} (free_insert 0 new s1)"
    by (rule insert_free [where h = new_block])
      (simp_all add: s1_def new_block_def free_class_Some BUF_SIZE_def)
  then have p: "pool_inv (B(new := new)) {} s'" using s' by (simp add: pool_inv_def free_insert_def)
  have n: "bufs s new = None" using block_hand(1) [OF inv f] .
  have "live_frame {} s s'" using n by (auto simp: live_frame_def s' s1_def)
  moreover have "is_live s x" if "is_live s' x" for x
    using that n by (auto simp: is_live_def s' s1_def new_block_def split: if_splits option.splits)
  moreover have "freelist s' 0 \<noteq> []" by (simp add: s' free_insert_def)
  ultimately show ?thesis using nr p s' by auto
qed

lemma addroottimeout_atomic: "\<exists>t tm. addroottimeout d f 1 s = Some (t, tm)"
proof -
  have "\<exists>r. newtimeout True s = Some r" by (auto simp: newtimeout_def split: option.splits)
  then show ?thesis by (auto simp: addroottimeout_def split: option.splits)
qed

lemma pool_inv_cong: "bufs s' = bufs s \<Longrightarrow> freelist s' = freelist s \<Longrightarrow> pool_inv B X s' = pool_inv B X s"
  by (simp add: pool_inv_def)

lemma live_frame_live: "live_frame {} s s' \<Longrightarrow> is_live s x \<Longrightarrow> is_live s' x"
proof -
  assume f: "live_frame {} s s'" and l: "is_live s x"
  from l obtain k where k: "bufs s x = Some k" "blinks k \<noteq> 0" by (auto simp: is_live_def split: option.splits)
  with f obtain k' where "bufs s' x = Some k'" "sig k' = sig k" unfolding live_frame_def by blast
  with k show ?thesis by (simp add: is_live_def sig_def)
qed

lemma live_frame_refl: "bufs s' = bufs s \<Longrightarrow> live_frame {} s s'"
  by (simp add: live_frame_def)

text \<open>The outcome of an allocation, in both ways it can end.\<close>

definition alloc_outcome :: "bufpool \<Rightarrow> nat \<Rightarrow> nat \<Rightarrow> nat option \<Rightarrow> bufpool \<Rightarrow> bool" where
  "alloc_outcome s sz reserve r s' \<longleftrightarrow> (\<exists>B. pool_inv B {} s') \<and>
     (case r of
        None \<Rightarrow> live_frame {} s s' \<and> bmem s' = bmem s
      | Some a \<Rightarrow> alloc_post s a sz reserve s')"

lemma buf_try_take:
  assumes inv: "pool_inv B {} s" and sz: "256 \<le> sz" "sz \<le> BUF_SIZE idx" and n: "nonempty_index idx s = Some i"
  shows "\<exists>a s'. buf_try kmalloc sz reserve mode idx s = Some (Some a, s') \<and> (\<exists>B. pool_inv B {} s') \<and>
    alloc_post s a sz reserve s'"
proof -
  have "sz \<le> BUF_SIZE i" "freelist s i \<noteq> []"
    using nonempty_index_Some [OF n] BUF_SIZE_antimono [of i idx] sz by auto
  from buf_take_result [OF inv this(2) sz(1) this(1), of reserve] n show ?thesis
    by (auto simp: buf_try.simps [of kmalloc sz])
qed

lemma buf_try_result:
  assumes inv: "pool_inv B {} s" and km: "kmalloc_ok kmalloc" and sz: "256 \<le> sz" "sz \<le> BUF_SIZE idx"
  shows "\<exists>r s'. buf_try kmalloc sz reserve mode idx s = Some (r, s') \<and> alloc_outcome s sz reserve r s' \<and>
    (r = None \<longrightarrow> (\<forall>i \<le> idx. freelist s i = []) \<and> (mode = BUF_NORMAL \<longrightarrow> kmalloc s = None))"
proof (cases "nonempty_index idx s")
  case (Some i)
  from buf_try_take [OF inv sz Some, of kmalloc reserve mode] show ?thesis
    by (auto simp: alloc_outcome_def)
next
  case None
  then have e: "\<forall>i \<le> idx. freelist s i = []" by (simp add: nonempty_index_None)
  show ?thesis
  proof (cases mode)
    case BUF_ATOMIC
    have "\<exists>s'. buf_try kmalloc sz reserve mode idx s = Some (None, s') \<and> bufs s' = bufs s \<and>
        freelist s' = freelist s \<and> bmem s' = bmem s"
    proof (cases "buf_tmout s")
      case None
      obtain t tm where "addroottimeout 0 ADDMEM 1 (btimeouts s) = Some (t, tm)"
        using addroottimeout_atomic by blast
      with None BUF_ATOMIC \<open>nonempty_index idx s = None\<close> show ?thesis
        by (simp add: buf_try.simps [of kmalloc sz] fail_alloc_def)
    next
      case (Some t)
      with BUF_ATOMIC \<open>nonempty_index idx s = None\<close> show ?thesis
        by (simp add: buf_try.simps [of kmalloc sz] fail_alloc_def)
    qed
    then obtain s' where s': "buf_try kmalloc sz reserve mode idx s = Some (None, s')"
      "bufs s' = bufs s" "freelist s' = freelist s" "bmem s' = bmem s" by blast
    then have "alloc_outcome s sz reserve None s'"
      using inv pool_inv_cong [OF s'(2,3)] live_frame_refl by (auto simp: alloc_outcome_def)
    with s' e BUF_ATOMIC show ?thesis by auto
  next
    case BUF_NORMAL
    obtain r s1 where b: "buf_add_block kmalloc s = (r, s1)" by fastforce
    note R = buf_add_block_result [OF inv km b]
    show ?thesis
    proof (cases r)
      case True
      then have s1: "s1 = s" "kmalloc s = None" using R by auto
      have "buf_try kmalloc sz reserve mode idx s = Some (None, fail_alloc s)"
        using None BUF_NORMAL b True s1 by (simp add: buf_try.simps [of kmalloc sz])
      moreover have "alloc_outcome s sz reserve None (fail_alloc s)"
        using inv pool_inv_cong [of "fail_alloc s" s] live_frame_refl [of "fail_alloc s" s]
        by (auto simp: alloc_outcome_def fail_alloc_def)
      ultimately show ?thesis using e s1 by blast
    next
      case False
      then obtain B' where p: "pool_inv B' {} s1" "freelist s1 0 \<noteq> []" "live_frame {} s s1" "bmem s1 = bmem s"
        using R by auto
      then obtain i where "nonempty_index idx s1 = Some i"
        using nonempty_index_None [of idx s1] by (cases "nonempty_index idx s1") auto
      from buf_try_take [OF p(1) sz this, of kmalloc reserve mode] obtain a s' where
        t: "buf_try kmalloc sz reserve mode idx s1 = Some (Some a, s')" "\<exists>B. pool_inv B {} s'"
        "alloc_post s1 a sz reserve s'" by blast
      have "buf_try kmalloc sz reserve mode idx s = Some (Some a, s')"
        using None BUF_NORMAL b False t(1) by (subst buf_try.simps) simp
      moreover have "alloc_post s a sz reserve s'"
        using t(3) live_frame_live [OF p(3), of a] live_frame_trans [OF p(3), of "{}" s'] p(4)
        by (auto simp: alloc_post_def)
      ultimately show ?thesis using t(2) by (auto simp: alloc_outcome_def)
    qed
  qed
qed

lemma alloc_size_ge: "256 \<le> alloc_size n"
  by (simp add: alloc_size_def Let_def)

lemma buf_alloc_result:
  assumes inv: "pool_inv B {} s" and km: "kmalloc_ok kmalloc"
  shows "\<exists>r s'. buf_alloc kmalloc n reserve mode s = Some (r, s') \<and>
    alloc_outcome s (alloc_size n) (even_up 1 reserve) r s' \<and>
    (r = None \<longrightarrow> BUF_BLOCK_SIZE < alloc_size n \<or>
      ((\<forall>i. BUF_SIZE i \<ge> alloc_size n \<longrightarrow> freelist s i = []) \<and> (mode = BUF_NORMAL \<longrightarrow> kmalloc s = None)))"
proof (cases "size_index (alloc_size n)")
  case None
  then have "BUF_BLOCK_SIZE < alloc_size n" by (simp add: size_index_None)
  moreover have "alloc_outcome s (alloc_size n) (even_up 1 reserve) None (fail_alloc s)"
    using inv pool_inv_cong [of "fail_alloc s" s] live_frame_refl [of "fail_alloc s" s]
    by (auto simp: alloc_outcome_def fail_alloc_def)
  ultimately show ?thesis using None by (auto simp: buf_alloc_def)
next
  case (Some idx)
  have le: "alloc_size n \<le> BUF_SIZE idx" "idx \<le> 7" using size_index_le [OF Some] by auto
  have empty: "freelist s i = []" if "BUF_SIZE i \<ge> alloc_size n" "\<forall>i \<le> idx. freelist s i = []" for i
  proof (cases "i \<le> 7")
    case True
    have "\<not> idx < i"
      using find_rev_upt [OF Some [unfolded size_index_def], of i] that(1) True by auto
    then show ?thesis using that(2) by simp
  next
    case False
    have "x \<notin> set (freelist s i)" for x
      using pool_invD(6) [OF inv, of x i] False by (auto simp: free_class_Some)
    then show ?thesis by (cases "freelist s i") auto
  qed
  from buf_try_result [OF inv km alloc_size_ge le(1), of "even_up 1 reserve" mode] Some empty show ?thesis
    unfolding buf_alloc_def by auto
qed

section \<open>Freeing keeps the invariant\<close>

text \<open>
  The common part of the two merges: of the neighbours \<open>a\<close> and \<open>c\<close> one is in the hand, the
  other, \<open>y\<close>, is free.
\<close>

lemma join_step:
  assumes inv: "pool_inv B {x} s" and a: "bufs s a = Some h" "bn h = c" and c: "bufs s c = Some hc"
    and xy: "x = a \<and> y = c \<or> x = c \<and> y = a" and y: "bufs s y = Some hy" "blinks hy = 0"
  shows "\<exists>s1 sp. free_unlink y s = Some s1 \<and>
    (if bn hc \<noteq> 0 then set_p (bn hc) a s1 else Some s1) = Some sp \<and>
    sp\<lparr>bufs := (bufs sp)(a \<mapsto> h\<lparr>bn := bn hc, buflen := add32 (buflen h) (buflen hc)\<rparr>, c := None)\<rparr> =
      s1\<lparr>bufs := join_heap a h c hc (bufs s1)\<rparr> \<and>
    pool_inv B {a} (s1\<lparr>bufs := join_heap a h c hc (bufs s1)\<rparr>) \<and> bufs s1 = bufs s \<and> bmem s1 = bmem s"
proof -
  note ga = geomD [OF pool_invD(1) [OF inv a(1)]] and gc = geomD [OF pool_invD(1) [OF inv c]]
  have ac: "c = a + buflen h" using pool_invD(2) [OF inv a(1)] a(2) gc(1) by simp
  then have lt: "a < c" using ga(2) by simp
  have "y \<notin> {x}" using xy lt by auto
  then obtain i where i: "y \<in> set (freelist s i)" using pool_invD(7) [OF inv y(1)] y(2) by blast
  define s1 where "s1 = s\<lparr>freelist := (\<lambda>i. remove1 y (freelist s i))\<rparr>"
  have u: "free_unlink y s = Some s1" "pool_inv B (insert y {x}) s1"
    using unlink_hand [OF inv i] by (simp_all add: s1_def)
  have b1: "bufs s1 = bufs s" "bmem s1 = bmem s" by (simp_all add: s1_def)
  have hand: "insert y {x} = insert a (insert c {})" using xy by auto
  have p: "pool_inv B {a} (s1\<lparr>bufs := join_heap a h c hc (bufs s1)\<rparr>)"
    by (rule join_hand [OF u(2) [unfolded hand]]) (use a c lt in \<open>simp_all add: b1\<close>)
  have sum: "add32 (buflen h) (buflen hc) = buflen h + buflen hc"
    using ga(8) gc(8) by (intro add32_eq) simp
  let ?ha = "h\<lparr>bn := bn hc, buflen := add32 (buflen h) (buflen hc)\<rparr>"
  have "\<exists>sp. (if bn hc \<noteq> 0 then set_p (bn hc) a s1 else Some s1) = Some sp \<and>
      sp\<lparr>bufs := (bufs sp)(a \<mapsto> ?ha, c := None)\<rparr> = s1\<lparr>bufs := join_heap a h c hc (bufs s1)\<rparr>"
  proof (cases "bn hc = 0")
    case True
    have "bufs s 0 = None" using pool_invD(1) [OF inv, of 0] geomD(1) by (cases "bufs s 0") auto
    then have "(bufs s1)(a \<mapsto> ?ha, c := None) = join_heap a h c hc (bufs s1)"
      using True lt by (auto simp: join_heap_def b1 sum fun_eq_iff)
    then show ?thesis using True by simp
  next
    case False
    from pool_invD(2) [OF inv c False] obtain k where k: "bn hc = c + buflen hc" "bufs s1 (bn hc) = Some k"
      by (auto simp: b1)
    have "a \<noteq> bn hc" "c \<noteq> bn hc" "a \<noteq> c" using k(1) lt gc(2) by simp_all
    then have "(bufs s1)(bn hc \<mapsto> k\<lparr>bp := a\<rparr>, a \<mapsto> ?ha, c := None) = join_heap a h c hc (bufs s1)"
      using k(2) by (auto simp: join_heap_def sum fun_eq_iff)
    then show ?thesis using False set_p_heap [OF k(2)] by simp
  qed
  then show ?thesis using u(1) p b1 by blast
qed

lemma join_live_frame: "live_frame {a, c} s (s1\<lparr>bufs := join_heap a h c hc (bufs s)\<rparr>)"
  unfolding live_frame_def
proof (intro allI impI)
  fix x k assume x: "x \<notin> {a, c}" "bufs s x = Some k"
  then show "\<exists>k'. bufs (s1\<lparr>bufs := join_heap a h c hc (bufs s)\<rparr>) x = Some k' \<and> sig k' = sig k"
    by (cases "x = bn hc") (auto simp: join_heap_def sig_def)
qed

lemma join_live_frame': "live_frame {c, a} s (s1\<lparr>bufs := join_heap a h c hc (bufs s)\<rparr>)"
  using join_live_frame by (simp only: insert_commute)

lemma neighbours_ne:
  assumes inv: "pool_inv B X s" and a: "bufs s a = Some h"
  shows "bn h \<noteq> a" "bp h \<noteq> a"
proof -
  note g = geomD [OF pool_invD(1) [OF inv a]]
  show n: "bn h \<noteq> a" using pool_invD(2) [OF inv a] g(1,2) by (cases "bn h = 0") auto
  show "bp h \<noteq> a" using pool_invD(3) [OF inv a] g(1) n a by (cases "bp h = 0") auto
qed

lemma join_heap_blinks:
  "join_heap a h c hc m x = Some k \<Longrightarrow> x \<noteq> a \<Longrightarrow> \<exists>k0. m x = Some k0 \<and> blinks k = blinks k0"
  by (erule (1) join_heap_other) blast

text \<open>The neighbour of a buffer in front, or behind, is in use or absent.\<close>

definition front_busy :: "bufpool \<Rightarrow> buf \<Rightarrow> bool" where
  "front_busy s h \<longleftrightarrow> bp h \<noteq> 0 \<longrightarrow> (\<forall>k. bufs s (bp h) = Some k \<longrightarrow> blinks k \<noteq> 0)"

definition back_busy :: "bufpool \<Rightarrow> buf \<Rightarrow> bool" where
  "back_busy s h \<longleftrightarrow> bn h \<noteq> 0 \<longrightarrow> (\<forall>k. bufs s (bn h) = Some k \<longrightarrow> blinks k \<noteq> 0)"

lemma merge_prev_result:
  assumes inv: "pool_inv B {a} s" and a: "bufs s a = Some h"
  shows "\<exists>a' s1 h'. merge_prev a s = Some (a', s1) \<and> pool_inv B {a'} s1 \<and> bufs s1 a' = Some h' \<and>
    front_busy s1 h' \<and> live_frame {a} s s1 \<and> bmem s1 = bmem s \<and>
    (a' = a \<or> \<not> is_live s a' \<and> bufs s1 a = None)"
proof (cases "bp h \<noteq> 0 \<and> (\<exists>hp. bufs s (bp h) = Some hp \<and> blinks hp = 0)")
  case False
  then have "merge_prev a s = Some (a, s) \<and> front_busy s h"
    using a pool_invD(3) [OF inv a] by (auto simp: merge_prev_def front_busy_def)
  then show ?thesis using inv a by (auto simp: live_frame_def)
next
  case True
  then obtain hp where p: "bp h \<noteq> 0" "bufs s (bp h) = Some hp" "blinks hp = 0" by blast
  have pn: "bn hp = a" using pool_invD(3) [OF inv a p(1)] p(2) by auto
  have pa: "bp h \<noteq> a"
    using pool_invD(2) [OF inv p(2)] pn geomD(1,2) [OF pool_invD(1) [OF inv a]]
      geomD(2) [OF pool_invD(1) [OF inv p(2)]] by auto
  from join_step [OF inv p(2) pn a _ p(2,3)] obtain s1 sp where
    u: "free_unlink (bp h) s = Some s1" and st: "(if bn h \<noteq> 0 then set_p (bn h) (bp h) s1 else Some s1) = Some sp"
    and eq: "sp\<lparr>bufs := (bufs sp)(bp h \<mapsto> hp\<lparr>bn := bn h, buflen := add32 (buflen hp) (buflen h)\<rparr>, a := None)\<rparr> =
      s1\<lparr>bufs := join_heap (bp h) hp a h (bufs s1)\<rparr>"
    and P: "pool_inv B {bp h} (s1\<lparr>bufs := join_heap (bp h) hp a h (bufs s1)\<rparr>)"
    and b: "bufs s1 = bufs s" "bmem s1 = bmem s" by blast
  let ?s = "s1\<lparr>bufs := join_heap (bp h) hp a h (bufs s)\<rparr>"
  let ?h = "hp\<lparr>bn := bn h, buflen := buflen hp + buflen h\<rparr>"
  have m: "merge_prev a s = Some (bp h, ?s)"
    unfolding merge_prev_def using a p u st eq by (simp add: b del: fun_upd_apply)
  have fb: "front_busy ?s ?h" unfolding front_busy_def
  proof (intro impI allI)
    fix k assume n: "bp ?h \<noteq> 0" and k: "bufs ?s (bp ?h) = Some k"
    have n': "bp hp \<noteq> 0" using n by simp
    from pool_invD(3) [OF inv p(2) n'] obtain kp where kp: "bufs s (bp hp) = Some kp" "bn kp = bp h" by blast
    have lt: "bp hp < bp h" "bp h < a"
      using pool_invD(2) [OF inv kp(1)] kp(2) p(1) geomD(2) [OF pool_invD(1) [OF inv kp(1)]]
        pool_invD(2) [OF inv p(2)] pn geomD(1) [OF pool_invD(1) [OF inv a]]
        geomD(2) [OF pool_invD(1) [OF inv p(2)]] by auto
    have "blinks kp \<noteq> 0"
    proof
      assume z: "blinks kp = 0"
      show False using pool_invD(8) [OF inv kp(1) _ z, of hp] kp(2) p lt by auto
    qed
    moreover have "bp hp \<noteq> bp h" using lt by simp
    ultimately show "blinks k \<noteq> 0"
      using join_heap_blinks [of "bp h" hp a h "bufs s" "bp hp" k] k kp(1) by auto
  qed
  have lf: "live_frame {a} s ?s"
    by (rule live_frame_notlive [OF _ join_live_frame]) (simp add: is_live_def p)
  have "bufs ?s (bp h) = Some ?h" by (simp add: join_heap_this)
  moreover have "\<not> is_live s (bp h)" "bufs ?s a = None" using p pa by (simp_all add: is_live_def join_heap_def)
  ultimately show ?thesis using m P fb lf b unfolding b(1) by auto
qed

lemma merge_next_result:
  assumes inv: "pool_inv B {a} s" and a: "bufs s a = Some h" and fb: "front_busy s h"
  shows "\<exists>s1 h'. merge_next a s = Some s1 \<and> pool_inv B {a} s1 \<and> bufs s1 a = Some h' \<and>
    front_busy s1 h' \<and> back_busy s1 h' \<and> live_frame {a} s s1 \<and> bmem s1 = bmem s \<and>
    (\<forall>x. bufs s x = None \<longrightarrow> bufs s1 x = None)"
proof (cases "bn h \<noteq> 0 \<and> (\<exists>hn. bufs s (bn h) = Some hn \<and> blinks hn = 0)")
  case False
  then have "merge_next a s = Some s \<and> back_busy s h"
    using a pool_invD(2) [OF inv a] by (auto simp: merge_next_def back_busy_def)
  then show ?thesis using inv a fb by (auto simp: live_frame_def)
next
  case True
  then obtain hn where n: "bn h \<noteq> 0" "bufs s (bn h) = Some hn" "blinks hn = 0" by blast
  from pool_invD(2) [OF inv a n(1)] n have nb: "bn h = a + buflen h" "bp hn = a" by auto
  have lt: "a < bn h" using nb geomD(2) [OF pool_invD(1) [OF inv a]] by simp
  from join_step [OF inv a refl n(2) _ n(2,3)] obtain s1 sp where
    u: "free_unlink (bn h) s = Some s1" and st: "(if bn hn \<noteq> 0 then set_p (bn hn) a s1 else Some s1) = Some sp"
    and eq: "sp\<lparr>bufs := (bufs sp)(a \<mapsto> h\<lparr>bn := bn hn, buflen := add32 (buflen h) (buflen hn)\<rparr>, bn h := None)\<rparr> =
      s1\<lparr>bufs := join_heap a h (bn h) hn (bufs s1)\<rparr>"
    and P: "pool_inv B {a} (s1\<lparr>bufs := join_heap a h (bn h) hn (bufs s1)\<rparr>)"
    and b: "bufs s1 = bufs s" "bmem s1 = bmem s" by blast
  let ?s = "s1\<lparr>bufs := join_heap a h (bn h) hn (bufs s)\<rparr>"
  let ?h = "h\<lparr>bn := bn hn, buflen := buflen h + buflen hn\<rparr>"
  have m: "merge_next a s = Some ?s"
    unfolding merge_next_def using a n u st eq by (simp add: b del: fun_upd_apply)
  have bl: "\<exists>k0. bufs s x = Some k0 \<and> blinks k = blinks k0" if "bufs ?s x = Some k" "x \<noteq> a" for x k
    using join_heap_blinks [of a h "bn h" hn "bufs s" x k] that by simp
  have "front_busy ?s ?h" unfolding front_busy_def
  proof (intro impI allI)
    fix k assume p: "bp ?h \<noteq> 0" "bufs ?s (bp ?h) = Some k"
    have "bp h < a"
    proof -
      from p pool_invD(3) [OF inv a] obtain kp where kp: "bufs s (bp h) = Some kp" "bn kp = a" by auto
      show ?thesis using pool_invD(2) [OF inv kp(1)] kp(2) geomD(1) [OF pool_invD(1) [OF inv a]]
          geomD(2) [OF pool_invD(1) [OF inv kp(1)]] by auto
    qed
    then show "blinks k \<noteq> 0" using bl [of "bp h" k] p fb by (auto simp: front_busy_def)
  qed
  moreover have "back_busy ?s ?h" unfolding back_busy_def
  proof (intro impI allI)
    fix k assume p: "bn ?h \<noteq> 0" "bufs ?s (bn ?h) = Some k"
    from p have nz: "bn hn \<noteq> 0" by simp
    from pool_invD(2) [OF inv n(2) nz] obtain k0 where k0: "bn hn = bn h + buflen hn" "bufs s (bn hn) = Some k0" by blast
    have "a \<noteq> bn hn" using k0(1) lt by simp
    then show "blinks k \<noteq> 0"
      using pool_invD(8) [OF inv n(2) _ n(3) nz _ k0(2)] lt bl [of "bn hn" k] p k0(2) by auto
  qed
  moreover have "live_frame {a} s ?s"
    by (rule live_frame_notlive [OF _ join_live_frame']) (simp add: is_live_def n)
  moreover have "bufs ?s a = Some ?h" by (simp add: join_heap_this)
  moreover have "\<forall>x. bufs s x = None \<longrightarrow> bufs ?s x = None" using a by (auto simp: join_heap_def)
  ultimately show ?thesis using m P b by (auto simp: b)
qed

lemma buf_free_result:
  assumes inv: "pool_inv B {a} s" and a: "bufs s a = Some h"
  shows "\<exists>s'. buf_free a s = Some s' \<and> pool_inv B {} s' \<and> live_frame {a} s s' \<and> bmem s' = bmem s \<and>
    \<not> is_live s' a"
proof -
  from merge_prev_result [OF inv a] obtain c s1 h1 where
    1: "merge_prev a s = Some (c, s1)" "pool_inv B {c} s1" "bufs s1 c = Some h1" "front_busy s1 h1"
    "live_frame {a} s s1" "bmem s1 = bmem s" "c = a \<or> \<not> is_live s c \<and> bufs s1 a = None" by blast
  from merge_next_result [OF 1(2-4)] obtain s2 h2 where
    2: "merge_next c s1 = Some s2" "pool_inv B {c} s2" "bufs s2 c = Some h2" "front_busy s2 h2" "back_busy s2 h2"
    "live_frame {c} s1 s2" "bmem s2 = bmem s1" "\<forall>x. bufs s1 x = None \<longrightarrow> bufs s2 x = None" by blast
  note g = geomD [OF pool_invD(1) [OF 2(2,3)]]
  note ne = neighbours_ne [OF 2(2,3)]
  obtain i where i: "free_class (buflen h2) = Some i" using free_class_total [OF g(2)] by blast
  let ?h = "h2\<lparr>blinks := 0\<rparr>"
  let ?s3 = "s2\<lparr>bufs := (bufs s2)(c \<mapsto> ?h)\<rparr>"
  let ?s = "free_insert i c ?s3"
  have sl: "set_links c 0 s2 = Some ?s3" using 2(3) by (simp add: set_links_def)
  have f: "buf_free a s = Some ?s"
    using 1(1) 2(1,3) i g(8) sl by (simp add: buf_free_def)
  have p3: "pool_inv B {c} ?s3" using 2(2,3) by (rule hand_fields) simp_all
  have nx: "bn ?h \<in> {} \<or> blinks k \<noteq> 0" if "bn ?h \<noteq> 0" "bufs ?s3 (bn ?h) = Some k" for k
    using that 2(5) ne(1) by (simp add: back_busy_def)
  have pv: "bp ?h \<in> {} \<or> blinks k \<noteq> 0" if "bp ?h \<noteq> 0" "bufs ?s3 (bp ?h) = Some k" for k
    using that 2(4) ne(2) by (simp add: front_busy_def)
  have p: "pool_inv B {} ?s"
    by (rule insert_free [OF p3, where h = ?h]) (use i nx pv in simp_all)
  have bs: "bufs ?s = bufs ?s3" "bmem ?s = bmem s" using 1 2 by (simp_all add: free_insert_def)
  have "live_frame {c} s1 ?s3" using 2(6) by (rule live_frame_upd)
  then have "live_frame ({a} \<union> {c}) s ?s3" by (rule live_frame_trans [OF 1(5)])
  then have lf: "live_frame {a} s ?s3"
    using 1(7) live_frame_notlive [of s c "{a}" ?s3] by (auto simp: insert_commute)
  then have lf': "live_frame {a} s ?s" by (simp add: live_frame_def bs)
  have "\<not> is_live ?s a" using 1(7) 2(8) by (auto simp: is_live_def bs)
  with f p lf' bs show ?thesis by blast
qed

lemma buf_deref_result:
  assumes inv: "pool_inv B {} s" and a: "bufs s a = Some h" "blinks h \<noteq> 0"
  shows "\<exists>s'. buf_deref a s = Some s' \<and> pool_inv B {} s' \<and> live_frame {a} s s' \<and> bmem s' = bmem s \<and>
    (if sint (blinks h - 1) > 0 then \<exists>h'. bufs s' a = Some h' \<and> h' = h\<lparr>blinks := blinks h - 1\<rparr>
     else \<not> is_live s' a)"
proof -
  let ?h = "h\<lparr>blinks := blinks h - 1\<rparr>"
  let ?s = "s\<lparr>bufs := (bufs s)(a \<mapsto> ?h)\<rparr>"
  have sl: "set_links a (blinks h - 1) s = Some ?s" using a by (simp add: set_links_def)
  have p: "pool_inv B {a} ?s"
    by (rule hand_fields [OF hand_live [OF inv a] a(1)]) simp_all
  have lf: "live_frame {a} s ?s" by (auto simp: live_frame_def)
  show ?thesis
  proof (cases "sint (blinks h - 1) > 0")
    case True
    then have "blinks h - 1 \<noteq> 0" by auto
    then have "pool_inv B {} ?s" by (intro hand_release [OF p, where h = ?h]) simp_all
    with lf True sl a show ?thesis by (simp add: buf_deref_def)
  next
    case False
    from buf_free_result [OF p, of ?h] obtain s' where s': "buf_free a ?s = Some s'" "pool_inv B {} s'"
      "live_frame {a} ?s s'" "bmem s' = bmem ?s" "\<not> is_live s' a" by auto
    have "live_frame ({a} \<union> {a}) s s'" using lf s'(3) by (rule live_frame_trans)
    with s' False sl a show ?thesis by (simp add: buf_deref_def)
  qed
qed

section \<open>Garbage collection\<close>

text \<open>A buffer on list 0 is a whole block.\<close>

lemma whole_block:
  assumes inv: "pool_inv B X s" and a: "bufs s a = Some h" "BUF_BLOCK_SIZE \<le> buflen h"
  shows "a = B a" "buflen h = BUF_BLOCK_SIZE" "bn h = 0" "bp h = 0"
proof -
  note g = geomD [OF pool_invD(1) [OF inv a(1)]]
  show len: "buflen h = BUF_BLOCK_SIZE" and aB: "a = B a" using g(3,4,8) a(2) by auto
  show "bn h = 0"
  proof (rule ccontr)
    assume n: "bn h \<noteq> 0"
    from pool_invD(2) [OF inv a(1) n] obtain k where k: "bn h = a + buflen h" "B (bn h) = B a"
      "bufs s (bn h) = Some k" by blast
    from geomD [OF pool_invD(1) [OF inv k(3)]] k len aB show False by simp
  qed
  show "bp h = 0"
  proof (rule ccontr)
    assume p: "bp h \<noteq> 0"
    from pool_invD(3) [OF inv a(1) p] obtain k where k: "bufs s (bp h) = Some k" "bn k = a" by blast
    from pool_invD(2) [OF inv k(1)] k(2) g(1) have "a = bp h + buflen k" "B a = B (bp h)" by auto
    with geomD [OF pool_invD(1) [OF inv k(1)]] aB show False by simp
  qed
qed

lemma drop_block_inv:
  assumes inv: "pool_inv B {} s" and f: "freelist s 0 = a # rest"
  shows "pool_inv B {} (s\<lparr>mem_used := m, freelist := (freelist s)(0 := rest), bufs := (bufs s)(a := None)\<rparr>)"
    (is "pool_inv B {} ?s")
proof -
  have "a \<in> set (freelist s 0)" using f by simp
  from pool_invD(6) [OF inv this] obtain h where h: "bufs s a = Some h" "blinks h = 0" "BUF_SIZE 0 \<le> buflen h"
    by (auto simp: free_class_Some)
  then have w: "bn h = 0" "bp h = 0" using whole_block(3,4) [OF inv h(1)] by (simp_all add: BUF_SIZE_def)
  have mem: "x \<in> set (freelist ?s i) \<longleftrightarrow> x \<in> set (freelist s i) \<and> x \<noteq> a" for x i
    using pool_invD(5) [OF inv, of 0] f class_unique [OF inv, of a 0 i] by (auto split: if_splits)
  have bwd: "bufs s x = Some k \<and> x \<noteq> a" if "bufs ?s x = Some k" for x k using that by (auto split: if_splits)
  show ?thesis
  proof (rule pool_invI)
    fix x k assume "bufs ?s x = Some k"
    then show "geom B x k" using bwd pool_invD(1) [OF inv] by blast
  next
    fix x k assume k: "bufs ?s x = Some k" "bn k \<noteq> 0"
    from pool_invD(2) [OF inv conjunct1 [OF bwd [OF k(1)]] k(2)] obtain k1 where
      k1: "bn k = x + buflen k" "B (bn k) = B x" "bufs s (bn k) = Some k1" "bp k1 = x" by blast
    have x0: "x \<noteq> 0" using geomD(1) [OF pool_invD(1) [OF inv conjunct1 [OF bwd [OF k(1)]]]] .
    have "bn k \<noteq> a"
    proof
      assume "bn k = a"
      then have "k1 = h" using k1(3) h(1) by simp
      then show False using k1(4) w(2) x0 by simp
    qed
    then show "bn k = x + buflen k \<and> B (bn k) = B x \<and> (\<exists>k'. bufs ?s (bn k) = Some k' \<and> bp k' = x)"
      using k1 by auto
  next
    fix x k assume k: "bufs ?s x = Some k" "bp k \<noteq> 0"
    from pool_invD(3) [OF inv conjunct1 [OF bwd [OF k(1)]] k(2)] obtain k1 where
      k1: "bufs s (bp k) = Some k1" "bn k1 = x" by blast
    have x0: "x \<noteq> 0" using geomD(1) [OF pool_invD(1) [OF inv conjunct1 [OF bwd [OF k(1)]]]] .
    have "bp k \<noteq> a"
    proof
      assume "bp k = a"
      then have "k1 = h" using k1(1) h(1) by simp
      then show False using k1(2) w(1) x0 by simp
    qed
    then show "\<exists>k'. bufs ?s (bp k) = Some k' \<and> bn k' = x" using k1 by auto
  next
    fix x k y l assume k: "bufs ?s x = Some k" and l: "bufs ?s y = Some l" and xy: "x < y"
    show "x + buflen k \<le> y"
      using pool_invD(4) [OF inv conjunct1 [OF bwd [OF k]] conjunct1 [OF bwd [OF l]] xy] .
  next
    fix i show "distinct (freelist ?s i)"
      using pool_invD(5) [OF inv, of 0] pool_invD(5) [OF inv, of i] f by simp
  next
    fix i x assume "x \<in> set (freelist ?s i)"
    then have "x \<in> set (freelist s i)" "x \<noteq> a" unfolding mem by auto
    then show "x \<notin> {} \<and> (\<exists>k. bufs ?s x = Some k \<and> blinks k = 0 \<and> free_class (buflen k) = Some i)"
      using pool_invD(6) [OF inv, of x i] by auto
  next
    fix x k assume k: "bufs ?s x = Some k" "x \<notin> {}" "blinks k = 0"
    then show "\<exists>i. x \<in> set (freelist ?s i)" unfolding mem
      using bwd [OF k(1)] pool_invD(7) [OF inv conjunct1 [OF bwd [OF k(1)]] k(2,3)] by blast
  next
    fix x k l assume x: "bufs ?s x = Some k" "x \<notin> {}" "blinks k = 0" "bn k \<noteq> 0" "bn k \<notin> {}"
      "bufs ?s (bn k) = Some l"
    show "blinks l \<noteq> 0"
      using pool_invD(8) [OF inv conjunct1 [OF bwd [OF x(1)]] x(2-5) conjunct1 [OF bwd [OF x(6)]]] .
  qed
qed

lemma gc_loop_result:
  assumes "pool_inv B {} s" and "length (freelist s 0) < fuel"
  shows "\<exists>s'. gc_loop fuel s = Some s' \<and> pool_inv B {} s' \<and> length (freelist s' 0) \<le> 1 \<and>
    live_frame {} s s' \<and> bmem s' = bmem s \<and> btimeouts s' = btimeouts s"
  using assms
proof (induction fuel arbitrary: s)
  case (Suc fuel)
  show ?case
  proof (cases "\<exists>a b rest. freelist s 0 = a # b # rest")
    case True
    then obtain a b rest where f: "freelist s 0 = a # b # rest" by blast
    then have "a \<in> set (freelist s 0)" by simp
    from pool_invD(6) [OF Suc.prems(1) this] obtain h where h: "bufs s a = Some h" "blinks h = 0" by blast
    let ?s = "s\<lparr>mem_used := mem_used s - of_nat (buflen h), freelist := (freelist s)(0 := b # rest),
      bufs := (bufs s)(a := None)\<rparr>"
    have st: "buf_free_block s = Some (True, ?s)" using f h by (simp add: buf_free_block_def)
    have "pool_inv B {} ?s" using drop_block_inv [OF Suc.prems(1) f] .
    from Suc.IH [OF this] f Suc.prems(2) obtain s' where s': "gc_loop fuel ?s = Some s'" "pool_inv B {} s'"
      "length (freelist s' 0) \<le> 1" "live_frame {} ?s s'" "bmem s' = bmem s" "btimeouts s' = btimeouts s" by auto
    have "live_frame {} s ?s" using h by (auto simp: live_frame_def)
    from live_frame_trans [OF this s'(4)] s' st show ?thesis by simp
  next
    case False
    then have "length (freelist s 0) \<le> 1" by (cases "freelist s 0"; cases "tl (freelist s 0)") auto
    moreover have "buf_free_block s = Some (False, s)"
      using False by (auto simp: buf_free_block_def split: list.splits)
    ultimately show ?thesis using Suc.prems(1) live_frame_refl [of s s] by auto
  qed
qed simp

section \<open>Sizes\<close>

lemma even_up_eq: "x + k < 2 ^ 32 \<Longrightarrow> even_up k x = (x + k) div 2 * 2"
  by (simp add: even_up_def add32_eq)

lemma alloc_size_bound:
  assumes "n + 48 < 2 ^ 32"
  shows "n + 47 \<le> alloc_size n"
proof -
  have "even_up 0 (add32 n 48) = (n + 48) div 2 * 2"
    using assms by (simp add: even_up_eq add32_eq)
  moreover have "n + 47 \<le> (n + 48) div 2 * 2" by presburger
  ultimately show ?thesis by (simp add: alloc_size_def Let_def)
qed

lemma reserve_bounds:
  assumes "r + 1 < 2 ^ 32"
  shows "r \<le> even_up 1 r" "even_up 1 r \<le> r + 1"
proof -
  have e: "even_up 1 r = (r + 1) div 2 * 2" using assms by (rule even_up_eq)
  show "r \<le> even_up 1 r" "even_up 1 r \<le> r + 1" unfolding e by presburger+
qed

text \<open>Where the data of a new buffer can go.\<close>

lemma alloc_room:
  assumes inv: "pool_inv B X s" and h: "bufs s a = Some h" "alloc_size n \<le> buflen h"
    and n: "n + 48 < 2 ^ 32" and r: "r \<le> n"
  shows "add32 (a + SIZEOF_BUF) (even_up 1 r) = a + SIZEOF_BUF + even_up 1 r"
    "a + SIZEOF_BUF + r \<le> add32 (a + SIZEOF_BUF) (even_up 1 r)"
    "add32 (a + SIZEOF_BUF) (even_up 1 r) + (n - r) \<le> a + buflen h"
proof -
  have r1: "r + 1 < 2 ^ 32" using n r by linarith
  note rb = reserve_bounds [OF r1]
  have room: "n + 47 \<le> buflen h" using alloc_size_bound [OF n] h(2) by linarith
  have "a + SIZEOF_BUF + even_up 1 r < 2 ^ 32"
    using geomD(9) [OF pool_invD(1) [OF inv h(1)]] room rb r by linarith
  then show e: "add32 (a + SIZEOF_BUF) (even_up 1 r) = a + SIZEOF_BUF + even_up 1 r" by (rule add32_eq)
  show "a + SIZEOF_BUF + r \<le> add32 (a + SIZEOF_BUF) (even_up 1 r)" unfolding e using rb by simp
  show "add32 (a + SIZEOF_BUF) (even_up 1 r) + (n - r) \<le> a + buflen h" unfolding e using rb room r by linarith
qed

section \<open>Contents\<close>

definition data_ok :: "nat \<Rightarrow> buf \<Rightarrow> bool" where
  "data_ok a h \<longleftrightarrow> a + SIZEOF_BUF \<le> dstart h \<and> dstart h \<le> dend h \<and> dend h \<le> a + buflen h"

definition data_of :: "bufpool \<Rightarrow> buf \<Rightarrow> u8 list" where
  "data_of s h = map (bmem s) [dstart h..<dend h]"

text \<open>Copying into a buffer in use touches that buffer only.\<close>

lemma copy_into_result:
  assumes inv: "pool_inv B {} s" and a: "bufs s a = Some h" "blinks h \<noteq> 0" "data_ok a h"
    and n: "bufs s n = Some hn" "blinks hn \<noteq> 0" "n \<noteq> a" "n + SIZEOF_BUF \<le> dstart hn"
      "dstart hn + (dend h - dstart h) \<le> n + buflen hn"
  defines "hn' \<equiv> hn\<lparr>dend := dstart hn + (dend h - dstart h), binfo := binfo h\<rparr>"
  shows "\<exists>s'. copy_into n a s = Some s' \<and> pool_inv B {} s' \<and> bufs s' = (bufs s)(n \<mapsto> hn') \<and>
    data_of s' hn' = data_of s h \<and> data_ok n hn' \<and>
    (\<forall>x k. x \<noteq> n \<longrightarrow> bufs s x = Some k \<longrightarrow> data_ok x k \<longrightarrow> data_of s' k = data_of s k)"
proof -
  note g = geomD [OF pool_invD(1) [OF inv a(1)]] and gn = geomD [OF pool_invD(1) [OF inv n(1)]]
  define len where "len = dend h - dstart h"
  have ok: "a + SIZEOF_BUF \<le> dstart h" "dstart h \<le> dend h" "dend h \<le> a + buflen h"
    using a(3) by (simp_all add: data_ok_def)
  have sub: "sub32 (dend h) (dstart h) = len" unfolding len_def using ok g(9) by (intro sub32_eq) linarith+
  have add: "add32 (dstart hn) len = dstart hn + len" using n(5) gn(9) unfolding len_def by (intro add32_eq) linarith
  let ?s1 = "mem_copy (dstart hn) (dstart h) len s"
  let ?s = "?s1\<lparr>bufs := (bufs s)(n \<mapsto> hn')\<rparr>"
  have hn': "hn' = hn\<lparr>dend := dstart hn + len, binfo := binfo h\<rparr>" by (simp add: hn'_def len_def)
  have c: "copy_into n a s = Some ?s"
    using a(1) n(1) by (simp add: copy_into_def sub add hn' mem_copy_def)
  have "pool_inv B {n} (s\<lparr>bufs := (bufs s)(n \<mapsto> hn')\<rparr>)"
    by (rule hand_fields [OF hand_live [OF inv n(1,2)] n(1)]) (simp_all add: hn'_def)
  then have p: "pool_inv B {} (s\<lparr>bufs := (bufs s)(n \<mapsto> hn')\<rparr>)"
    by (rule hand_release [where h = hn']) (simp_all add: hn'_def n(2))
  then have p': "pool_inv B {} ?s" by (simp add: pool_inv_def mem_copy_def)
  have d1: "data_of ?s hn' = data_of s h"
    by (rule nth_equalityI)
      (auto simp: data_of_def mem_copy_def hn' len_def nth_append)
  have frame: "data_of ?s k = data_of s k" if "x \<noteq> n" "bufs s x = Some k" "data_ok x k" for x k
  proof -
    have "x + buflen k \<le> n \<or> n + buflen hn \<le> x"
      using pool_invD(4) [OF inv that(2) n(1)] pool_invD(4) [OF inv n(1) that(2)] that(1) by linarith
    then have out: "y < dstart hn \<or> dstart hn + len \<le> y" if "dstart k \<le> y" "y < dend k" for y
      using that \<open>data_ok x k\<close> n(4,5) unfolding data_ok_def len_def by linarith
    have "bmem ?s y = bmem s y" if "dstart k \<le> y" "y < dend k" for y
      using out [OF that] by (auto simp: mem_copy_def)
    then show ?thesis by (simp add: data_of_def)
  qed
  have "data_ok n hn'" using n(4,5) by (simp add: data_ok_def hn'_def)
  then show ?thesis using c p' d1 frame by auto
qed

text \<open>Every buffer in use keeps its fields and its contents.\<close>

definition data_frame :: "nat set \<Rightarrow> bufpool \<Rightarrow> bufpool \<Rightarrow> bool" where
  "data_frame X s s' \<longleftrightarrow> (\<forall>x k. x \<notin> X \<longrightarrow> bufs s x = Some k \<longrightarrow> blinks k \<noteq> 0 \<longrightarrow> data_ok x k \<longrightarrow>
     (\<exists>k'. bufs s' x = Some k' \<and> sig k' = sig k \<and> data_of s' k' = data_of s k))"

lemma sig_data: "sig k' = sig k \<Longrightarrow> data_ok x k' = data_ok x k \<and> data_of s k' = data_of s k"
  by (simp add: sig_def data_ok_def data_of_def)

lemma live_data_frame:
  assumes "live_frame X s s'" and "bmem s' = bmem s"
  shows "data_frame X s s'"
  unfolding data_frame_def
proof (intro allI impI)
  fix x k assume "x \<notin> X" "bufs s x = Some k" "blinks k \<noteq> 0"
  with assms(1) obtain k' where "bufs s' x = Some k'" "sig k' = sig k" unfolding live_frame_def by blast
  then show "\<exists>k'. bufs s' x = Some k' \<and> sig k' = sig k \<and> data_of s' k' = data_of s k"
    using assms(2) sig_data [of k' k] by (auto simp: data_of_def)
qed

lemma data_frame_trans:
  assumes "data_frame X s s'" and "data_frame Y s' s''"
  shows "data_frame (X \<union> Y) s s''"
  unfolding data_frame_def
proof (intro allI impI)
  fix x k assume x: "x \<notin> X \<union> Y" "bufs s x = Some k" "blinks k \<noteq> 0" "data_ok x k"
  then have "x \<notin> X" "x \<notin> Y" by auto
  with assms(1) x obtain k1 where k1: "bufs s' x = Some k1" "sig k1 = sig k" "data_of s' k1 = data_of s k"
    unfolding data_frame_def by blast
  then have "blinks k1 \<noteq> 0" "data_ok x k1" using x sig_data [of k1 k] by (auto simp: sig_def)
  with assms(2) k1 \<open>x \<notin> Y\<close> obtain k2 where "bufs s'' x = Some k2" "sig k2 = sig k1" "data_of s'' k2 = data_of s' k1"
    unfolding data_frame_def by blast
  with k1 show "\<exists>k'. bufs s'' x = Some k' \<and> sig k' = sig k \<and> data_of s'' k' = data_of s k" by auto
qed

lemma data_frame_notlive:
  assumes "data_frame {n} s s'" and "\<not> is_live s n"
  shows "data_frame {} s s'"
  unfolding data_frame_def
proof (intro allI impI)
  fix x k assume x: "bufs s x = Some k" "blinks k \<noteq> 0" "data_ok x k"
  with assms(2) have "x \<notin> {n}" by (auto simp: is_live_def)
  with assms(1) x show "\<exists>k'. bufs s' x = Some k' \<and> sig k' = sig k \<and> data_of s' k' = data_of s k"
    unfolding data_frame_def by blast
qed

text \<open>An allocation followed by a copy, the core of \<^verbatim>\<open>buf_clone\<close> and \<^verbatim>\<open>buf_reserve\<close>.\<close>

lemma alloc_copy:
  assumes inv: "pool_inv B {} s" and km: "kmalloc_ok km" and a: "bufs s a = Some h" "blinks h \<noteq> 0" "data_ok a h"
    and n0: "n0 + 48 < 2 ^ 32" "lead \<le> n0" "dend h - dstart h \<le> n0 - lead"
    and al: "buf_alloc km n0 lead mode s = Some (Some n, s1)"
  shows "\<exists>s2 B2 hn. copy_into n a s1 = Some s2 \<and> pool_inv B2 {} s2 \<and> \<not> is_live s n \<and>
    bufs s2 n = Some hn \<and> blinks hn = 1 \<and> data_ok n hn \<and> n + SIZEOF_BUF + lead \<le> dstart hn \<and>
    dstart hn + (n0 - lead) \<le> n + buflen hn \<and> data_of s2 hn = data_of s h \<and> binfo hn = binfo h \<and>
    data_frame {} s s2"
proof -
  from buf_alloc_result [OF inv km, of n0 lead mode] al obtain B1 where
    B1: "pool_inv B1 {} s1" and post: "alloc_post s n (alloc_size n0) (even_up 1 lead) s1"
    by (auto simp: alloc_outcome_def)
  then obtain hn where hn: "bufs s1 n = Some hn" "blinks hn = 1"
    "dstart hn = add32 (n + SIZEOF_BUF) (even_up 1 lead)" "alloc_size n0 \<le> buflen hn"
    and nl: "\<not> is_live s n" and lf: "live_frame {} s s1" and mem: "bmem s1 = bmem s"
    by (auto simp: alloc_post_def)
  note room = alloc_room [OF B1 hn(1,4) n0(1,2), folded hn(3)]
  from lf a obtain h1 where h1: "bufs s1 a = Some h1" "sig h1 = sig h" unfolding live_frame_def by blast
  have eq: "dstart h1 = dstart h" "dend h1 = dend h" "binfo h1 = binfo h" "blinks h1 \<noteq> 0" "data_ok a h1"
    using h1(2) a sig_data [OF h1(2)] by (auto simp: sig_def)
  have na: "n \<noteq> a" using nl a by (auto simp: is_live_def)
  let ?hn = "hn\<lparr>dend := dstart hn + (dend h1 - dstart h1), binfo := binfo h1\<rparr>"
  from copy_into_result [OF B1 h1(1) eq(4,5) hn(1) _ na] hn(2) room eq n0(3) obtain s2 where
    s2: "copy_into n a s1 = Some s2" "pool_inv B1 {} s2" "bufs s2 = (bufs s1)(n \<mapsto> ?hn)"
    "data_of s2 ?hn = data_of s1 h1" "data_ok n ?hn"
    "\<forall>x k. x \<noteq> n \<longrightarrow> bufs s1 x = Some k \<longrightarrow> data_ok x k \<longrightarrow> data_of s2 k = data_of s1 k" by auto
  have d1: "data_of s1 h1 = data_of s h" using sig_data [OF h1(2)] mem by (simp add: data_of_def)
  have "data_frame {n} s1 s2" unfolding data_frame_def using s2(3,6) by auto
  from data_frame_trans [OF live_data_frame [OF lf mem] this] have "data_frame {n} s s2" by simp
  then have "data_frame {} s s2" using nl by (rule data_frame_notlive)
  with s2 hn room nl d1 eq(3) show ?thesis by (intro exI [of _ s2] exI [of _ B1] exI [of _ ?hn]) auto
qed

lemma clone_sizes:
  assumes inv: "pool_inv B X s" and a: "bufs s a = Some h" "data_ok a h"
  shows "sub32 (dstart h) (add32 a SIZEOF_BUF) = dstart h - (a + SIZEOF_BUF)"
    "sub32 (buflen h) SIZEOF_BUF = buflen h - SIZEOF_BUF"
    "sub32 (add32 a (buflen h)) (dstart h) = a + buflen h - dstart h"
    "sub32 (dend h) (add32 a SIZEOF_BUF) = dend h - (a + SIZEOF_BUF)"
proof -
  note g = geomD [OF pool_invD(1) [OF inv a(1)]]
  have ok: "a + SIZEOF_BUF \<le> dstart h" "dstart h \<le> dend h" "dend h \<le> a + buflen h"
    using a(2) by (simp_all add: data_ok_def)
  have e: "add32 a SIZEOF_BUF = a + SIZEOF_BUF" "add32 a (buflen h) = a + buflen h"
    using g(2,9) by (auto intro!: add32_eq)
  show "sub32 (dstart h) (add32 a SIZEOF_BUF) = dstart h - (a + SIZEOF_BUF)"
    unfolding e using ok g(9) by (intro sub32_eq) linarith+
  show "sub32 (buflen h) SIZEOF_BUF = buflen h - SIZEOF_BUF" using g(2,8) by (intro sub32_eq) simp_all
  show "sub32 (add32 a (buflen h)) (dstart h) = a + buflen h - dstart h"
    unfolding e using ok g(9) by (intro sub32_eq) linarith+
  show "sub32 (dend h) (add32 a SIZEOF_BUF) = dend h - (a + SIZEOF_BUF)"
    unfolding e using ok g(9) by (intro sub32_eq) linarith+
qed

section \<open>The pool as a state machine\<close>

text \<open>
  A step is an operation of a client on the pool, on a buffer it has, or the work of one
  of the timeouts. A client may also change the data pointers and the data of its buffers.
\<close>

inductive pool_step :: "bufpool \<Rightarrow> bufpool \<Rightarrow> bool" where
  alloc: "kmalloc_ok km \<Longrightarrow> buf_alloc km n r mode s = Some (res, s') \<Longrightarrow> pool_step s s'"
| deref: "is_live s a \<Longrightarrow> buf_deref a s = Some s' \<Longrightarrow> pool_step s s'"
| refer: "bufs s a = Some h \<Longrightarrow> blinks h \<noteq> 0 \<Longrightarrow> blinks h + 1 \<noteq> 0 \<Longrightarrow> buf_ref a s = Some s' \<Longrightarrow> pool_step s s'"
| collect: "gc s = Some s' \<Longrightarrow> pool_step s s'"
| moremem: "kmalloc_ok km \<Longrightarrow> addmem km s = s' \<Longrightarrow> pool_step s s'"
| client: "bufs s a = Some h \<Longrightarrow> blinks h \<noteq> 0 \<Longrightarrow>
    pool_step s (s\<lparr>bufs := (bufs s)(a \<mapsto> h\<lparr>dstart := x, dend := y, binfo := z\<rparr>), bmem := m\<rparr>)"

definition pool_good :: "bufpool \<Rightarrow> bool" where
  "pool_good s \<longleftrightarrow> (\<exists>B. pool_inv B {} s)"

lemma live_fields_inv:
  assumes inv: "pool_inv B {} s" and a: "bufs s a = Some h" "blinks h \<noteq> 0"
    and h': "buflen h' = buflen h" "bn h' = bn h" "bp h' = bp h" "blinks h' \<noteq> 0"
  shows "pool_inv B {} (s\<lparr>bufs := (bufs s)(a \<mapsto> h')\<rparr>)"
proof -
  have "pool_inv B {a} (s\<lparr>bufs := (bufs s)(a \<mapsto> h')\<rparr>)"
    by (rule hand_fields [OF hand_live [OF inv a] a(1) h'(1-3)])
  then show ?thesis by (rule hand_release [where h = h']) (simp_all add: h'(4))
qed

lemma gc_inv:
  assumes "pool_inv B {} s" and "gc s = Some s'"
  shows "pool_inv B {} s'"
proof -
  from gc_loop_result [OF assms(1), of "Suc (length (freelist s 0))"] obtain s1 where
    s1: "gc_loop (Suc (length (freelist s 0))) s = Some s1" "pool_inv B {} s1" by auto
  with assms(2) obtain tm where "s' = s1\<lparr>btimeouts := tm\<rparr>" by (auto simp: gc_def Option.bind_eq_Some_conv)
  with s1(2) show ?thesis by (simp add: pool_inv_def)
qed

lemma pool_step_good: "pool_step s s' \<Longrightarrow> pool_good s \<Longrightarrow> pool_good s'"
proof (induction rule: pool_step.induct)
  case (alloc km n r mode s res s')
  then obtain B where "pool_inv B {} s" by (auto simp: pool_good_def)
  from buf_alloc_result [OF this alloc(1), of n r mode] alloc(2) show ?case
    by (auto simp: pool_good_def alloc_outcome_def)
next
  case (deref s a s')
  then obtain B h where "pool_inv B {} s" "bufs s a = Some h" "blinks h \<noteq> 0"
    by (auto simp: pool_good_def is_live_def split: option.splits)
  from buf_deref_result [OF this] deref(2) show ?case by (auto simp: pool_good_def)
next
  case (refer s a h s')
  then obtain B where B: "pool_inv B {} s" by (auto simp: pool_good_def)
  have "pool_inv B {} (s\<lparr>bufs := (bufs s)(a \<mapsto> h\<lparr>blinks := blinks h + 1\<rparr>)\<rparr>)"
    by (rule live_fields_inv [OF B refer(1,2)]) (simp_all add: refer(3))
  with refer(1,4) show ?case by (auto simp: pool_good_def buf_ref_def set_links_def)
next
  case (collect s s')
  then show ?case using gc_inv by (auto simp: pool_good_def)
next
  case (moremem km s s')
  then obtain B where "pool_inv B {} s" by (auto simp: pool_good_def)
  then have B: "pool_inv B {} (s\<lparr>buf_tmout := None\<rparr>)" by (simp add: pool_inv_def)
  obtain r s1 where b: "buf_add_block km (s\<lparr>buf_tmout := None\<rparr>) = (r, s1)" by fastforce
  with moremem(2) have "s' = s1" by (simp add: addmem_def)
  with buf_add_block_result [OF B moremem(1) b] B show ?case
    by (auto simp: pool_good_def split: if_splits)
next
  case (client s a h m z y x)
  then obtain B where B: "pool_inv B {} s" by (auto simp: pool_good_def)
  have "pool_inv B {} (s\<lparr>bufs := (bufs s)(a \<mapsto> h\<lparr>dstart := x, dend := y, binfo := z\<rparr>)\<rparr>)"
    by (rule live_fields_inv [OF B client(1,2)]) (simp_all add: client(2))
  moreover have "pool_inv B {} (s\<lparr>bufs := (bufs s)(a \<mapsto> h\<lparr>dstart := x, dend := y, binfo := z\<rparr>), bmem := m\<rparr>) =
      pool_inv B {} (s\<lparr>bufs := (bufs s)(a \<mapsto> h\<lparr>dstart := x, dend := y, binfo := z\<rparr>)\<rparr>)"
    by (rule pool_inv_cong) simp_all
  ultimately show ?case by (auto simp: pool_good_def)
qed

lemma pool_steps_good: "pool_step\<^sup>*\<^sup>* s s' \<Longrightarrow> pool_good s \<Longrightarrow> pool_good s'"
  by (induction rule: rtranclp_induct) (auto intro: pool_step_good)

definition pool0 :: "timeouts \<Rightarrow> bufpool" where
  "pool0 tm = \<lparr>bufs = Map.empty, bmem = (\<lambda>_. 0), freelist = (\<lambda>_. []), failed_allocs = 0, mem_used = 0,
     buf_tmout = None, btimeouts = tm\<rparr>"

lemma pool0_inv: "pool_inv B {} (pool0 tm)"
  by (rule pool_invI) (simp_all add: pool0_def)

lemma buf_init_good:
  assumes "kmalloc_ok km" and "buf_init km (pool0 tm) = Some (r, s)"
  shows "pool_good s"
proof -
  have e: "(pool0 tm)\<lparr>freelist := (\<lambda>_. [])\<rparr> = pool0 tm" by (simp add: pool0_def)
  obtain f s1 where b: "buf_add_block km (pool0 tm) = (f, s1)" by fastforce
  have "pool_good s1"
    using buf_add_block_result [OF pool0_inv assms(1) b] pool0_inv
    by (auto simp: pool_good_def split: if_splits)
  moreover have "bufs s = bufs s1" "freelist s = freelist s1"
    using assms(2) b by (auto simp: buf_init_def e Option.bind_eq_Some_conv split: bool.splits)
  ultimately show ?thesis by (simp add: pool_good_def pool_inv_def)
qed

section \<open>Properties\<close>

text \<open>
  C23: \<^verbatim>\<open>buf_alloc\<close> is correct. From every consistent pool it returns, without an access
  outside the buffers, and leaves a consistent pool in which every buffer in use has kept
  its header and its data. A buffer it returns was free, is referenced once, and has room
  for the requested bytes behind the reserved ones; it returns \<^verbatim>\<open>NULL\<close> only for a request
  that is too large, or when no free buffer is large enough and, unless the call is
  atomic, \<^verbatim>\<open>kmalloc\<close> fails.
\<close>
theorem buf_alloc_correct:
  assumes "pool_good s" and "kmalloc_ok kmalloc" and "n + 48 < 2 ^ 32" and "reserve \<le> n"
  shows "\<exists>r s'. buf_alloc kmalloc n reserve mode s = Some (r, s') \<and> pool_good s' \<and>
    live_frame {} s s' \<and> bmem s' = bmem s \<and>
    (case r of
       None \<Rightarrow> BUF_BLOCK_SIZE < alloc_size n \<or>
         ((\<forall>i. BUF_SIZE i \<ge> alloc_size n \<longrightarrow> freelist s i = []) \<and>
          (mode = BUF_NORMAL \<longrightarrow> kmalloc s = None))
     | Some a \<Rightarrow> \<not> is_live s a \<and>
         (\<exists>h. bufs s' a = Some h \<and> blinks h = 1 \<and> dend h = dstart h \<and>
            a + SIZEOF_BUF + reserve \<le> dstart h \<and> dstart h + (n - reserve) \<le> a + buflen h))"
proof -
  from assms(1) obtain B where B: "pool_inv B {} s" by (auto simp: pool_good_def)
  from buf_alloc_result [OF B assms(2), of n reserve mode] obtain r s' where
    r: "buf_alloc kmalloc n reserve mode s = Some (r, s')"
      "alloc_outcome s (alloc_size n) (even_up 1 reserve) r s'"
      "r = None \<Longrightarrow> BUF_BLOCK_SIZE < alloc_size n \<or>
        ((\<forall>i. BUF_SIZE i \<ge> alloc_size n \<longrightarrow> freelist s i = []) \<and> (mode = BUF_NORMAL \<longrightarrow> kmalloc s = None))"
    by blast
  then obtain B' where B': "pool_inv B' {} s'" by (auto simp: alloc_outcome_def)
  show ?thesis
  proof (cases r)
    case None
    then show ?thesis using r B' by (auto simp: alloc_outcome_def pool_good_def)
  next
    case (Some a)
    then have post: "alloc_post s a (alloc_size n) (even_up 1 reserve) s'" using r(2) by (simp add: alloc_outcome_def)
    then obtain h where h: "bufs s' a = Some h" "blinks h = 1" "dend h = dstart h"
      "dstart h = add32 (a + SIZEOF_BUF) (even_up 1 reserve)" "alloc_size n \<le> buflen h"
      by (auto simp: alloc_post_def)
    from alloc_room [OF B' h(1,5) assms(3,4)] h post r(1) Some B' show ?thesis
      by (auto simp: alloc_post_def pool_good_def)
  qed
qed

lemma pool0_good: "pool_good (pool0 tm)"
  using pool0_inv by (auto simp: pool_good_def)

lemma kmalloc_none_ok: "kmalloc_ok (\<lambda>_. None)"
  by (simp add: kmalloc_ok_def)

definition first_kmalloc :: "bufpool \<Rightarrow> nat option" where
  "first_kmalloc s = (if dom (bufs s) = {} then Some 4096 else None)"

lemma first_kmalloc_ok: "kmalloc_ok first_kmalloc"
proof -
  have "bufs s x = None" if "dom (bufs s) = {}" for s x using that by (metis domIff empty_iff)
  then show ?thesis by (auto simp: kmalloc_ok_def first_kmalloc_def block_fits_def)
qed

theorem buf_alloc_correct_witness:
  "\<exists>r s'. buf_alloc first_kmalloc 100 20 BUF_NORMAL (pool0 (timeouts_init [])) = Some (r, s') \<and>
     pool_good s' \<and> r \<noteq> None"
proof -
  have sz: "alloc_size 100 = 256" by (simp add: alloc_size_def even_up_def add32_def)
  from buf_alloc_correct [OF pool0_good first_kmalloc_ok, of 100 20 BUF_NORMAL "timeouts_init []"]
  show ?thesis by (auto simp: sz first_kmalloc_def pool0_def split: option.splits)
qed

text \<open>
  C24: \<^verbatim>\<open>buf_deref\<close> on a buffer in use drops one reference. It returns, keeps the pool
  consistent and every other buffer in use untouched; with the last reference the buffer
  becomes free, merged with its free neighbours.
\<close>
theorem buf_deref_correct:
  assumes "pool_good s" and "bufs s a = Some h" and "blinks h \<noteq> 0"
  shows "\<exists>s'. buf_deref a s = Some s' \<and> pool_good s' \<and> live_frame {a} s s' \<and> bmem s' = bmem s \<and>
    (if sint (blinks h - 1) > 0 then bufs s' a = Some (h\<lparr>blinks := blinks h - 1\<rparr>) else \<not> is_live s' a)"
proof -
  from assms(1) obtain B where B: "pool_inv B {} s" by (auto simp: pool_good_def)
  from buf_deref_result [OF B assms(2,3)] show ?thesis by (auto simp: pool_good_def split: if_splits)
qed

definition sample_live :: buf where
  "sample_live = \<lparr>buflen = 256, dstart = 4162, dend = 4165, blinks = 1, binfo = 7, bn = 4352, bp = 0\<rparr>"

definition sample_free :: buf where
  "sample_free = \<lparr>buflen = 32512, dstart = 0, dend = 0, blinks = 0, binfo = 0, bn = 0, bp = 4096\<rparr>"

definition sample_pool :: bufpool where
  "sample_pool = (pool0 (timeouts_init []))\<lparr>bufs := [4096 \<mapsto> sample_live, 4352 \<mapsto> sample_free],
     freelist := (\<lambda>_. [])(1 := [4352])\<rparr>"

lemma sample_pool_good: "pool_good sample_pool"
proof -
  have two: "a = 4096 \<and> h = sample_live \<or> a = 4352 \<and> h = sample_free" if "bufs sample_pool a = Some h" for a h
    using that by (auto simp: sample_pool_def split: if_splits)
  have cells: "bufs sample_pool 4096 = Some sample_live" "bufs sample_pool 4352 = Some sample_free"
    by (simp_all add: sample_pool_def)
  have "pool_inv (\<lambda>_. 4096) {} sample_pool"
  proof (rule pool_invI)
    fix a h assume "bufs sample_pool a = Some h"
    from two [OF this] show "geom (\<lambda>_. 4096) a h"
      by (auto simp: geom_def sample_live_def sample_free_def)
  next
    fix a h assume "bufs sample_pool a = Some h" "bn h \<noteq> 0"
    with two [OF this(1)] cells show "bn h = a + buflen h \<and> (4096 :: nat) = 4096 \<and> (\<exists>k. bufs sample_pool (bn h) = Some k \<and> bp k = a)"
      by (auto simp: sample_live_def sample_free_def)
  next
    fix a h assume "bufs sample_pool a = Some h" "bp h \<noteq> 0"
    with two [OF this(1)] cells show "\<exists>k. bufs sample_pool (bp h) = Some k \<and> bn k = a"
      by (auto simp: sample_live_def sample_free_def)
  next
    fix a h b k assume ab: "bufs sample_pool a = Some h" "bufs sample_pool b = Some k" "a < b"
    with two [OF ab(1)] two [OF ab(2)] show "a + buflen h \<le> b" by (auto simp: sample_live_def)
  next
    fix a h assume "bufs sample_pool a = Some h" "a \<notin> {}" "blinks h = 0"
    with two [OF this(1)] show "\<exists>i. a \<in> set (freelist sample_pool i)"
      by (auto simp: sample_live_def sample_pool_def intro: exI [of _ 1])
  next
    fix a h k assume "bufs sample_pool a = Some h" "a \<notin> {}" "blinks h = 0" "bn h \<noteq> 0" "bn h \<notin> {}"
      "bufs sample_pool (bn h) = Some k"
    with two [OF this(1)] show "blinks k \<noteq> 0" by (auto simp: sample_live_def sample_free_def)
  next
    fix i a assume "a \<in> set (freelist sample_pool i)"
    then have "a = 4352 \<and> i = 1" by (auto simp: sample_pool_def split: if_splits)
    then show "a \<notin> {} \<and> (\<exists>h. bufs sample_pool a = Some h \<and> blinks h = 0 \<and> free_class (buflen h) = Some i)"
      using cells by (auto simp: sample_free_def free_class_Some BUF_SIZE_def)
  qed (simp_all add: sample_pool_def pool0_def)
  then show ?thesis by (auto simp: pool_good_def)
qed

lemma sample_pool_buf: "bufs sample_pool 4096 = Some sample_live" "blinks sample_live = 1"
  by (simp_all add: sample_pool_def sample_live_def)

theorem buf_deref_correct_witness:
  "\<exists>s'. buf_deref 4096 sample_pool = Some s' \<and> \<not> is_live s' 4096"
  using buf_deref_correct [OF sample_pool_good sample_pool_buf(1)] by (auto simp: sample_pool_buf(2))

text \<open>
  C25: The pool stays consistent. In every state that can be reached from the
  initialisation by the clients and the timeouts no two buffers overlap, the chains of
  neighbours tile their blocks, exactly the buffers that nobody references are on the free
  lists, each once and on the list of its size, and no two free buffers are neighbours.
\<close>
theorem buf_reachable_consistent:
  assumes "kmalloc_ok km" and "buf_init km (pool0 tm) = Some (r, s0)" and "pool_step\<^sup>*\<^sup>* s0 s"
  shows "\<exists>B. pool_inv B {} s"
  using pool_steps_good [OF assms(3) buf_init_good [OF assms(1,2)]] by (simp add: pool_good_def)

theorem buf_reachable_consistent_witness:
  "\<exists>r s B. buf_init first_kmalloc (pool0 (timeouts_init [1])) = Some (r, s) \<and> pool_inv B {} s"
proof -
  obtain r s where i: "buf_init first_kmalloc (pool0 (timeouts_init [1])) = Some (r, s)"
    by (simp add: buf_init_def buf_add_block_def first_kmalloc_def pool0_def free_insert_def
        addroottimeout_def timeouts_init_def newtimeout_def timeout_alloc_def)
  from buf_reachable_consistent [OF first_kmalloc_ok i rtranclp.rtrancl_refl] i show ?thesis by blast
qed

text \<open>
  Memory is never lost to fragmentation for good: in a consistent pool in which no
  buffer is in use, every buffer is a whole block again.
\<close>
lemma buf_drained_whole:
  assumes "pool_good s" and "\<And>x. \<not> is_live s x" and "bufs s a = Some h"
  shows "buflen h = BUF_BLOCK_SIZE \<and> bn h = 0 \<and> bp h = 0 \<and> a \<in> set (freelist s 0)"
proof -
  from assms(1) obtain B where B: "pool_inv B {} s" by (auto simp: pool_good_def)
  have free: "blinks k = 0" if "bufs s x = Some k" for x k
    using assms(2) [of x] that by (simp add: is_live_def)
  have n: "bn k = 0" if "bufs s x = Some k" for x k
    using pool_invD(2) [OF B that] pool_invD(8) [OF B that _ free [OF that]] free by force
  have p: "bp h = 0" using pool_invD(3) [OF B assms(3)] n geomD(1) [OF pool_invD(1) [OF B assms(3)]] by force
  have len: "buflen h = BUF_BLOCK_SIZE"
    using geomD(6,7) [OF pool_invD(1) [OF B assms(3)]] n [OF assms(3)] p by simp
  obtain i where i: "a \<in> set (freelist s i)" using pool_invD(7) [OF B assms(3) _ free [OF assms(3)]] by auto
  moreover have "free_class (buflen h) = Some 0" by (simp add: len free_class_Some BUF_SIZE_def)
  ultimately have "i = 0" using pool_invD(6) [OF B i] assms(3) by simp
  with len n [OF assms(3)] p i show ?thesis by simp
qed

text \<open>
  \<^verbatim>\<open>buf_clone\<close> copies. For a buffer in use with its data inside it, the call returns;
  a copy it returns holds the same bytes and the same \<^verbatim>\<open>info\<close>, inside its own memory, and
  no buffer in use changes.
\<close>
lemma buf_clone_copies:
  assumes "pool_good s" and "kmalloc_ok km" and "bufs s a = Some h" and "blinks h \<noteq> 0" and "data_ok a h"
  shows "\<exists>r s'. buf_clone km a mode s = Some (r, s') \<and> pool_good s' \<and> data_frame {} s s' \<and>
    (case r of None \<Rightarrow> True
     | Some n \<Rightarrow> \<not> is_live s n \<and> (\<exists>hn. bufs s' n = Some hn \<and> blinks hn = 1 \<and> data_ok n hn \<and>
         data_of s' hn = data_of s h \<and> binfo hn = binfo h))"
proof -
  from assms(1) obtain B where B: "pool_inv B {} s" by (auto simp: pool_good_def)
  note sz = clone_sizes [OF B assms(3,5)]
  note g = geomD [OF pool_invD(1) [OF B assms(3)]]
  have ok: "a + SIZEOF_BUF \<le> dstart h" "dstart h \<le> dend h" "dend h \<le> a + buflen h"
    using assms(5) by (simp_all add: data_ok_def)
  let ?n0 = "buflen h - SIZEOF_BUF" and ?lead = "dstart h - (a + SIZEOF_BUF)"
  have n0: "?n0 + 48 < 2 ^ 32" "?lead \<le> ?n0" "dend h - dstart h \<le> ?n0 - ?lead"
    using ok g(2,8) by auto
  from buf_alloc_result [OF B assms(2), of ?n0 ?lead mode] obtain r s1 where
    r: "buf_alloc km ?n0 ?lead mode s = Some (r, s1)" and out: "alloc_outcome s (alloc_size ?n0) (even_up 1 ?lead) r s1"
    by blast
  show ?thesis
  proof (cases r)
    case None
    then show ?thesis using r out assms(3) live_data_frame
      by (auto simp: buf_clone_def sz Let_def alloc_outcome_def pool_good_def)
  next
    case (Some n)
    from alloc_copy [OF B assms(2-5) n0 r [unfolded Some]] obtain s2 where
      "copy_into n a s1 = Some s2" "pool_good s2" "\<not> is_live s n" "data_frame {} s s2"
      "\<exists>hn. bufs s2 n = Some hn \<and> blinks hn = 1 \<and> data_ok n hn \<and> data_of s2 hn = data_of s h \<and> binfo hn = binfo h"
      by (auto simp: pool_good_def)
    then show ?thesis using r Some assms(3) by (auto simp: buf_clone_def sz Let_def)
  qed
qed

lemma sample_data_ok: "data_ok 4096 sample_live"
  by (simp add: data_ok_def sample_live_def)

text \<open>The branch of \<^verbatim>\<open>buf_reserve\<close> that moves the data to a new buffer.\<close>

lemma alloc_copy_deref:
  assumes inv: "pool_inv B {} s" and km: "kmalloc_ok km" and a: "bufs s a = Some h" "blinks h \<noteq> 0" "data_ok a h"
    and n0: "n0 + 48 < 2 ^ 32" "lead \<le> n0" "dend h - dstart h \<le> n0 - lead"
    and al: "buf_alloc km n0 lead mode s = Some (Some n, s1)"
  shows "\<exists>s2 s3 hn. copy_into n a s1 = Some s2 \<and> buf_deref a s2 = Some s3 \<and> pool_good s3 \<and> \<not> is_live s n \<and>
    bufs s3 n = Some hn \<and> blinks hn = 1 \<and> data_ok n hn \<and> n + SIZEOF_BUF + lead \<le> dstart hn \<and>
    dstart hn + (n0 - lead) \<le> n + buflen hn \<and> data_of s3 hn = data_of s h \<and> binfo hn = binfo h \<and>
    data_frame {a} s s3"
proof -
  from alloc_copy [OF assms] obtain s2 B2 hn where
    c: "copy_into n a s1 = Some s2" "pool_inv B2 {} s2" "\<not> is_live s n" and df: "data_frame {} s s2" and
    hn: "bufs s2 n = Some hn" "blinks hn = 1" "data_ok n hn" "n + SIZEOF_BUF + lead \<le> dstart hn"
      "dstart hn + (n0 - lead) \<le> n + buflen hn" "data_of s2 hn = data_of s h" "binfo hn = binfo h" by blast
  from df a obtain ha where ha: "bufs s2 a = Some ha" "sig ha = sig h" unfolding data_frame_def by blast
  then have "blinks ha \<noteq> 0" using a(2) by (simp add: sig_def)
  from buf_deref_result [OF c(2) ha(1) this] obtain s3 where
    s3: "buf_deref a s2 = Some s3" "pool_inv B2 {} s3" "live_frame {a} s2 s3" "bmem s3 = bmem s2" by blast
  have na: "n \<noteq> a" using c(3) a by (auto simp: is_live_def)
  from live_data_frame [OF s3(3,4)] have df3: "data_frame {a} s2 s3" .
  with hn(1-3) na obtain h3 where h3: "bufs s3 n = Some h3" "sig h3 = sig hn" "data_of s3 h3 = data_of s2 hn"
    unfolding data_frame_def by force
  have "data_frame {a} s s3" using data_frame_trans [OF df df3] by simp
  moreover have "data_ok n h3" using sig_data [OF h3(2)] hn(3) by simp
  ultimately show ?thesis using c s3 h3 hn unfolding sig_def pool_good_def
    by (intro exI [of _ s2] exI [of _ s3] exI [of _ h3]) auto
qed

text \<open>The room \<open>mode\<close> asks for.\<close>

definition reserved :: "reserve_mode \<Rightarrow> nat \<Rightarrow> nat \<Rightarrow> buf \<Rightarrow> bool" where
  "reserved mode n a h =
     (case mode of BUF_RESERVE_START \<Rightarrow> a + SIZEOF_BUF + n \<le> dstart h
      | BUF_RESERVE_END \<Rightarrow> dend h + n \<le> a + buflen h
      | BAD_RESERVE \<Rightarrow> False)"

lemma slong_small: "x < 2 ^ 31 \<Longrightarrow> slong x = int x"
  by (simp add: slong_def)

lemma even_up_1: "x < 2 ^ 30 \<Longrightarrow> even_up 1 x = (x + 1) div 2 * 2"
  by (rule even_up_eq) simp

lemma reserve_sizes:
  assumes "pool_inv B X s" and "bufs s a = Some h" and "data_ok a h" and "n < 2 ^ 30"
  defines "r \<equiv> even_up 1 n"
  shows "n \<le> r" "r \<le> n + 1"
    "add32 (sub32 (add32 a (buflen h)) (dstart h)) r = a + buflen h - dstart h + r"
    "add32 (sub32 (dend h) (add32 a SIZEOF_BUF)) r = dend h - (a + SIZEOF_BUF) + r"
    "a + buflen h - dstart h \<le> BUF_BLOCK_SIZE" "dend h - (a + SIZEOF_BUF) \<le> BUF_BLOCK_SIZE"
proof -
  note sz = clone_sizes [OF assms(1-3)] and g = geomD [OF pool_invD(1) [OF assms(1,2)]]
  have ok: "a + SIZEOF_BUF \<le> dstart h" "dstart h \<le> dend h" "dend h \<le> a + buflen h"
    using assms(3) by (simp_all add: data_ok_def)
  show r: "n \<le> r" "r \<le> n + 1" unfolding r_def even_up_1 [OF assms(4)] by presburger+
  show l: "a + buflen h - dstart h \<le> BUF_BLOCK_SIZE" "dend h - (a + SIZEOF_BUF) \<le> BUF_BLOCK_SIZE"
    using ok g(8) by auto
  show "add32 (sub32 (add32 a (buflen h)) (dstart h)) r = a + buflen h - dstart h + r"
    unfolding sz using l(1) r(2) assms(4) by (intro add32_eq) simp
  show "add32 (sub32 (dend h) (add32 a SIZEOF_BUF)) r = dend h - (a + SIZEOF_BUF) + r"
    unfolding sz using l(2) r(2) assms(4) by (intro add32_eq) simp
qed

text \<open>
  C26: \<^verbatim>\<open>buf_reserve\<close> makes room. For a buffer in use with its data inside it and a request
  below 2^30 bytes the call returns; the buffer it returns, the old one or a new one, has
  the same bytes and the same \<^verbatim>\<open>info\<close> and the room asked for in front of or behind
  them, and the other buffers in use have kept theirs. When it fails, nothing in use changes.
\<close>
theorem buf_reserve_correct:
  assumes "pool_good s" and "kmalloc_ok km" and "bufs s a = Some h" and "blinks h \<noteq> 0" and "data_ok a h"
    and "n < 2 ^ 30" and "mode \<noteq> BAD_RESERVE"
  shows "\<exists>r s'. buf_reserve km a n mode s = Some (r, s') \<and> pool_good s' \<and>
    (case r of None \<Rightarrow> data_frame {} s s'
     | Some b \<Rightarrow> data_frame {a} s s' \<and> (\<exists>hb. bufs s' b = Some hb \<and> blinks hb \<noteq> 0 \<and> data_ok b hb \<and>
         reserved mode n b hb \<and> data_of s' hb = data_of s h \<and> binfo hb = binfo h))"
proof -
  from assms(1) obtain B where B: "pool_inv B {} s" by (auto simp: pool_good_def)
  note sz = clone_sizes [OF B assms(3,5)] and g = geomD [OF pool_invD(1) [OF B assms(3)]]
  note rs = reserve_sizes [OF B assms(3,5,6)]
  have ok: "a + SIZEOF_BUF \<le> dstart h" "dstart h \<le> dend h" "dend h \<le> a + buflen h"
    using assms(5) by (simp_all add: data_ok_def)
  define r0 where "r0 = even_up 1 n"
  define n0 where "n0 = (if mode = BUF_RESERVE_START then a + buflen h - dstart h else dend h - (a + SIZEOF_BUF)) + r0"
  define lead where "lead = (if mode = BUF_RESERVE_START then r0 else dstart h - (a + SIZEOF_BUF))"
  have n0: "n0 + 48 < 2 ^ 32" "lead \<le> n0" "dend h - dstart h \<le> n0 - lead" "n0 < 2 ^ 31"
    using rs(1,2,5,6) ok assms(6) by (auto simp: n0_def lead_def r0_def)
  have eq: "buf_reserve km a n mode s =
     (if int n0 \<le> int (buflen h - SIZEOF_BUF) then Some (Some a, s)
      else do { (r, s1) \<leftarrow> buf_alloc km n0 lead BUF_NORMAL s;
        case r of None \<Rightarrow> Some (None, s1)
        | Some b \<Rightarrow> do { s2 \<leftarrow> copy_into b a s1; s3 \<leftarrow> buf_deref a s2; Some (Some b, s3) } })"
    using assms(3,7) g(8) slong_small [OF n0(4)] slong_small [of "buflen h - SIZEOF_BUF"]
    by (cases mode) (simp_all add: buf_reserve_def sz rs(3,4) [unfolded sz One_nat_def] n0_def lead_def r0_def Let_def)
  show ?thesis
  proof (cases "n0 \<le> buflen h - SIZEOF_BUF")
    case True
    then have "reserved mode n a h" using ok rs(1) assms(7)
      by (cases mode) (auto simp: reserved_def n0_def r0_def)
    moreover have "data_frame {a} s s" by (auto simp: data_frame_def)
    ultimately show ?thesis using eq True assms(1,3-5) by auto
  next
    case False
    from buf_alloc_result [OF B assms(2), of n0 lead BUF_NORMAL] obtain r s1 where
      r: "buf_alloc km n0 lead BUF_NORMAL s = Some (r, s1)" and out: "alloc_outcome s (alloc_size n0) (even_up 1 lead) r s1"
      by blast
    show ?thesis
    proof (cases r)
      case None
      then show ?thesis using eq False r out live_data_frame by (auto simp: alloc_outcome_def pool_good_def)
    next
      case (Some b)
      from alloc_copy_deref [OF B assms(2-5) n0(1-3) r [unfolded Some]] obtain s2 s3 hb where
        c: "copy_into b a s1 = Some s2" "buf_deref a s2 = Some s3" "pool_good s3" "data_frame {a} s s3" and
        hb: "bufs s3 b = Some hb" "blinks hb = 1" "data_ok b hb" "b + SIZEOF_BUF + lead \<le> dstart hb"
          "dstart hb + (n0 - lead) \<le> b + buflen hb" "data_of s3 hb = data_of s h" "binfo hb = binfo h" by blast
      have len: "dend hb - dstart hb = dend h - dstart h" "dstart hb \<le> dend hb"
        using arg_cong [OF hb(6), of length] hb(3) by (simp_all add: data_of_def data_ok_def)
      have "reserved mode n b hb" using hb(4,5) len ok rs(1) assms(7)
        by (cases mode) (auto simp: reserved_def n0_def lead_def r0_def)
      with eq False r Some c hb show ?thesis by auto
    qed
  qed
qed

theorem buf_reserve_correct_witness:
  "\<exists>r s'. buf_reserve (\<lambda>_. None) 4096 20 BUF_RESERVE_START sample_pool = Some (r, s') \<and> pool_good s'"
  using buf_reserve_correct [OF sample_pool_good kmalloc_none_ok sample_pool_buf(1) _ sample_data_ok, of 20 BUF_RESERVE_START]
  by (auto simp: sample_pool_buf(2))

end
