(* ===== verification/InetData.thy ===== *)
theory InetData
  imports LinkedList Buf Netif
begin

text \<open>
  The sockets of the Internet protocols: \<^verbatim>\<open>kernel/inetutil.c\<close> (creation, destruction, the
  lists of sockets of a protocol, the lookup of the socket a packet is for) and
  \<^verbatim>\<open>kernel/port.c\<close> (port numbers), over the records of \<^verbatim>\<open>kernel/inet.h\<close>.
\<close>

section \<open>State\<close>

abbreviation IN_ISBOUND :: u16 where "IN_ISBOUND \<equiv> 0x0001"
abbreviation IN_HASPORT :: u16 where "IN_HASPORT \<equiv> 0x0001"
abbreviation IN_ISCONNECTED :: u16 where "IN_ISCONNECTED \<equiv> 0x0002"
abbreviation IN_CHECKSUM :: u16 where "IN_CHECKSUM \<equiv> 0x0020"
abbreviation IN_DONTROUTE :: u16 where "IN_DONTROUTE \<equiv> 0x0040"
abbreviation IN_BROADCAST :: u16 where "IN_BROADCAST \<equiv> 0x0080"
abbreviation IN_LINGER :: u16 where "IN_LINGER \<equiv> 0x0100"
abbreviation IN_DEAD :: u16 where "IN_DEAD \<equiv> 0x0200"
abbreviation IN_DEFAULT_RSPACE :: u32 where "IN_DEFAULT_RSPACE \<equiv> 64240"
abbreviation IN_DEFAULT_WSPACE :: u32 where "IN_DEFAULT_WSPACE \<equiv> 64240"
abbreviation IP_DEFAULT_TTL :: u8 where "IP_DEFAULT_TTL \<equiv> 255"
abbreviation IP_DEFAULT_TOS :: u8 where "IP_DEFAULT_TOS \<equiv> 0"
abbreviation IPPORT_RESERVED :: u16 where "IPPORT_RESERVED \<equiv> 1024"
abbreviation IPPORT_USERRESERVED :: u16 where "IPPORT_USERRESERVED \<equiv> 5000"

definition has_flag :: "u16 \<Rightarrow> u16 \<Rightarrow> bool" where
  "has_flag f x = (f AND x \<noteq> 0)"

text \<open>A data queue: the buffers from \<^verbatim>\<open>qfirst\<close> to \<^verbatim>\<open>qlast\<close>, in order.\<close>

record in_dataq =
  maxdatalen :: u32
  curdatalen :: u32
  lowat :: u32
  hiwat :: u32
  qflags :: u16
  qbufs :: "nat list"

record in_sockadr =
  saddr :: u32
  sport :: u16

record ip_options =
  opri :: u16
  ottl :: u8
  otos :: u8
  hdrincl :: bool

record in_data =
  protonum :: u16
  dproto :: nat
  dnext :: nat
  dopts :: ip_options
  isnd :: in_dataq
  ircv :: in_dataq
  isrc :: in_sockadr
  idst :: in_sockadr
  dflags :: u16
  backlog :: u16
  linger :: u32
  derr :: "errno option"

text \<open>A protocol; \<open>ipnext\<close> is \<^verbatim>\<open>ipops.next\<close>.\<close>

record in_proto =
  pproto :: u16
  pnext :: nat
  ipnext :: nat
  datas :: nat

record inet =
  indatas :: "nat \<rightharpoonup> in_data"
  inprotos :: "nat \<rightharpoonup> in_proto"
  allinetprotos :: nat
  allipprotos :: nat
  lastport :: u16
  ipool :: bufpool

text \<open>
  What the protocols use of the sockets of the socket layer: the state, the two shutdown flags,
  and what sleeping processes and \<^verbatim>\<open>select\<close> are told, for a socket and its listening parent.
\<close>

datatype sockstate = SS_ISUNCONNECTED | SS_ISCONNECTING | SS_ISCONNECTED | SS_ISDISCONNECTING | SS_ISDISCONNECTED

record tsock =
  so_state :: sockstate
  so_cantrcv :: bool
  so_cantsnd :: bool

datatype wake = WakeRsel | WakeWsel | WakeXsel | WakeIO | WakeParent | SendSig

section \<open>Protocols\<close>

definition ip_register :: "nat \<Rightarrow> inet \<Rightarrow> inet option" where
  "ip_register proto st = do {
     p \<leftarrow> inprotos st proto;
     Some (st\<lparr>inprotos := (inprotos st)(proto \<mapsto> p\<lparr>ipnext := allipprotos st\<rparr>), allipprotos := proto\<rparr>)
   }"

definition in_proto_register :: "nat \<Rightarrow> inet \<Rightarrow> inet option" where
  "in_proto_register proto st = do {
     p \<leftarrow> inprotos st proto;
     ip_register proto
       (st\<lparr>inprotos := (inprotos st)(proto \<mapsto> p\<lparr>pnext := allinetprotos st\<rparr>), allinetprotos := proto\<rparr>)
   }"

definition in_proto_lookup :: "u16 \<Rightarrow> inet \<Rightarrow> nat option" where
  "in_proto_lookup protocol st = search pnext (\<lambda>_ p. pproto p = protocol) (inprotos st) (allinetprotos st)"

section \<open>Sockets\<close>

definition zero_queue :: in_dataq where
  "zero_queue = \<lparr>maxdatalen = 0, curdatalen = 0, lowat = 0, hiwat = 0, qflags = 0, qbufs = []\<rparr>"

definition new_data :: in_data where
  "new_data =
     \<lparr>protonum = 0, dproto = 0, dnext = 0,
      dopts = \<lparr>opri = 0, ottl = IP_DEFAULT_TTL, otos = IP_DEFAULT_TOS, hdrincl = False\<rparr>,
      isnd = zero_queue\<lparr>maxdatalen := IN_DEFAULT_WSPACE\<rparr>,
      ircv = zero_queue\<lparr>maxdatalen := IN_DEFAULT_RSPACE\<rparr>,
      isrc = \<lparr>saddr = 0, sport = 0\<rparr>, idst = \<lparr>saddr = 0, sport = 0\<rparr>,
      dflags = IN_BROADCAST OR IN_CHECKSUM, backlog = 0, linger = 0, derr = None\<rparr>"

text \<open>\<open>kmalloc\<close> is the allocator of the system: the address of an unused object, or \<^verbatim>\<open>NULL\<close>.\<close>

definition in_data_create :: "(inet \<Rightarrow> nat option) \<Rightarrow> inet \<Rightarrow> nat \<times> inet" where
  "in_data_create kmalloc st =
     (case kmalloc st of
        None \<Rightarrow> (0, st)
      | Some a \<Rightarrow> (a, st\<lparr>indatas := (indatas st)(a \<mapsto> new_data)\<rparr>))"

primrec deref_all :: "nat list \<Rightarrow> bufpool \<Rightarrow> bufpool option" where
  "deref_all [] s = Some s"
| "deref_all (b # bs) s = do { s' \<leftarrow> buf_deref b s; deref_all bs s' }"

definition in_data_flush :: "nat \<Rightarrow> inet \<Rightarrow> inet option" where
  "in_data_flush data st = do {
     d \<leftarrow> indatas st data;
     s1 \<leftarrow> deref_all (qbufs (ircv d)) (ipool st);
     s2 \<leftarrow> deref_all (qbufs (isnd d)) s1;
     Some (st\<lparr>ipool := s2,
              indatas := (indatas st)(data \<mapsto>
                d\<lparr>ircv := (ircv d)\<lparr>qbufs := [], curdatalen := 0\<rparr>,
                  isnd := (isnd d)\<lparr>qbufs := [], curdatalen := 0\<rparr>\<rparr>)\<rparr>)
   }"

definition in_data_put :: "nat \<Rightarrow> inet \<Rightarrow> inet option" where
  "in_data_put data st = do {
     d \<leftarrow> indatas st data;
     p \<leftarrow> inprotos st (dproto d);
     Some (st\<lparr>indatas := (indatas st)(data \<mapsto> d\<lparr>dnext := datas p\<rparr>),
              inprotos := (inprotos st)(dproto d \<mapsto> p\<lparr>datas := data\<rparr>)\<rparr>)
   }"

text \<open>Unlinking a socket from the list of its protocol.\<close>

definition data_unlink :: "nat \<Rightarrow> in_data \<Rightarrow> in_proto \<Rightarrow> inet \<Rightarrow> inet option" where
  "data_unlink data d p st =
     (if datas p = data
      then Some (st\<lparr>inprotos := (inprotos st)(dproto d \<mapsto> p\<lparr>datas := dnext d\<rparr>)\<rparr>)
      else do {
        e \<leftarrow> search dnext (\<lambda>_ h. dnext h = data) (indatas st) (datas p);
        if e \<noteq> 0 then do {
          h \<leftarrow> indatas st e;
          Some (st\<lparr>indatas := (indatas st)(e \<mapsto> h\<lparr>dnext := dnext d\<rparr>)\<rparr>)
        } else Some st
      })"

definition in_data_remove :: "nat \<Rightarrow> inet \<Rightarrow> inet option" where
  "in_data_remove data st = do {
     d \<leftarrow> indatas st data;
     p \<leftarrow> inprotos st (dproto d);
     st1 \<leftarrow> data_unlink data d p st;
     d1 \<leftarrow> indatas st1 data;
     Some (st1\<lparr>indatas := (indatas st1)(data \<mapsto> d1\<lparr>dnext := 0\<rparr>)\<rparr>)
   }"

definition in_data_find :: "u16 \<Rightarrow> nat \<Rightarrow> inet \<Rightarrow> bool option" where
  "in_data_find proto data st = do {
     a \<leftarrow> in_proto_lookup proto st;
     if a = 0 then Some False
     else do {
       p \<leftarrow> inprotos st a;
       d \<leftarrow> search dnext (\<lambda>x _. x = data) (indatas st) (datas p);
       Some (d \<noteq> 0)
     }
   }"

text \<open>
  The wait of \<^verbatim>\<open>in_data_destroy\<close> for the send queue. \<open>sleep_io\<close> is the scheduler of the system:
  what the rest of the machine does to the state until the process runs again, and
  whether a signal woke it. The result tells that the call gives up with \<^verbatim>\<open>EINTR\<close>.
\<close>

partial_function (option) linger_wait ::
  "(inet \<Rightarrow> bool \<times> inet) \<Rightarrow> u16 \<Rightarrow> nat \<Rightarrow> inet \<Rightarrow> (bool \<times> inet) option" where
  "linger_wait sleep_io proto data st =
     (case indatas st data of
        None \<Rightarrow> None
      | Some d \<Rightarrow>
          if sint (curdatalen (isnd d)) > 0 then
            (let (interrupted, st1) = sleep_io st
             in if interrupted
                then (case in_data_find proto data st1 of
                        None \<Rightarrow> None
                      | Some found \<Rightarrow> if \<not> found then Some (True, st1) else linger_wait sleep_io proto data st1)
                else linger_wait sleep_io proto data st1)
          else Some (False, st))"

definition in_data_destroy :: "(inet \<Rightarrow> bool \<times> inet) \<Rightarrow> nat \<Rightarrow> bool \<Rightarrow> inet \<Rightarrow> ((errno + unit) \<times> inet) option" where
  "in_data_destroy sleep_io data wait st =
     (if data = 0 then Some (Inr (), st)
      else do {
        d \<leftarrow> indatas st data;
        (gone, st1) \<leftarrow> (if wait \<and> has_flag (dflags d) IN_LINGER
                         then linger_wait sleep_io (protonum d) data st else Some (False, st));
        if gone then Some (Inl EINTR, st1)
        else do {
          d1 \<leftarrow> indatas st1 data;
          st2 \<leftarrow> (if dproto d1 \<noteq> 0 then in_data_remove data st1 else Some st1);
          st3 \<leftarrow> in_data_flush data st2;
          Some (Inr (), st3\<lparr>indatas := (indatas st3)(data := None)\<rparr>)
        }
      })"

section \<open>The socket of a packet\<close>

definition local_match :: "u32 \<Rightarrow> u16 \<Rightarrow> in_data \<Rightarrow> bool" where
  "local_match dstaddr dstport d \<longleftrightarrow>
     has_flag (dflags d) IN_ISBOUND \<and> sport (isrc d) = dstport \<and> ip_same_addr (saddr (isrc d)) dstaddr"

definition peer_match :: "u32 \<Rightarrow> u16 \<Rightarrow> in_data \<Rightarrow> bool" where
  "peer_match srcaddr srcport d \<longleftrightarrow> sport (idst d) = srcport \<and> ip_same_addr srcaddr (saddr (idst d))"

partial_function (option) lookup_loop ::
  "(nat \<rightharpoonup> in_data) \<Rightarrow> u32 \<Rightarrow> u16 \<Rightarrow> u32 \<Rightarrow> u16 \<Rightarrow> nat \<Rightarrow> nat \<Rightarrow> nat \<Rightarrow> nat option" where
  "lookup_loop m srcaddr srcport dstaddr dstport deflt dead d =
     (if d = 0 then Some (if deflt \<noteq> 0 then deflt else dead)
      else (case m d of
        None \<Rightarrow> None
      | Some h \<Rightarrow>
          if local_match dstaddr dstport h then
            if has_flag (dflags h) IN_ISCONNECTED then
              if peer_match srcaddr srcport h then
                if \<not> has_flag (dflags h) IN_DEAD then Some d
                else lookup_loop m srcaddr srcport dstaddr dstport deflt d (dnext h)
              else lookup_loop m srcaddr srcport dstaddr dstport deflt dead (dnext h)
            else if deflt = 0 then lookup_loop m srcaddr srcport dstaddr dstport d dead (dnext h)
            else (case m deflt of
                None \<Rightarrow> None
              | Some hx \<Rightarrow> lookup_loop m srcaddr srcport dstaddr dstport
                  (if saddr (isrc hx) = INADDR_ANY then d else deflt) dead (dnext h))
          else lookup_loop m srcaddr srcport dstaddr dstport deflt dead (dnext h)))"

definition in_data_lookup :: "nat \<Rightarrow> u32 \<Rightarrow> u16 \<Rightarrow> u32 \<Rightarrow> u16 \<Rightarrow> inet \<Rightarrow> nat option" where
  "in_data_lookup ds srcaddr srcport dstaddr dstport st =
     lookup_loop (indatas st) srcaddr srcport dstaddr dstport 0 0 ds"

definition in_data_lookup_next :: "nat \<Rightarrow> u32 \<Rightarrow> u16 \<Rightarrow> u32 \<Rightarrow> u16 \<Rightarrow> bool \<Rightarrow> inet \<Rightarrow> nat option" where
  "in_data_lookup_next ds srcaddr srcport dstaddr dstport wildcard st =
     search dnext (\<lambda>_ d. local_match dstaddr dstport d \<and>
       (if has_flag (dflags d) IN_ISCONNECTED then peer_match srcaddr srcport d else wildcard)) (indatas st) ds"

section \<open>Port numbers\<close>

definition sock_datas :: "nat \<Rightarrow> inet \<Rightarrow> nat option" where
  "sock_datas sock st = do { d \<leftarrow> indatas st sock; p \<leftarrow> inprotos st (dproto d); Some (datas p) }"

definition port_inuse :: "nat \<Rightarrow> u16 \<Rightarrow> inet \<Rightarrow> bool option" where
  "port_inuse sock port st = do {
     ds \<leftarrow> sock_datas sock st;
     x \<leftarrow> search dnext (\<lambda>_ d. has_flag (dflags d) IN_HASPORT \<and> sport (isrc d) = port) (indatas st) ds;
     Some (x \<noteq> 0)
   }"

definition port_find :: "nat \<Rightarrow> u16 \<Rightarrow> inet \<Rightarrow> nat option" where
  "port_find sock port st = do {
     ds \<leftarrow> sock_datas sock st;
     search dnext (\<lambda>_ d. has_flag (dflags d) IN_ISBOUND \<and> sport (isrc d) = port) (indatas st) ds
   }"

definition port_find_with_addr :: "nat \<Rightarrow> u16 \<Rightarrow> u32 \<Rightarrow> inet \<Rightarrow> nat option" where
  "port_find_with_addr sock port addr st = do {
     ds \<leftarrow> sock_datas sock st;
     search dnext (\<lambda>_ d. has_flag (dflags d) IN_ISBOUND \<and> sport (isrc d) = port \<and> saddr (isrc d) = addr) (indatas st) ds
   }"

text \<open>The loop of \<^verbatim>\<open>port_alloc\<close>; the body runs at least once.\<close>

definition next_port :: "u16 \<Rightarrow> u16" where
  "next_port port = (if port + 1 > IPPORT_USERRESERVED then IPPORT_RESERVED else port + 1)"

partial_function (option) port_loop :: "(nat \<rightharpoonup> in_data) \<Rightarrow> nat \<Rightarrow> u16 \<Rightarrow> u16 option" where
  "port_loop m ds port =
     (case search dnext (\<lambda>_ d. has_flag (dflags d) IN_HASPORT \<and> sport (isrc d) = next_port port) m ds of
        None \<Rightarrow> None
      | Some x \<Rightarrow> if x \<noteq> 0 then port_loop m ds (next_port port) else Some (next_port port))"

definition port_alloc :: "nat \<Rightarrow> inet \<Rightarrow> (u16 \<times> inet) option" where
  "port_alloc sock st = do {
     ds \<leftarrow> sock_datas sock st;
     port \<leftarrow> port_loop (indatas st) ds (lastport st);
     Some (port, st\<lparr>lastport := port\<rparr>)
   }"

section \<open>Sockets as lists\<close>

interpretation sockl: intrusive_list dnext "\<lambda>n d. d\<lparr>dnext := n\<rparr>"
  by unfold_locales simp

interpretation protol: intrusive_list pnext "\<lambda>n p. p\<lparr>pnext := n\<rparr>"
  by unfold_locales simp

interpretation ipl: intrusive_list ipnext "\<lambda>n p. p\<lparr>ipnext := n\<rparr>"
  by unfold_locales simp

text \<open>\<open>socks st p xs\<close>: the protocol at \<open>p\<close> has the sockets \<open>xs\<close>.\<close>

definition socks :: "inet \<Rightarrow> nat \<Rightarrow> nat list \<Rightarrow> bool" where
  "socks st p xs \<longleftrightarrow> (\<exists>q. inprotos st p = Some q \<and> chain dnext (indatas st) (datas q) xs)"

lemma socks_frame:
  assumes "socks st q ys" and "inprotos st' q = inprotos st q"
    and "\<And>x. x \<in> set ys \<Longrightarrow> indatas st' x = indatas st x"
  shows "socks st' q ys"
  using assms by (auto simp: socks_def chain_frame [of ys dnext "indatas st'" "indatas st"])

lemma in_data_put_list:
  assumes "socks st p xs" and "indatas st a = Some d" and "dproto d = p" and "a \<noteq> 0" and "a \<notin> set xs"
  shows "\<exists>st'. in_data_put a st = Some st' \<and> socks st' p (a # xs) \<and> indatas st' a \<noteq> None \<and>
    (\<forall>q ys. q \<noteq> p \<longrightarrow> socks st q ys \<longrightarrow> a \<notin> set ys \<longrightarrow> socks st' q ys)"
proof -
  from assms(1) obtain q where q: "inprotos st p = Some q" "chain dnext (indatas st) (datas q) xs" by (auto simp: socks_def)
  let ?st = "st\<lparr>indatas := (indatas st)(a \<mapsto> d\<lparr>dnext := datas q\<rparr>), inprotos := (inprotos st)(p \<mapsto> q\<lparr>datas := a\<rparr>)\<rparr>"
  have "socks ?st p (a # xs)" using sockl.push_front [OF q(2) assms(2,4,5)] by (simp add: socks_def)
  moreover have "in_data_put a st = Some ?st" using assms(2,3) q(1) by (simp add: in_data_put_def)
  moreover have "socks ?st r ys" if "r \<noteq> p" "socks st r ys" "a \<notin> set ys" for r ys
    using that(2) by (rule socks_frame) (use that in auto)
  ultimately show ?thesis by auto
qed

text \<open>The state after the unlinking step of \<^verbatim>\<open>in_data_remove\<close>.\<close>

lemma data_unlink_list:
  assumes q: "inprotos st p = Some q" "chain dnext (indatas st) (datas q) xs"
    and a: "indatas st a = Some d" "dproto d = p" "a \<noteq> 0"
  shows "\<exists>st1. data_unlink a d q st = Some st1 \<and> socks st1 p (remove1 a xs) \<and> indatas st1 a = Some d \<and> ipool st1 = ipool st \<and>
          (\<forall>x. x \<notin> set xs \<longrightarrow> indatas st1 x = indatas st x) \<and> (\<forall>r. r \<noteq> p \<longrightarrow> inprotos st1 r = inprotos st r)"
proof (cases "datas q = a")
  case True
  then obtain ys where xs: "xs = a # ys" "chain dnext (indatas st) (dnext d) ys"
    using q(2) a by (cases xs) auto
  then show ?thesis using True a by (simp add: socks_def data_unlink_def)
next
  case False
  note pre = sockl.predecessor [OF q(2) False a(3)]
  show ?thesis
  proof (cases "a \<in> set xs")
    case True
    with pre obtain us e vs where e: "xs = us @ e # a # vs"
      "search dnext (\<lambda>_ h. dnext h = a) (indatas st) (datas q) = Some e" by auto
    with chain_split [of dnext "indatas st" "datas q" us e "a # vs"] q(2) obtain h where h: "indatas st e = Some h" "e \<noteq> 0"
      by auto
    have d: "e \<noteq> a" "a \<notin> set us" using chain_distinct [OF q(2)] e(1) by auto
    let ?st = "st\<lparr>indatas := (indatas st)(e \<mapsto> h\<lparr>dnext := dnext d\<rparr>)\<rparr>"
    have "socks ?st p (us @ e # vs)"
      using sockl.unlink_behind [OF q(2) [unfolded e(1)] h(1) a(1)] q(1) by (simp add: socks_def)
    moreover have "remove1 a xs = us @ e # vs" using e(1) d by (simp add: remove1_append)
    ultimately show ?thesis using False e h a d by (auto simp: data_unlink_def)
  qed (use pre False a q in \<open>simp add: socks_def remove1_idem data_unlink_def\<close>)
qed

lemma in_data_remove_list:
  assumes "socks st p xs" and a: "indatas st a = Some d" "dproto d = p" "a \<noteq> 0"
  shows "\<exists>st'. in_data_remove a st = Some st' \<and> socks st' p (remove1 a xs) \<and>
    indatas st' a = Some (d\<lparr>dnext := 0\<rparr>) \<and> ipool st' = ipool st \<and>
    (\<forall>q ys. q \<noteq> p \<longrightarrow> socks st q ys \<longrightarrow> set ys \<inter> insert a (set xs) = {} \<longrightarrow> socks st' q ys)"
proof -
  from assms(1) obtain q where q: "inprotos st p = Some q" "chain dnext (indatas st) (datas q) xs" by (auto simp: socks_def)
  from data_unlink_list [OF q a] obtain st1 where
    st1: "data_unlink a d q st = Some st1" "socks st1 p (remove1 a xs)" "indatas st1 a = Some d" "ipool st1 = ipool st"
      "\<forall>x. x \<notin> set xs \<longrightarrow> indatas st1 x = indatas st x" "\<forall>r. r \<noteq> p \<longrightarrow> inprotos st1 r = inprotos st r" by blast
  let ?st = "st1\<lparr>indatas := (indatas st1)(a \<mapsto> d\<lparr>dnext := 0\<rparr>)\<rparr>"
  have "a \<notin> set (remove1 a xs)" using chain_distinct [OF q(2)] by (simp add: distinct_remove1)
  then have "socks ?st p (remove1 a xs)" by (intro socks_frame [OF st1(2)]) auto
  moreover have "in_data_remove a st = Some ?st"
    unfolding in_data_remove_def using a q(1) st1(3) by (simp add: st1(1))
  moreover have "socks ?st r ys" if "r \<noteq> p" "socks st r ys" "set ys \<inter> insert a (set xs) = {}" for r ys
    using that(2) by (rule socks_frame) (use that st1(5,6) in auto)
  ultimately show ?thesis using st1(4) by auto
qed

lemma in_data_find_list:
  assumes "chain pnext (inprotos st) (allinetprotos st) ps" and "socks st p xs"
    and "find (\<lambda>x. pproto (the (inprotos st x)) = proto) ps = Some p"
  shows "in_data_find proto a st = Some (a \<in> set xs)"
proof -
  from assms(2) obtain q where q: "inprotos st p = Some q" "chain dnext (indatas st) (datas q) xs" by (auto simp: socks_def)
  have "in_proto_lookup proto st = Some p" using search_chain [OF assms(1)] assms(3) by (simp add: in_proto_lookup_def)
  moreover have "p \<noteq> 0" using find_SomeD [OF assms(3)] chain_nonzero [OF assms(1)] by metis
  ultimately show ?thesis
    using q(1) search_member [OF q(2), of a] chain_nonzero [OF q(2)]
    by (cases "a = 0") (simp_all add: in_data_find_def)
qed

lemma in_proto_register_list:
  assumes "chain pnext (inprotos st) (allinetprotos st) ps" and "chain ipnext (inprotos st) (allipprotos st) is"
    and "inprotos st p = Some q" and "p \<noteq> 0" and "p \<notin> set ps" and "p \<notin> set is"
  shows "\<exists>st'. in_proto_register p st = Some st' \<and> indatas st' = indatas st \<and>
    chain pnext (inprotos st') (allinetprotos st') (p # ps) \<and> chain ipnext (inprotos st') (allipprotos st') (p # is)"
proof -
  let ?m1 = "(inprotos st)(p \<mapsto> q\<lparr>pnext := allinetprotos st\<rparr>)"
  let ?m2 = "?m1(p \<mapsto> q\<lparr>pnext := allinetprotos st, ipnext := allipprotos st\<rparr>)"
  have "chain ipnext ?m1 (allipprotos st) is" by (rule ipl.clear_link [OF assms(2,6)])
  from ipl.push_front [OF this _ assms(4,6)] have "chain ipnext ?m2 p (p # is)" by simp
  moreover have "chain pnext ?m2 p (p # ps)"
    using protol.push_front [OF assms(1,3,4,5)] by (subst chain_frame [of "p # ps" pnext _ ?m1]) auto
  ultimately show ?thesis using assms(3) by (simp add: in_proto_register_def ip_register_def)
qed

section \<open>The lookup\<close>

text \<open>What the lookup promises, over the list of the sockets.\<close>

definition lookup_spec :: "(nat \<Rightarrow> in_data) \<Rightarrow> u32 \<Rightarrow> u16 \<Rightarrow> u32 \<Rightarrow> u16 \<Rightarrow> nat list \<Rightarrow> nat option" where
  "lookup_spec d srcaddr srcport dstaddr dstport xs =
     (let bound = filter (\<lambda>x. local_match dstaddr dstport (d x)) xs;
          peers = filter (\<lambda>x. has_flag (dflags (d x)) IN_ISCONNECTED \<and> peer_match srcaddr srcport (d x)) bound;
          open = filter (\<lambda>x. \<not> has_flag (dflags (d x)) IN_ISCONNECTED) bound
      in case find (\<lambda>x. \<not> has_flag (dflags (d x)) IN_DEAD) peers of
           Some x \<Rightarrow> Some x
         | None \<Rightarrow>
             (case find (\<lambda>x. saddr (isrc (d x)) \<noteq> INADDR_ANY) open of
                Some x \<Rightarrow> Some x
              | None \<Rightarrow> if open \<noteq> [] then Some (last open) else if peers \<noteq> [] then Some (last peers) else None))"

lemma lookup_loop_0 [simp]:
  "lookup_loop m srcaddr srcport dstaddr dstport deflt dead 0 = Some (if deflt \<noteq> 0 then deflt else dead)"
  by (subst lookup_loop.simps) simp

lemma lookup_loop_step:
  "d \<noteq> 0 \<Longrightarrow> m d = Some h \<Longrightarrow> deflt = 0 \<or> m deflt = Some hx \<Longrightarrow>
   lookup_loop m srcaddr srcport dstaddr dstport deflt dead d =
     (if local_match dstaddr dstport h \<and> has_flag (dflags h) IN_ISCONNECTED \<and> peer_match srcaddr srcport h
      then if has_flag (dflags h) IN_DEAD
           then lookup_loop m srcaddr srcport dstaddr dstport deflt d (dnext h) else Some d
      else lookup_loop m srcaddr srcport dstaddr dstport
        (if local_match dstaddr dstport h \<and> \<not> has_flag (dflags h) IN_ISCONNECTED \<and>
            (deflt = 0 \<or> saddr (isrc hx) = INADDR_ANY) then d else deflt) dead (dnext h))"
  by (subst lookup_loop.simps) auto

lemma lookup_loop_list:
  assumes "chain dnext m p xs" and "deflt = 0 \<or> (\<exists>hx. m deflt = Some hx)"
  shows "lookup_loop m srcaddr srcport dstaddr dstport deflt dead p =
    (let bound = filter (\<lambda>x. local_match dstaddr dstport (the (m x))) xs;
         peers = filter (\<lambda>x. has_flag (dflags (the (m x))) IN_ISCONNECTED \<and> peer_match srcaddr srcport (the (m x))) bound;
         open = filter (\<lambda>x. \<not> has_flag (dflags (the (m x))) IN_ISCONNECTED) bound
     in case find (\<lambda>x. \<not> has_flag (dflags (the (m x))) IN_DEAD) peers of
          Some x \<Rightarrow> Some x
        | None \<Rightarrow>
            if deflt \<noteq> 0 \<and> saddr (isrc (the (m deflt))) \<noteq> INADDR_ANY then Some deflt
            else (case find (\<lambda>x. saddr (isrc (the (m x))) \<noteq> INADDR_ANY) open of
                Some x \<Rightarrow> Some x
              | None \<Rightarrow> if open \<noteq> [] then Some (last open) else if deflt \<noteq> 0 then Some deflt
                  else Some (if peers \<noteq> [] then last peers else dead)))"
  using assms
proof (induction xs arbitrary: p deflt dead)
  case (Cons x xs)
  then obtain h where h: "p = x" "x \<noteq> 0" "m x = Some h" "chain dnext m (dnext h) xs" by (auto split: option.splits)
  obtain hx where hx: "deflt = 0 \<or> m deflt = Some hx" using Cons.prems(2) by auto
  note step = lookup_loop_step [where m = m, OF h(2,3) hx, of srcaddr srcport dstaddr dstport dead]
  note IH = Cons.IH [OF h(4)]
  show ?case
  proof (cases "local_match dstaddr dstport h")
    case False
    then show ?thesis using IH [of deflt dead] Cons.prems(2) h step by simp
  next
    case bound: True
    show ?thesis
    proof (cases "has_flag (dflags h) IN_ISCONNECTED")
      case conn: True
      show ?thesis
      proof (cases "peer_match srcaddr srcport h")
        case False
        then show ?thesis using IH [of deflt dead] Cons.prems(2) h step bound conn by simp
      next
        case True
        then show ?thesis using IH [of deflt x] Cons.prems(2) h step bound conn
          by (simp add: Let_def split: option.split)
      qed
    next
      case False
      then show ?thesis using IH [of x dead] IH [of deflt dead] Cons.prems(2) h hx step bound
        by (cases "deflt = 0 \<or> saddr (isrc hx) = INADDR_ANY") (auto simp: Let_def split: option.split)
    qed
  qed
qed simp

lemma in_data_lookup_list:
  assumes "chain dnext (indatas st) ds xs"
  shows "in_data_lookup ds srcaddr srcport dstaddr dstport st =
    Some (case lookup_spec (\<lambda>x. the (indatas st x)) srcaddr srcport dstaddr dstport xs of None \<Rightarrow> 0 | Some x \<Rightarrow> x)"
  using lookup_loop_list [OF assms, of 0 srcaddr srcport dstaddr dstport 0]
  by (simp add: in_data_lookup_def lookup_spec_def Let_def split: option.split)

lemma lookup_spec_member: "lookup_spec d srcaddr srcport dstaddr dstport xs = Some x \<Longrightarrow> x \<in> set xs"
  by (auto simp: lookup_spec_def Let_def split: option.splits if_splits dest!: find_SomeD dest: last_in_set list.set_sel(1))

text \<open>
  C29: \<^verbatim>\<open>in_data_lookup\<close> finds the socket a packet is for. Among the sockets bound to the
  destination it returns the first connected to the sender that is not dead; if there is
  none, the first unconnected one with an address of its own, else the last unconnected
  one with the wildcard address; else the last dead one connected to the sender; and
  \<^verbatim>\<open>NULL\<close> when no socket matches. It returns for every list of sockets.
\<close>
theorem in_data_lookup_finds:
  assumes "chain dnext (indatas st) ds xs"
  shows "in_data_lookup ds srcaddr srcport dstaddr dstport st =
    Some (case lookup_spec (\<lambda>x. the (indatas st x)) srcaddr srcport dstaddr dstport xs of None \<Rightarrow> 0 | Some x \<Rightarrow> x)"
  by (rule in_data_lookup_list [OF assms])

definition sample_sock :: "u32 \<Rightarrow> u16 \<Rightarrow> nat \<Rightarrow> in_data" where
  "sample_sock addr port nx = new_data\<lparr>dproto := 1, dnext := nx, dflags := IN_ISBOUND, isrc := \<lparr>saddr = addr, sport = port\<rparr>\<rparr>"

definition sample_inet :: inet where
  "sample_inet = \<lparr>indatas = [8 \<mapsto> sample_sock 0 1024 9, 9 \<mapsto> sample_sock 0xc0a80001 1024 0],
     inprotos = [1 \<mapsto> \<lparr>pproto = 17, pnext = 0, ipnext = 0, datas = 8\<rparr>],
     allinetprotos = 1, allipprotos = 1, lastport = 1023, ipool = sample_pool\<rparr>"

lemma sample_chain: "chain dnext (indatas sample_inet) 8 [8, 9]"
  by (simp add: sample_inet_def sample_sock_def)

theorem in_data_lookup_finds_witness:
  "in_data_lookup 8 0xc0a80002 53 0xc0a80001 1024 sample_inet = Some 9"
  using in_data_lookup_finds [OF sample_chain, of "0xc0a80002" 53 "0xc0a80001" 1024]
  by (simp add: lookup_spec_def sample_inet_def sample_sock_def new_data_def local_match_def has_flag_def ip_same_addr_def)

text \<open>
  C30: The list of the sockets of a protocol, linked through the sockets, is the list it
  stands for: \<^verbatim>\<open>in_data_put\<close> puts a socket in front, \<^verbatim>\<open>in_data_remove\<close> takes it out wherever
  it is, and is without effect on the list when it is not there; the lists of the other
  protocols stay. \<^verbatim>\<open>in_data_find\<close> tells exactly whether a socket is on the list.
\<close>
theorem in_data_list_refines:
  assumes "socks st p xs" and "indatas st a = Some d" and "dproto d = p" and "a \<noteq> 0"
  shows "(a \<notin> set xs \<longrightarrow> (\<exists>st'. in_data_put a st = Some st' \<and> socks st' p (a # xs) \<and>
        (\<forall>q ys. q \<noteq> p \<longrightarrow> socks st q ys \<longrightarrow> a \<notin> set ys \<longrightarrow> socks st' q ys))) \<and>
    (\<exists>st'. in_data_remove a st = Some st' \<and> socks st' p (remove1 a xs) \<and>
        (\<forall>q ys. q \<noteq> p \<longrightarrow> socks st q ys \<longrightarrow> set ys \<inter> insert a (set xs) = {} \<longrightarrow> socks st' q ys)) \<and>
    (\<forall>ps proto b. chain pnext (inprotos st) (allinetprotos st) ps \<longrightarrow>
        find (\<lambda>x. pproto (the (inprotos st x)) = proto) ps = Some p \<longrightarrow> in_data_find proto b st = Some (b \<in> set xs))"
  using in_data_put_list [OF assms] in_data_remove_list [OF assms] in_data_find_list [OF _ assms(1)] by blast

lemma sample_socks: "socks sample_inet 1 [8, 9]"
  using sample_chain by (simp add: socks_def) (simp add: sample_inet_def)

theorem in_data_list_refines_witness:
  "\<exists>st'. in_data_remove 9 sample_inet = Some st' \<and> socks st' 1 [8]"
  using in_data_list_refines [OF sample_socks, of 9 "sample_sock 0xc0a80001 1024 0"]
  by (auto simp: sample_inet_def sample_sock_def new_data_def)

section \<open>Ports\<close>

definition port_free :: "(nat \<rightharpoonup> in_data) \<Rightarrow> nat list \<Rightarrow> u16 \<Rightarrow> bool" where
  "port_free m xs port \<longleftrightarrow> (\<forall>x \<in> set xs. \<not> (has_flag (dflags (the (m x))) IN_HASPORT \<and> sport (isrc (the (m x))) = port))"

lemma search_port:
  assumes "chain dnext m ds xs"
  shows "\<exists>x. search dnext (\<lambda>_ d. has_flag (dflags d) IN_HASPORT \<and> sport (isrc d) = port) m ds = Some x \<and>
    (x = 0 \<longleftrightarrow> port_free m xs port)"
proof -
  let ?P = "\<lambda>x. has_flag (dflags (the (m x))) IN_HASPORT \<and> sport (isrc (the (m x))) = port"
  show ?thesis
  proof (cases "find ?P xs")
    case None
    then have "port_free m xs port" by (auto simp: find_None_iff port_free_def)
    then show ?thesis using search_chain [OF assms] None by simp
  next
    case (Some x)
    from find_SomeD [OF this] have "x \<in> set xs" "?P x" by auto
    then have "\<not> port_free m xs port" by (auto simp: port_free_def)
    moreover from \<open>x \<in> set xs\<close> have "x \<noteq> 0" using chain_nonzero [OF assms] by metis
    ultimately
    show ?thesis using search_chain [OF assms] Some by simp
  qed
qed

lemma port_loop_step:
  assumes "chain dnext m ds xs"
  shows "port_loop m ds port =
    (if port_free m xs (next_port port) then Some (next_port port) else port_loop m ds (next_port port))"
proof -
  from search_port [OF assms, of "next_port port"] obtain x where
    "search dnext (\<lambda>_ d. has_flag (dflags d) IN_HASPORT \<and> sport (isrc d) = next_port port) m ds = Some x"
    "x = 0 \<longleftrightarrow> port_free m xs (next_port port)" by blast
  then show ?thesis by (subst port_loop.simps) simp
qed

lemma next_port_nat:
  assumes "1023 \<le> unat port" and "unat port \<le> 5000"
  shows "unat (next_port port) = (if unat port = 5000 then 1024 else unat port + 1)"
proof -
  have "unat (port + 1) = unat port + 1" using assms(2) by (simp add: unat_word_ariths)
  then show ?thesis using assms(2) by (auto simp: next_port_def word_less_nat_alt)
qed

lemma next_port_range:
  "1023 \<le> unat port \<Longrightarrow> unat port \<le> 5000 \<Longrightarrow> 1024 \<le> unat (next_port port) \<and> unat (next_port port) \<le> 5000"
  by (auto simp: next_port_nat)

text \<open>The steps to a port: up to it, or up to the end of the range and again from its start.\<close>

definition port_steps :: "u16 \<Rightarrow> u16 \<Rightarrow> nat" where
  "port_steps port f = (if unat port < unat f then unat f - unat port else unat f + 3977 - unat port)"

lemma port_loop_free:
  assumes c: "chain dnext m ds xs" and f: "port_free m xs f" "1024 \<le> unat f" "unat f \<le> 5000"
  shows "1023 \<le> unat port \<Longrightarrow> unat port \<le> 5000 \<Longrightarrow>
    \<exists>r. port_loop m ds port = Some r \<and> port_free m xs r \<and> 1024 \<le> unat r \<and> unat r \<le> 5000"
proof (induction "port_steps port f" arbitrary: port rule: less_induct)
  case less
  note range = next_port_range [OF less.prems] and nat = next_port_nat [OF less.prems]
  show ?case
  proof (cases "port_free m xs (next_port port)")
    case False
    with f(1) have ne: "unat (next_port port) \<noteq> unat f" using word_unat_eq_iff by metis
    then have "port_steps (next_port port) f < port_steps port f"
      using nat f(2,3) less.prems by (auto simp: port_steps_def split: if_splits)
    from less.hyps [OF this] range False show ?thesis by (subst port_loop_step [OF c]) auto
  qed (use range in \<open>simp add: port_loop_step [OF c]\<close>)
qed

text \<open>
  C31: \<^verbatim>\<open>port_alloc\<close> returns whenever one of the ports from 1024 to 5000 is unused, however
  the used ones are spread; the port it returns is in that range, and no socket of the
  protocol has it. The next call goes on behind it.
\<close>
theorem port_alloc_finds:
  assumes "indatas st sock = Some d" and "socks st (dproto d) xs"
    and "IPPORT_RESERVED - 1 \<le> lastport st" and "lastport st \<le> IPPORT_USERRESERVED"
    and "\<exists>f. IPPORT_RESERVED \<le> f \<and> f \<le> IPPORT_USERRESERVED \<and> port_free (indatas st) xs f"
  shows "\<exists>port. port_alloc sock st = Some (port, st\<lparr>lastport := port\<rparr>) \<and>
    IPPORT_RESERVED \<le> port \<and> port \<le> IPPORT_USERRESERVED \<and> port_free (indatas st) xs port \<and>
    port_inuse sock port st = Some False"
proof -
  from assms(2) obtain q where q: "inprotos st (dproto d) = Some q" "chain dnext (indatas st) (datas q) xs"
    by (auto simp: socks_def)
  from assms(5) obtain f where "port_free (indatas st) xs f" "1024 \<le> unat f" "unat f \<le> 5000"
    by (auto simp: word_le_nat_alt)
  from port_loop_free [OF q(2) this, of "lastport st"] assms(3,4) obtain r where
    r: "port_loop (indatas st) (datas q) (lastport st) = Some r" "port_free (indatas st) xs r" "1024 \<le> unat r" "unat r \<le> 5000"
    by (auto simp: word_le_nat_alt)
  moreover have "port_inuse sock r st = Some False"
    using search_port [OF q(2), of r] r(2) assms(1) q(1) by (auto simp: port_inuse_def sock_datas_def)
  ultimately show ?thesis using assms(1) q(1) by (simp add: port_alloc_def sock_datas_def word_le_nat_alt)
qed

theorem port_alloc_finds_witness:
  "\<exists>port. port_alloc 8 sample_inet = Some (port, sample_inet\<lparr>lastport := port\<rparr>) \<and> port \<noteq> 1024"
proof -
  have free: "port_free (indatas sample_inet) [8, 9] 1025"
    by (simp add: port_free_def sample_inet_def sample_sock_def)
  have "indatas sample_inet 8 = Some (sample_sock 0 1024 9)" by (simp add: sample_inet_def)
  moreover have "socks sample_inet (dproto (sample_sock 0 1024 9)) [8, 9]"
    using sample_socks by (simp add: sample_sock_def)
  moreover have "IPPORT_RESERVED - 1 \<le> lastport sample_inet" "lastport sample_inet \<le> IPPORT_USERRESERVED"
    by (simp_all add: sample_inet_def)
  moreover have "\<exists>f. IPPORT_RESERVED \<le> f \<and> f \<le> IPPORT_USERRESERVED \<and> port_free (indatas sample_inet) [8, 9] f"
    using free by (intro exI [of _ 1025]) simp
  ultimately obtain port where p: "port_alloc 8 sample_inet = Some (port, sample_inet\<lparr>lastport := port\<rparr>)"
    "port_free (indatas sample_inet) [8, 9] port" using port_alloc_finds by blast
  then have "port \<noteq> 1024" by (auto simp: port_free_def sample_inet_def sample_sock_def has_flag_def)
  with p(1) show ?thesis by blast
qed

section \<open>Destruction\<close>

text \<open>No buffer comes to be in use when one is given back.\<close>

lemma free_unlink_live: "free_unlink a s = Some s' \<Longrightarrow> is_live s' x = is_live s x"
  by (auto simp: free_unlink_def is_live_def split: if_splits)

lemma set_p_live: "set_p a y s = Some s' \<Longrightarrow> is_live s' x = is_live s x"
  by (auto simp: set_p_def is_live_def split: bind_splits if_splits)

lemma opt_set_p_live: "(if c then set_p a y s else Some s) = Some s' \<Longrightarrow> is_live s' x = is_live s x"
  by (auto simp: set_p_live split: if_splits)

lemma merge_prev_live:
  assumes "merge_prev a s = Some (c, s')" and "is_live s' x"
  shows "is_live s x"
proof -
  from assms(1) obtain h where h: "bufs s a = Some h" by (auto simp: merge_prev_def split: bind_splits)
  show ?thesis
  proof (cases "s' = s")
    case False
    then obtain hp s1 s2 where s: "free_unlink (bp h) s = Some s1" "bufs s (bp h) = Some hp" "blinks hp = 0"
      "(if bn h \<noteq> 0 then set_p (bn h) (bp h) s1 else Some s1) = Some s2"
      "s' = s2\<lparr>bufs := (bufs s2)(bp h \<mapsto> hp\<lparr>bn := bn h, buflen := add32 (buflen hp) (buflen h)\<rparr>, a := None)\<rparr>"
      using assms(1) h by (auto simp: merge_prev_def split: bind_splits if_splits)
    from assms(2) s(3,5) have "is_live s2 x" by (auto simp: is_live_def split: if_splits)
    with free_unlink_live [OF s(1)] opt_set_p_live [OF s(4)] show ?thesis by simp
  qed (use assms(2) in simp)
qed

lemma merge_next_live:
  assumes "merge_next a s = Some s'" and "is_live s' x"
  shows "is_live s x"
proof -
  from assms(1) obtain h where h: "bufs s a = Some h" by (auto simp: merge_next_def split: bind_splits)
  show ?thesis
  proof (cases "bn h = 0 \<or> (\<exists>hn. bufs s (bn h) = Some hn \<and> blinks hn \<noteq> 0)")
    case True
    then have "s' = s" using assms(1) h by (auto simp: merge_next_def split: if_splits)
    with assms(2) show ?thesis by simp
  next
    case False
    with assms(1) h obtain hn s1 where n: "bufs s (bn h) = Some hn" "free_unlink (bn h) s = Some s1"
      by (auto simp: merge_next_def split: bind_splits)
    with assms(1) h False obtain s2 where
      s2: "(if bn hn \<noteq> 0 then set_p (bn hn) a s1 else Some s1) = Some s2" and
      s': "s' = s2\<lparr>bufs := (bufs s2)(a \<mapsto> h\<lparr>bn := bn hn, buflen := add32 (buflen h) (buflen hn)\<rparr>, bn h := None)\<rparr>"
      by (cases "if bn hn \<noteq> 0 then set_p (bn hn) a s1 else Some s1") (auto simp: merge_next_def split: if_splits)
    have "is_live s a = (blinks h \<noteq> 0)" using h by (simp add: is_live_def)
    moreover have "x = a \<and> blinks h \<noteq> 0 \<or> is_live s2 x"
      using assms(2) unfolding s' is_live_def by (cases "x = a"; cases "x = bn h") auto
    ultimately show ?thesis using free_unlink_live [OF n(2), of x] opt_set_p_live [OF s2, of x] by metis
  qed
qed

lemma buf_free_live:
  assumes "buf_free a s = Some s'" and "is_live s' x"
  shows "is_live s x"
proof -
  from assms(1) obtain c s1 s2 where s: "merge_prev a s = Some (c, s1)" "merge_next c s1 = Some s2"
    and s': "s' = s2 \<or> (\<exists>s3 i. set_links c 0 s2 = Some s3 \<and> s' = free_insert i c s3)"
    by (auto simp: buf_free_def split: bind_splits option.splits if_splits) blast+
  from s' assms(2) have "is_live s2 x"
    by (auto simp: set_links_def free_insert_def is_live_def split: bind_splits if_splits)
  with merge_prev_live [OF s(1)] merge_next_live [OF s(2)] show ?thesis by blast
qed

lemma buf_deref_live:
  assumes "buf_deref a s = Some s'" and "bufs s a = Some h" and "blinks h \<noteq> 0" and "is_live s' x"
  shows "is_live s x"
proof -
  from assms(1,2) have s': "s' = s\<lparr>bufs := (bufs s)(a \<mapsto> h\<lparr>blinks := blinks h - 1\<rparr>)\<rparr> \<or>
    buf_free a (s\<lparr>bufs := (bufs s)(a \<mapsto> h\<lparr>blinks := blinks h - 1\<rparr>)\<rparr>) = Some s'"
    by (auto simp: buf_deref_def set_links_def split: if_splits)
  then have "is_live (s\<lparr>bufs := (bufs s)(a \<mapsto> h\<lparr>blinks := blinks h - 1\<rparr>)\<rparr>) x"
    using assms(4) buf_free_live by blast
  with assms(2,3) show ?thesis by (auto simp: is_live_def split: if_splits)
qed

lemma deref_all_result:
  assumes "pool_inv B {} s" and "distinct bs" and "\<And>b. b \<in> set bs \<Longrightarrow> \<exists>h. bufs s b = Some h \<and> blinks h = 1"
  shows "\<exists>s'. deref_all bs s = Some s' \<and> pool_inv B {} s' \<and> live_frame (set bs) s s' \<and>
    (\<forall>x. is_live s' x \<longrightarrow> is_live s x \<and> x \<notin> set bs)"
  using assms
proof (induction bs arbitrary: s)
  case Nil
  then show ?case by (auto simp: live_frame_def)
next
  case (Cons b bs)
  from Cons.prems(3) [of b] obtain h where h: "bufs s b = Some h" "blinks h = 1" by auto
  then have l: "blinks h \<noteq> 0" by simp
  have z: "\<not> 0 < sint (blinks h - 1)" by (simp add: h(2))
  from buf_deref_result [OF Cons.prems(1) h(1) l] obtain s1 where
    s1: "buf_deref b s = Some s1" "pool_inv B {} s1" "live_frame {b} s s1" "\<not> is_live s1 b"
    unfolding if_not_P [OF z] by blast
  have rest: "\<exists>k. bufs s1 x = Some k \<and> blinks k = 1" if "x \<in> set bs" for x
  proof -
    from Cons.prems(3) [of x] that obtain k where k: "bufs s x = Some k" "blinks k = 1" by auto
    have "x \<notin> {b}" "blinks k \<noteq> 0" using that Cons.prems(2) k(2) by auto
    with s1(3) k(1) obtain k' where "bufs s1 x = Some k'" "sig k' = sig k" unfolding live_frame_def by blast
    with k(2) show ?thesis by (auto simp: sig_def)
  qed
  have "distinct bs" using Cons.prems(2) by simp
  from Cons.IH [OF s1(2) this rest] obtain s' where
    s': "deref_all bs s1 = Some s'" "pool_inv B {} s'" "live_frame (set bs) s1 s'"
      "\<forall>x. is_live s' x \<longrightarrow> is_live s1 x \<and> x \<notin> set bs" by blast
  have "live_frame (set (b # bs)) s s'" using live_frame_trans [OF s1(3) s'(3)] by simp
  moreover have "is_live s x \<and> x \<notin> set (b # bs)" if "is_live s' x" for x
    using that s'(4) s1(4) buf_deref_live [OF s1(1) h(1) l, of x] by (cases "x = b") auto
  ultimately show ?case using s1(1) s'(1,2) by (intro exI [of _ s']) simp
qed

lemma in_data_flush_result:
  assumes "pool_inv B {} (ipool st)" and "indatas st a = Some d"
    and "distinct (qbufs (ircv d) @ qbufs (isnd d))"
    and "\<And>b. b \<in> set (qbufs (ircv d) @ qbufs (isnd d)) \<Longrightarrow> \<exists>h. bufs (ipool st) b = Some h \<and> blinks h = 1"
  shows "\<exists>s' d'. in_data_flush a st = Some (st\<lparr>ipool := s', indatas := (indatas st)(a \<mapsto> d')\<rparr>) \<and>
    dnext d' = dnext d \<and> pool_inv B {} s' \<and> live_frame (set (qbufs (ircv d) @ qbufs (isnd d))) (ipool st) s' \<and>
    (\<forall>x. is_live s' x \<longrightarrow> is_live (ipool st) x \<and> x \<notin> set (qbufs (ircv d) @ qbufs (isnd d)))"
proof -
  have app: "deref_all (bs @ cs) s = Option.bind (deref_all bs s) (deref_all cs)" for bs cs s
    by (induction bs arbitrary: s) (simp_all split: Option.bind_split)
  from deref_all_result [OF assms(1,3,4)] obtain s' where
    s': "deref_all (qbufs (ircv d) @ qbufs (isnd d)) (ipool st) = Some s'" "pool_inv B {} s'"
      "live_frame (set (qbufs (ircv d) @ qbufs (isnd d))) (ipool st) s'"
      "\<forall>x. is_live s' x \<longrightarrow> is_live (ipool st) x \<and> x \<notin> set (qbufs (ircv d) @ qbufs (isnd d))" by blast
  let ?d = "d\<lparr>ircv := (ircv d)\<lparr>qbufs := [], curdatalen := 0\<rparr>, isnd := (isnd d)\<lparr>qbufs := [], curdatalen := 0\<rparr>\<rparr>"
  have "in_data_flush a st = Some (st\<lparr>ipool := s', indatas := (indatas st)(a \<mapsto> ?d)\<rparr>)"
    using s'(1) assms(2) by (auto simp: in_data_flush_def app split: bind_splits)
  with s'(2-4) show ?thesis by (intro exI [of _ s'] exI [of _ ?d]) simp
qed

text \<open>
  C32: \<^verbatim>\<open>in_data_destroy\<close> releases everything a socket holds. Called without lingering on a
  socket of a protocol, whose queues hold the only references of their buffers, it
  returns; the socket is gone from the list of its protocol and from memory, all its
  buffers are free again, and the buffers of others are untouched in a consistent pool.
\<close>
theorem in_data_destroy_releases:
  assumes "pool_good (ipool st)" and "indatas st a = Some d" and "a \<noteq> 0" and "dproto d \<noteq> 0" and "socks st (dproto d) xs"
    and "\<not> (wait \<and> has_flag (dflags d) IN_LINGER)"
    and "distinct (qbufs (ircv d) @ qbufs (isnd d))"
    and "\<And>b. b \<in> set (qbufs (ircv d) @ qbufs (isnd d)) \<Longrightarrow> \<exists>h. bufs (ipool st) b = Some h \<and> blinks h = 1"
  shows "\<exists>st'. in_data_destroy sleep_io a wait st = Some (Inr (), st') \<and> indatas st' a = None \<and>
    socks st' (dproto d) (remove1 a xs) \<and> pool_good (ipool st') \<and>
    live_frame (set (qbufs (ircv d) @ qbufs (isnd d))) (ipool st) (ipool st') \<and>
    (\<forall>b \<in> set (qbufs (ircv d) @ qbufs (isnd d)). \<not> is_live (ipool st') b)"
proof -
  from assms(1) obtain B where B: "pool_inv B {} (ipool st)" by (auto simp: pool_good_def)
  from in_data_remove_list [OF assms(5,2) refl assms(3)] obtain st2 where
    st2: "in_data_remove a st = Some st2" "socks st2 (dproto d) (remove1 a xs)"
      "indatas st2 a = Some (d\<lparr>dnext := 0\<rparr>)" "ipool st2 = ipool st" by blast
  from in_data_flush_result [of B st2 a "d\<lparr>dnext := 0\<rparr>"] B st2(3,4) assms(7,8) obtain s' d' where
    f: "in_data_flush a st2 = Some (st2\<lparr>ipool := s', indatas := (indatas st2)(a \<mapsto> d')\<rparr>)" "pool_inv B {} s'"
      "live_frame (set (qbufs (ircv d) @ qbufs (isnd d))) (ipool st) s'"
      "\<forall>x. is_live s' x \<longrightarrow> is_live (ipool st) x \<and> x \<notin> set (qbufs (ircv d) @ qbufs (isnd d))" by auto
  let ?st = "st2\<lparr>ipool := s', indatas := (indatas st2)(a := None)\<rparr>"
  have "in_data_destroy sleep_io a wait st = Some (Inr (), ?st)"
    using assms(2-4,6) st2(1) f(1) by (auto simp: in_data_destroy_def)
  moreover have "a \<notin> set (remove1 a xs)"
    using assms(5) chain_distinct by (auto simp: socks_def distinct_remove1 dest: chain_distinct)
  then have "socks ?st (dproto d) (remove1 a xs)" by (intro socks_frame [OF st2(2)]) auto
  ultimately show ?thesis using f(2-4) by (intro exI [of _ ?st]) (auto simp: pool_good_def)
qed

theorem in_data_destroy_releases_witness:
  "\<exists>st'. in_data_destroy (\<lambda>st. (False, st)) 8 True
      (sample_inet\<lparr>indatas := (indatas sample_inet)(8 \<mapsto> (sample_sock 0 1024 9)\<lparr>ircv := zero_queue\<lparr>qbufs := [4096]\<rparr>\<rparr>)\<rparr>) =
        Some (Inr (), st') \<and> socks st' 1 [9] \<and> \<not> is_live (ipool st') 4096"
proof -
  let ?d = "(sample_sock 0 1024 9)\<lparr>ircv := zero_queue\<lparr>qbufs := [4096]\<rparr>\<rparr>"
  let ?st = "sample_inet\<lparr>indatas := (indatas sample_inet)(8 \<mapsto> ?d)\<rparr>"
  have q: "qbufs (ircv ?d) @ qbufs (isnd ?d) = [4096]" and f: "\<not> has_flag (dflags ?d) IN_LINGER" and p: "dproto ?d = 1"
    by (simp_all add: sample_sock_def new_data_def zero_queue_def has_flag_def)
  have "socks ?st 1 [8, 9]" by (simp add: socks_def sample_inet_def sample_sock_def)
  moreover have "ipool ?st = sample_pool" by (simp add: sample_inet_def)
  ultimately show ?thesis
    using in_data_destroy_releases [of ?st 8 ?d "[8, 9]" True "\<lambda>st. (False, st)"] sample_pool_good sample_pool_buf q f p
    by simp blast
qed

end
