(* ===== verification/Checksum.thy ===== *)
theory Checksum
  imports Prelude "HOL-Library.Monad_Syntax"
begin

text \<open>
  The Internet checksum: \<^verbatim>\<open>chksum\<close> of \<^verbatim>\<open>kernel/inetutil.c\<close>, \<^verbatim>\<open>udp_checksum\<close> of
  \<^verbatim>\<open>kernel/udp.c\<close> and \<^verbatim>\<open>tcp_checksum\<close> of \<^verbatim>\<open>kernel/tcputil.c\<close>, instruction by
  instruction for the m68k (the build without \<^verbatim>\<open>__mcoldfire__\<close>), and that they compute
  the one's complement sum of RFC 1071.
\<close>

section \<open>The processor\<close>

text \<open>
  The sum is in a 32-bit data register; with it goes the extend flag \<^verbatim>\<open>X\<close>. The word
  forms change the low half of the register only.
\<close>

type_synonym sumreg = "nat \<times> bool"

definition addxl :: "nat \<Rightarrow> sumreg \<Rightarrow> sumreg" where
  "addxl a r = (let t = fst r + a + of_bool (snd r) in (t mod 2 ^ 32, 2 ^ 32 \<le> t))"

definition addl :: "nat \<Rightarrow> sumreg \<Rightarrow> sumreg" where
  "addl a r = addxl a (fst r, False)"

definition addxw :: "nat \<Rightarrow> sumreg \<Rightarrow> sumreg" where
  "addxw a r =
     (let t = fst r mod 2 ^ 16 + a + of_bool (snd r)
      in (fst r div 2 ^ 16 * 2 ^ 16 + t mod 2 ^ 16, 2 ^ 16 \<le> t))"

definition addw :: "nat \<Rightarrow> sumreg \<Rightarrow> sumreg" where
  "addw a r = addxw a (fst r, False)"

text \<open>The postincrement reads of a long, a word and a byte; \<open>None\<close> is a read behind the object.\<close>

fun getl :: "u8 list \<Rightarrow> (nat \<times> u8 list) option" where
  "getl (b0 # b1 # b2 # b3 # p) = Some (unat b0 * 2 ^ 24 + unat b1 * 2 ^ 16 + unat b2 * 2 ^ 8 + unat b3, p)"
| "getl _ = None"

fun getw :: "u8 list \<Rightarrow> (nat \<times> u8 list) option" where
  "getw (b0 # b1 # p) = Some (unat b0 * 2 ^ 8 + unat b1, p)"
| "getw _ = None"

fun getb :: "u8 list \<Rightarrow> (nat \<times> u8 list) option" where
  "getb (b0 # p) = Some (unat b0, p)"
| "getb _ = None"

section \<open>The routines\<close>

text \<open>The loop over longs of \<^verbatim>\<open>chksum\<close> (\<^verbatim>\<open>l2\<close>) and of the datagram sums (\<^verbatim>\<open>3\<close>).\<close>

primrec sum_longs :: "nat \<Rightarrow> u8 list \<Rightarrow> sumreg \<Rightarrow> (u8 list \<times> sumreg) option" where
  "sum_longs 0 p r = Some (p, r)"
| "sum_longs (Suc n) p r = do { (l, p') \<leftarrow> getl p; sum_longs n p' (addxl 0 (addl l r)) }"

text \<open>A word added with the carry.\<close>

definition sum_word :: "u8 list \<Rightarrow> sumreg \<Rightarrow> (u8 list \<times> sumreg) option" where
  "sum_word p r = do { (w, p') \<leftarrow> getw p; Some (p', addxw 0 (addw w r)) }"

text \<open>Adding the halves, and the complement.\<close>

definition sum_short :: "sumreg \<Rightarrow> u16" where
  "sum_short r = NOT (word_of_nat (fst (addxw 0 (addw (fst r div 2 ^ 16) r))))"

definition chksum :: "u8 list \<Rightarrow> u16 \<Rightarrow> u16 option" where
  "chksum buf nwords = do {
     (p, r) \<leftarrow> (if odd (unat nwords) then sum_word buf (0, False) else Some (buf, (0, False)));
     (p', r') \<leftarrow> sum_longs (unat nwords div 2) p r;
     Some (sum_short r')
   }"

text \<open>The pseudo header of a datagram.\<close>

definition sum_pseudo :: "nat \<Rightarrow> u32 \<Rightarrow> u32 \<Rightarrow> u16 \<Rightarrow> sumreg" where
  "sum_pseudo proto srcadr dstadr len =
     addxw 0 (addxw (unat len) (addxl (unat dstadr) (addl (unat srcadr) (proto, False))))"

text \<open>The loop over 16 bytes: the extend flag is carried from one addition to the next.\<close>

primrec sum_16 :: "nat \<Rightarrow> u8 list \<Rightarrow> sumreg \<Rightarrow> (u8 list \<times> sumreg) option" where
  "sum_16 0 p r = Some (p, r)"
| "sum_16 (Suc n) p r = do {
     (d0, p0) \<leftarrow> getl p; (d2, p2) \<leftarrow> getl p0; (d3, p3) \<leftarrow> getl p2; (d4, p4) \<leftarrow> getl p3;
     sum_16 n p4 (addxl d4 (addxl d3 (addxl d2 (addxl d0 r))))
   }"

definition sum_blocks :: "u16 \<Rightarrow> u8 list \<Rightarrow> sumreg \<Rightarrow> (u8 list \<times> sumreg) option" where
  "sum_blocks len p r = do {
     (p1, r1) \<leftarrow> (if unat len div 16 = 0 then Some (p, r)
                 else do { (p1, r1) \<leftarrow> sum_16 (unat len div 16) p (fst r, False); Some (p1, addxl 0 r1) });
     sum_longs (unat len mod 16 div 4) p1 r1
   }"

definition sum_tail :: "u16 \<Rightarrow> u8 list \<Rightarrow> sumreg \<Rightarrow> u16 option" where
  "sum_tail len p r = do {
     (p1, r1) \<leftarrow> (if bit len 1 then sum_word p r else Some (p, r));
     r2 \<leftarrow> (if bit len 0 then do { (b, p2) \<leftarrow> getb p1; Some (addxw 0 (addw (b * 2 ^ 8) r1)) } else Some r1);
     Some (sum_short r2)
   }"

definition tcp_checksum :: "u8 list \<Rightarrow> u32 \<Rightarrow> u32 \<Rightarrow> u16 \<Rightarrow> u16 option" where
  "tcp_checksum dgram srcadr dstadr len = do {
     (p, r) \<leftarrow> sum_blocks len dgram (sum_pseudo 6 srcadr dstadr len);
     sum_tail len p r
   }"

text \<open>The length is a field of the UDP header.\<close>

definition udp_checksum :: "u8 list \<Rightarrow> u32 \<Rightarrow> u32 \<Rightarrow> u16 option" where
  "udp_checksum dgram srcadr dstadr = do {
     (len, _) \<leftarrow> getw (drop 4 dgram);
     (p, r) \<leftarrow> sum_blocks (word_of_nat len) dgram (sum_pseudo 17 srcadr dstadr (word_of_nat len));
     sum_tail (word_of_nat len) p r
   }"

section \<open>The reference\<close>

text \<open>RFC 1071: the one's complement sum of the 16-bit words, an odd byte padded with zero.\<close>

definition ones_add :: "nat \<Rightarrow> nat \<Rightarrow> nat" where
  "ones_add a b = (if a + b < 2 ^ 16 then a + b else a + b - (2 ^ 16 - 1))"

fun ones_sum :: "nat \<Rightarrow> u8 list \<Rightarrow> nat" where
  "ones_sum acc (b0 # b1 # p) = ones_sum (ones_add acc (unat b0 * 2 ^ 8 + unat b1)) p"
| "ones_sum acc [b0] = ones_add acc (unat b0 * 2 ^ 8)"
| "ones_sum acc [] = acc"

definition bytes32 :: "u32 \<Rightarrow> u8 list" where
  "bytes32 w = map (\<lambda>i. word_of_nat (unat w div 2 ^ i)) [24, 16, 8, 0]"

definition bytes16 :: "u16 \<Rightarrow> u8 list" where
  "bytes16 w = map (\<lambda>i. word_of_nat (unat w div 2 ^ i)) [8, 0]"

definition pseudo_header :: "u8 \<Rightarrow> u32 \<Rightarrow> u32 \<Rightarrow> u16 \<Rightarrow> u8 list" where
  "pseudo_header proto src dst len = bytes32 src @ bytes32 dst @ [0, proto] @ bytes16 len"

section \<open>Sums modulo 65535\<close>

text \<open>
  \<open>wsum\<close> is the plain sum of the words. Two sums are \<open>ones_eq\<close> when their one's complement
  representations agree: 0 is represented differently from the other multiples of 65535.
\<close>

fun wsum :: "u8 list \<Rightarrow> nat" where
  "wsum (b0 # b1 # p) = unat b0 * 2 ^ 8 + unat b1 + wsum p"
| "wsum [b0] = unat b0 * 2 ^ 8"
| "wsum [] = 0"

definition ones_eq :: "nat \<Rightarrow> nat \<Rightarrow> bool" where
  "ones_eq a b \<longleftrightarrow> (a = 0 \<longleftrightarrow> b = 0) \<and> a mod 65535 = b mod 65535"

definition reg_sum :: "nat \<Rightarrow> sumreg \<Rightarrow> bool" where
  "reg_sum T r \<longleftrightarrow> fst r < 2 ^ 32 \<and> \<not> (fst r = 2 ^ 32 - 1 \<and> snd r) \<and> ones_eq (fst r + of_bool (snd r)) T"

text \<open>The same with the extend flag known to have been added.\<close>

definition sum_done :: "nat \<Rightarrow> sumreg \<Rightarrow> bool" where
  "sum_done T r \<longleftrightarrow> fst r < 2 ^ 32 \<and> ones_eq (fst r) T"

lemma ones_eq_trans [trans]: "ones_eq a b \<Longrightarrow> ones_eq b c \<Longrightarrow> ones_eq a c"
  by (simp add: ones_eq_def)

lemma ones_eq_add: "ones_eq a b \<Longrightarrow> ones_eq (a + c) (b + c)"
  unfolding ones_eq_def by (auto intro: mod_add_cong)

lemma ones_eq_unique: "ones_eq a b \<Longrightarrow> a \<le> 65535 \<Longrightarrow> b \<le> 65535 \<Longrightarrow> a = b"
  by (cases "a = 65535"; cases "b = 65535") (auto simp: ones_eq_def)

lemma ones_eq_multiple: "h * (65535 * k + 1) + m = t \<Longrightarrow> ones_eq (m + h) t"
proof -
  assume t: "h * (65535 * k + 1) + m = t"
  then have "t = (m + h) + 65535 * (h * k)" by (simp add: algebra_simps)
  then have "t mod 65535 = (m + h) mod 65535" by simp
  then show ?thesis using t by (auto simp: ones_eq_def)
qed

lemma ones_eq_carry32: "ones_eq (t mod 4294967296 + t div 4294967296) t"
  by (rule ones_eq_multiple [where k = 65537]) simp

lemma ones_eq_carry16: "ones_eq (t mod 65536 + t div 65536) t"
  by (rule ones_eq_multiple [where k = 1]) simp

lemma div_of_bool: "t < 2 * m \<Longrightarrow> t div m = of_bool (m \<le> (t :: nat))"
  by (cases "t < m") (auto simp: div_nat_eqI)

section \<open>The additions\<close>

lemma addxl_sum:
  assumes "reg_sum T r" and "a < 2 ^ 32"
  shows "reg_sum (T + a) (addxl a r)"
proof -
  let ?t = "fst r + a + of_bool (snd r)"
  have b: "fst r < 4294967296" "a < 4294967296" "\<not> (fst r = 4294967295 \<and> snd r)"
    using assms by (auto simp: reg_sum_def)
  then have t: "?t < 2 * 4294967296" and n: "?t \<noteq> 2 * 4294967296 - 1" by (auto simp: of_bool_def)
  have "ones_eq (fst r + of_bool (snd r) + a) (T + a)"
    using assms(1) by (intro ones_eq_add) (simp add: reg_sum_def)
  then have "ones_eq ?t (T + a)" by (simp add: ac_simps)
  with ones_eq_carry32 [of ?t] have "ones_eq (?t mod 4294967296 + of_bool (4294967296 \<le> ?t)) (T + a)"
    unfolding div_of_bool [OF t] by (rule ones_eq_trans)
  moreover have "?t mod 4294967296 \<noteq> 4294967295 \<or> \<not> 4294967296 \<le> ?t"
    using t n div_of_bool [OF t] mult_div_mod_eq [of 4294967296 ?t] by (auto simp del: mult_div_mod_eq)
  ultimately show ?thesis by (auto simp: reg_sum_def addxl_def Let_def)
qed

lemma done_reg: "sum_done T r \<Longrightarrow> reg_sum T (fst r, False)"
  by (simp add: sum_done_def reg_sum_def)

lemma addl_sum: "sum_done T r \<Longrightarrow> a < 2 ^ 32 \<Longrightarrow> reg_sum (T + a) (addl a r)"
  unfolding addl_def by (rule addxl_sum [OF done_reg])

lemma addxl_0_done: "reg_sum T r \<Longrightarrow> sum_done T (addxl 0 r)"
  by (auto simp: reg_sum_def sum_done_def addxl_def Let_def of_bool_def)

text \<open>A word addition to the low half, and the carry it leaves added to the low half again.\<close>

lemma addxw_pair:
  assumes s: "s < 2 ^ 32" and t: "s mod 2 ^ 16 + a + of_bool x < 2 * 2 ^ 16 - 1"
  shows "fst (addxw 0 (addxw a (s, x))) < 2 ^ 32 \<and> ones_eq (fst (addxw 0 (addxw a (s, x)))) (s + a + of_bool x)"
proof -
  define q where "q = s div 65536"
  define t where "t = s mod 65536 + a + of_bool x"
  have t2: "t < 2 * 65536" "t \<noteq> 131071" using t by (auto simp: t_def)
  have tq: "q * 65536 + t = s + a + of_bool x" unfolding q_def t_def using div_mult_mod_eq [of s 65536] by linarith
  have m: "t mod 65536 + t div 65536 < 65536"
    using t2 div_of_bool [OF t2(1)] mult_div_mod_eq [of 65536 t] by (auto simp: of_bool_def split: if_splits)
  have q: "q < 65536" using s unfolding q_def by (simp add: less_mult_imp_div_less)
  have r1: "addxw a (s, x) = (q * 65536 + t mod 65536, 65536 \<le> t)" by (simp add: addxw_def q_def t_def Let_def)
  have "fst (addxw 0 (addxw a (s, x))) = q * 65536 + (t mod 65536 + t div 65536)"
    unfolding r1 using m by (simp add: addxw_def Let_def div_of_bool [OF t2(1)])
  moreover have "ones_eq (t mod 65536 + t div 65536 + q * 65536) (t + q * 65536)"
    by (rule ones_eq_add [OF ones_eq_carry16])
  moreover have "q * 65536 + (t mod 65536 + t div 65536) < 4294967296" using m q by linarith
  ultimately show ?thesis using tq by (simp add: ac_simps)
qed

lemma addw_done:
  assumes "sum_done T r" and "a < 2 ^ 16"
  shows "sum_done (T + a) (addxw 0 (addw a r))"
proof -
  have "fst r mod 2 ^ 16 + a + of_bool False < 2 * 2 ^ 16 - 1"
    using assms(2) mod_less_divisor [of "2 ^ 16" "fst r"] by simp
  from addxw_pair [OF _ this] assms show ?thesis
    by (auto simp: sum_done_def addw_def intro: ones_eq_trans ones_eq_add)
qed

section \<open>The loops\<close>

lemma wsum_append: "even (length p) \<Longrightarrow> wsum (p @ q) = wsum p + wsum q"
  by (induction p rule: wsum.induct) auto

lemma unat8: "unat (b :: u8) < 256"
  using unsigned_less [of b] by simp

lemma getl_word:
  assumes "4 \<le> length p"
  shows "\<exists>l. getl p = Some (l, drop 4 p) \<and> l < 2 ^ 32 \<and> ones_eq l (wsum (take 4 p))"
proof -
  from assms obtain b0 b1 b2 b3 q where p: "p = b0 # b1 # b2 # b3 # q"
    by (cases p rule: getl.cases) auto
  let ?h = "unat b0 * 256 + unat b1" and ?m = "unat b2 * 256 + unat b3"
  have "ones_eq (?m + ?h) (?h * 65536 + ?m)" by (rule ones_eq_multiple [where k = 1]) simp
  then have "ones_eq (?h * 65536 + ?m) (?h + ?m)" by (simp add: ones_eq_def ac_simps)
  then show ?thesis using unat8 [of b0] unat8 [of b1] unat8 [of b2] unat8 [of b3]
    by (simp add: p algebra_simps)
qed

lemma getw_word: "2 \<le> length p \<Longrightarrow> \<exists>w. getw p = Some (w, drop 2 p) \<and> w < 2 ^ 16 \<and> w = wsum (take 2 p)"
proof (cases p rule: getw.cases)
  case (1 b0 b1 q)
  then show ?thesis using unat8 [of b0] unat8 [of b1] by simp
qed auto

lemma wsum_take_add:
  "even n \<Longrightarrow> n \<le> length p \<Longrightarrow> wsum (take (n + m) p) = wsum (take n p) + wsum (take m (drop n p))"
  by (simp add: take_add wsum_append)

lemma reg_sum_eq: "reg_sum T r \<Longrightarrow> ones_eq T U \<Longrightarrow> reg_sum U r"
  by (auto simp: reg_sum_def intro: ones_eq_trans)

lemma sum_done_eq: "sum_done T r \<Longrightarrow> ones_eq T U \<Longrightarrow> sum_done U r"
  by (auto simp: sum_done_def intro: ones_eq_trans)

lemma ones_eq_add2: "ones_eq a b \<Longrightarrow> ones_eq (c + a) (c + b)"
  using ones_eq_add [of a b c] by (simp add: add.commute)

lemma sum_longs_sum:
  "sum_done T r \<Longrightarrow> 4 * n \<le> length p \<Longrightarrow>
   \<exists>r'. sum_longs n p r = Some (drop (4 * n) p, r') \<and> sum_done (T + wsum (take (4 * n) p)) r'"
proof (induction n arbitrary: p r T)
  case (Suc n)
  from Suc.prems getl_word [of p] obtain l where
    l: "getl p = Some (l, drop 4 p)" "l < 2 ^ 32" "ones_eq l (wsum (take 4 p))" by auto
  have "sum_done (T + l) (addxl 0 (addl l r))" by (rule addxl_0_done [OF addl_sum [OF Suc.prems(1) l(2)]])
  then have "sum_done (T + wsum (take 4 p)) (addxl 0 (addl l r))" by (rule sum_done_eq) (rule ones_eq_add2 [OF l(3)])
  from Suc.IH [OF this, of "drop 4 p"] Suc.prems(2) l(1) wsum_take_add [of 4 p "4 * n"]
  show ?case by (auto simp: ac_simps)
qed simp

lemma addxl_getl:
  assumes "reg_sum T r" and "4 \<le> length p"
  shows "\<exists>l. getl p = Some (l, drop 4 p) \<and> reg_sum (T + wsum (take 4 p)) (addxl l r)"
proof -
  from getl_word [OF assms(2)] obtain l where
    l: "getl p = Some (l, drop 4 p)" "l < 2 ^ 32" "ones_eq l (wsum (take 4 p))" by auto
  with reg_sum_eq [OF addxl_sum [OF assms(1) l(2)] ones_eq_add2 [OF l(3)]] show ?thesis by blast
qed

lemma sum_16_sum:
  "reg_sum T r \<Longrightarrow> 16 * n \<le> length p \<Longrightarrow>
   \<exists>r'. sum_16 n p r = Some (drop (16 * n) p, r') \<and> reg_sum (T + wsum (take (16 * n) p)) r'"
proof (induction n arbitrary: p r T)
  case (Suc n)
  then have len: "4 \<le> length p" "4 \<le> length (drop 4 p)" "4 \<le> length (drop 8 p)" "4 \<le> length (drop 12 p)"
    "16 * n \<le> length (drop 16 p)" "16 \<le> length p" by auto
  from addxl_getl [OF Suc.prems(1) len(1)] obtain l0 where
    0: "getl p = Some (l0, drop 4 p)" "reg_sum (T + wsum (take 4 p)) (addxl l0 r)" by blast
  from addxl_getl [OF 0(2) len(2)] obtain l2 where
    2: "getl (drop 4 p) = Some (l2, drop 8 p)" "reg_sum (T + wsum (take 4 p) + wsum (take 4 (drop 4 p))) (addxl l2 (addxl l0 r))"
    by auto
  from addxl_getl [OF 2(2) len(3)] obtain l3 where
    3: "getl (drop 8 p) = Some (l3, drop 12 p)"
      "reg_sum (T + wsum (take 4 p) + wsum (take 4 (drop 4 p)) + wsum (take 4 (drop 8 p))) (addxl l3 (addxl l2 (addxl l0 r)))"
    by auto
  from addxl_getl [OF 3(2) len(4)] obtain l4 where
    4: "getl (drop 12 p) = Some (l4, drop 16 p)"
      "reg_sum (T + wsum (take 4 p) + wsum (take 4 (drop 4 p)) + wsum (take 4 (drop 8 p)) + wsum (take 4 (drop 12 p)))
         (addxl l4 (addxl l3 (addxl l2 (addxl l0 r))))"
    by auto
  have "wsum (take 16 p) = wsum (take 4 p) + wsum (take 4 (drop 4 p)) + wsum (take 4 (drop 8 p)) + wsum (take 4 (drop 12 p))"
    using wsum_take_add [of 4 p 12] wsum_take_add [of 4 "drop 4 p" 8] wsum_take_add [of 4 "drop 8 p" 4] len by simp
  with 4(2) have "reg_sum (T + wsum (take 16 p)) (addxl l4 (addxl l3 (addxl l2 (addxl l0 r))))" by (simp add: ac_simps)
  from Suc.IH [OF this len(5)] 0 2 3 4 wsum_take_add [of 16 p "16 * n"] len(6)
  show ?case by (auto simp: ac_simps)
qed simp

text \<open>The whole datagram.\<close>

lemma sum_word_sum:
  assumes "sum_done T r" and "2 \<le> length p"
  shows "\<exists>r'. sum_word p r = Some (drop 2 p, r') \<and> sum_done (T + wsum (take 2 p)) r'"
proof -
  from getw_word [OF assms(2)] obtain w where w: "getw p = Some (w, drop 2 p)" "w < 2 ^ 16" "w = wsum (take 2 p)" by blast
  from addw_done [OF assms(1) w(2)] w show ?thesis by (simp add: sum_word_def)
qed

lemma div_16_4: "n div 4 * 4 = 16 * (n div 16) + 4 * (n mod 16 div 4)" for n :: nat
proof -
  have "n mod 16 div 4 = n div 4 mod 4" using mod_mult2_eq [of n 4 4] by simp
  moreover have "n div 16 = n div 4 div 4" using div_mult2_eq [of n 4 4] by simp
  ultimately show ?thesis using div_mult_mod_eq [of "n div 4" 4] by linarith
qed

lemma sum_blocks_sum:
  assumes "sum_done T r" and "unat len \<le> length p"
  shows "\<exists>r'. sum_blocks len p r = Some (drop (unat len div 4 * 4) p, r') \<and>
    sum_done (T + wsum (take (unat len div 4 * 4) p)) r'"
proof -
  define n m where "n = unat len div 16" and "m = unat len mod 16 div 4"
  have nm: "unat len div 4 * 4 = 16 * n + 4 * m" unfolding n_def m_def by (rule div_16_4)
  have len: "16 * n \<le> length p" "4 * m \<le> length (drop (16 * n) p)"
    using assms(2) nm by (auto simp: n_def)
  have "\<exists>r1. (if n = 0 then Some (p, r)
      else do { (p1, r1) \<leftarrow> sum_16 n p (fst r, False); Some (p1, addxl 0 r1) }) = Some (drop (16 * n) p, r1) \<and>
    sum_done (T + wsum (take (16 * n) p)) r1"
  proof (cases "n = 0")
    case False
    from sum_16_sum [OF done_reg [OF assms(1)] len(1)] obtain r1 where
      "sum_16 n p (fst r, False) = Some (drop (16 * n) p, r1)" "reg_sum (T + wsum (take (16 * n) p)) r1" by blast
    with False addxl_0_done show ?thesis by auto
  qed (use assms(1) in auto)
  then obtain r1 where r1: "(if n = 0 then Some (p, r)
      else do { (p1, r1) \<leftarrow> sum_16 n p (fst r, False); Some (p1, addxl 0 r1) }) = Some (drop (16 * n) p, r1)"
    and d1: "sum_done (T + wsum (take (16 * n) p)) r1" by blast
  from sum_longs_sum [OF d1 len(2)] wsum_take_add [of "16 * n" p "4 * m"] len(1) show ?thesis
    unfolding sum_blocks_def n_def [symmetric] m_def [symmetric] r1 nm by (auto simp: ac_simps)
qed

lemma of_nat_mod_16: "word_of_nat (n mod 65536) = (word_of_nat n :: u16)"
  by (simp add: word_of_nat_eq_iff take_bit_eq_mod)

lemma sum_short_sum:
  assumes "sum_done T r"
  shows "\<exists>v \<le> 65535. sum_short r = NOT (word_of_nat v) \<and> ones_eq v T"
proof -
  let ?s = "fst r"
  let ?r1 = "addxw 0 (addxw (?s div 2 ^ 16) (?s, False))"
  have s: "?s < 2 ^ 32" and e: "ones_eq ?s T" using assms by (auto simp: sum_done_def)
  let ?t = "?s mod 65536 + ?s div 65536"
  have d: "?s div 65536 < 65536" using s by (simp add: less_mult_imp_div_less)
  have t: "?t < 2 * 65536 - 1" using d mod_less_divisor [of 65536 ?s] by linarith
  then have t2: "?t < 2 * 65536" by simp
  have m: "?t mod 65536 + ?t div 65536 < 65536"
    using t div_of_bool [OF t2] mult_div_mod_eq [of 65536 ?t] by (auto simp: of_bool_def split: if_splits)
  have low: "fst ?r1 mod 65536 = ?t mod 65536 + ?t div 65536"
    using m by (simp add: addxw_def Let_def div_of_bool [OF t2])
  have "sum_short r = NOT (word_of_nat (?t mod 65536 + ?t div 65536))"
    unfolding sum_short_def addw_def fst_conv low [symmetric]
    by (simp add: of_nat_mod_16)
  moreover have "ones_eq (?t mod 65536 + ?t div 65536) T"
    using ones_eq_carry16 [of ?t] ones_eq_carry16 [of ?s] e by (blast intro: ones_eq_trans)
  ultimately show ?thesis using m by (intro exI [of _ "?t mod 65536 + ?t div 65536"]) simp
qed

lemma len_bits:
  "bit (len :: u16) 1 \<longleftrightarrow> 2 \<le> unat len mod 4" "bit len 0 \<longleftrightarrow> odd (unat len mod 4)"
proof -
  have "bit len n \<longleftrightarrow> odd (unat len div 2 ^ n)" if "n < 16" for n
    using that by (simp add: bit_iff_odd [symmetric] bit_unsigned_iff)
  from this [of 1] this [of 0] show "bit len 1 \<longleftrightarrow> 2 \<le> unat len mod 4" "bit len 0 \<longleftrightarrow> odd (unat len mod 4)"
    by simp_all presburger+
qed

lemma getb_sum:
  assumes "sum_done T r" and "1 \<le> length p"
  shows "\<exists>b p'. getb p = Some (b, p') \<and> sum_done (T + wsum (take 1 p)) (addxw 0 (addw (b * 2 ^ 8) r))"
  using assms addw_done [OF assms(1)] unat8 by (cases p) auto

lemma sum_tail_sum:
  assumes "sum_done T r" and "unat len mod 4 \<le> length p"
  shows "\<exists>v \<le> 65535. sum_tail len p r = Some (NOT (word_of_nat v)) \<and> ones_eq v (T + wsum (take (unat len mod 4) p))"
proof -
  define k where "k = unat len mod 4"
  have k: "k < 4" "k \<le> length p" using assms(2) by (simp_all add: k_def)
  define j :: nat where "j = (if 2 \<le> k then 2 else 0)"
  have "\<exists>r1. (if 2 \<le> k then sum_word p r else Some (p, r)) = Some (drop j p, r1) \<and> sum_done (T + wsum (take j p)) r1"
    using sum_word_sum [OF assms(1), of p] assms(1) k by (cases r) (auto simp: j_def)
  then obtain r1 where r1: "(if 2 \<le> k then sum_word p r else Some (p, r)) = Some (drop j p, r1)"
    "sum_done (T + wsum (take j p)) r1" by blast
  have odd: "odd k \<longleftrightarrow> k = j + 1" "even k \<longleftrightarrow> k = j" using k(1) by (auto simp: j_def) presburger+
  have w: "wsum (take (j + 1) p) = wsum (take j p) + wsum (take 1 (drop j p))" if "odd k"
    using wsum_take_add [of j p 1] k odd that by (auto simp: j_def)
  have "\<exists>r2. (if odd k then do { (b, p2) \<leftarrow> getb (drop j p); Some (addxw 0 (addw (b * 2 ^ 8) r1)) } else Some r1) = Some r2 \<and>
    sum_done (T + wsum (take k p)) r2"
  proof (cases "odd k")
    case True
    with k odd have "1 \<le> length (drop j p)" by simp
    from getb_sum [OF r1(2) this] obtain b p' where "getb (drop j p) = Some (b, p')"
      "sum_done (T + wsum (take j p) + wsum (take 1 (drop j p))) (addxw 0 (addw (b * 2 ^ 8) r1))" by blast
    with True odd w show ?thesis by (intro exI [of _ "addxw 0 (addw (b * 2 ^ 8) r1)"]) (simp add: ac_simps)
  qed (use r1 odd in auto)
  then obtain r2 where r2: "(if odd k then do { (b, p2) \<leftarrow> getb (drop j p); Some (addxw 0 (addw (b * 2 ^ 8) r1)) } else Some r1) = Some r2"
    "sum_done (T + wsum (take k p)) r2" by blast
  from sum_short_sum [OF r2(2)] r1(1) r2(1) show ?thesis
    unfolding sum_tail_def len_bits k_def [symmetric] by (auto split: if_splits)
qed

section \<open>The pseudo header\<close>

lemma unat_byte: "unat (word_of_nat n :: u8) = n mod 256"
  by (simp add: unsigned_of_nat take_bit_eq_mod)

lemma unat_ucast_byte: "unat (ucast w :: u8) = unat w mod 256"
  by (simp add: unsigned_ucast_eq unsigned_take_bit_eq take_bit_eq_mod)

lemma bytes_of_16: "n < 65536 \<Longrightarrow> n div 256 mod 256 * 256 + n mod 256 = (n :: nat)"
  by (simp add: less_mult_imp_div_less)

lemma wsum_bytes16: "wsum (bytes16 w @ q) = unat w + wsum q"
proof -
  have "unat w < 65536" using unsigned_less [of w] by simp
  from bytes_of_16 [OF this] show ?thesis by (simp add: bytes16_def unat_byte unat_ucast_byte)
qed

lemma wsum_bytes32: "wsum (bytes32 w @ q) = unat w mod 65536 + unat w div 65536 + wsum q"
proof -
  have "unat w < 4294967296" using unsigned_less [of w] by simp
  then have "unat w div 65536 < 65536" by (simp add: less_mult_imp_div_less)
  moreover have "unat w div 16777216 = unat w div 65536 div 256" by (simp add: div_mult2_eq [symmetric])
  ultimately have "unat w div 16777216 mod 256 * 256 + unat w div 65536 mod 256 = unat w div 65536"
    by (simp add: bytes_of_16)
  moreover have "unat w div 256 mod 256 * 256 + unat w mod 256 = unat w mod 65536"
    using mod_mult2_eq [of "unat w" 256 256] by simp
  ultimately show ?thesis by (simp add: bytes32_def unat_byte unat_ucast_byte)
qed

lemma wsum_pseudo:
  "ones_eq (unat proto + unat src + unat dst + unat len + T) (wsum (pseudo_header proto src dst len) + T)"
proof -
  let ?c = "\<lambda>w :: u32. unat w mod 65536 + unat w div 65536"
  have c: "ones_eq (unat w) (?c w)" for w using ones_eq_carry16 [of "unat w"] by (simp add: ones_eq_def)
  have "wsum (pseudo_header proto src dst len) = ?c src + ?c dst + unat proto + unat len"
    using wsum_bytes16 [of len "[]"] by (simp add: pseudo_header_def wsum_bytes32)
  moreover have "ones_eq (unat src + (unat dst + (unat proto + unat len + T))) (?c src + (unat dst + (unat proto + unat len + T)))"
    by (rule ones_eq_add [OF c])
  moreover have "ones_eq (?c src + (unat dst + (unat proto + unat len + T))) (?c src + (?c dst + (unat proto + unat len + T)))"
    by (rule ones_eq_add2 [OF ones_eq_add [OF c]])
  ultimately show ?thesis by (auto simp: ac_simps intro: ones_eq_trans)
qed

lemma sum_pseudo_sum:
  assumes "unat len < 65535"
  shows "sum_done (wsum (pseudo_header proto src dst len)) (sum_pseudo (unat proto) src dst len)"
proof -
  have "sum_done (unat proto) (unat proto, False)" using unat8 [of proto] by (simp add: sum_done_def ones_eq_def)
  from addl_sum [OF this, of "unat src"] have "reg_sum (unat proto + unat src) (addl (unat src) (unat proto, False))"
    using unsigned_less [of src] by simp
  from addxl_sum [OF this, of "unat dst"] have
    r: "reg_sum (unat proto + unat src + unat dst) (addxl (unat dst) (addl (unat src) (unat proto, False)))" (is "reg_sum ?T ?r")
    using unsigned_less [of dst] by simp
  have t: "fst ?r mod 2 ^ 16 + unat len + of_bool (snd ?r) < 2 * 2 ^ 16 - 1"
    using assms mod_less_divisor [of "2 ^ 16" "fst ?r"] by (cases "snd ?r") auto
  have "fst ?r < 2 ^ 32" using r by (simp add: reg_sum_def)
  from addxw_pair [OF this t] have s: "fst (sum_pseudo (unat proto) src dst len) < 2 ^ 32"
    "ones_eq (fst (sum_pseudo (unat proto) src dst len)) (fst ?r + unat len + of_bool (snd ?r))"
    by (simp_all add: sum_pseudo_def)
  have "ones_eq (fst ?r + of_bool (snd ?r) + unat len) (?T + unat len)"
    using r by (intro ones_eq_add) (simp add: reg_sum_def)
  with s(2) have "ones_eq (fst (sum_pseudo (unat proto) src dst len)) (?T + unat len)"
    by (auto simp: ac_simps intro: ones_eq_trans)
  with s(1) wsum_pseudo [of proto src dst len 0] show ?thesis by (auto simp: sum_done_def intro: ones_eq_trans)
qed

section \<open>Correctness\<close>

lemma ones_add_eq: "a \<le> 65535 \<Longrightarrow> b \<le> 65535 \<Longrightarrow> ones_add a b \<le> 65535 \<and> ones_eq (ones_add a b) (a + b)"
  by (auto simp: ones_add_def ones_eq_def le_mod_geq [of 65535 "a + b"])

lemma ones_sum_eq: "acc \<le> 65535 \<Longrightarrow> ones_sum acc p \<le> 65535 \<and> ones_eq (ones_sum acc p) (acc + wsum p)"
proof (induction acc p rule: ones_sum.induct)
  case (1 acc b0 b1 p)
  let ?w = "unat b0 * 2 ^ 8 + unat b1"
  have w: "?w \<le> 65535" using unat8 [of b0] unat8 [of b1] by simp
  from "1.IH" ones_add_eq [OF "1.prems" w] ones_eq_add [of "ones_add acc ?w" "acc + ?w" "wsum p"] show ?case
    by (auto simp: ac_simps intro: ones_eq_trans)
next
  case (2 acc b0)
  then show ?case using ones_add_eq [of acc "unat b0 * 2 ^ 8"] unat8 [of b0] by simp
qed (simp add: ones_eq_def)

lemma ones_sum_unique: "v \<le> 65535 \<Longrightarrow> ones_eq v (wsum p) \<Longrightarrow> v = ones_sum 0 p"
  using ones_sum_eq [of 0 p] ones_eq_unique [of v "ones_sum 0 p"] by (auto simp: ones_eq_def)

lemma dgram_sum:
  assumes "unat len < 65535" and "unat len \<le> length p"
  shows "do { (q, r) \<leftarrow> sum_blocks len p (sum_pseudo (unat proto) src dst len); sum_tail len q r } =
    Some (NOT (word_of_nat (ones_sum 0 (pseudo_header proto src dst len @ take (unat len) p))))"
proof -
  let ?P = "pseudo_header proto src dst len" and ?n = "unat len div 4 * 4"
  from sum_blocks_sum [OF sum_pseudo_sum [OF assms(1)] assms(2)] obtain r where
    r: "sum_blocks len p (sum_pseudo (unat proto) src dst len) = Some (drop ?n p, r)"
      "sum_done (wsum ?P + wsum (take ?n p)) r" by blast
  have "unat len mod 4 \<le> length (drop ?n p)"
    using assms(2) div_mult_mod_eq [of "unat len" 4] unfolding length_drop by linarith
  from sum_tail_sum [OF r(2) this] obtain v where
    v: "v \<le> 65535" "sum_tail len (drop ?n p) r = Some (NOT (word_of_nat v))"
      "ones_eq v (wsum ?P + wsum (take ?n p) + wsum (take (unat len mod 4) (drop ?n p)))" by blast
  have "wsum (take (unat len) p) = wsum (take ?n p) + wsum (take (unat len mod 4) (drop ?n p))"
    using wsum_take_add [of ?n p "unat len mod 4"] assms(2) by simp
  moreover have "even (length ?P)" by (simp add: pseudo_header_def bytes32_def bytes16_def)
  ultimately have "v = ones_sum 0 (?P @ take (unat len) p)"
    using v by (intro ones_sum_unique) (simp_all add: wsum_append ac_simps)
  with r(1) v(2) show ?thesis by simp
qed

lemma unat_NOT_16: "unat (NOT x) = 65535 - unat (x :: u16)"
proof -
  have "NOT x = - 1 - x" by (simp add: not_eq_complement)
  moreover have "unat (- 1 - x) = unat (- 1 :: u16) - unat x" by (rule unat_sub) simp
  ultimately show ?thesis by (simp add: unsigned_minus_1_eq_mask mask_eq_exp_minus_1)
qed

lemma unat_NOT_nat: "v \<le> 65535 \<Longrightarrow> unat (NOT (word_of_nat v :: u16)) = 65535 - v"
  by (simp add: unat_NOT_16 unsigned_of_nat take_bit_eq_mod)

definition field16 :: "u8 list \<Rightarrow> nat \<Rightarrow> nat" where
  "field16 d i = unat (d ! i) * 2 ^ 8 + unat (d ! (i + 1))"

lemma getw_field: "i + 1 < length d \<Longrightarrow> getw (drop i d) = Some (field16 d i, drop (i + 2) d)"
  by (simp add: field16_def Cons_nth_drop_Suc [symmetric])

lemma field16_less: "field16 d i < 65536"
  using unat8 [of "d ! i"] unat8 [of "d ! (i + 1)"] by (simp add: field16_def)

lemma udp_checksum_sum:
  assumes "8 \<le> length d" and "field16 d 4 < 65535" and "field16 d 4 \<le> length d"
  shows "udp_checksum d src dst = Some (NOT (word_of_nat (ones_sum 0
    (pseudo_header 17 src dst (word_of_nat (field16 d 4)) @ take (field16 d 4) d))))"
proof -
  have "getw (drop 4 d) = Some (field16 d 4, drop 6 d)" using getw_field [of 4 d] assms(1) by simp
  moreover have "unat (word_of_nat (field16 d 4) :: u16) = field16 d 4"
    using assms(2) by (simp add: unsigned_of_nat take_bit_eq_mod)
  ultimately show ?thesis using dgram_sum [of "word_of_nat (field16 d 4)" d 17 src dst] assms(2,3)
    by (simp add: udp_checksum_def)
qed

text \<open>The effect of the checksum field.\<close>

lemma ones_sum_field:
  assumes "even (length a)" and "even (length h)"
    and c: "c = NOT (word_of_nat (ones_sum 0 (h @ a @ [0, 0] @ q)) :: u16)"
  shows "ones_sum 0 (h @ a @ bytes16 (if c = 0 then 65535 else c) @ q) = 65535"
proof -
  let ?v = "ones_sum 0 (h @ a @ [0, 0] @ q)" and ?c = "if c = 0 then 65535 else c" and ?T = "wsum h + wsum a + wsum q"
  have v: "?v \<le> 65535" "ones_eq ?v ?T"
    using ones_sum_eq [of 0 "h @ a @ [0, 0] @ q"] assms(1,2) by (auto simp: wsum_append add.assoc)
  have c1: "unat c = 65535 - ?v" unfolding c by (rule unat_NOT_nat [OF v(1)])
  have "unat ?c \<noteq> 0 \<and> (unat ?c + ?v) mod 65535 = 0"
  proof (cases "c = 0")
    case True
    with c1 v(1) have "?v = 65535" by simp
    with True show ?thesis by simp
  next
    case False
    then have "unat c \<noteq> 0" by (simp add: unat_eq_zero)
    with c1 v(1) have "unat c + ?v = 65535" by simp
    with False \<open>unat c \<noteq> 0\<close> show ?thesis by simp
  qed
  moreover have "(unat ?c + ?v) mod 65535 = (unat ?c + ?T) mod 65535"
    using v(2) by (intro mod_add_cong) (auto simp: ones_eq_def)
  ultimately have "ones_eq 65535 (unat ?c + ?T)" by (auto simp: ones_eq_def)
  moreover have "wsum (h @ a @ bytes16 ?c @ q) = unat ?c + ?T" using assms(1,2) by (simp add: wsum_append wsum_bytes16)
  ultimately show ?thesis using ones_sum_unique [of 65535 "h @ a @ bytes16 ?c @ q"] by simp
qed

lemma chksum_sum:
  assumes "2 * unat nwords \<le> length buf"
  shows "chksum buf nwords = Some (NOT (word_of_nat (ones_sum 0 (take (2 * unat nwords) buf))))"
proof -
  define n k where "n = unat nwords" and "k = 2 * (n mod 2)"
  have n: "2 * n = k + 4 * (n div 2)" unfolding k_def using div_mult_mod_eq [of n 2] by linarith
  have z: "sum_done 0 (0, False)" by (simp add: sum_done_def ones_eq_def)
  have "\<exists>r. (if odd n then sum_word buf (0, False) else Some (buf, (0, False))) = Some (drop k buf, r) \<and>
    sum_done (wsum (take k buf)) r"
    using sum_word_sum [OF z, of buf] z assms n by (cases "odd n") (auto simp: k_def n_def odd_iff_mod_2_eq_one)
  then obtain r where r: "(if odd n then sum_word buf (0, False) else Some (buf, (0, False))) = Some (drop k buf, r)"
    "sum_done (wsum (take k buf)) r" by blast
  have "4 * (n div 2) \<le> length (drop k buf)" using assms n unfolding n_def [symmetric] by simp
  from sum_longs_sum [OF r(2) this] obtain r' where
    r': "sum_longs (n div 2) (drop k buf) r = Some (drop (4 * (n div 2)) (drop k buf), r')"
      "sum_done (wsum (take k buf) + wsum (take (4 * (n div 2)) (drop k buf))) r'" by blast
  have "wsum (take (2 * n) buf) = wsum (take k buf) + wsum (take (4 * (n div 2)) (drop k buf))"
    using wsum_take_add [of k buf "4 * (n div 2)"] assms n unfolding n_def [symmetric] by (simp add: k_def)
  with sum_short_sum [OF r'(2)] ones_sum_unique have "sum_short r' = NOT (word_of_nat (ones_sum 0 (take (2 * n) buf)))"
    by metis
  with r(1) r'(1) show ?thesis unfolding chksum_def n_def [symmetric] by simp
qed

text \<open>A checksum written into its field makes the sum complete.\<close>

lemma ones_sum_fill:
  assumes "even (length a)" and "c = NOT (word_of_nat (ones_sum 0 (a @ [0, 0] @ q)))"
  shows "ones_sum 0 (a @ bytes16 c @ q) = 65535"
proof -
  let ?T = "wsum (a @ [0, 0] @ q)" and ?v = "ones_sum 0 (a @ [0, 0] @ q)"
  have v: "?v \<le> 65535" "ones_eq ?v ?T" using ones_sum_eq [of 0 "a @ [0, 0] @ q"] by simp_all
  have c: "unat c + ?v = 65535" using assms(2) unat_NOT_nat [OF v(1)] v(1) by simp
  have "ones_eq (unat c + ?v) (unat c + ?T)" by (rule ones_eq_add2 [OF v(2)])
  moreover have "wsum (a @ bytes16 c @ q) = unat c + ?T" using assms(1) by (simp add: wsum_append wsum_bytes16)
  ultimately have "ones_eq 65535 (wsum (a @ bytes16 c @ q))" by (simp only: c)
  then show ?thesis using ones_sum_unique [of 65535 "a @ bytes16 c @ q"] by simp
qed

lemma chksum_fill:
  assumes "even (length a)" and "length a + 2 \<le> 2 * unat n" and "2 * unat n \<le> length a + 2 + length q"
  shows "\<exists>c. chksum (a @ [0, 0] @ q) n = Some c \<and> chksum (a @ bytes16 c @ q) n = Some 0"
proof -
  let ?q = "take (2 * unat n - (length a + 2)) q"
  have t: "take (2 * unat n) (a @ w @ q) = a @ w @ ?q" if "length w = 2" for w using assms(2) that by simp
  have b: "length (bytes16 w) = 2" for w by (simp add: bytes16_def)
  define c :: u16 where "c = NOT (word_of_nat (ones_sum 0 (a @ [0, 0] @ ?q)))"
  have s: "chksum (a @ w @ q) n = Some (NOT (word_of_nat (ones_sum 0 (a @ w @ ?q))))" if "length w = 2" for w
    using chksum_sum [of n "a @ w @ q"] assms(3) that unfolding t [OF that] by simp
  have "NOT (word_of_nat (ones_sum 0 (a @ bytes16 c @ ?q)) :: u16) = 0"
    unfolding ones_sum_fill [OF assms(1) c_def] by simp
  then show ?thesis using s [of "[0, 0]"] s [OF b, of c] by (simp add: c_def)
qed

text \<open>
  C27: \<^verbatim>\<open>chksum\<close>, that adds an odd word first and then longs with the carry, computes the
  complement of the one's complement sum of RFC 1071 over \<^verbatim>\<open>nwords\<close> words, for every
  number of words a \<^verbatim>\<open>short\<close> can hold.
\<close>
theorem chksum_rfc1071:
  assumes "2 * unat nwords \<le> length buf"
  shows "chksum buf nwords = Some (NOT (word_of_nat (ones_sum 0 (take (2 * unat nwords) buf))))"
  using assms by (rule chksum_sum)

theorem chksum_rfc1071_witness:
  "chksum [0x45, 0, 0xff, 0xff, 0xff, 0xfe] 3 = Some (NOT (word_of_nat (ones_sum 0 [0x45, 0, 0xff, 0xff, 0xff, 0xfe])))"
  using chksum_rfc1071 [of 3 "[0x45, 0, 0xff, 0xff, 0xff, 0xfe]"] by simp

text \<open>
  C28: \<^verbatim>\<open>tcp_checksum\<close>, unrolled to sixteen bytes with the carry kept in the extend flag
  from one addition to the next, computes the complement of the one's complement sum over
  the pseudo header and the segment, for every length below 65535: no carry is lost.
\<close>
theorem tcp_checksum_rfc1071:
  assumes "unat len < 65535" and "unat len \<le> length dgram"
  shows "tcp_checksum dgram src dst len =
    Some (NOT (word_of_nat (ones_sum 0 (pseudo_header 6 src dst len @ take (unat len) dgram))))"
  using dgram_sum [OF assms, of 6 src dst] by (simp add: tcp_checksum_def)

theorem tcp_checksum_rfc1071_witness:
  "tcp_checksum [1, 2, 3] 0xc0a80001 0xc0a80002 3 =
     Some (NOT (word_of_nat (ones_sum 0 (pseudo_header 6 0xc0a80001 0xc0a80002 3 @ [1, 2, 3]))))"
  using tcp_checksum_rfc1071 [of 3 "[1, 2, 3]" "0xc0a80001" "0xc0a80002"] by simp

text \<open>
  A datagram that carries the checksum \<^verbatim>\<open>udp_checksum\<close> computed for it verifies. With
  the checksum of the datagram whose checksum field is zero put into that field, 0 written
  as \<^verbatim>\<open>~0\<close> the way \<^verbatim>\<open>udp_send\<close> does, \<^verbatim>\<open>udp_checksum\<close> returns 0, which is what
  \<^verbatim>\<open>udp_input\<close> accepts.
\<close>
lemma udp_checksum_verifies:
  assumes "length hd6 = 6" and "8 \<le> field16 hd6 4" and "field16 hd6 4 < 65535" and "field16 hd6 4 \<le> 8 + length pay"
    and "udp_checksum (hd6 @ [0, 0] @ pay) src dst = Some c"
  shows "udp_checksum (hd6 @ bytes16 (if c = 0 then 65535 else c) @ pay) src dst = Some 0"
proof -
  let ?c = "if c = 0 then 65535 else c"
  define n where "n = field16 hd6 4"
  have f: "field16 (hd6 @ q) 4 = n" for q using assms(1) by (simp add: field16_def nth_append n_def)
  have b: "length (bytes16 w) = 2" for w by (simp add: bytes16_def)
  have t: "take n (hd6 @ w @ pay) = hd6 @ w @ take (n - 8) pay" if "length w = 2" for w
    using assms(1,2) that by (simp add: n_def)
  let ?h = "pseudo_header 17 src dst (word_of_nat n)"
  have s: "udp_checksum (hd6 @ w @ pay) src dst = Some (NOT (word_of_nat (ones_sum 0 (?h @ hd6 @ w @ take (n - 8) pay))))"
    if "length w = 2" for w
    using udp_checksum_sum [of "hd6 @ w @ pay" src dst] t [OF that] that assms(1-4) unfolding f by (simp add: n_def)
  have c: "c = NOT (word_of_nat (ones_sum 0 (?h @ hd6 @ [0, 0] @ take (n - 8) pay)))" using s [of "[0, 0]"] assms(5) by simp
  have "even (length ?h)" by (simp add: pseudo_header_def bytes32_def bytes16_def)
  from ones_sum_field [OF _ this c] assms(1) have "ones_sum 0 (?h @ hd6 @ bytes16 ?c @ take (n - 8) pay) = 65535" by simp
  then have "NOT (word_of_nat (ones_sum 0 (?h @ hd6 @ bytes16 ?c @ take (n - 8) pay)) :: u16) = 0"
    using unat_NOT_nat [of 65535] by (simp only: unsigned_eq_0_iff [symmetric]) simp
  then show ?thesis using s [OF b] by (simp only:)
qed

end
