(* ===== verification/Arp.thy ===== *)
theory Arp
  imports LinkedList Timer Netif Route
begin

text \<open>
  Address resolution: \<^verbatim>\<open>kernel/arp.c\<close> and the part of \<^verbatim>\<open>if_send\<close> (\<^verbatim>\<open>kernel/if.c\<close>) that uses
  it, in the build for gcc. An entry is on the hash chain of its protocol address and,
  once resolved, on the one of its hardware address; both chains and everybody who works
  with the entry count as references.
\<close>

section \<open>State\<close>

abbreviation ARP_HASHSIZE :: nat where "ARP_HASHSIZE \<equiv> 47"
abbreviation ARP_RETRIES :: u16 where "ARP_RETRIES \<equiv> 4"
abbreviation ARP_RETRANS :: u32 where "ARP_RETRANS \<equiv> 100"
abbreviation ARP_EXPIRE :: u32 where "ARP_EXPIRE \<equiv> 120000"
abbreviation IF_MAXQ :: u16 where "IF_MAXQ \<equiv> 60"
abbreviation ATF_PRCOM :: u16 where "ATF_PRCOM \<equiv> 0x01"
abbreviation ATF_HWCOM :: u16 where "ATF_HWCOM \<equiv> 0x02"
abbreviation ATF_PERM :: u16 where "ATF_PERM \<equiv> 0x04"
abbreviation ATF_PUBL :: u16 where "ATF_PUBL \<equiv> 0x08"
abbreviation ATF_NORARP :: u16 where "ATF_NORARP \<equiv> 0x20"
abbreviation ATF_COM :: u16 where "ATF_COM \<equiv> 0x03"
abbreviation ATF_USRMASK :: u16 where "ATF_USRMASK \<equiv> 0x2c"
abbreviation ARLK_NOCREAT :: u16 where "ARLK_NOCREAT \<equiv> 0x01"
abbreviation ARLK_NORESOLV :: u16 where "ARLK_NORESOLV \<equiv> 0x02"
abbreviation AROP_ARPREQ :: u16 where "AROP_ARPREQ \<equiv> 1"
abbreviation AROP_ARPREP :: u16 where "AROP_ARPREP \<equiv> 2"
abbreviation AROP_RARPREQ :: u16 where "AROP_RARPREQ \<equiv> 3"
abbreviation AROP_RARPREP :: u16 where "AROP_RARPREP \<equiv> 4"
abbreviation ARPRTYPE_IP :: u16 where "ARPRTYPE_IP \<equiv> 0x0800"
abbreviation PKTYPE_IP :: u16 where "PKTYPE_IP \<equiv> 0x0800"
abbreviation PKTYPE_ARP :: u16 where "PKTYPE_ARP \<equiv> 0x0806"
abbreviation PKTYPE_RARP :: u16 where "PKTYPE_RARP \<equiv> 0x8035"
abbreviation IFF_RUNNING :: u16 where "IFF_RUNNING \<equiv> 0x0040"
abbreviation IFF_NOARP :: u16 where "IFF_NOARP \<equiv> 0x0080"
abbreviation AF_LINK :: u16 where "AF_LINK \<equiv> 200"

definition ARP_TIMEOUT :: fn where "ARP_TIMEOUT = 7"

definition on :: "u16 \<Rightarrow> u16 \<Rightarrow> bool" where
  "on f x \<longleftrightarrow> f AND x \<noteq> 0"

text \<open>A hardware or protocol address: ten bytes, and how many of them count.\<close>

record hwaddr =
  hlen :: nat
  hbytes :: "u8 list"

record arp_entry =
  alinks :: u16
  aflags :: u16
  ahwtype :: u16
  aprtype :: u16
  apraddr :: hwaddr
  ahwaddr :: hwaddr
  anif :: nat
  aoutq :: "u8 list ifq"
  aretries :: u16
  prnext :: nat
  hwnext :: nat

text \<open>The interface with the fields address resolution needs.\<close>

record anetif = netif +
  nhwtype :: u16
  hwlocal :: hwaddr
  hwbrcst :: hwaddr
  out_errors :: u32

text \<open>
  What leaves the module: a packet given to the output function of an interface, with the
  address and the type it is sent to, and a packet given back.
\<close>

datatype arp_event = Output nat "u8 list" "u8 list" nat u16 | Release "u8 list"

record arp =
  ents :: "nat \<rightharpoonup> arp_entry"
  arptab :: "nat \<Rightarrow> nat"
  rarptab :: "nat \<Rightarrow> nat"
  anifs :: "nat \<rightharpoonup> anetif"
  atimer :: timer
  trace :: "arp_event list"

definition log_ev :: "arp_event list \<Rightarrow> arp \<Rightarrow> arp" where
  "log_ev es st = st\<lparr>trace := trace st @ es\<rparr>"

definition set_ent :: "nat \<Rightarrow> arp_entry \<Rightarrow> arp \<Rightarrow> arp" where
  "set_ent a e st = st\<lparr>ents := (ents st)(a \<mapsto> e)\<rparr>"

section \<open>References\<close>

definition arp_free :: "nat \<Rightarrow> arp \<Rightarrow> arp option" where
  "arp_free a st = do {
     e \<leftarrow> ents st a;
     n \<leftarrow> anifs st (anif e);
     let n' = n\<lparr>out_errors := out_errors n + ucast (qlen (aoutq e))\<rparr>;
     Some (log_ev (map Release (fst (if_flushq (aoutq e))))
       (st\<lparr>anifs := (anifs st)(anif e \<mapsto> n'), atimer := event_del a (atimer st), ents := (ents st)(a := None)\<rparr>))
   }"

definition arp_deref :: "nat \<Rightarrow> arp \<Rightarrow> arp option" where
  "arp_deref a st = do {
     e \<leftarrow> ents st a;
     let st1 = set_ent a (e\<lparr>alinks := alinks e - 1\<rparr>) st;
     if alinks e - 1 = 0 then arp_free a st1 else Some st1
   }"

text \<open>The hash reads four bytes whatever the length is.\<close>

definition arp_hash :: "u8 list \<Rightarrow> nat \<Rightarrow> nat option" where
  "arp_hash addr len =
     (if 4 \<le> length addr then
        (let v = be32 (addr ! 0) (addr ! 1) (addr ! 2) (addr ! 3);
             w = (if len < 4 then drop_bit (32 - 8 * len) v else v)
         in Some (unat (ucast w :: u16) mod ARP_HASHSIZE))
      else None)"

text \<open>Unlinking from a chain: the link that points to the entry, in the table or in its predecessor.\<close>

definition arp_remove :: "nat \<Rightarrow> arp \<Rightarrow> arp option" where
  "arp_remove a st = do {
     e \<leftarrow> ents st a;
     if \<not> on (aflags e) ATF_PRCOM then Some st
     else do {
       idx \<leftarrow> arp_hash (hbytes (apraddr e)) (hlen (apraddr e));
       if arptab st idx = a then arp_deref a (st\<lparr>arptab := (arptab st)(idx := prnext e)\<rparr>)
       else do {
         p \<leftarrow> search prnext (\<lambda>_ x. prnext x = a) (ents st) (arptab st idx);
         if p = 0 then Some st
         else do { x \<leftarrow> ents st p; arp_deref a (set_ent p (x\<lparr>prnext := prnext e\<rparr>) st) }
       }
     }
   }"

definition rarp_remove :: "nat \<Rightarrow> arp \<Rightarrow> arp option" where
  "rarp_remove a st = do {
     e \<leftarrow> ents st a;
     if \<not> on (aflags e) ATF_HWCOM then Some st
     else do {
       idx \<leftarrow> arp_hash (hbytes (ahwaddr e)) (hlen (ahwaddr e));
       if rarptab st idx = a then arp_deref a (st\<lparr>rarptab := (rarptab st)(idx := hwnext e)\<rparr>)
       else do {
         p \<leftarrow> search hwnext (\<lambda>_ x. hwnext x = a) (ents st) (rarptab st idx);
         if p = 0 then Some st
         else do { x \<leftarrow> ents st p; arp_deref a (set_ent p (x\<lparr>hwnext := hwnext e\<rparr>) st) }
       }
     }
   }"

definition rarp_put :: "nat \<Rightarrow> arp \<Rightarrow> arp option" where
  "rarp_put a st = do {
     e \<leftarrow> ents st a;
     idx \<leftarrow> arp_hash (hbytes (ahwaddr e)) (hlen (ahwaddr e));
     Some ((set_ent a (e\<lparr>alinks := alinks e + 1, hwnext := rarptab st idx\<rparr>) st)\<lparr>rarptab := (rarptab st)(idx := a)\<rparr>)
   }"

section \<open>Requests\<close>

definition arp_myaddr :: "anetif \<Rightarrow> u16 \<Rightarrow> u8 list option" where
  "arp_myaddr n type =
     (if type = ARPRTYPE_IP then
        map_option (\<lambda>ifa. map (\<lambda>i. ucast (drop_bit i (ia_addr ifa))) [24, 16, 8, 0]) (if_af2ifaddr (netif.truncate n) AF_INET)
      else None)"

definition if_ready :: "anetif \<Rightarrow> bool" where
  "if_ready n \<longleftrightarrow> nif_flags n AND (IFF_UP OR IFF_RUNNING) = IFF_UP OR IFF_RUNNING"

text \<open>The fields of a packet, and the offsets of the addresses in it.\<close>

definition pk16 :: "u8 list \<Rightarrow> nat \<Rightarrow> u16" where
  "pk16 p i = be16 (p ! i) (p ! (i + 1))"

definition phwlen :: "u8 list \<Rightarrow> nat" where "phwlen p = unat (p ! 4)"
definition pprlen :: "u8 list \<Rightarrow> nat" where "pprlen p = unat (p ! 5)"
definition ARP_SHW :: "u8 list \<Rightarrow> nat" where "ARP_SHW p = 8"
definition ARP_SPR :: "u8 list \<Rightarrow> nat" where "ARP_SPR p = 8 + phwlen p"
definition ARP_DHW :: "u8 list \<Rightarrow> nat" where "ARP_DHW p = 8 + phwlen p + pprlen p"
definition ARP_DPR :: "u8 list \<Rightarrow> nat" where "ARP_DPR p = 8 + 2 * phwlen p + pprlen p"
definition ARP_LEN :: "u8 list \<Rightarrow> nat" where "ARP_LEN p = 8 + 2 * (phwlen p + pprlen p)"

text \<open>\<^verbatim>\<open>memcpy\<close> of \<open>n\<close> bytes to an offset of the packet; \<open>None\<close> when it reads or writes outside.\<close>

definition put_at :: "nat \<Rightarrow> u8 list \<Rightarrow> nat \<Rightarrow> u8 list \<Rightarrow> u8 list option" where
  "put_at off src n p =
     (if n \<le> length src \<and> off + n \<le> length p then Some (take off p @ take n src @ drop (off + n) p) else None)"

definition bytes_eq :: "u8 list \<Rightarrow> u8 list \<Rightarrow> nat \<Rightarrow> bool option" where
  "bytes_eq a b n = (if n \<le> length a \<and> n \<le> length b then Some (take n a = take n b) else None)"

definition put16 :: "nat \<Rightarrow> u16 \<Rightarrow> u8 list \<Rightarrow> u8 list" where
  "put16 off w p = p[off := ucast (drop_bit 8 w), off + 1 := ucast w]"

definition arp_dosend :: "nat \<Rightarrow> u8 list \<Rightarrow> u16 \<Rightarrow> arp \<Rightarrow> arp option" where
  "arp_dosend nif p pktype st = do {
     n \<leftarrow> anifs st nif;
     Some (if \<not> if_ready n then log_ev [Release p] st
           else log_ev [Output nif p (drop (ARP_DHW p) p) (phwlen p) pktype] st)
   }"

text \<open>
  The request packet; \<open>bufok\<close> tells whether \<^verbatim>\<open>buf_alloc\<close> has memory, \<open>call\<close> are the event
  functions.
\<close>

definition arp_request :: "arp_entry \<Rightarrow> anetif \<Rightarrow> u8 list \<Rightarrow> u8 list option" where
  "arp_request e n myaddr =
     (let hl = hlen (ahwaddr e); pl = hlen (apraddr e);
          p0 = put16 6 AROP_ARPREQ (put16 2 (aprtype e) (put16 0 (ahwtype e) (replicate (8 + 2 * (pl + hl)) 0)));
          p = p0[4 := word_of_nat hl, 5 := word_of_nat pl]
      in do {
        p1 \<leftarrow> put_at (ARP_SPR p) myaddr pl p;
        p2 \<leftarrow> put_at (ARP_SHW p) (hbytes (hwlocal n)) hl p1;
        p3 \<leftarrow> put_at (ARP_DPR p) (hbytes (apraddr e)) pl p2;
        put_at (ARP_DHW p) (hbytes (hwbrcst n)) hl p3
      })"

definition arp_sendreq :: "handler \<Rightarrow> (arp \<Rightarrow> bool) \<Rightarrow> nat \<Rightarrow> arp \<Rightarrow> arp option" where
  "arp_sendreq call bufok a st = do {
     e0 \<leftarrow> ents st a;
     let e = e0\<lparr>aretries := aretries e0 + 1\<rparr>;
     let st1 = set_ent a e st;
     if aretries e > ARP_RETRIES then do {
       st2 \<leftarrow> arp_remove a st1;
       rarp_remove a st2
     } else do {
       n \<leftarrow> anifs st1 (anif e);
       case arp_myaddr n (aprtype e) of
         None \<Rightarrow> Some st1
       | Some myaddr \<Rightarrow>
           if \<not> bufok st1 then Some st1
           else do {
             p \<leftarrow> arp_request e n myaddr;
             tm \<leftarrow> event_add call a ARP_RETRANS ARP_TIMEOUT (word_of_nat a) (event_del a (atimer st1));
             arp_dosend (anif e) p PKTYPE_ARP (st1\<lparr>atimer := tm\<rparr>)
           }
     }
   }"

definition arp_timeout :: "handler \<Rightarrow> (arp \<Rightarrow> bool) \<Rightarrow> nat \<Rightarrow> arp \<Rightarrow> arp option" where
  "arp_timeout call bufok a st = do {
     e \<leftarrow> ents st a;
     if aflags e AND ATF_COM = ATF_COM then
       (if \<not> on (aflags e) ATF_PERM then do { st1 \<leftarrow> arp_remove a st; rarp_remove a st1 } else Some st)
     else if on (aflags e) ATF_PRCOM then arp_sendreq call bufok a st
     else Some st
   }"

section \<open>Lookup\<close>

definition arp_alloc :: "(arp \<Rightarrow> nat option) \<Rightarrow> arp \<Rightarrow> (nat \<times> arp) option" where
  "arp_alloc kmalloc st =
     (case kmalloc st of
        None \<Rightarrow> None
      | Some a \<Rightarrow> Some (a, set_ent a
          \<lparr>alinks = 0, aflags = 0, ahwtype = 0, aprtype = 0,
           apraddr = \<lparr>hlen = 0, hbytes = replicate 10 0\<rparr>, ahwaddr = \<lparr>hlen = 0, hbytes = replicate 10 0\<rparr>,
           anif = 0, aoutq = \<lparr>maxqlen = IF_MAXQ, qlen = 0, curr = 0, qlists = (\<lambda>_. [])\<rparr>,
           aretries = 0, prnext = 0, hwnext = 0\<rparr> st))"

text \<open>
  \<open>nif = 0\<close> stands for the null pointer: any interface. \<open>addr\<close> is the memory from the
  pointer on. The comparison reads \<open>len\<close> bytes of both sides, so it is outside the entry for
  a length above ten.
\<close>

definition pr_cand :: "nat \<Rightarrow> u16 \<Rightarrow> arp_entry \<Rightarrow> bool" where
  "pr_cand nif type e \<longleftrightarrow> on (aflags e) ATF_PRCOM \<and> aprtype e = type \<and> (nif = 0 \<or> anif e = nif)"

definition arp_search :: "nat \<Rightarrow> u16 \<Rightarrow> nat \<Rightarrow> u8 list \<Rightarrow> nat \<Rightarrow> arp \<Rightarrow> nat option" where
  "arp_search nif type len addr idx st = do {
     c \<leftarrow> search prnext (\<lambda>_. pr_cand nif type) (ents st) (arptab st idx);
     if c \<noteq> 0 \<and> \<not> (len \<le> 10 \<and> len \<le> length addr) then None
     else search prnext (\<lambda>_ e. pr_cand nif type e \<and> take len addr = take len (hbytes (apraddr e))) (ents st) (arptab st idx)
   }"

definition arp_lookup ::
  "(arp \<Rightarrow> nat option) \<Rightarrow> handler \<Rightarrow> (arp \<Rightarrow> bool) \<Rightarrow> u16 \<Rightarrow> nat \<Rightarrow> u16 \<Rightarrow> nat \<Rightarrow> u8 list \<Rightarrow> arp \<Rightarrow> (nat \<times> arp) option" where
  "arp_lookup kmalloc call bufok flags nif type len addr st = do {
     idx \<leftarrow> arp_hash addr len;
     a \<leftarrow> arp_search nif type len addr idx st;
     if a \<noteq> 0 then do { e \<leftarrow> ents st a; Some (a, set_ent a (e\<lparr>alinks := alinks e + 1\<rparr>) st) }
     else if on flags ARLK_NOCREAT \<or> nif = 0 then Some (0, st)
     else case arp_alloc kmalloc st of
         None \<Rightarrow> Some (0, st)
       | Some (b, st1) \<Rightarrow> do {
           e \<leftarrow> ents st1 b;
           n \<leftarrow> anifs st1 nif;
           if \<not> (len \<le> 10 \<and> len \<le> length addr) then None
           else do {
             let e1 = e\<lparr>alinks := 2, aflags := ATF_PRCOM, ahwtype := nhwtype n,
                 ahwaddr := (ahwaddr e)\<lparr>hlen := hlen (hwlocal n)\<rparr>, aprtype := type,
                 apraddr := \<lparr>hlen = len, hbytes = take len addr @ drop len (hbytes (apraddr e))\<rparr>,
                 anif := nif, prnext := arptab st1 idx\<rparr>;
             let st2 = (set_ent b e1 st1)\<lparr>arptab := (arptab st1)(idx := b)\<rparr>;
             st3 \<leftarrow> (if on flags ARLK_NORESOLV then Some st2 else arp_sendreq call bufok b st2);
             Some (b, st3)
           }
         }
   }"

definition hw_cand :: "nat \<Rightarrow> u16 \<Rightarrow> arp_entry \<Rightarrow> bool" where
  "hw_cand nif type e \<longleftrightarrow> on (aflags e) ATF_HWCOM \<and> ahwtype e = type \<and> (nif = 0 \<or> anif e = nif)"

definition rarp_lookup :: "nat \<Rightarrow> u16 \<Rightarrow> nat \<Rightarrow> u8 list \<Rightarrow> arp \<Rightarrow> (nat \<times> arp) option" where
  "rarp_lookup nif type len addr st = do {
     idx \<leftarrow> arp_hash addr len;
     c \<leftarrow> search hwnext (\<lambda>_. hw_cand nif type) (ents st) (rarptab st idx);
     if c \<noteq> 0 \<and> \<not> (len \<le> 10 \<and> len \<le> length addr) then None
     else do {
       a \<leftarrow> search hwnext (\<lambda>_ e. hw_cand nif type e \<and> take len addr = take len (hbytes (ahwaddr e))) (ents st) (rarptab st idx);
       if a = 0 then Some (0, st)
       else do { e \<leftarrow> ents st a; Some (a, set_ent a (e\<lparr>alinks := alinks e + 1\<rparr>) st) }
     }
   }"

section \<open>Packets\<close>

lemma dequeue_from_qlen: "dequeue_from i que q = (Some b, q') \<Longrightarrow> qlen q' = qlen q - 1"
  by (induction i que q rule: dequeue_from.induct) (auto simp: Let_def split: list.splits)

lemma if_dequeue_less: "if_dequeue q = (Some b, q') \<Longrightarrow> unat (qlen q') < unat (qlen q)"
proof -
  assume d: "if_dequeue q = (Some b, q')"
  then have "qlen q' = qlen q - 1" "0 < sint (qlen q)"
    by (auto simp: if_dequeue_def dest: dequeue_from_qlen split: if_splits)
  moreover from this(2) have "qlen q \<noteq> 0" by auto
  moreover from this have "0 < unat (qlen q)" by (simp add: unat_gt_0)
  ultimately show ?thesis by (simp add: unat_minus_one)
qed

text \<open>The queue of an entry, emptied in the order of \<^verbatim>\<open>if_dequeue\<close>.\<close>

function dequeue_all :: "'b ifq \<Rightarrow> 'b list \<times> 'b ifq" where
  "dequeue_all q =
     (case if_dequeue q of
        (None, q') \<Rightarrow> ([], q')
      | (Some b, q') \<Rightarrow> (let (bs, q'') = dequeue_all q' in (b # bs, q'')))"
  by pat_completeness auto

termination dequeue_all
  by (relation "measure (\<lambda>q. unat (qlen q))") (auto dest: if_dequeue_less [OF sym] if_dequeue_less)

definition arp_sendq :: "nat \<Rightarrow> arp \<Rightarrow> arp option" where
  "arp_sendq a st = do {
     e \<leftarrow> ents st a;
     n \<leftarrow> anifs st (anif e);
     Some (if \<not> if_ready n then
             (let (bs, q) = if_flushq (aoutq e) in log_ev (map Release bs) (set_ent a (e\<lparr>aoutq := q\<rparr>) st))
           else
             (let (bs, q) = dequeue_all (aoutq e)
              in log_ev (map (\<lambda>b. Output (anif e) b (hbytes (ahwaddr e)) (hlen (ahwaddr e)) PKTYPE_IP) bs)
                   (set_ent a (e\<lparr>aoutq := q\<rparr>) st)))
   }"

text \<open>Entering the hardware address of the sender into an entry, and sending what waited for it.\<close>

definition arp_resolved :: "handler \<Rightarrow> nat \<Rightarrow> arp \<Rightarrow> arp option" where
  "arp_resolved call a st = do {
     st1 \<leftarrow> rarp_put a st;
     e \<leftarrow> ents st1 a;
     let tm = event_del a (atimer st1);
     st2 \<leftarrow> (if \<not> on (aflags e) ATF_PERM
            then do { tm' \<leftarrow> event_add call a ARP_EXPIRE ARP_TIMEOUT (word_of_nat a) tm; Some (st1\<lparr>atimer := tm'\<rparr>) }
            else Some (st1\<lparr>atimer := tm\<rparr>));
     st3 \<leftarrow> arp_sendq a st2;
     arp_deref a st3
   }"

definition arp_learn :: "handler \<Rightarrow> nat \<Rightarrow> u8 list \<Rightarrow> nat \<Rightarrow> arp \<Rightarrow> arp option" where
  "arp_learn call a shw len st = do {
     st1 \<leftarrow> rarp_remove a st;
     e \<leftarrow> ents st1 a;
     bs \<leftarrow> put_at 0 shw len (hbytes (ahwaddr e));
     arp_resolved call a
       (set_ent a (e\<lparr>ahwaddr := (ahwaddr e)\<lparr>hbytes := bs\<rparr>, aflags := aflags e OR ATF_HWCOM\<rparr>) st1)
   }"

text \<open>The answer to a request: from the interface itself, or for an entry that is published.\<close>

definition arp_answer :: "u8 list \<Rightarrow> u8 list \<Rightarrow> u8 list \<Rightarrow> u8 list option" where
  "arp_answer pr hw p = do {
     p1 \<leftarrow> put_at (ARP_DPR p) (drop (ARP_SPR p) p) (pprlen p) p;
     p2 \<leftarrow> put_at (ARP_SPR p) pr (pprlen p) p1;
     put_at (ARP_SHW p) hw (phwlen p) p2
   }"

definition arp_input ::
  "(arp \<Rightarrow> nat option) \<Rightarrow> handler \<Rightarrow> (arp \<Rightarrow> bool) \<Rightarrow> nat \<Rightarrow> u8 list \<Rightarrow> arp \<Rightarrow> arp option" where
  "arp_input kmalloc call bufok nif p st = do {
     n \<leftarrow> anifs st nif;
     if length p < 8 \<or> length p \<noteq> ARP_LEN p then Some (log_ev [Release p] st)
     else if pk16 p 0 \<noteq> nhwtype n \<or> phwlen p \<noteq> hlen (hwlocal n) \<or> on (nif_flags n) IFF_NOARP then
       Some (log_ev [Release p] st)
     else case arp_myaddr n (pk16 p 2) of
       None \<Rightarrow> Some (log_ev [Release p] st)
     | Some myaddr \<Rightarrow> do {
         forme \<leftarrow> bytes_eq myaddr (drop (ARP_DPR p) p) (pprlen p);
         (a, st1) \<leftarrow> arp_lookup kmalloc call bufok (if forme then ARLK_NORESOLV else ARLK_NOCREAT)
           nif (pk16 p 2) (pprlen p) (drop (ARP_SPR p) p) st;
         st2 \<leftarrow> (if a \<noteq> 0 then arp_learn call a (drop (ARP_SHW p) p) (phwlen p) st1 else Some st1);
         if pk16 p 6 \<noteq> AROP_ARPREQ then Some (log_ev [Release p] st2)
         else do {
           p1 \<leftarrow> put_at (ARP_DHW p) (drop (ARP_SHW p) p) (phwlen p) (put16 6 AROP_ARPREP p);
           if forme then do {
             p2 \<leftarrow> arp_answer myaddr (hbytes (hwlocal n)) p1;
             st3 \<leftarrow> arp_dosend nif p2 PKTYPE_ARP st2;
             Some (log_ev [Release p2] st3)
           } else do {
             (b, st3) \<leftarrow> arp_lookup kmalloc call bufok ARLK_NOCREAT 0 (pk16 p 2) (pprlen p) (drop (ARP_DPR p1) p1) st2;
             if b = 0 then Some (log_ev [Release p1] st3)
             else do {
               e \<leftarrow> ents st3 b;
               (p2, st4) \<leftarrow> (if on (aflags e) ATF_PUBL \<and> aflags e AND ATF_COM = ATF_COM then do {
                   p2 \<leftarrow> arp_answer (hbytes (apraddr e)) (hbytes (ahwaddr e)) p1;
                   st4 \<leftarrow> arp_dosend nif p2 PKTYPE_ARP st3;
                   Some (p2, st4)
                 } else Some (p1, st3));
               st5 \<leftarrow> arp_deref b st4;
               Some (log_ev [Release p2] st5)
             }
           }
         }
       }
   }"

definition rarp_input :: "nat \<Rightarrow> u8 list \<Rightarrow> arp \<Rightarrow> arp option" where
  "rarp_input nif p st = do {
     n \<leftarrow> anifs st nif;
     if length p < 8 \<or> length p \<noteq> ARP_LEN p then Some (log_ev [Release p] st)
     else if pk16 p 6 \<noteq> AROP_RARPREQ \<or> phwlen p \<noteq> hlen (hwlocal n) \<or> pk16 p 0 \<noteq> nhwtype n \<or> on (nif_flags n) IFF_NOARP then
       Some (log_ev [Release p] st)
     else case arp_myaddr n (pk16 p 2) of
       None \<Rightarrow> Some (log_ev [Release p] st)
     | Some myaddr \<Rightarrow> do {
         (a, st1) \<leftarrow> rarp_lookup nif (pk16 p 0) (phwlen p) (drop (ARP_SHW p) p) st;
         if a = 0 then Some (log_ev [Release p] st1)
         else do {
           e \<leftarrow> ents st1 a;
           (p', st2) \<leftarrow> (if aflags e AND (ATF_PRCOM OR ATF_NORARP) = ATF_PRCOM \<and> aprtype e = pk16 p 2 then do {
               p1 \<leftarrow> put_at (ARP_DPR p) (hbytes (apraddr e)) (pprlen p) (put16 6 AROP_RARPREP p);
               p2 \<leftarrow> put_at (ARP_DHW p) (drop (ARP_SHW p) p1) (phwlen p) p1;
               p3 \<leftarrow> put_at (ARP_SPR p) myaddr (pprlen p) p2;
               p4 \<leftarrow> put_at (ARP_SHW p) (hbytes (hwlocal n)) (phwlen p) p3;
               st2 \<leftarrow> arp_dosend nif p4 PKTYPE_RARP st1;
               Some (p4, st2)
             } else Some (p, st1));
           st3 \<leftarrow> arp_deref a st2;
           Some (log_ev [Release p'] st3)
         }
       }
   }"

section \<open>Flushing an interface\<close>

text \<open>The entry before \<open>c\<close> is \<open>prev\<close>; 0 stands for the slot of the table.\<close>

partial_function (option) flush_pr :: "nat \<Rightarrow> nat \<Rightarrow> nat \<Rightarrow> nat \<Rightarrow> arp \<Rightarrow> arp option" where
  "flush_pr nif idx prev c st =
     (if c = 0 then Some st
      else Option.bind (ents st c) (\<lambda>e.
        if anif e = nif then
          Option.bind (if prev = 0 then Some (st\<lparr>arptab := (arptab st)(idx := prnext e)\<rparr>)
                       else map_option (\<lambda>x. set_ent prev (x\<lparr>prnext := prnext e\<rparr>) st) (ents st prev)) (\<lambda>st1.
          Option.bind (arp_deref c st1) (\<lambda>st2. flush_pr nif idx prev (prnext e) st2))
        else flush_pr nif idx c (prnext e) st))"

partial_function (option) flush_hw :: "nat \<Rightarrow> nat \<Rightarrow> nat \<Rightarrow> nat \<Rightarrow> arp \<Rightarrow> arp option" where
  "flush_hw nif idx prev c st =
     (if c = 0 then Some st
      else Option.bind (ents st c) (\<lambda>e.
        if anif e = nif then
          Option.bind (if prev = 0 then Some (st\<lparr>rarptab := (rarptab st)(idx := hwnext e)\<rparr>)
                       else map_option (\<lambda>x. set_ent prev (x\<lparr>hwnext := hwnext e\<rparr>) st) (ents st prev)) (\<lambda>st1.
          Option.bind (arp_deref c st1) (\<lambda>st2. flush_hw nif idx prev (hwnext e) st2))
        else flush_hw nif idx c (hwnext e) st))"

primrec flush_slots :: "nat \<Rightarrow> nat list \<Rightarrow> arp \<Rightarrow> arp option" where
  "flush_slots nif [] st = Some st"
| "flush_slots nif (i # is) st = do {
     st1 \<leftarrow> flush_pr nif i 0 (arptab st i) st;
     st2 \<leftarrow> flush_hw nif i 0 (rarptab st1 i) st1;
     flush_slots nif is st2
   }"

definition arp_flush :: "nat \<Rightarrow> arp \<Rightarrow> arp option" where
  "arp_flush nif st = flush_slots nif [0..<ARP_HASHSIZE] st"

section \<open>Sending and the ioctls\<close>

abbreviation HWTYPE_ETH :: u16 where "HWTYPE_ETH \<equiv> 1"
abbreviation HWTYPE_NONE :: u16 where "HWTYPE_NONE \<equiv> 200"

definition addr_bytes :: "u32 \<Rightarrow> u8 list" where
  "addr_bytes w = map (\<lambda>i. ucast (drop_bit i w)) [24, 16, 8, 0]"

text \<open>\<open>drv\<close> is the value the output function of the driver returns.\<close>

definition if_send ::
  "(arp \<Rightarrow> nat option) \<Rightarrow> handler \<Rightarrow> (arp \<Rightarrow> bool) \<Rightarrow> (errno + unit) \<Rightarrow> nat \<Rightarrow> u8 list \<Rightarrow> u32 \<Rightarrow> bool \<Rightarrow> arp \<Rightarrow>
    ((errno + unit) \<times> arp) option" where
  "if_send kmalloc call bufok drv nif buf nexthop isbrcst st = do {
     n \<leftarrow> anifs st nif;
     if \<not> if_ready n then Some (Inl ENETUNREACH, log_ev [Release buf] st)
     else if sint (nhwtype n) \<ge> sint HWTYPE_NONE then
       Some (drv, log_ev [Output nif buf (addr_bytes nexthop) 4 PKTYPE_IP] st)
     else if nhwtype n = HWTYPE_ETH then
       (if isbrcst then Some (drv, log_ev [Output nif buf (hbytes (hwbrcst n)) (hlen (hwbrcst n)) PKTYPE_IP] st)
        else do {
          (a, st1) \<leftarrow> arp_lookup kmalloc call bufok 0 nif ARPRTYPE_IP 4 (addr_bytes nexthop) st;
          if a = 0 then Some (Inl ENOMEM, log_ev [Release buf] st1)
          else do {
            e \<leftarrow> ents st1 a;
            let (ret, st2) =
              (if aflags e AND ATF_COM = ATF_COM
               then (drv, log_ev [Output nif buf (hbytes (ahwaddr e)) (hlen (ahwaddr e)) PKTYPE_IP] st1)
               else (let (r, rel, q) = if_enqueue (aoutq e) buf (word_of_nat (IF_PRIORITIES - 1))
                     in (r, log_ev (map Release rel) (set_ent a (e\<lparr>aoutq := q\<rparr>) st1))));
            st3 \<leftarrow> arp_deref a st2;
            Some (ret, st3)
          }
        })
     else Some (Inl ENOSYS, log_ev [Release buf] st)
   }"

datatype arp_cmd = SIOCSARP | SIOCDARP | SIOCGARP | OTHER_CMD

text \<open>The request; the two socket addresses with the fields that are read.\<close>

record arp_req =
  rq_family :: u16
  rq_addr :: u32
  rhw_family :: u16
  rhw_type :: u16
  rhw_len :: u16
  rhw_addr :: "u8 list"
  rq_flags :: u16

definition get_praddr :: "arp_req \<Rightarrow> hwaddr option" where
  "get_praddr r =
     (if rq_family r = AF_INET then Some \<lparr>hlen = 4, hbytes = addr_bytes (rq_addr r) @ replicate 6 0\<rparr> else None)"

text \<open>\<open>junk\<close> is what the local variable held before.\<close>

definition get_hwaddr :: "u8 list \<Rightarrow> arp_req \<Rightarrow> (hwaddr \<times> u16) option" where
  "get_hwaddr junk r =
     (if rhw_family r = AF_LINK \<and> rhw_len r \<le> 10
      then Some (\<lparr>hlen = unat (rhw_len r),
                  hbytes = take (unat (rhw_len r)) (rhw_addr r) @ drop (unat (rhw_len r)) junk\<rparr>, rhw_type r)
      else None)"

definition put_hwaddr :: "hwaddr \<Rightarrow> u16 \<Rightarrow> arp_req \<Rightarrow> arp_req" where
  "put_hwaddr h type r =
     r\<lparr>rhw_family := AF_LINK, rhw_type := type, rhw_len := word_of_nat (hlen h),
       rhw_addr := take (min 8 (hlen h)) (hbytes h) @ drop (min 8 (hlen h)) (rhw_addr r)\<rparr>"

definition arp_set :: "handler \<Rightarrow> nat \<Rightarrow> hwaddr \<Rightarrow> u16 \<Rightarrow> u16 \<Rightarrow> arp \<Rightarrow> arp option" where
  "arp_set call a hw hwtype flags st = do {
     st1 \<leftarrow> rarp_remove a st;
     e \<leftarrow> ents st1 a;
     arp_resolved call a
       (set_ent a (e\<lparr>ahwtype := hwtype, ahwaddr := hw,
         aflags := ((aflags e OR ATF_HWCOM) AND NOT ATF_USRMASK) OR (flags AND ATF_USRMASK)\<rparr>) st1)
   }"

text \<open>The interface of \<^verbatim>\<open>SIOCSARP\<close>: the one the route to the address leads to directly.\<close>

definition arp_route_nif :: "u32 \<Rightarrow> routes \<Rightarrow> (nat option \<times> routes) option" where
  "arp_route_nif addr rts = do {
     (rt, rts1) \<leftarrow> route_get addr rts;
     case rt of
       None \<Rightarrow> Some (None, rts1)
     | Some r \<Rightarrow> do {
         h \<leftarrow> rheap rts1 r;
         rts2 \<leftarrow> route_deref r rts1;
         Some (if on (rt_flags h) RTF_GATEWAY then None else Some (rt_nif h), rts2)
       }
   }"

definition arp_ioctl ::
  "(arp \<Rightarrow> nat option) \<Rightarrow> handler \<Rightarrow> (arp \<Rightarrow> bool) \<Rightarrow> u8 list \<Rightarrow> nat \<Rightarrow> arp_cmd \<Rightarrow> arp_req \<Rightarrow> routes \<Rightarrow> arp \<Rightarrow>
    ((errno + arp_req) \<times> routes \<times> arp) option" where
  "arp_ioctl kmalloc call bufok junk euid cmd areq rts st =
     (case cmd of
        SIOCSARP \<Rightarrow>
          if euid \<noteq> 0 then Some (Inl EACCES, rts, st)
          else (case (get_praddr areq, get_hwaddr junk areq) of
            (Some pr, Some (hw, hwtype)) \<Rightarrow> do {
              (nif, rts1) \<leftarrow> arp_route_nif (rq_addr areq) rts;
              case nif of
                None \<Rightarrow> Some (Inl ENETUNREACH, rts1, st)
              | Some nf \<Rightarrow> do {
                  (a, st1) \<leftarrow> arp_lookup kmalloc call bufok ARLK_NORESOLV nf ARPRTYPE_IP (hlen pr) (hbytes pr) st;
                  if a = 0 then Some (Inl ENOMEM, rts1, st1)
                  else do {
                    st2 \<leftarrow> arp_set call a hw hwtype (rq_flags areq) st1;
                    Some (Inr areq, rts1, st2)
                  }
                }
            }
          | _ \<Rightarrow> Some (Inl ENOSYS, rts, st))
      | SIOCDARP \<Rightarrow>
          if euid \<noteq> 0 then Some (Inl EACCES, rts, st)
          else (case get_praddr areq of
            None \<Rightarrow> Some (Inl ENOSYS, rts, st)
          | Some pr \<Rightarrow> do {
              (a, st1) \<leftarrow> arp_lookup kmalloc call bufok ARLK_NOCREAT 0 ARPRTYPE_IP (hlen pr) (hbytes pr) st;
              if a = 0 then Some (Inl ENOENT, rts, st1)
              else do {
                st2 \<leftarrow> arp_remove a st1;
                st3 \<leftarrow> rarp_remove a st2;
                st4 \<leftarrow> arp_deref a st3;
                Some (Inr areq, rts, st4)
              }
            })
      | SIOCGARP \<Rightarrow>
          (case get_praddr areq of
            None \<Rightarrow> Some (Inl ENOSYS, rts, st)
          | Some pr \<Rightarrow> do {
              (a, st1) \<leftarrow> arp_lookup kmalloc call bufok ARLK_NOCREAT 0 ARPRTYPE_IP (hlen pr) (hbytes pr) st;
              if a = 0 then Some (Inl ENOENT, rts, st1)
              else do {
                e \<leftarrow> ents st1 a;
                st2 \<leftarrow> arp_deref a st1;
                Some (if on (aflags e) ATF_HWCOM
                      then Inr ((put_hwaddr (ahwaddr e) (ahwtype e) areq)\<lparr>rq_flags := aflags e\<rparr>)
                      else Inl ENOENT, rts, st2)
              }
            })
      | OTHER_CMD \<Rightarrow> Some (Inl ENOSYS, rts, st))"

section \<open>The invariant\<close>

interpretation prl: intrusive_list prnext "\<lambda>n e. e\<lparr>prnext := n\<rparr>"
  by unfold_locales simp

interpretation hwl: intrusive_list hwnext "\<lambda>n e. e\<lparr>hwnext := n\<rparr>"
  by unfold_locales simp

text \<open>
  \<open>pr\<close> and \<open>hw\<close> are the chains of the two tables and \<open>H\<close> the references others hold. Every
  entry of a chain hashes to it, and the reference count of an entry is the number of its
  chains and holders. The slots depend on the flags: without \<^verbatim>\<open>ATF_PRCOM\<close> or
  \<^verbatim>\<open>ATF_HWCOM\<close> the address is not valid.
\<close>

definition pr_slot :: "arp_entry \<Rightarrow> nat option" where
  "pr_slot e = (if on (aflags e) ATF_PRCOM then arp_hash (hbytes (apraddr e)) (hlen (apraddr e)) else None)"

definition hw_slot :: "arp_entry \<Rightarrow> nat option" where
  "hw_slot e = (if on (aflags e) ATF_HWCOM then arp_hash (hbytes (ahwaddr e)) (hlen (ahwaddr e)) else None)"

definition ent_ok :: "arp \<Rightarrow> arp_entry \<Rightarrow> bool" where
  "ent_ok st e \<longleftrightarrow> length (hbytes (apraddr e)) = 10 \<and> length (hbytes (ahwaddr e)) = 10 \<and> anifs st (anif e) \<noteq> None"

definition refs :: "(nat \<Rightarrow> nat list) \<Rightarrow> (nat \<Rightarrow> nat list) \<Rightarrow> (nat \<Rightarrow> nat) \<Rightarrow> nat \<Rightarrow> nat" where
  "refs pr hw H a = of_bool (\<exists>i. a \<in> set (pr i)) + of_bool (\<exists>i. a \<in> set (hw i)) + H a"

definition arp_inv :: "(nat \<Rightarrow> nat list) \<Rightarrow> (nat \<Rightarrow> nat list) \<Rightarrow> (nat \<Rightarrow> nat) \<Rightarrow> arp \<Rightarrow> bool" where
  "arp_inv pr hw H st \<longleftrightarrow>
     (\<forall>i. chain prnext (ents st) (arptab st i) (pr i)) \<and> (\<forall>i. chain hwnext (ents st) (rarptab st i) (hw i)) \<and>
     (\<forall>i x. x \<in> set (pr i) \<longrightarrow> (\<exists>e. ents st x = Some e \<and> pr_slot e = Some i)) \<and>
     (\<forall>i x. x \<in> set (hw i) \<longrightarrow> (\<exists>e. ents st x = Some e \<and> hw_slot e = Some i)) \<and>
     (\<forall>a. H a \<noteq> 0 \<longrightarrow> ents st a \<noteq> None) \<and>
     (\<forall>a e. ents st a = Some e \<longrightarrow> a \<noteq> 0 \<and> ent_ok st e \<and> alinks e \<noteq> 0 \<and> unat (alinks e) = refs pr hw H a)"

lemma arp_invD:
  assumes "arp_inv pr hw H st"
  shows "chain prnext (ents st) (arptab st i) (pr i)" "chain hwnext (ents st) (rarptab st i) (hw i)"
    "x \<in> set (pr i) \<Longrightarrow> \<exists>e. ents st x = Some e \<and> pr_slot e = Some i"
    "x \<in> set (hw i) \<Longrightarrow> \<exists>e. ents st x = Some e \<and> hw_slot e = Some i"
    "H a \<noteq> 0 \<Longrightarrow> ents st a \<noteq> None"
    "ents st a = Some e \<Longrightarrow> a \<noteq> 0" "ents st a = Some e \<Longrightarrow> ent_ok st e"
    "ents st a = Some e \<Longrightarrow> alinks e \<noteq> 0" "ents st a = Some e \<Longrightarrow> unat (alinks e) = refs pr hw H a"
  using assms unfolding arp_inv_def by auto

lemma arp_invI:
  assumes "\<And>i. chain prnext (ents st) (arptab st i) (pr i)" and "\<And>i. chain hwnext (ents st) (rarptab st i) (hw i)"
    and "\<And>i x. x \<in> set (pr i) \<Longrightarrow> \<exists>e. ents st x = Some e \<and> pr_slot e = Some i"
    and "\<And>i x. x \<in> set (hw i) \<Longrightarrow> \<exists>e. ents st x = Some e \<and> hw_slot e = Some i"
    and "\<And>a. H a \<noteq> 0 \<Longrightarrow> ents st a \<noteq> None"
    and "\<And>a e. ents st a = Some e \<Longrightarrow> a \<noteq> 0 \<and> ent_ok st e \<and> alinks e \<noteq> 0 \<and> unat (alinks e) = refs pr hw H a"
  shows "arp_inv pr hw H st"
  using assms unfolding arp_inv_def by auto

lemma arp_inv_frame:
  assumes "arp_inv pr hw H st" and "ents st' = ents st" and "arptab st' = arptab st" and "rarptab st' = rarptab st"
    and "\<And>n. anifs st n \<noteq> None \<Longrightarrow> anifs st' n \<noteq> None"
  shows "arp_inv pr hw H st'"
  using assms unfolding arp_inv_def ent_ok_def by auto

lemma chain_upd_same:
  assumes "m a = Some e" and "nxt e' = nxt e"
  shows "chain nxt (m(a \<mapsto> e')) p xs = chain nxt m p xs"
  by (rule chain_frame) (use assms in auto)

text \<open>A change of an entry that keeps its links and its slots.\<close>

lemma arp_upd:
  assumes inv: "arp_inv pr hw H st" and e: "ents st a = Some e" and l: "prnext e' = prnext e" "hwnext e' = hwnext e"
    and s: "\<And>i. a \<in> set (pr i) \<Longrightarrow> pr_slot e' = pr_slot e" "\<And>i. a \<in> set (hw i) \<Longrightarrow> hw_slot e' = hw_slot e"
    and ok: "ent_ok st e'" "alinks e' \<noteq> 0" "unat (alinks e') = refs pr hw (H(a := k)) a"
  shows "arp_inv pr hw (H(a := k)) (set_ent a e' st)"
proof (rule arp_invI)
  fix i x
  show "chain prnext (ents (set_ent a e' st)) (arptab (set_ent a e' st) i) (pr i)"
    using arp_invD(1) [OF inv, of i] chain_upd_same [where nxt = prnext and m = "ents st", OF e l(1)] by (simp add: set_ent_def)
  show "chain hwnext (ents (set_ent a e' st)) (rarptab (set_ent a e' st) i) (hw i)"
    using arp_invD(2) [OF inv, of i] chain_upd_same [where nxt = hwnext and m = "ents st", OF e l(2)] by (simp add: set_ent_def)
  show "\<exists>d. ents (set_ent a e' st) x = Some d \<and> pr_slot d = Some i" if "x \<in> set (pr i)"
    using arp_invD(3) [OF inv that] s(1) [of i] that e by (auto simp: set_ent_def)
  show "\<exists>d. ents (set_ent a e' st) x = Some d \<and> hw_slot d = Some i" if "x \<in> set (hw i)"
    using arp_invD(4) [OF inv that] s(2) [of i] that e by (auto simp: set_ent_def)
next
  fix x assume "(H(a := k)) x \<noteq> 0"
  then show "ents (set_ent a e' st) x \<noteq> None" using arp_invD(5) [OF inv, of x] by (auto simp: set_ent_def split: if_splits)
next
  fix x d assume d: "ents (set_ent a e' st) x = Some d"
  show "x \<noteq> 0 \<and> ent_ok (set_ent a e' st) d \<and> alinks d \<noteq> 0 \<and> unat (alinks d) = refs pr hw (H(a := k)) x"
  proof (cases "x = a")
    case True
    then show ?thesis using d ok arp_invD(6) [OF inv e] by (simp add: set_ent_def ent_ok_def)
  next
    case False
    then have "ents st x = Some d" using d by (simp add: set_ent_def)
    with arp_invD(6-9) [OF inv this] False show ?thesis by (simp add: set_ent_def ent_ok_def refs_def)
  qed
qed

section \<open>Giving up references\<close>

lemma unat_dec: "x \<noteq> 0 \<Longrightarrow> unat (x - 1 :: u16) = unat x - 1"
  by (simp add: unat_minus_one)

lemma unat_dec_0: "x \<noteq> 0 \<Longrightarrow> (x - 1 :: u16) = 0 \<longleftrightarrow> unat x = 1"
  using unat_dec [of x] unat_gt_0 [of x] by (metis One_nat_def Suc_pred diff_self_eq_0 unsigned_eq_0_iff)

lemma arp_free_inv:
  assumes inv: "arp_inv pr hw H st" and e: "ents st a = Some e" and z: "refs pr hw (H(a := 0)) a = 0"
    and l: "st' = set_ent a (e\<lparr>alinks := 0\<rparr>) st"
  shows "\<exists>st''. arp_free a st' = Some st'' \<and> arp_inv pr hw (H(a := 0)) st'' \<and> ents st'' = (ents st)(a := None) \<and>
    arptab st'' = arptab st \<and> rarptab st'' = rarptab st"
proof -
  from arp_invD(7) [OF inv e] obtain n where n: "anifs st (anif e) = Some n" by (auto simp: ent_ok_def)
  let ?st = "log_ev (map Release (fst (if_flushq (aoutq e))))
    (st\<lparr>anifs := (anifs st)(anif e \<mapsto> n\<lparr>out_errors := out_errors n + ucast (qlen (aoutq e))\<rparr>),
        atimer := event_del a (atimer st), ents := (ents st)(a := None)\<rparr>)"
  have f: "arp_free a st' = Some ?st" using n by (simp add: arp_free_def l set_ent_def)
  have no: "a \<notin> set (pr i)" "a \<notin> set (hw i)" for i using z by (auto simp: refs_def split: if_splits)
  have "arp_inv pr hw (H(a := 0)) ?st"
  proof (rule arp_invI)
    fix i x
    show "chain prnext (ents ?st) (arptab ?st i) (pr i)"
      using arp_invD(1) [OF inv, of i] no(1) [of i] by (subst chain_frame [where m = "ents st"]) (auto simp: log_ev_def)
    show "chain hwnext (ents ?st) (rarptab ?st i) (hw i)"
      using arp_invD(2) [OF inv, of i] no(2) [of i] by (subst chain_frame [where m = "ents st"]) (auto simp: log_ev_def)
    show "\<exists>d. ents ?st x = Some d \<and> pr_slot d = Some i" if "x \<in> set (pr i)"
      using arp_invD(3) [OF inv that] no(1) [of i] that by (auto simp: log_ev_def)
    show "\<exists>d. ents ?st x = Some d \<and> hw_slot d = Some i" if "x \<in> set (hw i)"
      using arp_invD(4) [OF inv that] no(2) [of i] that by (auto simp: log_ev_def)
  next
    fix x assume "(H(a := 0)) x \<noteq> 0"
    then show "ents ?st x \<noteq> None" using arp_invD(5) [OF inv, of x] by (auto simp: log_ev_def split: if_splits)
  next
    fix x d assume "ents ?st x = Some d"
    then have x: "x \<noteq> a" "ents st x = Some d" by (auto simp: log_ev_def split: if_splits)
    with arp_invD(6-9) [OF inv x(2)]
    show "x \<noteq> 0 \<and> ent_ok ?st d \<and> alinks d \<noteq> 0 \<and> unat (alinks d) = refs pr hw (H(a := 0)) x"
      by (auto simp: log_ev_def ent_ok_def refs_def)
  qed
  with f show ?thesis by (simp add: log_ev_def)
qed

lemma arp_deref_inv:
  assumes inv: "arp_inv pr hw H st" and h: "H a = Suc k" and e: "ents st a = Some e"
  shows "\<exists>st'. arp_deref a st = Some st' \<and> arp_inv pr hw (H(a := k)) st' \<and>
    ents st' = (ents st)(a := if refs pr hw (H(a := k)) a = 0 then None else Some (e\<lparr>alinks := alinks e - 1\<rparr>)) \<and>
    arptab st' = arptab st \<and> rarptab st' = rarptab st \<and>
    (refs pr hw (H(a := k)) a \<noteq> 0 \<longrightarrow> atimer st' = atimer st \<and> trace st' = trace st \<and> anifs st' = anifs st)"
proof -
  have links: "alinks e \<noteq> 0" "unat (alinks e) = refs pr hw (H(a := k)) a + 1"
    using arp_invD(8,9) [OF inv e] h by (auto simp: refs_def)
  show ?thesis
  proof (cases "refs pr hw (H(a := k)) a = 0")
    case True
    then have k: "k = 0" by (simp add: refs_def)
    have "alinks e - 1 = 0" by (simp only: unat_dec_0 [OF links(1)] links(2) True add_0)
    then have "arp_deref a st = arp_free a (set_ent a (e\<lparr>alinks := 0\<rparr>) st)" using e by (simp add: arp_deref_def)
    with arp_free_inv [OF inv e _ refl] True k show ?thesis by auto
  next
    case False
    have n: "alinks e - 1 \<noteq> 0" using False by (simp only: unat_dec_0 [OF links(1)] links(2))
    let ?e = "e\<lparr>alinks := alinks e - 1\<rparr>"
    have "arp_inv pr hw (H(a := k)) (set_ent a ?e st)"
      using links n unat_dec [OF links(1)] arp_invD(7) [OF inv e]
      by (intro arp_upd [OF inv e]) (simp_all add: pr_slot_def hw_slot_def ent_ok_def)
    moreover have "arp_deref a st = Some (set_ent a ?e st)" using e n by (simp add: arp_deref_def)
    ultimately show ?thesis using False by (simp add: set_ent_def)
  qed
qed

lemma arp_hash_Some: "length addr = 10 \<Longrightarrow> \<exists>i. arp_hash addr len = Some i"
  by (simp add: arp_hash_def Let_def)

text \<open>What the chains may change of an entry, and what a removal keeps.\<close>

definition core :: "arp_entry \<Rightarrow> arp_entry" where
  "core e = e\<lparr>alinks := 0, prnext := 0, hwnext := 0\<rparr>"

definition kept :: "nat \<Rightarrow> arp_entry \<Rightarrow> bool \<Rightarrow> arp \<Rightarrow> arp \<Rightarrow> bool" where
  "kept a e gone st st' \<longleftrightarrow>
     (\<forall>x. x \<noteq> a \<longrightarrow> map_option core (ents st' x) = map_option core (ents st x)) \<and>
     (if gone then ents st' a = None
      else (\<exists>l. ents st' a = Some (e\<lparr>alinks := l\<rparr>)) \<and> atimer st' = atimer st \<and> trace st' = trace st \<and> anifs st' = anifs st)"

lemma core_links [simp]: "core (e\<lparr>prnext := n\<rparr>) = core e" "core (e\<lparr>hwnext := n\<rparr>) = core e" "core (e\<lparr>alinks := l\<rparr>) = core e"
  by (simp_all add: core_def)

lemma slot_links [simp]:
  "pr_slot (e\<lparr>prnext := n\<rparr>) = pr_slot e" "pr_slot (e\<lparr>hwnext := n\<rparr>) = pr_slot e" "pr_slot (e\<lparr>alinks := l\<rparr>) = pr_slot e"
  "hw_slot (e\<lparr>prnext := n\<rparr>) = hw_slot e" "hw_slot (e\<lparr>hwnext := n\<rparr>) = hw_slot e" "hw_slot (e\<lparr>alinks := l\<rparr>) = hw_slot e"
  by (simp_all add: pr_slot_def hw_slot_def)

text \<open>The chains of protocol addresses may change as long as the references stay the same.\<close>

lemma pr_chains_change:
  assumes inv: "arp_inv pr hw H st"
    and m: "\<And>x. ents st' x = map_option (\<lambda>e. e\<lparr>prnext := f x\<rparr>) (ents st x)"
    and c: "\<And>i. chain prnext (ents st') (arptab st' i) (pr' i)"
    and sub: "\<And>i. set (pr' i) \<subseteq> set (pr i)" and r: "\<And>x. refs pr' hw H' x = refs pr hw H x"
    and h: "\<And>x. H' x \<noteq> 0 \<Longrightarrow> ents st x \<noteq> None"
    and o: "rarptab st' = rarptab st" "anifs st' = anifs st"
  shows "arp_inv pr' hw H' st'"
proof (rule arp_invI)
  fix i x
  show "chain prnext (ents st') (arptab st' i) (pr' i)" by (rule c)
  have "chain hwnext (ents st') (rarptab st' i) (hw i) = chain hwnext (ents st) (rarptab st' i) (hw i)"
    by (rule chain_frame) (simp add: m option.map_comp comp_def)
  with arp_invD(2) [OF inv, of i] show "chain hwnext (ents st') (rarptab st' i) (hw i)" by (simp add: o(1))
  show "\<exists>e. ents st' x = Some e \<and> pr_slot e = Some i" if "x \<in> set (pr' i)"
    using arp_invD(3) [OF inv subsetD [OF sub that]] m [of x] by auto
  show "\<exists>e. ents st' x = Some e \<and> hw_slot e = Some i" if "x \<in> set (hw i)"
    using arp_invD(4) [OF inv, of x i] that m [of x] by auto
next
  fix x assume "H' x \<noteq> 0" then show "ents st' x \<noteq> None" using h [of x] m [of x] by simp
next
  fix x d assume "ents st' x = Some d"
  with m [of x] obtain e where e: "ents st x = Some e" "d = e\<lparr>prnext := f x\<rparr>"
    by (cases "ents st x") auto
  with arp_invD(6-9) [OF inv e(1)] r [of x] o(2)
  show "x \<noteq> 0 \<and> ent_ok st' d \<and> alinks d \<noteq> 0 \<and> unat (alinks d) = refs pr' hw H' x" by (simp add: ent_ok_def)
qed

lemma pr_in_slot: "arp_inv pr hw H st \<Longrightarrow> ents st a = Some e \<Longrightarrow> a \<in> set (pr i) \<Longrightarrow> pr_slot e = Some i"
  using arp_invD(3) [of pr hw H st a i] by auto

text \<open>Taking an entry off its chain leaves the reference of the chain in the hand.\<close>

lemma pr_unlinked:
  assumes inv: "arp_inv pr hw H st" and a: "a \<in> set (pr idx)" "ents st a = Some e"
    and m: "ents st' = (ents st)(p \<mapsto> x\<lparr>prnext := y\<rparr>)" "ents st p = Some x" "p \<in> set (pr idx)"
    and c: "chain prnext (ents st') (arptab st' idx) (remove1 a (pr idx))"
    and o: "\<And>i. i \<noteq> idx \<Longrightarrow> arptab st' i = arptab st i" "rarptab st' = rarptab st" "anifs st' = anifs st"
  shows "arp_inv (\<lambda>i. remove1 a (pr i)) hw (H(a := Suc (H a))) st'"
proof (rule pr_chains_change [OF inv, where f = "\<lambda>z. if z = p then y else prnext (the (ents st z))"])
  note sl = pr_in_slot [OF inv]
  fix i z
  show "ents st' z = map_option (\<lambda>e. e\<lparr>prnext := if z = p then y else prnext (the (ents st z))\<rparr>) (ents st z)"
    using m by (cases "ents st z") auto
  show "chain prnext (ents st') (arptab st' i) (remove1 a (pr i))"
  proof (cases "i = idx")
    case False
    then have n: "a \<notin> set (pr i)" "p \<notin> set (pr i)"
      using sl [OF a(2), of i] sl [OF a(2,1)] sl [OF m(2), of i] sl [OF m(2,3)] by auto
    then have "chain prnext (ents st') (arptab st i) (pr i)"
      using arp_invD(1) [OF inv, of i] m(1) by (subst chain_frame [where m = "ents st"]) auto
    with n o(1) [OF False] show ?thesis by (simp add: remove1_idem)
  qed (use c in simp)
  show "set (remove1 a (pr i)) \<subseteq> set (pr i)" by (rule set_remove1_subset)
  have d: "distinct (pr i)" for i by (rule chain_distinct [OF arp_invD(1) [OF inv]])
  have "(\<exists>i. z \<in> set (remove1 a (pr i))) \<longleftrightarrow> z \<noteq> a \<and> (\<exists>i. z \<in> set (pr i))" using d by auto
  then show "refs (\<lambda>i. remove1 a (pr i)) hw (H(a := Suc (H a))) z = refs pr hw H z"
    using a(1) by (auto simp: refs_def)
  show "ents st z \<noteq> None" if "(H(a := Suc (H a))) z \<noteq> 0"
    using arp_invD(5) [OF inv, of z] a(2) that by (auto split: if_splits)
qed (use o in simp_all)

lemma arp_remove_inv:
  assumes inv: "arp_inv pr hw H st" and e: "ents st a = Some e"
  shows "\<exists>st'. arp_remove a st = Some st' \<and> arp_inv (\<lambda>i. remove1 a (pr i)) hw H st' \<and> rarptab st' = rarptab st \<and>
    kept a e (refs (\<lambda>i. remove1 a (pr i)) hw H a = 0) st st'"
proof (cases "\<exists>i. a \<in> set (pr i)")
  case False
  then have idem: "(\<lambda>i. remove1 a (pr i)) = pr" by (auto simp: remove1_idem)
  have "refs pr hw H a \<noteq> 0" using arp_invD(8,9) [OF inv e] by (metis unsigned_eq_0_iff)
  moreover have "arp_remove a st = Some st"
  proof (cases "on (aflags e) ATF_PRCOM")
    case True
    obtain idx where i: "arp_hash (hbytes (apraddr e)) (hlen (apraddr e)) = Some idx"
      using arp_invD(7) [OF inv e] arp_hash_Some by (auto simp: ent_ok_def)
    from prl.unlink_absent [OF arp_invD(1) [OF inv, of idx] _ arp_invD(6) [OF inv e]] False True e i
    show ?thesis by (simp add: arp_remove_def)
  qed (use e in \<open>simp add: arp_remove_def\<close>)
  moreover have "kept a e False st st" using e by (auto simp: kept_def intro: exI [of _ "alinks e"])
  ultimately show ?thesis using inv by (auto simp: idem)
next
  case True
  then obtain idx where a: "a \<in> set (pr idx)" by blast
  from pr_in_slot [OF inv e a] have flag: "on (aflags e) ATF_PRCOM"
    and i: "arp_hash (hbytes (apraddr e)) (hlen (apraddr e)) = Some idx" by (auto simp: pr_slot_def split: if_splits)
  note u = prl.unlink_any [OF arp_invD(1) [OF inv, of idx] a e]
  let ?pr = "\<lambda>i. remove1 a (pr i)"
  have "\<exists>st1. arp_remove a st = arp_deref a st1 \<and> arp_inv ?pr hw (H(a := Suc (H a))) st1 \<and> ents st1 a = Some e \<and>
    rarptab st1 = rarptab st \<and> atimer st1 = atimer st \<and> trace st1 = trace st \<and> anifs st1 = anifs st \<and>
    (\<forall>x. map_option core (ents st1 x) = map_option core (ents st x))"
  proof (cases "arptab st idx = a")
    case h: True
    let ?st = "st\<lparr>arptab := (arptab st)(idx := prnext e)\<rparr>"
    have "arp_inv ?pr hw (H(a := Suc (H a))) ?st"
      using u h e by (intro pr_unlinked [OF inv a e, where p = a and x = e and y = "prnext e"]) (auto simp: a fun_upd_idem)
    with h e flag i show ?thesis by (intro exI [of _ ?st]) (simp add: arp_remove_def)
  next
    case False
    with u obtain p x where p: "search prnext (\<lambda>_ ob. prnext ob = a) (ents st) (arptab st idx) = Some p" "p \<noteq> 0" "p \<noteq> a"
      "p \<in> set (pr idx)" "ents st p = Some x"
      "chain prnext ((ents st)(p \<mapsto> x\<lparr>prnext := prnext e\<rparr>)) (arptab st idx) (remove1 a (pr idx))" by auto
    let ?st = "set_ent p (x\<lparr>prnext := prnext e\<rparr>) st"
    have "arp_inv ?pr hw (H(a := Suc (H a))) ?st"
      using p by (intro pr_unlinked [OF inv a e, where p = p and x = x and y = "prnext e"]) (auto simp: set_ent_def)
    with False p e flag i show ?thesis by (intro exI [of _ ?st]) (simp add: arp_remove_def set_ent_def)
  qed
  then obtain st1 where st1: "arp_remove a st = arp_deref a st1" "arp_inv ?pr hw (H(a := Suc (H a))) st1" "ents st1 a = Some e"
    "rarptab st1 = rarptab st" "atimer st1 = atimer st" "trace st1 = trace st" "anifs st1 = anifs st"
    "\<forall>x. map_option core (ents st1 x) = map_option core (ents st x)" by (elim exE conjE) (rule that)
  have h: "(H(a := Suc (H a))) a = Suc (H a)" and hh: "(H(a := Suc (H a)))(a := H a) = H" by auto
  from arp_deref_inv [OF st1(2) h st1(3)] obtain st' where
    st': "arp_deref a st1 = Some st'" "arp_inv ?pr hw H st'"
      "ents st' = (ents st1)(a := if refs ?pr hw H a = 0 then None else Some (e\<lparr>alinks := alinks e - 1\<rparr>))"
      "arptab st' = arptab st1" "rarptab st' = rarptab st1" "refs ?pr hw H a \<noteq> 0 \<longrightarrow> atimer st' = atimer st1 \<and> trace st' = trace st1 \<and> anifs st' = anifs st1"
    unfolding hh by (elim exE conjE) (rule that)
  have "kept a e (refs ?pr hw H a = 0) st st'"
    using st'(3,6) st1(5-8) by (auto simp: kept_def)
  with st' st1(1,4) show ?thesis by auto
qed

text \<open>The chains of hardware addresses may change as long as the references stay the same.\<close>

lemma hw_chains_change:
  assumes inv: "arp_inv pr hw H st"
    and m: "\<And>x. ents st' x = map_option (\<lambda>e. e\<lparr>hwnext := f x\<rparr>) (ents st x)"
    and c: "\<And>i. chain hwnext (ents st') (rarptab st' i) (hw' i)"
    and sub: "\<And>i. set (hw' i) \<subseteq> set (hw i)" and r: "\<And>x. refs pr hw' H' x = refs pr hw H x"
    and h: "\<And>x. H' x \<noteq> 0 \<Longrightarrow> ents st x \<noteq> None"
    and o: "arptab st' = arptab st" "anifs st' = anifs st"
  shows "arp_inv pr hw' H' st'"
proof (rule arp_invI)
  fix i x
  show "chain hwnext (ents st') (rarptab st' i) (hw' i)" by (rule c)
  have "chain prnext (ents st') (arptab st' i) (pr i) = chain prnext (ents st) (arptab st' i) (pr i)"
    by (rule chain_frame) (simp add: m option.map_comp comp_def)
  with arp_invD(1) [OF inv, of i] show "chain prnext (ents st') (arptab st' i) (pr i)" by (simp add: o(1))
  show "\<exists>e. ents st' x = Some e \<and> hw_slot e = Some i" if "x \<in> set (hw' i)"
    using arp_invD(4) [OF inv subsetD [OF sub that]] m [of x] by auto
  show "\<exists>e. ents st' x = Some e \<and> pr_slot e = Some i" if "x \<in> set (pr i)"
    using arp_invD(3) [OF inv, of x i] that m [of x] by auto
next
  fix x assume "H' x \<noteq> 0" then show "ents st' x \<noteq> None" using h [of x] m [of x] by simp
next
  fix x d assume "ents st' x = Some d"
  with m [of x] obtain e where e: "ents st x = Some e" "d = e\<lparr>hwnext := f x\<rparr>"
    by (cases "ents st x") auto
  with arp_invD(6-9) [OF inv e(1)] r [of x] o(2)
  show "x \<noteq> 0 \<and> ent_ok st' d \<and> alinks d \<noteq> 0 \<and> unat (alinks d) = refs pr hw' H' x" by (simp add: ent_ok_def)
qed

lemma hw_in_slot: "arp_inv pr hw H st \<Longrightarrow> ents st a = Some e \<Longrightarrow> a \<in> set (hw i) \<Longrightarrow> hw_slot e = Some i"
  using arp_invD(4) [of pr hw H st a i] by auto

text \<open>Taking an entry off its chain leaves the reference of the chain in the hand.\<close>

lemma hw_unlinked:
  assumes inv: "arp_inv pr hw H st" and a: "a \<in> set (hw idx)" "ents st a = Some e"
    and m: "ents st' = (ents st)(p \<mapsto> x\<lparr>hwnext := y\<rparr>)" "ents st p = Some x" "p \<in> set (hw idx)"
    and c: "chain hwnext (ents st') (rarptab st' idx) (remove1 a (hw idx))"
    and o: "\<And>i. i \<noteq> idx \<Longrightarrow> rarptab st' i = rarptab st i" "arptab st' = arptab st" "anifs st' = anifs st"
  shows "arp_inv pr (\<lambda>i. remove1 a (hw i)) (H(a := Suc (H a))) st'"
proof (rule hw_chains_change [OF inv, where f = "\<lambda>z. if z = p then y else hwnext (the (ents st z))"])
  note sl = hw_in_slot [OF inv]
  fix i z
  show "ents st' z = map_option (\<lambda>e. e\<lparr>hwnext := if z = p then y else hwnext (the (ents st z))\<rparr>) (ents st z)"
    using m by (cases "ents st z") auto
  show "chain hwnext (ents st') (rarptab st' i) (remove1 a (hw i))"
  proof (cases "i = idx")
    case False
    then have n: "a \<notin> set (hw i)" "p \<notin> set (hw i)"
      using sl [OF a(2), of i] sl [OF a(2,1)] sl [OF m(2), of i] sl [OF m(2,3)] by auto
    then have "chain hwnext (ents st') (rarptab st i) (hw i)"
      using arp_invD(2) [OF inv, of i] m(1) by (subst chain_frame [where m = "ents st"]) auto
    with n o(1) [OF False] show ?thesis by (simp add: remove1_idem)
  qed (use c in simp)
  show "set (remove1 a (hw i)) \<subseteq> set (hw i)" by (rule set_remove1_subset)
  have d: "distinct (hw i)" for i by (rule chain_distinct [OF arp_invD(2) [OF inv]])
  have "(\<exists>i. z \<in> set (remove1 a (hw i))) \<longleftrightarrow> z \<noteq> a \<and> (\<exists>i. z \<in> set (hw i))" using d by auto
  then show "refs pr (\<lambda>i. remove1 a (hw i)) (H(a := Suc (H a))) z = refs pr hw H z"
    using a(1) by (auto simp: refs_def)
  show "ents st z \<noteq> None" if "(H(a := Suc (H a))) z \<noteq> 0"
    using arp_invD(5) [OF inv, of z] a(2) that by (auto split: if_splits)
qed (use o in simp_all)

lemma rarp_remove_inv:
  assumes inv: "arp_inv pr hw H st" and e: "ents st a = Some e"
  shows "\<exists>st'. rarp_remove a st = Some st' \<and> arp_inv pr (\<lambda>i. remove1 a (hw i)) H st' \<and> arptab st' = arptab st \<and>
    kept a e (refs pr (\<lambda>i. remove1 a (hw i)) H a = 0) st st'"
proof (cases "\<exists>i. a \<in> set (hw i)")
  case False
  then have idem: "(\<lambda>i. remove1 a (hw i)) = hw" by (auto simp: remove1_idem)
  have "refs pr hw H a \<noteq> 0" using arp_invD(8,9) [OF inv e] by (metis unsigned_eq_0_iff)
  moreover have "rarp_remove a st = Some st"
  proof (cases "on (aflags e) ATF_HWCOM")
    case True
    obtain idx where i: "arp_hash (hbytes (ahwaddr e)) (hlen (ahwaddr e)) = Some idx"
      using arp_invD(7) [OF inv e] arp_hash_Some by (auto simp: ent_ok_def)
    from hwl.unlink_absent [OF arp_invD(2) [OF inv, of idx] _ arp_invD(6) [OF inv e]] False True e i
    show ?thesis by (simp add: rarp_remove_def)
  qed (use e in \<open>simp add: rarp_remove_def\<close>)
  moreover have "kept a e False st st" using e by (auto simp: kept_def intro: exI [of _ "alinks e"])
  ultimately show ?thesis using inv by (auto simp: idem)
next
  case True
  then obtain idx where a: "a \<in> set (hw idx)" by blast
  from hw_in_slot [OF inv e a] have flag: "on (aflags e) ATF_HWCOM"
    and i: "arp_hash (hbytes (ahwaddr e)) (hlen (ahwaddr e)) = Some idx" by (auto simp: hw_slot_def split: if_splits)
  note u = hwl.unlink_any [OF arp_invD(2) [OF inv, of idx] a e]
  let ?hw = "\<lambda>i. remove1 a (hw i)"
  have "\<exists>st1. rarp_remove a st = arp_deref a st1 \<and> arp_inv pr ?hw (H(a := Suc (H a))) st1 \<and> ents st1 a = Some e \<and>
    arptab st1 = arptab st \<and> atimer st1 = atimer st \<and> trace st1 = trace st \<and> anifs st1 = anifs st \<and>
    (\<forall>x. map_option core (ents st1 x) = map_option core (ents st x))"
  proof (cases "rarptab st idx = a")
    case h: True
    let ?st = "st\<lparr>rarptab := (rarptab st)(idx := hwnext e)\<rparr>"
    have "arp_inv pr ?hw (H(a := Suc (H a))) ?st"
      using u h e by (intro hw_unlinked [OF inv a e, where p = a and x = e and y = "hwnext e"]) (auto simp: a fun_upd_idem)
    with h e flag i show ?thesis by (intro exI [of _ ?st]) (simp add: rarp_remove_def)
  next
    case False
    with u obtain p x where p: "search hwnext (\<lambda>_ ob. hwnext ob = a) (ents st) (rarptab st idx) = Some p" "p \<noteq> 0" "p \<noteq> a"
      "p \<in> set (hw idx)" "ents st p = Some x"
      "chain hwnext ((ents st)(p \<mapsto> x\<lparr>hwnext := hwnext e\<rparr>)) (rarptab st idx) (remove1 a (hw idx))" by auto
    let ?st = "set_ent p (x\<lparr>hwnext := hwnext e\<rparr>) st"
    have "arp_inv pr ?hw (H(a := Suc (H a))) ?st"
      using p by (intro hw_unlinked [OF inv a e, where p = p and x = x and y = "hwnext e"]) (auto simp: set_ent_def)
    with False p e flag i show ?thesis by (intro exI [of _ ?st]) (simp add: rarp_remove_def set_ent_def)
  qed
  then obtain st1 where st1: "rarp_remove a st = arp_deref a st1" "arp_inv pr ?hw (H(a := Suc (H a))) st1" "ents st1 a = Some e"
    "arptab st1 = arptab st" "atimer st1 = atimer st" "trace st1 = trace st" "anifs st1 = anifs st"
    "\<forall>x. map_option core (ents st1 x) = map_option core (ents st x)" by (elim exE conjE) (rule that)
  have h: "(H(a := Suc (H a))) a = Suc (H a)" and hh: "(H(a := Suc (H a)))(a := H a) = H" by auto
  from arp_deref_inv [OF st1(2) h st1(3)] obtain st' where
    st': "arp_deref a st1 = Some st'" "arp_inv pr ?hw H st'"
      "ents st' = (ents st1)(a := if refs pr ?hw H a = 0 then None else Some (e\<lparr>alinks := alinks e - 1\<rparr>))"
      "arptab st' = arptab st1" "rarptab st' = rarptab st1" "refs pr ?hw H a \<noteq> 0 \<longrightarrow> atimer st' = atimer st1 \<and> trace st' = trace st1 \<and> anifs st' = anifs st1"
    unfolding hh by (elim exE conjE) (rule that)
  have "kept a e (refs pr ?hw H a = 0) st st'"
    using st'(3,6) st1(5-8) by (auto simp: kept_def)
  with st' st1(1,4) show ?thesis by auto
qed

section \<open>Resolving an entry\<close>

lemma rarp_put_inv:
  assumes inv: "arp_inv pr hw H st" and e: "ents st a = Some e" and n: "\<And>i. a \<notin> set (hw i)"
    and s: "hw_slot e = Some idx" and b: "H a < 65534"
  shows "\<exists>st' l. rarp_put a st = Some st' \<and> arp_inv pr (hw(idx := a # hw idx)) H st' \<and>
    ents st' = (ents st)(a \<mapsto> e\<lparr>alinks := l, hwnext := rarptab st idx\<rparr>) \<and>
    arptab st' = arptab st \<and> atimer st' = atimer st \<and> trace st' = trace st \<and> anifs st' = anifs st"
proof -
  let ?e = "e\<lparr>alinks := alinks e + 1, hwnext := rarptab st idx\<rparr>"
  let ?st = "(set_ent a ?e st)\<lparr>rarptab := (rarptab st)(idx := a)\<rparr>" and ?hw = "hw(idx := a # hw idx)"
  have l: "unat (alinks e) = of_bool (\<exists>i. a \<in> set (pr i)) + H a" using arp_invD(9) [OF inv e] n by (simp add: refs_def)
  then have l1: "unat (alinks e + 1) = unat (alinks e) + 1" using b by (simp add: unat_word_ariths of_bool_def)
  have "rarp_put a st = Some ?st" using e s by (simp add: rarp_put_def hw_slot_def split: if_splits)
  moreover have "arp_inv pr ?hw H ?st"
  proof (rule arp_invI)
    fix i x
    show "chain prnext (ents ?st) (arptab ?st i) (pr i)"
      using arp_invD(1) [OF inv, of i] chain_upd_same [where nxt = prnext and m = "ents st" and e' = ?e, OF e]
      by (simp add: set_ent_def)
    have c: "chain hwnext (ents ?st) (rarptab st j) (hw j)" for j
      using arp_invD(2) [OF inv, of j] n [of j] by (subst chain_frame [where m = "ents st"]) (auto simp: set_ent_def)
    have "ents ?st a = Some ?e" by (simp add: set_ent_def)
    then have "chain hwnext (ents ?st) a (a # hw idx)" using c [of idx] arp_invD(6) [OF inv e] by (simp del: select_convs)
    with c [of i] show "chain hwnext (ents ?st) (rarptab ?st i) (?hw i)" by (cases "i = idx") simp_all
    show "\<exists>d. ents ?st x = Some d \<and> pr_slot d = Some i" if "x \<in> set (pr i)"
      using arp_invD(3) [OF inv that] e by (auto simp: set_ent_def)
    show "\<exists>d. ents ?st x = Some d \<and> hw_slot d = Some i" if "x \<in> set (?hw i)"
    proof (cases "x = a")
      case True
      then have "i = idx" using that n [of i] by (auto split: if_splits)
      then show ?thesis using True s by (simp add: set_ent_def)
    next
      case False
      then have "x \<in> set (hw i)" using that by (auto split: if_splits)
      from arp_invD(4) [OF inv this] False show ?thesis by (simp add: set_ent_def)
    qed
  next
    fix x assume "H x \<noteq> 0" then show "ents ?st x \<noteq> None" using arp_invD(5) [OF inv, of x] by (simp add: set_ent_def)
  next
    fix x d assume d: "ents ?st x = Some d"
    show "x \<noteq> 0 \<and> ent_ok ?st d \<and> alinks d \<noteq> 0 \<and> unat (alinks d) = refs pr ?hw H x"
    proof (cases "x = a")
      case True
      then have d: "d = ?e" using d by (simp add: set_ent_def)
      have "unat (alinks d) \<noteq> 0" using l1 d by simp
      then have "alinks d \<noteq> 0" by (metis unsigned_0)
      moreover have "\<exists>i. a \<in> set (?hw i)" by (rule exI [of _ idx]) simp
      then have "refs pr ?hw H a = unat (alinks e) + 1" using l by (simp add: refs_def del: fun_upd_apply)
      ultimately show ?thesis using True d l1 arp_invD(6,7) [OF inv e] by (simp add: ent_ok_def set_ent_def)
    next
      case False
      then have x: "ents st x = Some d" using d by (simp add: set_ent_def)
      have "(\<exists>i. x \<in> set (?hw i)) \<longleftrightarrow> (\<exists>i. x \<in> set (hw i))" using False by (auto split: if_splits)
      then have "refs pr ?hw H x = refs pr hw H x" by (simp only: refs_def)
      with arp_invD(6-9) [OF inv x] show ?thesis by (simp add: ent_ok_def set_ent_def)
    qed
  qed
  ultimately show ?thesis by (intro exI [of _ ?st] exI [of _ "alinks e + 1"]) (simp add: set_ent_def)
qed

text \<open>The packets that leave when an entry is resolved.\<close>

definition queue_events :: "anetif \<Rightarrow> arp_entry \<Rightarrow> arp_event list" where
  "queue_events n e =
     (if if_ready n then map (\<lambda>b. Output (anif e) b (hbytes (ahwaddr e)) (hlen (ahwaddr e)) PKTYPE_IP) (fst (dequeue_all (aoutq e)))
      else map Release (fst (if_flushq (aoutq e))))"

lemma arp_sendq_inv:
  assumes inv: "arp_inv pr hw H st" and e: "ents st a = Some e" and n: "anifs st (anif e) = Some n"
  shows "\<exists>st' q. arp_sendq a st = Some st' \<and> arp_inv pr hw H st' \<and> ents st' = (ents st)(a \<mapsto> e\<lparr>aoutq := q\<rparr>) \<and>
    arptab st' = arptab st \<and> rarptab st' = rarptab st \<and> atimer st' = atimer st \<and> anifs st' = anifs st \<and>
    trace st' = trace st @ queue_events n e"
proof -
  define q where "q = (if if_ready n then snd (dequeue_all (aoutq e)) else snd (if_flushq (aoutq e)))"
  let ?st = "log_ev (queue_events n e) (set_ent a (e\<lparr>aoutq := q\<rparr>) st)"
  have "arp_sendq a st = Some ?st"
    using e n by (simp add: arp_sendq_def q_def queue_events_def split_beta Let_def)
  moreover have "arp_inv pr hw (H(a := H a)) (set_ent a (e\<lparr>aoutq := q\<rparr>) st)"
    using arp_invD(7-9) [OF inv e] by (intro arp_upd [OF inv e]) (simp_all add: pr_slot_def hw_slot_def ent_ok_def)
  then have "arp_inv pr hw H ?st" by (simp add: log_ev_def arp_inv_frame)
  ultimately show ?thesis by (intro exI [of _ ?st] exI [of _ q]) (simp add: log_ev_def set_ent_def)
qed

text \<open>The timer has room for the expiry of an entry.\<close>

definition expire_ok :: "handler \<Rightarrow> nat \<Rightarrow> timer \<Rightarrow> bool" where
  "expire_ok call a tm \<longleftrightarrow>
     event_add call a ARP_EXPIRE ARP_TIMEOUT (word_of_nat a) (event_del a tm) \<noteq> None"

lemma arp_resolved_inv:
  assumes inv: "arp_inv pr hw H st" and h: "H a = Suc k" "H a < 65534" and e: "ents st a = Some e"
    and no: "\<And>i. a \<notin> set (hw i)" and s: "hw_slot e = Some idx" and n: "anifs st (anif e) = Some n"
    and tm: "on (aflags e) ATF_PERM \<or> expire_ok call a (atimer st)"
  shows "\<exists>st' l x q. arp_resolved call a st = Some st' \<and> arp_inv pr (hw(idx := a # hw idx)) (H(a := k)) st' \<and>
    ents st' = (ents st)(a \<mapsto> e\<lparr>alinks := l, hwnext := x, aoutq := q\<rparr>) \<and>
    arptab st' = arptab st \<and> anifs st' = anifs st \<and> trace st' = trace st @ queue_events n e"
proof -
  let ?hw = "hw(idx := a # hw idx)"
  from rarp_put_inv [OF inv e no s h(2)] obtain st1 l where
    1: "rarp_put a st = Some st1" "arp_inv pr ?hw H st1" "ents st1 = (ents st)(a \<mapsto> e\<lparr>alinks := l, hwnext := rarptab st idx\<rparr>)"
      "arptab st1 = arptab st" "atimer st1 = atimer st" "trace st1 = trace st" "anifs st1 = anifs st"
    by (elim exE conjE) (rule that)
  let ?e1 = "e\<lparr>alinks := l, hwnext := rarptab st idx\<rparr>"
  obtain tm where t: "(if \<not> on (aflags ?e1) ATF_PERM
      then do { tm' \<leftarrow> event_add call a ARP_EXPIRE ARP_TIMEOUT (word_of_nat a) (event_del a (atimer st1)); Some (st1\<lparr>atimer := tm'\<rparr>) }
      else Some (st1\<lparr>atimer := event_del a (atimer st1)\<rparr>)) = Some (st1\<lparr>atimer := tm\<rparr>)"
    using tm 1(5) by (cases "on (aflags e) ATF_PERM") (auto simp: expire_ok_def)
  let ?st2 = "st1\<lparr>atimer := tm\<rparr>"
  have inv2: "arp_inv pr ?hw H ?st2" by (rule arp_inv_frame [OF 1(2)]) simp_all
  have e2: "ents ?st2 a = Some ?e1" "anifs ?st2 (anif ?e1) = Some n" using 1(3,7) n by simp_all
  from arp_sendq_inv [OF inv2 e2] obtain st3 q where
    3: "arp_sendq a ?st2 = Some st3" "arp_inv pr ?hw H st3" "ents st3 = (ents ?st2)(a \<mapsto> ?e1\<lparr>aoutq := q\<rparr>)"
      "arptab st3 = arptab ?st2" "anifs st3 = anifs ?st2" "trace st3 = trace ?st2 @ queue_events n ?e1"
    by (elim exE conjE) (rule that)
  have e3: "ents st3 a = Some (?e1\<lparr>aoutq := q\<rparr>)" by (simp add: 3(3))
  have "a \<in> set (?hw idx)" by simp
  then have r: "refs pr ?hw (H(a := k)) a \<noteq> 0" unfolding refs_def by (auto simp del: fun_upd_apply)
  from arp_deref_inv [OF 3(2) h(1) e3] r obtain st' where
    4: "arp_deref a st3 = Some st'" "arp_inv pr ?hw (H(a := k)) st'"
      "ents st' = (ents st3)(a \<mapsto> ?e1\<lparr>aoutq := q, alinks := l - 1\<rparr>)"
      "arptab st' = arptab st3" "anifs st' = anifs st3" "trace st' = trace st3"
    by (auto simp del: fun_upd_apply)
  have ev: "queue_events n ?e1 = queue_events n e" by (simp add: queue_events_def)
  have e1: "ents st1 a = Some ?e1" using 1(3) by simp
  have "arp_resolved call a st = Some st'"
    unfolding arp_resolved_def using 1(1) t 3(1) 4(1) e1 by (simp add: Let_def)
  moreover have "ents st' = (ents st)(a \<mapsto> e\<lparr>alinks := l - 1, hwnext := rarptab st idx, aoutq := q\<rparr>)"
    using 4(3) 3(3) 1(3) by (cases e) simp
  ultimately show ?thesis using 4(2,4-6) 3(4-6) 1(4,6,7) ev
    by (intro exI [of _ st'] exI [of _ "l - 1"] exI [of _ "rarptab st idx"] exI [of _ q]) simp
qed

lemma on_or: "on (f OR g) x \<longleftrightarrow> on f x \<or> on g x"
  by (simp add: on_def bit.conj_disj_distrib2 or_eq_0_iff)

text \<open>The state of an entry with a hardware address of \<open>len\<close> bytes entered.\<close>

definition with_hw :: "u8 list \<Rightarrow> nat \<Rightarrow> arp_entry \<Rightarrow> arp_entry" where
  "with_hw shw len e = e\<lparr>ahwaddr := (ahwaddr e)\<lparr>hbytes := take len shw @ drop len (hbytes (ahwaddr e))\<rparr>,
     aflags := aflags e OR ATF_HWCOM\<rparr>"

lemma with_hw_slot: "pr_slot (with_hw shw len e) = pr_slot e"
proof -
  have "\<not> on ATF_HWCOM ATF_PRCOM" by (simp add: on_def)
  then show ?thesis by (simp add: pr_slot_def with_hw_def on_or)
qed

lemma arp_learn_inv:
  assumes inv: "arp_inv pr hw H st" and h: "H a = Suc k" "H a < 65534" and e: "ents st a = Some e"
    and n: "anifs st (anif e) = Some n" and len: "len \<le> 10" "len \<le> length shw"
    and tm: "on (aflags e) ATF_PERM \<or> expire_ok call a (atimer st)"
  shows "\<exists>st' hw' l x q. arp_learn call a shw len st = Some st' \<and> arp_inv pr hw' (H(a := k)) st' \<and>
    ents st' a = Some ((with_hw shw len e)\<lparr>alinks := l, hwnext := x, aoutq := q\<rparr>) \<and>
    (\<forall>x. x \<noteq> a \<longrightarrow> map_option core (ents st' x) = map_option core (ents st x)) \<and>
    anifs st' = anifs st \<and> trace st' = trace st @ queue_events n (with_hw shw len e)"
proof -
  let ?hw = "\<lambda>i. remove1 a (hw i)"
  have ne: "refs pr ?hw H a \<noteq> 0" using h(1) by (simp add: refs_def)
  from rarp_remove_inv [OF inv e] obtain st1 where
    1: "rarp_remove a st = Some st1" "arp_inv pr ?hw H st1" "kept a e (refs pr ?hw H a = 0) st st1" by blast
  from 1(3) ne obtain l1 where k: "ents st1 a = Some (e\<lparr>alinks := l1\<rparr>)" "atimer st1 = atimer st" "trace st1 = trace st"
    "anifs st1 = anifs st" "\<forall>x. x \<noteq> a \<longrightarrow> map_option core (ents st1 x) = map_option core (ents st x)"
    by (auto simp: kept_def)
  let ?e1 = "e\<lparr>alinks := l1\<rparr>" and ?e2 = "with_hw shw len (e\<lparr>alinks := l1\<rparr>)"
  have ok: "ent_ok st1 ?e1" "alinks ?e1 \<noteq> 0" "unat (alinks ?e1) = refs pr ?hw H a" using arp_invD(7-9) [OF 1(2) k(1)] by auto
  have no: "a \<notin> set (?hw i)" for i using chain_distinct [OF arp_invD(2) [OF inv]] by auto
  have len2: "length (hbytes (ahwaddr e)) = 10" using ok(1) by (simp add: ent_ok_def)
  have b: "put_at 0 shw len (hbytes (ahwaddr e)) = Some (take len shw @ drop len (hbytes (ahwaddr e)))"
    using len len2 by (simp add: put_at_def)
  have e2: "?e2 = ?e1\<lparr>ahwaddr := (ahwaddr e)\<lparr>hbytes := take len shw @ drop len (hbytes (ahwaddr e))\<rparr>, aflags := aflags e OR ATF_HWCOM\<rparr>"
    by (simp add: with_hw_def)
  have lenh: "length (hbytes (ahwaddr ?e2)) = 10" using len len2 by (simp add: with_hw_def)
  let ?st2 = "set_ent a ?e2 st1"
  have inv2: "arp_inv pr ?hw (H(a := H a)) ?st2"
    using ok lenh no by (intro arp_upd [OF 1(2) k(1)]) (auto simp: with_hw_slot, auto simp: with_hw_def ent_ok_def)
  have "on (aflags ?e2) ATF_HWCOM" by (simp add: with_hw_def on_or) (simp add: on_def)
  then obtain idx where s: "hw_slot ?e2 = Some idx" using arp_hash_Some [OF lenh] by (auto simp: hw_slot_def)
  have t: "on (aflags ?e2) ATF_PERM \<or> expire_ok call a (atimer ?st2)"
    using tm k(2) by (auto simp: with_hw_def on_or set_ent_def)
  have e': "ents ?st2 a = Some ?e2" "anifs ?st2 (anif ?e2) = Some n" using n k(4) by (simp_all add: set_ent_def with_hw_def)
  from arp_resolved_inv [OF inv2 [unfolded fun_upd_triv] h e'(1) no s e'(2) t] obtain st' l x q where
    3: "arp_resolved call a ?st2 = Some st'" "arp_inv pr (?hw(idx := a # ?hw idx)) (H(a := k)) st'"
      "ents st' = (ents ?st2)(a \<mapsto> ?e2\<lparr>alinks := l, hwnext := x, aoutq := q\<rparr>)" "arptab st' = arptab ?st2"
      "anifs st' = anifs ?st2" "trace st' = trace ?st2 @ queue_events n ?e2"
    by (elim exE conjE) (rule that)
  have "arp_learn call a shw len st = Some st'"
    unfolding arp_learn_def using 1(1) k(1) b 3(1) by (simp add: e2)
  moreover have "ents st' a = Some ((with_hw shw len e)\<lparr>alinks := l, hwnext := x, aoutq := q\<rparr>)"
    by (simp add: 3(3) with_hw_def)
  moreover have "queue_events n ?e2 = queue_events n (with_hw shw len e)" by (simp add: queue_events_def with_hw_def)
  moreover have "\<forall>x. x \<noteq> a \<longrightarrow> map_option core (ents st' x) = map_option core (ents st x)"
    using k(5) by (simp add: 3(3) set_ent_def)
  ultimately show ?thesis using 3(2,5,6) k(3,4) by (auto simp: set_ent_def)
qed

section \<open>Lookup\<close>

lemma be32_top:
  "drop_bit 24 (be32 a b c d) = ucast a" "drop_bit 16 (be32 a b c d) = push_bit 8 (ucast a) OR ucast b"
  "drop_bit 8 (be32 a b c d) = push_bit 16 (ucast a) OR push_bit 8 (ucast b) OR ucast c" "drop_bit 32 (be32 a b c d) = 0"
  by (rule bit_eqI; auto simp: be32_def bit_simps dest: bit_imp_le_length)+

text \<open>The hash of an address depends on the bytes that count only.\<close>

lemma arp_hash_prefix:
  assumes "take len x = take len y" and "4 \<le> length x" and "4 \<le> length y"
  shows "arp_hash x len = arp_hash y len"
proof -
  have i: "x ! j = y ! j" if "j < len" for j
    using arg_cong [OF assms(1), of "\<lambda>z. z ! j"] that by simp
  consider "len = 0" | "len = 1" | "len = 2" | "len = 3" | "4 \<le> len" by linarith
  then show ?thesis
  proof cases
    case 5
    then have "x ! 0 = y ! 0" "x ! 1 = y ! 1" "x ! 2 = y ! 2" "x ! 3 = y ! 3" using i by simp_all
    with assms(2,3) 5 show ?thesis by (simp add: arp_hash_def)
  qed (use assms(2,3) i in \<open>simp_all add: arp_hash_def be32_top Let_def\<close>)
qed

definition addr_match :: "nat \<Rightarrow> u16 \<Rightarrow> nat \<Rightarrow> u8 list \<Rightarrow> arp_entry \<Rightarrow> bool" where
  "addr_match nif type len addr e \<longleftrightarrow> pr_cand nif type e \<and> take len addr = take len (hbytes (apraddr e))"

lemma arp_search_list:
  assumes "arp_inv pr hw H st" and "len \<le> 10" and "len \<le> length addr"
  shows "arp_search nif type len addr idx st =
    Some (case find (\<lambda>x. addr_match nif type len addr (the (ents st x))) (pr idx) of None \<Rightarrow> 0 | Some x \<Rightarrow> x)"
  using assms search_chain [OF arp_invD(1) [OF assms(1), of idx]] by (simp add: arp_search_def addr_match_def)

lemma arp_ref_inv:
  assumes inv: "arp_inv pr hw H st" and e: "ents st a = Some e" and b: "H a < 65533"
  shows "arp_inv pr hw (H(a := Suc (H a))) (set_ent a (e\<lparr>alinks := alinks e + 1\<rparr>) st)"
proof -
  have "unat (alinks e) < 65535" using arp_invD(9) [OF inv e] b by (auto simp: refs_def of_bool_def)
  then have l: "unat (alinks e + 1) = unat (alinks e) + 1" by (simp add: unat_word_ariths)
  then have "unat (alinks e + 1) \<noteq> 0" by simp
  then have "alinks e + 1 \<noteq> 0" by (metis unsigned_0)
  then show ?thesis using l arp_invD(7,9) [OF inv e]
    by (intro arp_upd [OF inv e]) (simp_all add: ent_ok_def refs_def)
qed

text \<open>The memory allocator returns an address that is not in use.\<close>

definition arp_fresh :: "(arp \<Rightarrow> nat option) \<Rightarrow> bool" where
  "arp_fresh kmalloc \<longleftrightarrow> (\<forall>st b. kmalloc st = Some b \<longrightarrow> b \<noteq> 0 \<and> ents st b = None)"

lemma arp_new_inv:
  assumes inv: "arp_inv pr hw H st" and b: "b \<noteq> 0" "ents st b = None"
    and e: "alinks e = 2" "ent_ok st e" "pr_slot e = Some idx" "prnext e = arptab st idx"
  shows "arp_inv (pr(idx := b # pr idx)) hw (H(b := 1)) ((set_ent b e st)\<lparr>arptab := (arptab st)(idx := b)\<rparr>)"
    (is "arp_inv ?pr hw ?H ?st")
proof (rule arp_invI)
  have no: "b \<notin> set (pr j)" "b \<notin> set (hw j)" for j using arp_invD(3,4) [OF inv, of b j] b(2) by auto
  have eb: "ents ?st b = Some e" by (simp add: set_ent_def)
  have c: "chain prnext (ents ?st) (arptab st j) (pr j)" for j
    using arp_invD(1) [OF inv, of j] no(1) [of j] by (subst chain_frame [where m = "ents st"]) (auto simp: set_ent_def)
  have cb: "chain prnext (ents ?st) b (b # pr idx)" using c [of idx] eb b(1) e(4) by (simp del: select_convs)
  fix i x
  show "chain prnext (ents ?st) (arptab ?st i) (?pr i)" using c [of i] cb by (cases "i = idx") simp_all
  show "chain hwnext (ents ?st) (rarptab ?st i) (hw i)"
    using arp_invD(2) [OF inv, of i] no(2) [of i] by (subst chain_frame [where m = "ents st"]) (auto simp: set_ent_def)
  show "\<exists>d. ents ?st x = Some d \<and> pr_slot d = Some i" if "x \<in> set (?pr i)"
  proof (cases "x = b")
    case True
    then have "i = idx" using that no(1) [of i] by (auto split: if_splits)
    then show ?thesis using True e(3) by (simp add: set_ent_def)
  next
    case False
    then have "x \<in> set (pr i)" using that by (auto split: if_splits)
    from arp_invD(3) [OF inv this] False show ?thesis by (simp add: set_ent_def)
  qed
  show "\<exists>d. ents ?st x = Some d \<and> hw_slot d = Some i" if "x \<in> set (hw i)"
    using arp_invD(4) [OF inv that] no(2) [of i] that by (auto simp: set_ent_def)
next
  fix x assume "?H x \<noteq> 0" then show "ents ?st x \<noteq> None" using arp_invD(5) [OF inv, of x] by (auto simp: set_ent_def split: if_splits)
next
  have no: "b \<notin> set (pr j)" "b \<notin> set (hw j)" for j using arp_invD(3,4) [OF inv, of b j] b(2) by auto
  fix x d assume d: "ents ?st x = Some d"
  show "x \<noteq> 0 \<and> ent_ok ?st d \<and> alinks d \<noteq> 0 \<and> unat (alinks d) = refs ?pr hw ?H x"
  proof (cases "x = b")
    case True
    have "\<exists>i. b \<in> set (?pr i)" by (rule exI [of _ idx]) simp
    then have "refs ?pr hw ?H b = 2" using no by (simp add: refs_def del: fun_upd_apply) simp
    with True d b e show ?thesis by (simp add: set_ent_def ent_ok_def)
  next
    case False
    then have x: "ents st x = Some d" using d by (simp add: set_ent_def)
    have "(\<exists>i. x \<in> set (?pr i)) \<longleftrightarrow> (\<exists>i. x \<in> set (pr i))" using False by (auto split: if_splits)
    then have "refs ?pr hw ?H x = refs pr hw H x" using False by (simp add: refs_def)
    with arp_invD(6-9) [OF inv x] show ?thesis by (simp add: ent_ok_def set_ent_def)
  qed
qed

text \<open>
  A lookup that does not resolve: it returns nothing and changes nothing, or an entry for
  the address with a reference for the caller, an old one or a new one.
\<close>

definition lookup_result :: "nat \<Rightarrow> u16 \<Rightarrow> nat \<Rightarrow> u8 list \<Rightarrow> arp \<Rightarrow> nat \<Rightarrow> arp_entry \<Rightarrow> arp \<Rightarrow> bool" where
  "lookup_result nif type len addr st a e st' \<longleftrightarrow>
     ents st' a = Some e \<and> addr_match nif type len addr e \<and>
     (\<forall>x. x \<noteq> a \<longrightarrow> ents st' x = ents st x) \<and> anifs st' = anifs st \<and> atimer st' = atimer st \<and> trace st' = trace st \<and>
     (case ents st a of
        Some e0 \<Rightarrow> e = e0\<lparr>alinks := alinks e0 + 1\<rparr>
      | None \<Rightarrow> aflags e = ATF_PRCOM \<and> qlists (aoutq e) = (\<lambda>_. []) \<and> qlen (aoutq e) = 0)"

lemma arp_lookup_found:
  assumes inv: "arp_inv pr hw H st" and b: "\<And>x. H x < 65533" and len: "len \<le> 10" "len \<le> length addr"
    and i: "arp_hash addr len = Some idx"
    and f: "find (\<lambda>x. addr_match nif type len addr (the (ents st x))) (pr idx) = Some a"
  shows "\<exists>st' e. arp_lookup kmalloc call bufok flags nif type len addr st = Some (a, st') \<and> a \<noteq> 0 \<and>
    arp_inv pr hw (H(a := Suc (H a))) st' \<and> lookup_result nif type len addr st a e st'"
proof -
  from find_SomeD [OF f] have a: "a \<in> set (pr idx)" "addr_match nif type len addr (the (ents st a))" by auto
  from arp_invD(3) [OF inv a(1)] obtain e where e: "ents st a = Some e" by auto
  let ?e = "e\<lparr>alinks := alinks e + 1\<rparr>"
  have "arp_lookup kmalloc call bufok flags nif type len addr st = Some (a, set_ent a ?e st)"
    using i f arp_search_list [OF inv len] arp_invD(6) [OF inv e] e by (simp add: arp_lookup_def)
  moreover have "lookup_result nif type len addr st a ?e (set_ent a ?e st)"
    using a(2) e by (auto simp: lookup_result_def set_ent_def addr_match_def pr_cand_def)
  ultimately show ?thesis using arp_ref_inv [OF inv e b] arp_invD(6) [OF inv e] by blast
qed

lemma arp_lookup_new:
  assumes inv: "arp_inv pr hw H st" and len: "len \<le> 10" "len \<le> length addr"
    and i: "arp_hash addr len = Some idx"
    and f: "find (\<lambda>x. addr_match nif type len addr (the (ents st x))) (pr idx) = None"
    and n: "nif \<noteq> 0" "anifs st nif = Some n" and k: "kmalloc st = Some b" "arp_fresh kmalloc"
  shows "\<exists>st' e. arp_lookup kmalloc call bufok ARLK_NORESOLV nif type len addr st = Some (b, st') \<and> b \<noteq> 0 \<and>
    arp_inv (pr(idx := b # pr idx)) hw (H(b := Suc (H b))) st' \<and> lookup_result nif type len addr st b e st'"
proof -
  from k have b: "b \<noteq> 0" "ents st b = None" by (auto simp: arp_fresh_def)
  then have h: "H b = 0" using arp_invD(5) [OF inv, of b] by auto
  let ?e = "\<lparr>alinks = 2, aflags = ATF_PRCOM, ahwtype = nhwtype n, aprtype = type,
    apraddr = \<lparr>hlen = len, hbytes = take len addr @ drop len (replicate 10 0)\<rparr>,
    ahwaddr = \<lparr>hlen = hlen (hwlocal n), hbytes = replicate 10 0\<rparr>, anif = nif,
    aoutq = \<lparr>maxqlen = IF_MAXQ, qlen = 0, curr = 0, qlists = (\<lambda>_. [])\<rparr>, aretries = 0, prnext = arptab st idx, hwnext = 0\<rparr>"
  let ?st = "(set_ent b ?e st)\<lparr>arptab := (arptab st)(idx := b)\<rparr>"
  have c: "\<not> on ARLK_NORESOLV ARLK_NOCREAT" "on ARLK_NORESOLV ARLK_NORESOLV" "on ATF_PRCOM ATF_PRCOM" by (simp_all add: on_def)
  have "arp_lookup kmalloc call bufok ARLK_NORESOLV nif type len addr st = Some (b, ?st)"
    using i f arp_search_list [OF inv len] n k(1) c len by (simp add: arp_lookup_def arp_alloc_def set_ent_def)
  moreover have "arp_hash (hbytes (apraddr ?e)) len = Some idx"
  proof -
    have "arp_hash (hbytes (apraddr ?e)) len = arp_hash addr len"
      using i len by (intro arp_hash_prefix) (auto simp: arp_hash_def split: if_splits)
    with i show ?thesis by simp
  qed
  then have "arp_inv (pr(idx := b # pr idx)) hw (H(b := 1)) ?st"
    using len n c by (intro arp_new_inv [OF inv b]) (auto simp: ent_ok_def pr_slot_def)
  moreover have "lookup_result nif type len addr st b ?e ?st"
    using b(2) c len by (auto simp: lookup_result_def set_ent_def addr_match_def pr_cand_def)
  ultimately show ?thesis using b h by (intro exI [of _ ?st] exI [of _ ?e]) simp
qed

lemma arp_lookup_inv:
  assumes inv: "arp_inv pr hw H st" and b: "\<And>x. H x < 65533" and len: "len \<le> 10" "len \<le> length addr" "4 \<le> length addr"
    and k: "arp_fresh kmalloc" and fl: "flags = ARLK_NOCREAT \<or> flags = ARLK_NORESOLV \<and> nif \<noteq> 0 \<and> anifs st nif \<noteq> None"
  shows "\<exists>a st' pr' e. arp_lookup kmalloc call bufok flags nif type len addr st = Some (a, st') \<and>
    (if a = 0 then st' = st \<and> (flags = ARLK_NOCREAT \<or> kmalloc st = None) \<and> (\<forall>i x. x \<in> set (pr i) \<longrightarrow> arp_hash addr len = Some i \<longrightarrow> \<not> addr_match nif type len addr (the (ents st x)))
     else arp_inv pr' hw (H(a := Suc (H a))) st' \<and> (\<exists>i. a \<in> set (pr' i)) \<and> lookup_result nif type len addr st a e st')"
proof -
  from len(3) obtain idx where i: "arp_hash addr len = Some idx" by (auto simp: arp_hash_def Let_def)
  show ?thesis
  proof (cases "find (\<lambda>x. addr_match nif type len addr (the (ents st x))) (pr idx)")
    case (Some a)
    then have "a \<in> set (pr idx)" by (auto dest: find_SomeD)
    with arp_lookup_found [OF inv b len(1,2) i Some] show ?thesis by fastforce
  next
    case None
    have s: "arp_search nif type len addr idx st = Some 0" using arp_search_list [OF inv len(1,2)] None by simp
    have nm: "\<forall>j x. x \<in> set (pr j) \<longrightarrow> arp_hash addr len = Some j \<longrightarrow> \<not> addr_match nif type len addr (the (ents st x))"
      using None i by (auto simp: find_None_iff)
    show ?thesis
    proof (cases "flags = ARLK_NOCREAT \<or> kmalloc st = None")
      case True
      have "on ARLK_NOCREAT ARLK_NOCREAT" by (simp add: on_def)
      then have "arp_lookup kmalloc call bufok flags nif type len addr st = Some (0, st)"
        using True i s fl by (auto simp: arp_lookup_def arp_alloc_def)
      with nm True show ?thesis by auto
    next
      case False
      with fl obtain n b where "nif \<noteq> 0" "anifs st nif = Some n" "kmalloc st = Some b" "flags = ARLK_NORESOLV" by auto
      with arp_lookup_new [OF inv len(1,2) i None _ _ _ k] obtain st' e where
        "arp_lookup kmalloc call bufok flags nif type len addr st = Some (b, st')" "b \<noteq> 0"
        "arp_inv (pr(idx := b # pr idx)) hw (H(b := Suc (H b))) st'" "lookup_result nif type len addr st b e st'" by blast
      moreover have "\<exists>i. b \<in> set ((pr(idx := b # pr idx)) i)" by (rule exI [of _ idx]) simp
      ultimately show ?thesis by (auto simp del: fun_upd_apply)
    qed
  qed
qed

section \<open>Incoming packets\<close>

text \<open>A packet as the list of its fields.\<close>

definition arp_fields :: "u8 list \<Rightarrow> u8 list \<Rightarrow> u8 list \<Rightarrow> u8 list \<Rightarrow> u8 list \<Rightarrow> u8 list \<Rightarrow> u8 list" where
  "arp_fields hdr oper shw spr dhw dpr = hdr @ oper @ shw @ spr @ dhw @ dpr"

lemma arp_split:
  assumes "length p = ARP_LEN p" and "8 \<le> length p"
  obtains hdr oper shw spr dhw dpr where "p = arp_fields hdr oper shw spr dhw dpr" "length hdr = 6" "length oper = 2"
    "length shw = phwlen p" "length spr = pprlen p" "length dhw = phwlen p" "length dpr = pprlen p"
proof -
  let ?h = "phwlen p" and ?r = "pprlen p"
  have len: "length p = 8 + 2 * (?h + ?r)" using assms(1) by (simp add: ARP_LEN_def)
  have s: "drop n p = take m (drop n p) @ drop (n + m) p" for n m
    using append_take_drop_id [of m "drop n p"] by (simp add: add.commute)
  have e: "take m (drop n p) @ drop (n + m) p = drop n p" for n m by (rule s [symmetric])
  have "arp_fields (take 6 p) (take 2 (drop 6 p)) (take ?h (drop 8 p)) (take ?r (drop (8 + ?h) p))
    (take ?h (drop (8 + ?h + ?r) p)) (drop (8 + ?h + ?r + ?h) p) = take 6 p @ take 2 (drop 6 p) @ drop 8 p"
    by (simp only: arp_fields_def e)
  also have "\<dots> = p" using e [of 2 6] by (simp only: numeral_plus_numeral semiring_norm append_take_drop_id)
  finally have "p = arp_fields (take 6 p) (take 2 (drop 6 p)) (take ?h (drop 8 p)) (take ?r (drop (8 + ?h) p))
    (take ?h (drop (8 + ?h + ?r) p)) (drop (8 + ?h + ?r + ?h) p)" by (rule sym)
  then show ?thesis by (rule that) (use len in simp_all)
qed

lemma put_at_app:
  assumes "length xs = off" and "length ys = n" and "n \<le> length src"
  shows "put_at off src n (xs @ ys @ zs) = Some (xs @ take n src @ zs)"
  using assms by (simp add: put_at_def)

lemma fields_lens:
  assumes "length hdr = 6"
  shows "phwlen (arp_fields hdr oper shw spr dhw dpr) = unat (hdr ! 4)" "pprlen (arp_fields hdr oper shw spr dhw dpr) = unat (hdr ! 5)"
    "pk16 (arp_fields hdr oper shw spr dhw dpr) 0 = pk16 hdr 0" "pk16 (arp_fields hdr oper shw spr dhw dpr) 2 = pk16 hdr 2"
  using assms by (simp_all add: arp_fields_def phwlen_def pprlen_def pk16_def nth_append)

lemma fields_op:
  assumes "length hdr = 6" and "length oper = 2"
  shows "pk16 (arp_fields hdr oper shw spr dhw dpr) 6 = pk16 oper 0"
    "put16 6 w (arp_fields hdr oper shw spr dhw dpr) = arp_fields hdr [ucast (drop_bit 8 w), ucast w] shw spr dhw dpr"
proof -
  from assms(2) obtain x y where xy: "oper = [x, y]" by (auto simp: length_Suc_conv numeral_2_eq_2)
  show "pk16 (arp_fields hdr oper shw spr dhw dpr) 6 = pk16 oper 0"
    using assms(1) by (simp add: arp_fields_def pk16_def nth_append xy)
  show "put16 6 w (arp_fields hdr oper shw spr dhw dpr) = arp_fields hdr [ucast (drop_bit 8 w), ucast w] shw spr dhw dpr"
    using assms(1) by (simp add: arp_fields_def put16_def list_update_append xy)
qed

lemma fields_drop:
  assumes "length hdr = 6" and "length oper = 2" and "length shw = phwlen p" and "length spr = pprlen p"
    and "length dhw = phwlen p" and p: "p = arp_fields hdr oper shw spr dhw dpr"
  shows "drop (ARP_SHW p) p = shw @ spr @ dhw @ dpr" "drop (ARP_SPR p) p = spr @ dhw @ dpr"
    "drop (ARP_DHW p) p = dhw @ dpr" "drop (ARP_DPR p) p = dpr"
proof -
  show "drop (ARP_SHW p) p = shw @ spr @ dhw @ dpr" using assms(1,2) p by (simp add: ARP_SHW_def arp_fields_def)
  show "drop (ARP_SPR p) p = spr @ dhw @ dpr"
    unfolding ARP_SPR_def assms(3) [symmetric] using assms(1,2) by (simp add: p arp_fields_def)
  show "drop (ARP_DHW p) p = dhw @ dpr"
    unfolding ARP_DHW_def assms(3,4) [symmetric] using assms(1,2) by (simp add: p arp_fields_def)
  have "ARP_DPR p = 8 + phwlen p + pprlen p + phwlen p" by (simp add: ARP_DPR_def)
  then show "drop (ARP_DPR p) p = dpr"
    using assms(1,2) by (simp only: assms(3,4) [symmetric] assms(5) [symmetric]) (simp add: p arp_fields_def assms)
qed

lemma queue_events_links [simp]:
  "queue_events n (e\<lparr>alinks := l\<rparr>) = queue_events n e" "queue_events n (with_hw s k (e\<lparr>alinks := l\<rparr>)) = queue_events n (with_hw s k e)"
  by (simp_all add: queue_events_def with_hw_def)

lemma queue_events_empty: "qlists (aoutq e) = (\<lambda>_. []) \<Longrightarrow> qlen (aoutq e) = 0 \<Longrightarrow> queue_events n (with_hw s k e) = []"
  by (simp add: queue_events_def with_hw_def if_flushq_def if_dequeue_def)

text \<open>The update of the sender's entry, for every packet that gets that far.\<close>

definition learned :: "anetif \<Rightarrow> nat \<Rightarrow> u16 \<Rightarrow> u8 list \<Rightarrow> u8 list \<Rightarrow> nat \<Rightarrow> arp \<Rightarrow> (nat \<Rightarrow> nat list) \<Rightarrow> nat \<Rightarrow> arp \<Rightarrow> bool" where
  "learned n nif type spr shw hl st pr a st' \<longleftrightarrow>
     (\<exists>e i. ents st' a = Some e \<and> a \<in> set (pr i) \<and> addr_match nif type 4 spr e \<and> aflags e AND ATF_COM = ATF_COM \<and>
        take hl (hbytes (ahwaddr e)) = take hl shw) \<and>
     trace st' = trace st @ (case ents st a of Some e0 \<Rightarrow> queue_events n (with_hw shw hl e0) | None \<Rightarrow> [])"

lemma on_com: "on f ATF_PRCOM \<Longrightarrow> (f OR ATF_HWCOM) AND ATF_COM = ATF_COM"
proof -
  assume "on f ATF_PRCOM"
  then have "bit f 0" by (simp add: on_def and_one_eq odd_iff_mod_2_eq_one bit_0 split: if_splits)
  then show ?thesis by (intro bit_eqI) (auto simp: bit_simps numeral_eq_Suc less_Suc_eq)
qed

lemma arp_update:
  assumes inv: "arp_inv pr hw H st" and b: "\<And>x. H x < 65533" and k: "arp_fresh kmalloc" and tm: "\<And>a. expire_ok call a (atimer st)"
    and n: "nif \<noteq> 0" "anifs st nif = Some n" and fl: "flags = ARLK_NOCREAT \<or> flags = ARLK_NORESOLV"
    and len: "4 \<le> length spr" "hl \<le> 10" "hl \<le> length shw"
  shows "\<exists>a st1 st2 pr2 hw2. arp_lookup kmalloc call bufok flags nif type 4 spr st = Some (a, st1) \<and>
    (if a \<noteq> 0 then arp_learn call a shw hl st1 else Some st1) = Some st2 \<and> arp_inv pr2 hw2 H st2 \<and> anifs st2 = anifs st \<and>
    (if a = 0 then st2 = st \<and> (flags = ARLK_NOCREAT \<or> kmalloc st = None) \<and> (\<forall>i x. x \<in> set (pr i) \<longrightarrow> arp_hash spr 4 = Some i \<longrightarrow> \<not> addr_match nif type 4 spr (the (ents st x)))
     else learned n nif type spr shw hl st pr2 a st2)"
proof -
  have l: "4 \<le> (10 :: nat)" by simp
  from arp_lookup_inv [OF inv b l len(1) len(1) k, of flags nif call bufok type] fl n obtain a st1 pr1 e where
    1: "arp_lookup kmalloc call bufok flags nif type 4 spr st = Some (a, st1)"
    and r: "if a = 0 then st1 = st \<and> (flags = ARLK_NOCREAT \<or> kmalloc st = None) \<and> (\<forall>i x. x \<in> set (pr i) \<longrightarrow> arp_hash spr 4 = Some i \<longrightarrow> \<not> addr_match nif type 4 spr (the (ents st x)))
      else arp_inv pr1 hw (H(a := Suc (H a))) st1 \<and> (\<exists>i. a \<in> set (pr1 i)) \<and> lookup_result nif type 4 spr st a e st1" by blast
  show ?thesis
  proof (cases "a = 0")
    case True
    then show ?thesis using 1 r inv by (intro exI [of _ a] exI [of _ st1] exI [of _ pr] exI [of _ hw]) simp
  next
    case False
    with r have i1: "arp_inv pr1 hw (H(a := Suc (H a))) st1" and m: "\<exists>i. a \<in> set (pr1 i)"
      and lr: "ents st1 a = Some e" "addr_match nif type 4 spr e" "anifs st1 = anifs st" "atimer st1 = atimer st" "trace st1 = trace st"
      and old: "case ents st a of Some e0 \<Rightarrow> e = e0\<lparr>alinks := alinks e0 + 1\<rparr>
        | None \<Rightarrow> aflags e = ATF_PRCOM \<and> qlists (aoutq e) = (\<lambda>_. []) \<and> qlen (aoutq e) = 0"
      by (auto simp: lookup_result_def)
    have ne: "anifs st1 (anif e) = Some n" using lr(2,3) n by (simp add: addr_match_def pr_cand_def)
    have h: "(H(a := Suc (H a))) a = Suc (H a)" "(H(a := Suc (H a))) a < 65534" "(H(a := Suc (H a)))(a := H a) = H"
      using b [of a] by simp_all
    have t: "on (aflags e) ATF_PERM \<or> expire_ok call a (atimer st1)" using tm lr(4) by simp
    from arp_learn_inv [OF i1 h(1,2) lr(1) ne len(2,3) t] obtain st2 hw2 l x q where
      2: "arp_learn call a shw hl st1 = Some st2" "arp_inv pr1 hw2 ((H(a := Suc (H a)))(a := H a)) st2"
        "ents st2 a = Some ((with_hw shw hl e)\<lparr>alinks := l, hwnext := x, aoutq := q\<rparr>)"
        "anifs st2 = anifs st1" "trace st2 = trace st1 @ queue_events n (with_hw shw hl e)"
      by (elim exE conjE) (rule that)
    have "queue_events n (with_hw shw hl e) = (case ents st a of Some e0 \<Rightarrow> queue_events n (with_hw shw hl e0) | None \<Rightarrow> [])"
      using old by (cases "ents st a") (auto simp: queue_events_empty)
    moreover have "take hl (hbytes (ahwaddr (with_hw shw hl e))) = take hl shw" using len(3) by (simp add: with_hw_def)
    moreover have "addr_match nif type 4 spr ((with_hw shw hl e)\<lparr>alinks := l, hwnext := x, aoutq := q\<rparr>)"
      using lr(2) by (simp add: addr_match_def pr_cand_def with_hw_def on_or)
    moreover have "aflags (with_hw shw hl e) AND ATF_COM = ATF_COM"
      using lr(2) on_com by (simp add: with_hw_def addr_match_def pr_cand_def)
    ultimately have "learned n nif type spr shw hl st pr1 a st2" using 2(3,5) lr(5) m by (auto simp: learned_def)
    then show ?thesis using 1 2 False h(3) lr(3)
      by (intro exI [of _ a] exI [of _ st1] exI [of _ st2] exI [of _ pr1] exI [of _ hw2]) simp
  qed
qed

lemma arp_dosend_log:
  assumes "anifs st nif = Some n"
  shows "arp_dosend nif p pktype st =
    Some (log_ev [if if_ready n then Output nif p (drop (ARP_DHW p) p) (phwlen p) pktype else Release p] st)"
  using assms by (simp add: arp_dosend_def)

lemma log_inv: "arp_inv pr hw H st \<Longrightarrow> arp_inv pr hw H (log_ev es st)"
  by (rule arp_inv_frame) (simp_all add: log_ev_def)

lemma log_simps [simp]:
  "ents (log_ev es st) = ents st" "anifs (log_ev es st) = anifs st" "trace (log_ev es st) = trace st @ es"
  by (simp_all add: log_ev_def)

text \<open>The reply, field by field.\<close>

lemma arp_answer_fields:
  assumes len: "length hdr = 6" "length oper = 2" "length shw = unat (hdr ! 4)" "length spr = unat (hdr ! 5)"
      "length dhw = unat (hdr ! 4)" "length dpr = unat (hdr ! 5)"
    and p: "p = arp_fields hdr oper shw spr dhw dpr" and l: "unat (hdr ! 5) \<le> length pr'" "unat (hdr ! 4) \<le> length hw'"
  shows "put_at (ARP_DHW p) (drop (ARP_SHW p) p) (phwlen p) (put16 6 w p) =
      Some (arp_fields hdr [ucast (drop_bit 8 w), ucast w] shw spr shw dpr)"
    "arp_answer pr' hw' p = Some (arp_fields hdr oper (take (unat (hdr ! 4)) hw') (take (unat (hdr ! 5)) pr') dhw spr)"
proof -
  have pl: "phwlen p = unat (hdr ! 4)" "pprlen p = unat (hdr ! 5)" using fields_lens [OF len(1)] by (simp_all add: p)
  note dr = fields_drop [OF len(1,2) len(3) [folded pl(1)] len(4) [folded pl(2)] len(5) [folded pl(1)] p]
  have f2: "put16 6 w p = arp_fields hdr [ucast (drop_bit 8 w), ucast w] shw spr dhw dpr"
    using fields_op(2) [OF len(1,2)] by (simp add: p)
  have o: "ARP_DHW p = 8 + length shw + length spr" "ARP_SPR p = 8 + length shw" "ARP_SHW p = 8"
    "ARP_DPR p = 8 + length shw + length spr + length dhw"
    using pl len by (simp_all add: ARP_DHW_def ARP_SPR_def ARP_SHW_def ARP_DPR_def)
  show "put_at (ARP_DHW p) (drop (ARP_SHW p) p) (phwlen p) (put16 6 w p) =
      Some (arp_fields hdr [ucast (drop_bit 8 w), ucast w] shw spr shw dpr)"
    unfolding dr(1) f2 o(1) pl(1)
    using put_at_app [of "hdr @ [ucast (drop_bit 8 w), ucast w] @ shw @ spr" _ dhw "unat (hdr ! 4)" "shw @ spr @ dhw @ dpr" dpr]
      len by (simp add: arp_fields_def add.assoc)
  have 1: "put_at (ARP_DPR p) (drop (ARP_SPR p) p) (pprlen p) p = Some (arp_fields hdr oper shw spr dhw spr)"
    unfolding dr(2) o(4) pl(2)
    using put_at_app [of "hdr @ oper @ shw @ spr @ dhw" "8 + length shw + length spr + length dhw" dpr "unat (hdr ! 5)" "spr @ dhw @ dpr" "[]"]
      len by (simp add: p arp_fields_def)
  have 2: "put_at (ARP_SPR p) pr' (pprlen p) (arp_fields hdr oper shw spr dhw spr) =
      Some (arp_fields hdr oper shw (take (unat (hdr ! 5)) pr') dhw spr)"
    using put_at_app [of "hdr @ oper @ shw" "ARP_SPR p" spr "pprlen p" pr' "dhw @ spr"] len pl l
    by (simp add: arp_fields_def o)
  have 3: "put_at (ARP_SHW p) hw' (phwlen p) (arp_fields hdr oper shw (take (unat (hdr ! 5)) pr') dhw spr) =
      Some (arp_fields hdr oper (take (unat (hdr ! 4)) hw') (take (unat (hdr ! 5)) pr') dhw spr)"
    using put_at_app [of "hdr @ oper" "ARP_SHW p" shw "phwlen p" hw' "take (unat (hdr ! 5)) pr' @ dhw @ spr"] len pl l
    by (simp add: arp_fields_def o)
  show "arp_answer pr' hw' p = Some (arp_fields hdr oper (take (unat (hdr ! 4)) hw') (take (unat (hdr ! 5)) pr') dhw spr)"
    unfolding arp_answer_def by (simp add: 1 2 3)
qed

text \<open>The packets that are not discarded at once; \<open>my\<close> is the address of the interface.\<close>

definition arp_accept :: "anetif \<Rightarrow> u8 list \<Rightarrow> u8 list \<Rightarrow> bool" where
  "arp_accept n p my \<longleftrightarrow> 8 \<le> length p \<and> length p = ARP_LEN p \<and> pk16 p 0 = nhwtype n \<and> phwlen p = hlen (hwlocal n) \<and>
     \<not> on (nif_flags n) IFF_NOARP \<and> arp_myaddr n (pk16 p 2) = Some my"

definition nif_ok :: "anetif \<Rightarrow> bool" where
  "nif_ok n \<longleftrightarrow> length (hbytes (hwlocal n)) = 10 \<and> hlen (hwlocal n) \<le> 10"

text \<open>The reply of the interface itself.\<close>

definition my_reply :: "anetif \<Rightarrow> u8 list \<Rightarrow> u8 list \<Rightarrow> u8 list" where
  "my_reply n my p = arp_fields (take 6 p) [0, 2] (take (phwlen p) (hbytes (hwlocal n))) my
     (take (phwlen p) (drop (ARP_SHW p) p)) (take (pprlen p) (drop (ARP_SPR p) p))"

lemma arp_myaddr_length: "arp_myaddr n type = Some my \<Longrightarrow> length my = 4"
  by (auto simp: arp_myaddr_def split: if_splits)

lemma rep_bytes: "[ucast (drop_bit 8 AROP_ARPREP), ucast AROP_ARPREP] = ([0, 2] :: u8 list)"
  by simp

text \<open>A packet that asks for an address of the interface.\<close>

lemma arp_answer_me:
  assumes n: "anifs st nif = Some n" "nif_ok n" and acc: "arp_accept n p my" and pl: "pprlen p = 4"
  shows "\<exists>p1. put_at (ARP_DHW p) (drop (ARP_SHW p) p) (phwlen p) (put16 6 AROP_ARPREP p) = Some p1 \<and>
    arp_answer my (hbytes (hwlocal n)) p1 = Some (my_reply n my p) \<and>
    phwlen p1 = phwlen p \<and> drop (ARP_DPR p1) p1 = drop (ARP_DPR p) p \<and> length p1 = length p \<and>
    (\<forall>pr' hw'. 4 \<le> length pr' \<longrightarrow> phwlen p \<le> length hw' \<longrightarrow> arp_answer pr' hw' p1 \<noteq> None)"
proof -
  from acc have a: "length p = ARP_LEN p" "8 \<le> length p" "phwlen p = hlen (hwlocal n)" "arp_myaddr n (pk16 p 2) = Some my"
    by (auto simp: arp_accept_def)
  from arp_split [OF a(1,2)] obtain hdr oper shw spr dhw dpr where
    p: "p = arp_fields hdr oper shw spr dhw dpr" and len: "length hdr = 6" "length oper = 2" "length shw = phwlen p"
      "length spr = pprlen p" "length dhw = phwlen p" "length dpr = pprlen p" .
  have f: "phwlen p = unat (hdr ! 4)" "pprlen p = unat (hdr ! 5)" using fields_lens [OF len(1)] p by simp_all
  have l: "unat (hdr ! 5) \<le> length my" "unat (hdr ! 4) \<le> length (hbytes (hwlocal n))"
    using arp_myaddr_length [OF a(4)] pl f n(2) a(3) by (simp_all add: nif_ok_def)
  note len' = len [unfolded f]
  note af = arp_answer_fields [OF len' p]
  let ?p1 = "arp_fields hdr [0, 2] shw spr shw dpr"
  have len1: "length hdr = 6" "length ([0, 2] :: u8 list) = 2" "length shw = unat (hdr ! 4)" "length spr = unat (hdr ! 5)"
    "length shw = unat (hdr ! 4)" "length dpr = unat (hdr ! 5)" using len' by simp_all
  note af1 = arp_answer_fields(2) [OF len1 refl]
  have f1: "phwlen ?p1 = unat (hdr ! 4)" "pprlen ?p1 = unat (hdr ! 5)" using fields_lens [OF len(1)] by simp_all
  have dr: "drop (ARP_SHW p) p = shw @ spr @ dhw @ dpr" "drop (ARP_SPR p) p = spr @ dhw @ dpr" "drop (ARP_DPR p) p = dpr"
    using fields_drop [OF len(1-5) p] by simp_all
  have dr1: "drop (ARP_DPR ?p1) ?p1 = dpr"
    using fields_drop(4) [of hdr "[0, 2]" shw ?p1 spr shw dpr] len1 f1 by simp
  have "my_reply n my p = arp_fields hdr [0, 2] (take (unat (hdr ! 4)) (hbytes (hwlocal n))) (take (unat (hdr ! 5)) my) shw spr"
    using l arp_myaddr_length [OF a(4)] pl len len' f by (simp add: my_reply_def dr) (simp add: p arp_fields_def)
  then show ?thesis using af(1) [of my "hbytes (hwlocal n)" AROP_ARPREP] af1 [of my "hbytes (hwlocal n)"] l f f1 dr(3) dr1 pl
      af1 len len1
    by (intro exI [of _ ?p1]) (auto simp: p arp_fields_def)
qed

text \<open>Without creation a lookup returns an entry of the table.\<close>

lemma arp_lookup_found_or:
  assumes inv: "arp_inv pr hw H st" and b: "\<And>x. H x < 65533" and len: "len \<le> 10" "len \<le> length addr" and k: "arp_fresh kmalloc"
    and l: "arp_lookup kmalloc call bufok ARLK_NOCREAT nif type len addr st = Some (a, st1)" and a: "a \<noteq> 0"
  shows "\<exists>e0. ents st a = Some e0 \<and> st1 = set_ent a (e0\<lparr>alinks := alinks e0 + 1\<rparr>) st \<and> (\<exists>i. a \<in> set (pr i))"
proof -
  have on1: "on ARLK_NOCREAT ARLK_NOCREAT" by (simp add: on_def)
  from l obtain idx where i: "arp_hash addr len = Some idx" by (auto simp: arp_lookup_def split: bind_splits)
  note s = arp_search_list [OF inv len, of nif type idx]
  show ?thesis
  proof (cases "find (\<lambda>x. addr_match nif type len addr (the (ents st x))) (pr idx)")
    case None
    then show ?thesis using l i s a on1 by (simp add: arp_lookup_def)
  next
    case (Some x)
    then have x: "x \<in> set (pr idx)" by (auto dest: find_SomeD)
    from arp_invD(3) [OF inv x] obtain e where e: "ents st x = Some e" by auto
    with Some l i s arp_invD(6) [OF inv e] x show ?thesis by (auto simp: arp_lookup_def)
  qed
qed

text \<open>A packet that asks for another address: the published entries are searched.\<close>

definition proxy_part :: "(arp \<Rightarrow> nat option) \<Rightarrow> handler \<Rightarrow> (arp \<Rightarrow> bool) \<Rightarrow> nat \<Rightarrow> u16 \<Rightarrow> u8 list \<Rightarrow> arp \<Rightarrow> arp option" where
  "proxy_part kmalloc call bufok nif type p1 st2 = do {
     (b, st3) \<leftarrow> arp_lookup kmalloc call bufok ARLK_NOCREAT 0 type 4 (drop (ARP_DPR p1) p1) st2;
     if b = 0 then Some (log_ev [Release p1] st3)
     else do {
       e \<leftarrow> ents st3 b;
       (p2, st4) \<leftarrow> (if on (aflags e) ATF_PUBL \<and> aflags e AND ATF_COM = ATF_COM then do {
           p2 \<leftarrow> arp_answer (hbytes (apraddr e)) (hbytes (ahwaddr e)) p1;
           st4 \<leftarrow> arp_dosend nif p2 PKTYPE_ARP st3;
           Some (p2, st4)
         } else Some (p1, st3));
       st5 \<leftarrow> arp_deref b st4;
       Some (log_ev [Release p2] st5)
     }
   }"

lemma proxy_part_inv:
  assumes inv: "arp_inv pr hw H st" and b: "\<And>x. H x < 65533" and k: "arp_fresh kmalloc"
    and n: "anifs st nif = Some n" and len: "length (drop (ARP_DPR p1) p1) = 4"
    and ans: "\<forall>pr' hw'. length pr' = 10 \<longrightarrow> length hw' = 10 \<longrightarrow> arp_answer pr' hw' p1 \<noteq> None"
  shows "\<exists>st' evs. proxy_part kmalloc call bufok nif type p1 st = Some st' \<and> arp_inv pr hw H st' \<and> ents st' = ents st \<and>
    trace st' = trace st @ evs"
proof -
  have l: "4 \<le> (10 :: nat)" "4 \<le> length (drop (ARP_DPR p1) p1)" using len by simp_all
  from arp_lookup_inv [OF inv b l l(2) k, of ARLK_NOCREAT 0 call bufok type] obtain a st1 where
    1: "arp_lookup kmalloc call bufok ARLK_NOCREAT 0 type 4 (drop (ARP_DPR p1) p1) st = Some (a, st1)"
      "a = 0 \<longrightarrow> st1 = st" by metis
  show ?thesis
  proof (cases "a = 0")
    case True
    then show ?thesis using 1 inv log_inv by (auto simp: proxy_part_def)
  next
    case False
    from arp_lookup_found_or [OF inv b l k 1(1) False] obtain e0 where
      f: "ents st a = Some e0" "st1 = set_ent a (e0\<lparr>alinks := alinks e0 + 1\<rparr>) st" "\<exists>i. a \<in> set (pr i)" by blast
    let ?e = "e0\<lparr>alinks := alinks e0 + 1\<rparr>"
    have inv1: "arp_inv pr hw (H(a := Suc (H a))) st1" unfolding f(2) by (rule arp_ref_inv [OF inv f(1) b])
    have e1: "ents st1 a = Some ?e" by (simp add: f(2) set_ent_def)
    have ok: "length (hbytes (apraddr ?e)) = 10" "length (hbytes (ahwaddr ?e)) = 10"
      using arp_invD(7) [OF inv f(1)] by (simp_all add: ent_ok_def)
    have n1: "anifs st1 nif = Some n" using n by (simp add: f(2) set_ent_def)
    from ans ok obtain pa where pa: "arp_answer (hbytes (apraddr ?e)) (hbytes (ahwaddr ?e)) p1 = Some pa" by auto
    obtain p2 evs where ans': "(if on (aflags ?e) ATF_PUBL \<and> aflags ?e AND ATF_COM = ATF_COM then do {
           p2 \<leftarrow> arp_answer (hbytes (apraddr ?e)) (hbytes (ahwaddr ?e)) p1;
           st4 \<leftarrow> arp_dosend nif p2 PKTYPE_ARP st1;
           Some (p2, st4)
         } else Some (p1, st1)) = Some (p2, log_ev evs st1)"
    proof (cases "on (aflags ?e) ATF_PUBL \<and> aflags ?e AND ATF_COM = ATF_COM")
      case False
      then show ?thesis by (intro that [of p1 "[]"]) (auto simp: log_ev_def)
    qed (use pa arp_dosend_log [OF n1] that in auto)
    have h: "(H(a := Suc (H a))) a = Suc (H a)" "(H(a := Suc (H a)))(a := H a) = H" by simp_all
    have r: "refs pr hw H a \<noteq> 0" using f(3) by (simp add: refs_def)
    have e4: "ents (log_ev evs st1) a = Some ?e" using e1 by simp
    from arp_deref_inv [OF log_inv [OF inv1] h(1) e4] r obtain st5 where
      5: "arp_deref a (log_ev evs st1) = Some st5" "arp_inv pr hw H st5"
        "ents st5 = (ents (log_ev evs st1))(a \<mapsto> ?e\<lparr>alinks := alinks ?e - 1\<rparr>)" "trace st5 = trace (log_ev evs st1)"
      unfolding h(2) by auto
    have "proxy_part kmalloc call bufok nif type p1 st = Some (log_ev [Release p2] st5)"
      unfolding proxy_part_def using 1(1) False e1 ans' 5(1) by simp
    moreover have "ents st5 = ents st" using 5(3) f(1) by (auto simp: f(2) set_ent_def fun_upd_idem)
    moreover have "trace st5 = trace st @ evs" using 5(4) by (simp add: f(2) set_ent_def)
    ultimately show ?thesis using log_inv [OF 5(2)] by simp
  qed
qed

text \<open>The whole handler, for a packet that is not discarded.\<close>

lemma arp_input_cases:
  assumes "anifs st nif = Some n" and acc: "arp_accept n p my" and pl: "pprlen p = 4"
    and l: "arp_lookup kmalloc call bufok (if drop (ARP_DPR p) p = my then ARLK_NORESOLV else ARLK_NOCREAT) nif (pk16 p 2) 4
      (drop (ARP_SPR p) p) st = Some (a, st1)"
    and u: "(if a \<noteq> 0 then arp_learn call a (drop (ARP_SHW p) p) (phwlen p) st1 else Some st1) = Some st2"
    and p1: "put_at (ARP_DHW p) (drop (ARP_SHW p) p) (phwlen p) (put16 6 AROP_ARPREP p) = Some p1"
      "arp_answer my (hbytes (hwlocal n)) p1 = Some r"
  shows "arp_input kmalloc call bufok nif p st =
    (if pk16 p 6 \<noteq> AROP_ARPREQ then Some (log_ev [Release p] st2)
     else if drop (ARP_DPR p) p = my then Option.bind (arp_dosend nif r PKTYPE_ARP st2) (\<lambda>st3. Some (log_ev [Release r] st3))
     else proxy_part kmalloc call bufok nif (pk16 p 2) p1 st2)"
proof -
  from acc have a: "length p = ARP_LEN p" "8 \<le> length p" "arp_myaddr n (pk16 p 2) = Some my"
    "\<not> (pk16 p 0 \<noteq> nhwtype n \<or> phwlen p \<noteq> hlen (hwlocal n) \<or> on (nif_flags n) IFF_NOARP)" by (auto simp: arp_accept_def)
  have len: "length (drop (ARP_DPR p) p) = 4" "length my = 4"
    using a(1) pl arp_myaddr_length [OF a(3)] by (simp_all add: ARP_LEN_def ARP_DPR_def)
  then have "bytes_eq my (drop (ARP_DPR p) p) (pprlen p) = Some (drop (ARP_DPR p) p = my)"
    using pl by (auto simp: bytes_eq_def)
  then show ?thesis using assms(1) a l u p1 pl by (simp add: arp_input_def proxy_part_def)
qed

lemma arp_input_result:
  assumes inv: "arp_inv pr hw H st" and b: "\<And>x. H x < 65533" and k: "arp_fresh kmalloc" and tm: "\<And>a. expire_ok call a (atimer st)"
    and n: "nif \<noteq> 0" "anifs st nif = Some n" "nif_ok n" and acc: "arp_accept n p my" and pl: "pprlen p = 4"
  defines "forme \<equiv> drop (ARP_DPR p) p = my" and "spr \<equiv> drop (ARP_SPR p) p" and "shw \<equiv> drop (ARP_SHW p) p"
  shows "\<exists>st' pr' hw' a evs. arp_input kmalloc call bufok nif p st = Some st' \<and> arp_inv pr' hw' H st' \<and>
    (if a = 0 then (forme \<longrightarrow> kmalloc st = None) \<and>
         (\<forall>i x. x \<in> set (pr i) \<longrightarrow> arp_hash spr 4 = Some i \<longrightarrow> \<not> addr_match nif (pk16 p 2) 4 spr (the (ents st x))) \<and>
         trace st' = trace st @ evs
     else (\<exists>e i. ents st' a = Some e \<and> a \<in> set (pr' i) \<and> addr_match nif (pk16 p 2) 4 spr e \<and>
           aflags e AND ATF_COM = ATF_COM \<and> take (phwlen p) (hbytes (ahwaddr e)) = take (phwlen p) shw) \<and>
         trace st' = trace st @ (case ents st a of Some e0 \<Rightarrow> queue_events n (with_hw shw (phwlen p) e0) | None \<Rightarrow> []) @ evs) \<and>
    (pk16 p 6 = AROP_ARPREQ \<and> forme \<and> if_ready n \<longrightarrow>
       Output nif (my_reply n my p) (drop (ARP_DHW (my_reply n my p)) (my_reply n my p)) (phwlen (my_reply n my p)) PKTYPE_ARP \<in> set evs)"
proof -
  from acc have a: "length p = ARP_LEN p" "phwlen p = hlen (hwlocal n)" by (auto simp: arp_accept_def)
  have len: "4 \<le> length spr" "phwlen p \<le> 10" "phwlen p \<le> length shw" "length (drop (ARP_DPR p) p) = 4"
    using a n(3) pl by (simp_all add: spr_def shw_def ARP_SPR_def ARP_SHW_def ARP_LEN_def ARP_DPR_def nif_ok_def)
  define flags where "flags = (if forme then ARLK_NORESOLV else ARLK_NOCREAT)"
  have fl: "flags = ARLK_NOCREAT \<or> flags = ARLK_NORESOLV" by (simp add: flags_def)
  from arp_update [where call = call and bufok = bufok and type = "pk16 p 2", OF inv b k tm n(1,2) fl len(1-3)] obtain a st1 st2 pr2 hw2 where
    1: "arp_lookup kmalloc call bufok flags nif (pk16 p 2) 4 spr st = Some (a, st1)"
      "(if a \<noteq> 0 then arp_learn call a shw (phwlen p) st1 else Some st1) = Some st2" "arp_inv pr2 hw2 H st2" "anifs st2 = anifs st"
      "if a = 0 then st2 = st \<and> (flags = ARLK_NOCREAT \<or> kmalloc st = None) \<and>
        (\<forall>i x. x \<in> set (pr i) \<longrightarrow> arp_hash spr 4 = Some i \<longrightarrow> \<not> addr_match nif (pk16 p 2) 4 spr (the (ents st x)))
      else learned n nif (pk16 p 2) spr shw (phwlen p) st pr2 a st2"
    by (elim exE conjE) (rule that)
  from arp_answer_me [OF n(2,3) acc pl] obtain p1 where
    p1: "put_at (ARP_DHW p) (drop (ARP_SHW p) p) (phwlen p) (put16 6 AROP_ARPREP p) = Some p1"
      "arp_answer my (hbytes (hwlocal n)) p1 = Some (my_reply n my p)" "drop (ARP_DPR p1) p1 = drop (ARP_DPR p) p"
      "\<forall>pr' hw'. 4 \<le> length pr' \<longrightarrow> phwlen p \<le> length hw' \<longrightarrow> arp_answer pr' hw' p1 \<noteq> None" by blast
  note eq = arp_input_cases [OF n(2) acc pl 1(1) [unfolded flags_def forme_def spr_def] 1(2) [unfolded shw_def] p1(1,2), folded forme_def]
  have n2: "anifs st2 nif = Some n" using n(2) 1(4) by simp
  let ?R = "my_reply n my p"
  have "\<exists>st' evs. arp_input kmalloc call bufok nif p st = Some st' \<and> arp_inv pr2 hw2 H st' \<and> ents st' = ents st2 \<and>
    trace st' = trace st2 @ evs \<and>
    (pk16 p 6 = AROP_ARPREQ \<and> forme \<and> if_ready n \<longrightarrow> Output nif ?R (drop (ARP_DHW ?R) ?R) (phwlen ?R) PKTYPE_ARP \<in> set evs)"
  proof (cases "pk16 p 6 = AROP_ARPREQ")
    case False
    then show ?thesis using eq log_inv [OF 1(3)] by simp
  next
    case req: True
    show ?thesis
    proof (cases forme)
      case True
      then show ?thesis using eq req arp_dosend_log [OF n2] log_inv [OF log_inv [OF 1(3)]] by simp
    next
      case False
      have ans: "\<forall>pr' hw'. length pr' = 10 \<longrightarrow> length hw' = 10 \<longrightarrow> arp_answer pr' hw' p1 \<noteq> None"
        using p1(4) len(2) by simp
      have l4: "length (drop (ARP_DPR p1) p1) = 4" unfolding p1(3) by (rule len(4))
      obtain st' evs where "proxy_part kmalloc call bufok nif (pk16 p 2) p1 st2 = Some st'" "arp_inv pr2 hw2 H st'"
        "ents st' = ents st2" "trace st' = trace st2 @ evs"
        using proxy_part_inv [where call = call and bufok = bufok and type = "pk16 p 2", OF 1(3) b k n2 l4 ans]
        by (elim exE conjE) (rule that)
      with eq req False show ?thesis by (intro exI [of _ st'] exI [of _ evs]) simp
    qed
  qed
  then obtain st' evs where f: "arp_input kmalloc call bufok nif p st = Some st'" "arp_inv pr2 hw2 H st'" "ents st' = ents st2"
    "trace st' = trace st2 @ evs"
    "pk16 p 6 = AROP_ARPREQ \<and> forme \<and> if_ready n \<longrightarrow> Output nif ?R (drop (ARP_DHW ?R) ?R) (phwlen ?R) PKTYPE_ARP \<in> set evs"
    by (elim exE conjE) (rule that)
  show ?thesis
  proof (cases "a = 0")
    case True
    with 1(5) f show ?thesis
      by (rule_tac x = st' in exI, rule_tac x = pr2 in exI, rule_tac x = hw2 in exI, rule_tac x = a in exI, rule_tac x = evs in exI)
        (auto simp: flags_def)
  next
    case False
    with 1(5) have lr: "learned n nif (pk16 p 2) spr shw (phwlen p) st pr2 a st2" by simp
    with False f show ?thesis
      by (rule_tac x = st' in exI, rule_tac x = pr2 in exI, rule_tac x = hw2 in exI, rule_tac x = a in exI, rule_tac x = evs in exI)
        (simp add: learned_def)
  qed
qed

section \<open>Properties\<close>

text \<open>
  C33: \<^verbatim>\<open>arp_input\<close> learns and answers. For every packet that is valid for the interface, with
  addresses of four bytes, the call returns and keeps the tables and the reference counts
  exact. The sender's entry, which exists, or is made when the packet asks for us and there
  is memory, is resolved to the sender's hardware address, and what waited for it is sent
  there; a request for our address is answered with our hardware address, to the sender.
\<close>
theorem arp_input_learns:
  assumes "arp_inv pr hw H st" and "\<And>x. H x < 65533" and "arp_fresh kmalloc" and "\<And>a. expire_ok call a (atimer st)"
    and "nif \<noteq> 0" and "anifs st nif = Some n" and "nif_ok n" and "arp_accept n p my" and "pprlen p = 4"
  defines "forme \<equiv> drop (ARP_DPR p) p = my" and "spr \<equiv> drop (ARP_SPR p) p" and "shw \<equiv> drop (ARP_SHW p) p"
  shows "\<exists>st' pr' hw' a evs. arp_input kmalloc call bufok nif p st = Some st' \<and> arp_inv pr' hw' H st' \<and>
    (if a = 0 then (forme \<longrightarrow> kmalloc st = None) \<and>
         (\<forall>i x. x \<in> set (pr i) \<longrightarrow> arp_hash spr 4 = Some i \<longrightarrow> \<not> addr_match nif (pk16 p 2) 4 spr (the (ents st x))) \<and>
         trace st' = trace st @ evs
     else (\<exists>e i. ents st' a = Some e \<and> a \<in> set (pr' i) \<and> addr_match nif (pk16 p 2) 4 spr e \<and>
           aflags e AND ATF_COM = ATF_COM \<and> take (phwlen p) (hbytes (ahwaddr e)) = take (phwlen p) shw) \<and>
         trace st' = trace st @ (case ents st a of Some e0 \<Rightarrow> queue_events n (with_hw shw (phwlen p) e0) | None \<Rightarrow> []) @ evs) \<and>
    (pk16 p 6 = AROP_ARPREQ \<and> forme \<and> if_ready n \<longrightarrow>
       Output nif (my_reply n my p) (drop (ARP_DHW (my_reply n my p)) (my_reply n my p)) (phwlen (my_reply n my p)) PKTYPE_ARP \<in> set evs)"
  unfolding forme_def spr_def shw_def by (rule arp_input_result [OF assms(1-9)])

definition sample_nif :: anetif where
  "sample_nif = \<lparr>nif_id = 1, nif_flags = IFF_UP OR IFF_RUNNING, nif_mtu = 1500, nif_maxpackets = 0,
     nif_addrlist = [\<lparr>ia_family = AF_INET, ia_addr = 0xc0a80001, ia_ifu = 0xc0a800ff, ia_net = 0xc0a80000, ia_netmask = 0xffffff00,
       ia_subnet = 0xc0a80000, ia_subnetmask = 0xffffff00, ia_net_broadaddr = 0xc0a800ff\<rparr>],
     nhwtype = HWTYPE_ETH, hwlocal = \<lparr>hlen = 6, hbytes = [2, 0, 0, 0, 0, 1, 0, 0, 0, 0]\<rparr>,
     hwbrcst = \<lparr>hlen = 6, hbytes = replicate 6 255 @ replicate 4 0\<rparr>, out_errors = 0\<rparr>"

definition sample_arp :: arp where
  "sample_arp = \<lparr>ents = (\<lambda>_. None), arptab = (\<lambda>_. 0), rarptab = (\<lambda>_. 0), anifs = [1 \<mapsto> sample_nif], atimer = sample_timer, trace = []\<rparr>"

definition sample_request :: "u8 list" where
  "sample_request = [0, 1, 8, 0, 6, 4, 0, 1] @ [2, 0, 0, 0, 0, 9] @ [192, 168, 0, 2] @ [0, 0, 0, 0, 0, 0] @ [192, 168, 0, 1]"

definition arp_kmalloc :: "arp \<Rightarrow> nat option" where
  "arp_kmalloc st = (if ents st 64 = None then Some 64 else None)"

lemma sample_arp_inv: "arp_inv (\<lambda>_. []) (\<lambda>_. []) (\<lambda>_. 0) sample_arp"
  by (simp add: arp_inv_def sample_arp_def)

lemma sample_expire: "expire_ok observer a (atimer sample_arp)"
  by (simp add: expire_ok_def sample_arp_def event_del_def timer_run_simps)

lemma sample_accept: "arp_accept sample_nif sample_request [192, 168, 0, 1]"
  by (simp add: arp_accept_def sample_request_def sample_nif_def ARP_LEN_def phwlen_def pprlen_def pk16_def be16_def on_def
      arp_myaddr_def if_af2ifaddr_def netif.truncate_def)

theorem arp_input_learns_witness:
  "\<exists>st' a e. arp_input arp_kmalloc observer (\<lambda>_. True) 1 sample_request sample_arp = Some st' \<and>
     ents st' a = Some e \<and> take 6 (hbytes (ahwaddr e)) = [2, 0, 0, 0, 0, 9]"
proof -
  have k: "arp_fresh arp_kmalloc" by (simp add: arp_fresh_def arp_kmalloc_def)
  have n: "anifs sample_arp 1 = Some sample_nif" "nif_ok sample_nif" by (simp_all add: sample_arp_def nif_ok_def sample_nif_def)
  have p: "pprlen sample_request = 4" "phwlen sample_request = 6" "drop (ARP_DPR sample_request) sample_request = [192, 168, 0, 1]"
    "take 6 (drop (ARP_SHW sample_request) sample_request) = [2, 0, 0, 0, 0, 9]"
    by (simp_all add: sample_request_def pprlen_def phwlen_def ARP_DPR_def ARP_SHW_def)
  have m: "arp_kmalloc sample_arp = Some 64" by (simp add: arp_kmalloc_def sample_arp_def)
  obtain st' a where
    "arp_input arp_kmalloc observer (\<lambda>_. True) 1 sample_request sample_arp = Some st'"
    "a \<noteq> 0 \<longrightarrow> (\<exists>e. ents st' a = Some e \<and> take 6 (hbytes (ahwaddr e)) = [2, 0, 0, 0, 0, 9])" "a \<noteq> 0"
    using arp_input_learns [OF sample_arp_inv _ k sample_expire _ n sample_accept p(1), of "\<lambda>_. True"] m p
    by (auto split: if_splits)
  then show ?thesis by blast
qed


definition sample_entry :: "u16 \<Rightarrow> u16 \<Rightarrow> u16 \<Rightarrow> arp_entry" where
  "sample_entry flags links tries = \<lparr>alinks = links, aflags = flags, ahwtype = HWTYPE_ETH, aprtype = ARPRTYPE_IP,
     apraddr = \<lparr>hlen = 4, hbytes = [192, 168, 0, 2, 0, 0, 0, 0, 0, 0]\<rparr>,
     ahwaddr = \<lparr>hlen = 6, hbytes = [2, 0, 0, 0, 0, 9, 0, 0, 0, 0]\<rparr>, anif = 1,
     aoutq = \<lparr>maxqlen = IF_MAXQ, qlen = 0, curr = 0, qlists = (\<lambda>_. [])\<rparr>, aretries = tries, prnext = 0, hwnext = 0\<rparr>"

definition sample_arp2 :: arp where
  "sample_arp2 = sample_arp\<lparr>ents := [64 \<mapsto> sample_entry ATF_COM 2 1], arptab := (\<lambda>_. 0)(2 := 64), rarptab := (\<lambda>_. 0)(0 := 64)\<rparr>"

definition sample_arp3 :: arp where
  "sample_arp3 = sample_arp\<lparr>ents := [64 \<mapsto> sample_entry ATF_PRCOM 1 4], arptab := (\<lambda>_. 0)(2 := 64)\<rparr>"

lemma sample_slots:
  "pr_slot (sample_entry ATF_COM l k) = Some 2" "hw_slot (sample_entry ATF_COM l k) = Some 0" "pr_slot (sample_entry ATF_PRCOM l k) = Some 2"
  by (simp_all add: pr_slot_def hw_slot_def sample_entry_def on_def arp_hash_def be32_def Let_def)

lemma sample_arp2_inv: "arp_inv ((\<lambda>_. [])(2 := [64])) ((\<lambda>_. [])(0 := [64])) (\<lambda>_. 0) sample_arp2"
  by (rule arp_invI)
    (auto simp: sample_arp2_def sample_slots refs_def split: if_splits, auto simp: sample_entry_def sample_arp_def ent_ok_def)

lemma sample_arp3_inv: "arp_inv ((\<lambda>_. [])(2 := [64])) (\<lambda>_. []) (\<lambda>_. 0) sample_arp3"
  by (rule arp_invI)
    (auto simp: sample_arp3_def sample_slots refs_def split: if_splits, auto simp: sample_entry_def sample_arp_def ent_ok_def)


text \<open>
  C35: When an unresolved entry is given up after the last retry, the code works on memory it
  has freed: if the table has the only reference, \<^verbatim>\<open>arp_remove\<close> frees the entry, and
  \<^verbatim>\<open>rarp_remove\<close>, whose guard is empty in this build, then reads its flags. The entry's
  hardware address is not valid, so it is not on the other table.
\<close>
theorem arp_giveup_uses_freed:
  assumes "arp_inv pr hw H st" and "ents st a = Some e" and "on (aflags e) ATF_PRCOM" and "\<not> on (aflags e) ATF_HWCOM"
    and "aretries e = ARP_RETRIES" and "H a = 0"
  shows "arp_timeout call bufok a st = None"
proof -
  let ?e = "e\<lparr>aretries := aretries e + 1\<rparr>" and ?pr = "\<lambda>i. remove1 a (pr i)"
  let ?st = "set_ent a ?e st"
  have inv1: "arp_inv pr hw (H(a := H a)) ?st"
    using arp_invD(7-9) [OF assms(1,2)] by (intro arp_upd [OF assms(1,2)]) (simp_all add: pr_slot_def hw_slot_def ent_ok_def)
  have e1: "ents ?st a = Some ?e" by (simp add: set_ent_def)
  from arp_remove_inv [OF inv1 e1] obtain st1 where
    1: "arp_remove a ?st = Some st1" "kept a ?e (refs ?pr hw (H(a := H a)) a = 0) ?st st1" by blast
  have "a \<notin> set (hw i)" for i using hw_in_slot [OF assms(1,2), of i] assms(4) by (auto simp: hw_slot_def)
  moreover have "a \<notin> set (?pr i)" for i using chain_distinct [OF arp_invD(1) [OF assms(1)]] by auto
  ultimately have "refs ?pr hw (H(a := H a)) a = 0" using assms(6) by (simp add: refs_def)
  with 1(2) have "ents st1 a = None" by (simp add: kept_def)
  then have "rarp_remove a st1 = None" by (simp add: rarp_remove_def)
  moreover have "aflags e AND ATF_COM \<noteq> ATF_COM"
  proof
    assume "aflags e AND ATF_COM = ATF_COM"
    then have "bit (aflags e AND ATF_COM) 1 = bit ATF_COM 1" by simp
    then have "bit (aflags e) 1" by (simp add: bit_simps)
    moreover have "\<not> bit (aflags e AND ATF_HWCOM) 1" using assms(4) by (simp add: on_def)
    ultimately show False by (simp add: bit_simps)
  qed
  moreover have "aretries e + 1 > ARP_RETRIES" by (simp add: assms(5))
  ultimately show ?thesis using 1(1) assms(2,3) by (simp add: arp_timeout_def arp_sendreq_def)
qed

theorem arp_giveup_uses_freed_witness: "arp_timeout observer (\<lambda>_. True) 64 sample_arp3 = None"
proof -
  have "ents sample_arp3 64 = Some (sample_entry ATF_PRCOM 1 4)" by (simp add: sample_arp3_def)
  then show ?thesis by (rule arp_giveup_uses_freed [OF sample_arp3_inv]) (simp_all add: sample_entry_def on_def)
qed

end
