(* ===== verification/IpFrag.thy ===== *)
theory IpFrag
  imports Checksum Arp
begin

text \<open>
  Fragmentation and reassembly of IP datagrams: \<^verbatim>\<open>frag_opts\<close>, the loop of \<^verbatim>\<open>ip_frag\<close>, and
  \<^verbatim>\<open>frag_insert\<close>, \<^verbatim>\<open>frag_pullup\<close>, \<^verbatim>\<open>frag_delete\<close> and \<^verbatim>\<open>ip_defrag\<close> of \<^verbatim>\<open>kernel/ip.c\<close>. A datagram is
  the list of its bytes from \<^verbatim>\<open>dstart\<close> to \<^verbatim>\<open>dend\<close>; the priority in \<^verbatim>\<open>info\<close>, that only the
  queues of the drivers read, is left out.
\<close>

section \<open>The header\<close>

abbreviation IP_MINLEN :: nat where "IP_MINLEN \<equiv> 20"
abbreviation IP_MF :: u16 where "IP_MF \<equiv> 0x2000"
abbreviation IP_DF :: u16 where "IP_DF \<equiv> 0x4000"
abbreviation IP_FRAGOFF :: u16 where "IP_FRAGOFF \<equiv> 0x1fff"
abbreviation IPOPT_COPY :: u8 where "IPOPT_COPY \<equiv> 0x80"
abbreviation IPOPT_TYPE :: u8 where "IPOPT_TYPE \<equiv> 0x7f"
abbreviation IPOPT_EOL :: u8 where "IPOPT_EOL \<equiv> 0"
abbreviation IPOPT_NOP :: u8 where "IPOPT_NOP \<equiv> 1"

definition pk32 :: "u8 list \<Rightarrow> nat \<Rightarrow> u32" where
  "pk32 p i = be32 (p ! i) (p ! (i + 1)) (p ! (i + 2)) (p ! (i + 3))"

definition IPH_VERSION :: "u8 list \<Rightarrow> nat" where "IPH_VERSION p = unat (drop_bit 4 (p ! 0))"
definition IPH_HDRLEN :: "u8 list \<Rightarrow> nat" where "IPH_HDRLEN p = unat (p ! 0 AND 0xf)"
definition iph_length :: "u8 list \<Rightarrow> u16" where "iph_length p = pk16 p 2"
definition iph_id :: "u8 list \<Rightarrow> u16" where "iph_id p = pk16 p 4"
definition iph_fragoff :: "u8 list \<Rightarrow> u16" where "iph_fragoff p = pk16 p 6"
definition iph_saddr :: "u8 list \<Rightarrow> u32" where "iph_saddr p = pk32 p 12"

definition set_hdrlen :: "nat \<Rightarrow> u8 list \<Rightarrow> u8 list" where
  "set_hdrlen n p = p[0 := (p ! 0 AND 0xf0) OR word_of_nat (n mod 16)]"

text \<open>The checksum of the first \<open>n\<close> words of the header, computed with its own field zero.\<close>

definition put_chksum :: "nat \<Rightarrow> u8 list \<Rightarrow> u8 list option" where
  "put_chksum n p = do { c \<leftarrow> chksum (put16 10 0 p) (word_of_nat n); Some (put16 10 c p) }"

section \<open>Fragmentation\<close>

text \<open>
  The options of the first fragment that the others do not repeat are cut out. \<open>None\<close> is a
  read or a copy outside the datagram, or a loop that does not end.
\<close>

partial_function (option) opts_loop :: "nat \<Rightarrow> nat \<Rightarrow> u8 list \<Rightarrow> (nat \<times> u8 list) option" where
  "opts_loop i optlen p =
     (if i \<ge> optlen then Some (i, p)
      else if IP_MINLEN + i \<ge> length p then None
      else if p ! (IP_MINLEN + i) AND IPOPT_TYPE = IPOPT_EOL then Some (i + 1, p)
      else if p ! (IP_MINLEN + i) AND IPOPT_TYPE = IPOPT_NOP then opts_loop (i + 1) optlen p
      else if IP_MINLEN + i + 1 \<ge> length p then None
      else if p ! (IP_MINLEN + i) AND IPOPT_COPY \<noteq> 0 then opts_loop (i + unat (p ! (IP_MINLEN + i + 1))) optlen p
      else if optlen < i + unat (p ! (IP_MINLEN + i + 1)) \<or> length p < IP_MINLEN + optlen then None
      else opts_loop i (optlen - unat (p ! (IP_MINLEN + i + 1)))
        (take (IP_MINLEN + i) p @
         take (optlen - i - unat (p ! (IP_MINLEN + i + 1))) (drop (IP_MINLEN + i + unat (p ! (IP_MINLEN + i + 1))) p) @
         drop (IP_MINLEN + optlen - unat (p ! (IP_MINLEN + i + 1))) p))"

function pad_nop :: "nat \<Rightarrow> u8 list \<Rightarrow> (nat \<times> u8 list) option" where
  "pad_nop i p =
     (if i mod 4 = 0 then Some (i, p)
      else if IP_MINLEN + i \<ge> length p then None
      else pad_nop (i + 1) (p[IP_MINLEN + i := IPOPT_NOP]))"
  by pat_completeness auto
termination by (relation "measure (\<lambda>(i, p). (4 - i mod 4) mod 4)") (auto simp: mod_Suc)

declare pad_nop.simps [simp del]

definition frag_opts :: "u8 list \<Rightarrow> nat \<Rightarrow> (nat \<times> u8 list) option" where
  "frag_opts p optlen = do {
     (i, p1) \<leftarrow> opts_loop 0 optlen p;
     (i', p2) \<leftarrow> pad_nop i p1;
     Some (i' + IP_MINLEN, set_hdrlen ((i' + IP_MINLEN) div 4) p2)
   }"

text \<open>One fragment: the header as it stands, the data from \<open>base + offset\<close>, and the fields.\<close>

definition make_frag :: "nat \<Rightarrow> nat \<Rightarrow> nat \<Rightarrow> nat \<Rightarrow> nat \<Rightarrow> bool \<Rightarrow> u8 list \<Rightarrow> u8 list option" where
  "make_frag hcopy hdrlen base offset todo mf p =
     (if length p < base + offset + todo \<or> length p < hcopy then None
      else (let f0 = take hcopy p @ take todo (drop (base + offset) p);
                f1 = put16 2 (word_of_nat (hdrlen + todo)) f0;
                off = iph_fragoff p + word_of_nat (offset div 8);
                f2 = put16 6 (if mf then off OR IP_MF else off) f1
            in put_chksum (hdrlen div 2) f2))"

text \<open>
  The loop. \<open>alloc\<close> tells whether \<^verbatim>\<open>buf_alloc\<close> has memory, \<open>send\<close> is \<^verbatim>\<open>if_send\<close> on the
  interface, \<open>release\<close> is \<^verbatim>\<open>buf_deref\<close>. The last fragment is built in the buffer of the
  datagram itself.
\<close>

partial_function (option) frag_loop ::
  "('s \<Rightarrow> bool) \<Rightarrow> (u8 list \<Rightarrow> 's \<Rightarrow> ((errno + unit) \<times> 's) option) \<Rightarrow> (u8 list \<Rightarrow> 's \<Rightarrow> 's) \<Rightarrow>
    int \<Rightarrow> nat \<Rightarrow> nat \<Rightarrow> int \<Rightarrow> nat \<Rightarrow> u8 list \<Rightarrow> 's \<Rightarrow> ((errno + unit) \<times> 's) option" where
  "frag_loop alloc send release fraglen base hdrlen datalen offset p st =
     (if datalen \<le> 0 then Some (Inr (), st)
      else if datalen > fraglen \<and> \<not> alloc st then Some (Inl ENOMEM, release p st)
      else if datalen > fraglen \<and> fraglen < 0 then None
      else (let todo = nat (min fraglen datalen);
                hcopy = (if datalen > fraglen then hdrlen else 4 * IPH_HDRLEN p)
            in Option.bind (make_frag hcopy hdrlen base offset todo (datalen > fraglen) p) (\<lambda>f.
               Option.bind (send f st) (\<lambda>(r, st1).
                 if r \<noteq> Inr () then Some (r, if datalen > fraglen then release p st1 else st1)
                 else Option.bind (if offset = 0 \<and> hdrlen > IP_MINLEN then frag_opts p (hdrlen - IP_MINLEN) else Some (hdrlen, p))
                   (\<lambda>(hdrlen', p'). frag_loop alloc send release fraglen base hdrlen' (datalen - int todo) (offset + todo) p' st1)))))"

section \<open>Reassembly\<close>

abbreviation IPFRAG_HEADS :: nat where "IPFRAG_HEADS \<equiv> 16"
abbreviation IPFRAG_TMOUT :: u32 where "IPFRAG_TMOUT \<equiv> 6000"

definition FRAG_TIMEOUT :: fn where "FRAG_TIMEOUT = 8"

text \<open>A list of fragments, in the order of their offsets (\<^verbatim>\<open>link3\<close>).\<close>

record fragment =
  fbuf :: "u8 list list"
  fid :: u16
  fsaddr :: u32
  ftotlen :: int
  fcurlen :: int

text \<open>
  The state of the IP layer: the address resolution below it with its trace, the routes,
  the interfaces in the order of \<^verbatim>\<open>allinterfaces\<close>, and its own variables.
\<close>

record ipstate =
  larp :: arp
  lroutes :: routes
  lifs :: "nat list"
  if_primary :: nat
  allfrags :: "fragment list"
  ip_dgramid :: u16

text \<open>
  A registered protocol (\<^verbatim>\<open>struct in_ip_ops\<close>): its input function tells whether it has taken
  the datagram over.
\<close>

record ip_ops =
  op_proto :: u8
  op_error :: "u8 \<Rightarrow> u8 \<Rightarrow> u8 list \<Rightarrow> u32 \<Rightarrow> u32 \<Rightarrow> ipstate \<Rightarrow> ipstate option"
  op_input :: "nat \<Rightarrow> u8 list \<Rightarrow> u32 \<Rightarrow> u32 \<Rightarrow> ipstate \<Rightarrow> (bool \<times> ipstate) option"

text \<open>
  What the layer is run on: \<^verbatim>\<open>kmalloc\<close> for cache entries and for routes, the functions of
  events, whether the buffer functions have memory, the result of the output functions of the
  drivers, the registered protocols, what the memory in front of a packet holds, and the time
  of the day in milliseconds.
\<close>

record ipenv =
  e_kmalloc :: "arp \<Rightarrow> nat option"
  e_rtalloc :: "routes \<Rightarrow> nat option"
  e_call :: handler
  e_bufok :: "arp \<Rightarrow> bool"
  e_drv :: "errno + unit"
  e_protos :: "ip_ops list"
  e_junk :: "u8 list"
  e_time :: u32

definition release :: "u8 list \<Rightarrow> ipstate \<Rightarrow> ipstate" where
  "release p st = st\<lparr>larp := log_ev [Release p] (larp st)\<rparr>"

definition set_frag :: "nat \<Rightarrow> fragment \<Rightarrow> ipstate \<Rightarrow> ipstate" where
  "set_frag i f st = st\<lparr>allfrags := (allfrags st)[i := f]\<rparr>"

text \<open>The event of a slot; the numbers below \<open>2 ^ 32\<close> are the addresses of cache entries.\<close>

definition frag_event :: "nat \<Rightarrow> eid" where
  "frag_event i = 2 ^ 32 + i"

definition frag_del_event :: "nat \<Rightarrow> ipstate \<Rightarrow> ipstate" where
  "frag_del_event i st = st\<lparr>larp := (larp st)\<lparr>atimer := event_del (frag_event i) (atimer (larp st))\<rparr>\<rparr>"

definition frag_delete :: "nat \<Rightarrow> ipstate \<Rightarrow> ipstate" where
  "frag_delete i st =
     (let f = allfrags st ! i
      in frag_del_event i (fold release (fbuf f) (set_frag i (f\<lparr>fbuf := []\<rparr>) st)))"

definition FRAG_OFFSET :: "u8 list \<Rightarrow> nat" where
  "FRAG_OFFSET p = unat (iph_fragoff p AND IP_FRAGOFF)"

text \<open>The length of the data as the header tells it.\<close>

definition frag_datalen :: "u8 list \<Rightarrow> int" where
  "frag_datalen p = uint (iph_length p) - 4 * int (IPH_HDRLEN p)"

text \<open>
  The copy loop. \<open>Inl\<close> stands for the malformed list, with the fragments that are left; \<open>None\<close>
  is a copy of a negative length, from outside a fragment, or over the end of the new buffer.
\<close>

fun pull_loop :: "int \<Rightarrow> int \<Rightarrow> u8 list \<Rightarrow> u8 list list \<Rightarrow> ipstate \<Rightarrow>
    ((u8 list list + u8 list) \<times> ipstate) option" where
  "pull_loop room offset new [] st = Some (Inr new, st)"
| "pull_loop room offset new (oldbuf # fs) st =
     (if offset \<noteq> int (FRAG_OFFSET oldbuf) * 8 then Some (Inl (oldbuf # fs), st)
      else if frag_datalen oldbuf < 0 \<or> int (length oldbuf) < 4 * int (IPH_HDRLEN oldbuf) + frag_datalen oldbuf
        \<or> offset + frag_datalen oldbuf > room then None
      else pull_loop room (offset + frag_datalen oldbuf)
        (new @ take (nat (frag_datalen oldbuf)) (drop (4 * IPH_HDRLEN oldbuf) oldbuf)) fs (release oldbuf st))"

definition frag_pullup :: "ipenv \<Rightarrow> nat \<Rightarrow> ipstate \<Rightarrow> (u8 list option \<times> ipstate) option" where
  "frag_pullup env i st =
     (let f = allfrags st ! i
      in if ftotlen f = 0 \<or> ftotlen f \<noteq> fcurlen f then Some (None, st)
         else case fbuf f of
           [] \<Rightarrow> None
         | h # _ \<Rightarrow>
             if \<not> e_bufok env (larp st) then Some (None, frag_delete i st)
             else if length h < 4 * IPH_HDRLEN h then None
             else do {
               (r, st1) \<leftarrow> pull_loop (ftotlen f) 0 (take (4 * IPH_HDRLEN h) h) (fbuf f) st;
               case r of
                 Inl fs \<Rightarrow> Some (None, frag_delete i (set_frag i (f\<lparr>fbuf := fs\<rparr>) st1))
               | Inr new \<Rightarrow>
                   Some (Some (put16 6 0 (put16 2 (word_of_nat (length new - 4 * IPH_HDRLEN h)) new)),
                     frag_del_event i (set_frag i (f\<lparr>fbuf := []\<rparr>) st1))
             })"

text \<open>The position of a fragment; \<open>None\<close> is a duplicate.\<close>

fun frag_place :: "u8 list \<Rightarrow> u8 list list \<Rightarrow> (u8 list list \<times> bool) option" where
  "frag_place p [] = Some ([p], True)"
| "frag_place p (c # cs) =
     (if FRAG_OFFSET c > FRAG_OFFSET p then Some (p # c # cs, False)
      else if FRAG_OFFSET c = FRAG_OFFSET p then None
      else map_option (\<lambda>(l, e). (c # l, e)) (frag_place p cs))"

definition frag_insert :: "nat \<Rightarrow> u8 list \<Rightarrow> ipstate \<Rightarrow> ipstate" where
  "frag_insert i p st =
     (let f = allfrags st ! i
      in case frag_place p (fbuf f) of
           None \<Rightarrow> release p st
         | Some (l, e) \<Rightarrow>
             set_frag i (f\<lparr>fbuf := l, fcurlen := fcurlen f + frag_datalen p,
               ftotlen := (if e \<and> iph_fragoff p AND IP_MF = 0
                           then int (FRAG_OFFSET p) * 8 + frag_datalen p else ftotlen f)\<rparr>) st)"

text \<open>The slot of the datagram of a fragment, or the last free one.\<close>

fun frag_slots :: "u16 \<Rightarrow> u32 \<Rightarrow> nat \<Rightarrow> nat option \<Rightarrow> fragment list \<Rightarrow> nat option \<times> nat option" where
  "frag_slots d sa i free [] = (None, free)"
| "frag_slots d sa i free (f # fs) =
     (if fbuf f \<noteq> [] then
        (if d = fid f \<and> sa = fsaddr f then (Some i, free) else frag_slots d sa (i + 1) free fs)
      else frag_slots d sa (i + 1) (Some i) fs)"

definition ip_defrag :: "ipenv \<Rightarrow> u8 list \<Rightarrow> ipstate \<Rightarrow> (u8 list option \<times> ipstate) option" where
  "ip_defrag env p st =
     (if iph_fragoff p AND (IP_MF OR IP_FRAGOFF) = 0 then Some (Some p, st)
      else case frag_slots (iph_id p) (iph_saddr p) 0 None (allfrags st) of
        (Some i, _) \<Rightarrow> frag_pullup env i (frag_insert i p st)
      | (None, Some i) \<Rightarrow> do {
          let f = (allfrags st ! i)\<lparr>ftotlen := 0, fcurlen := 0, fid := iph_id p, fsaddr := iph_saddr p\<rparr>;
          tm \<leftarrow> event_add (e_call env) (frag_event i) IPFRAG_TMOUT FRAG_TIMEOUT (word_of_nat i) (atimer (larp st));
          Some (None, frag_insert i p (set_frag i f (st\<lparr>larp := (larp st)\<lparr>atimer := tm\<rparr>\<rparr>)))
        }
      | (None, None) \<Rightarrow> Some (None, release p st))"

section \<open>Reassembly is independent of the order of arrival\<close>

definition frag_data :: "u8 list \<Rightarrow> u8 list" where
  "frag_data p = drop (4 * IPH_HDRLEN p) p"

definition frag_ok :: "u8 list \<Rightarrow> bool" where
  "frag_ok p \<longleftrightarrow> IP_MINLEN \<le> 4 * IPH_HDRLEN p \<and> 4 * IPH_HDRLEN p < length p \<and> unat (iph_length p) = length p"

lemma frag_ok_datalen: "frag_ok p \<Longrightarrow> frag_datalen p = int (length (frag_data p))"
  by (auto simp: frag_ok_def frag_datalen_def frag_data_def uint_nat)

lemma frag_ok_length: "frag_ok p \<Longrightarrow> length p < 65536"
  using unsigned_less [of "iph_length p", where 'a = nat] by (simp add: frag_ok_def)

lemma frag_ok_pos: "frag_ok p \<Longrightarrow> frag_data p \<noteq> []"
  by (auto simp: frag_ok_def frag_data_def)

text \<open>The fragments of one datagram in the order of their offsets.\<close>

fun tiling :: "nat \<Rightarrow> u8 list list \<Rightarrow> bool" where
  "tiling off [] \<longleftrightarrow> True"
| "tiling off (f # fs) \<longleftrightarrow> frag_ok f \<and> 8 * FRAG_OFFSET f = off \<and> (iph_fragoff f AND IP_MF \<noteq> 0 \<longleftrightarrow> fs \<noteq> []) \<and>
     tiling (off + length (frag_data f)) fs"

lemma tiling_ok: "tiling off fs \<Longrightarrow> f \<in> set fs \<Longrightarrow> frag_ok f \<and> off \<le> 8 * FRAG_OFFSET f"
  by (induction off fs rule: tiling.induct) fastforce+

lemma tiling_sorted: "tiling off fs \<Longrightarrow> sorted_wrt (\<lambda>a b. FRAG_OFFSET a < FRAG_OFFSET b) fs"
proof (induction off fs rule: tiling.induct)
  case (2 off f fs)
  have t: "tiling (off + length (frag_data f)) fs" "8 * FRAG_OFFSET f = off" "frag_ok f" using "2.prems" by auto
  have "0 < length (frag_data f)" using frag_ok_pos [OF t(3)] by simp
  then have "FRAG_OFFSET f < FRAG_OFFSET g" if "g \<in> set fs" for g
    using tiling_ok [OF t(1) that] t(2) by linarith
  then show ?case using "2.IH" [OF t(1)] by simp
qed simp

lemma sorted_less_distinct: "sorted_wrt (\<lambda>a b. f a < (f b :: nat)) xs \<Longrightarrow> distinct xs"
  by (induction xs) auto

lemma tiling_distinct: "tiling off fs \<Longrightarrow> distinct fs"
  by (rule sorted_less_distinct [OF tiling_sorted])

lemma tiling_last:
  "tiling off fs \<Longrightarrow> fs \<noteq> [] \<Longrightarrow>
     8 * FRAG_OFFSET (last fs) + length (frag_data (last fs)) = off + length (concat (map frag_data fs))"
  by (induction off fs rule: tiling.induct) auto

lemma tiling_mf: "tiling off fs \<Longrightarrow> f \<in> set fs \<Longrightarrow> iph_fragoff f AND IP_MF = 0 \<longleftrightarrow> f = last fs"
proof (induction off fs rule: tiling.induct)
  case (2 off f' fs)
  have "f' \<notin> set fs" using tiling_distinct [OF "2.prems"(1)] by simp
  then show ?case using 2 by (cases "fs = []") auto
qed simp

lemma frag_place_filter:
  assumes "sorted_wrt (\<lambda>a b. FRAG_OFFSET a < FRAG_OFFSET b) fs" and "p \<in> set fs" and "p \<notin> X"
  shows "frag_place p (filter (\<lambda>g. g \<in> X) fs) =
    Some (filter (\<lambda>g. g \<in> insert p X) fs, \<forall>g \<in> set fs \<inter> X. FRAG_OFFSET g < FRAG_OFFSET p)"
  using assms
proof (induction fs)
  case (Cons c cs)
  show ?case
  proof (cases "p = c")
    case True
    have f: "filter (\<lambda>g. g = c \<or> g \<in> X) cs = filter (\<lambda>g. g \<in> X) cs"
      by (rule filter_cong) (use Cons.prems(1) in auto)
    show ?thesis
    proof (cases "filter (\<lambda>g. g \<in> X) cs")
      case Nil
      then have "set cs \<inter> X = {}" by (auto simp: filter_empty_conv)
      then show ?thesis using Nil True Cons.prems f by auto
    next
      case (Cons d ds)
      then have "d \<in> set cs \<inter> X" using filter_eq_ConsD [OF Cons] by auto
      moreover from this have "FRAG_OFFSET c < FRAG_OFFSET d" using Cons.prems by auto
      ultimately show ?thesis using local.Cons True \<open>p \<notin> X\<close> f by (auto dest: less_asym)
    qed
  next
    case False
    then have "p \<in> set cs" "FRAG_OFFSET c < FRAG_OFFSET p" using Cons.prems by auto
    then show ?thesis using Cons False by auto
  qed
qed simp

lemma frag_slots_match:
  assumes "k < length fs" and "fbuf (fs ! k) \<noteq> []" and "fid (fs ! k) = d" and "fsaddr (fs ! k) = sa"
    and "\<And>j. j < k \<Longrightarrow> fbuf (fs ! j) \<noteq> [] \<Longrightarrow> \<not> (fid (fs ! j) = d \<and> fsaddr (fs ! j) = sa)"
  shows "fst (frag_slots d sa i free fs) = Some (i + k)"
  using assms
proof (induction fs arbitrary: i k free)
  case (Cons f fs)
  show ?case
  proof (cases k)
    case (Suc k')
    have "fst (frag_slots d sa (i + 1) free' fs) = Some (i + 1 + k')" for free'
      by (rule Cons.IH) (use Cons.prems Suc Cons.prems(5) [of "Suc j" for j] in auto)
    then show ?thesis using Suc Cons.prems(5) [of 0] by auto
  qed (use Cons.prems in simp)
qed simp

lemma frag_slots_free:
  "frag_slots d sa i free fs = (None, Some k) \<Longrightarrow> (free = Some k \<or> i \<le> k \<and> k < i + length fs \<and> fbuf (fs ! (k - i)) = []) \<and>
     (\<forall>f \<in> set fs. fbuf f \<noteq> [] \<longrightarrow> \<not> (fid f = d \<and> fsaddr f = sa))"
proof (induction fs arbitrary: i free)
  case (Cons f fs)
  show ?case
  proof (cases "fbuf f = []")
    case True
    then have "frag_slots d sa (i + 1) (Some i) fs = (None, Some k)" using Cons.prems by simp
    from Cons.IH [OF this] True show ?thesis by (cases "k = i") (auto simp: nth_Cons' Suc_le_eq)
  next
    case False
    then have "frag_slots d sa (i + 1) free fs = (None, Some k)" "\<not> (fid f = d \<and> fsaddr f = sa)"
      using Cons.prems by (auto split: if_splits)
    then show ?thesis using Cons.IH [of "i + 1" free] False by (auto simp: nth_Cons' Suc_le_eq)
  qed
qed simp

lemma data_length_insert:
  assumes "distinct fs" and "p \<in> set fs" and "p \<notin> X"
  shows "length (concat (map frag_data (filter (\<lambda>g. g \<in> insert p X) fs))) =
    length (concat (map frag_data (filter (\<lambda>g. g \<in> X) fs))) + length (frag_data p)"
  using assms
proof (induction fs)
  case (Cons c cs)
  show ?case
  proof (cases "p = c")
    case True
    then have "filter (\<lambda>g. g = p \<or> g \<in> X) cs = filter (\<lambda>g. g \<in> X) cs"
      by (intro filter_cong) (use Cons.prems in auto)
    then show ?thesis using True Cons.prems by simp
  next
    case False
    then show ?thesis using Cons by auto
  qed
qed simp

lemma data_length_missing:
  assumes "\<forall>f \<in> set fs. frag_ok f" and "f \<in> set fs" and "f \<notin> X"
  shows "length (concat (map frag_data (filter (\<lambda>g. g \<in> X) fs))) < length (concat (map frag_data fs))"
  using assms
proof (induction fs)
  case (Cons c cs)
  have le: "length (concat (map frag_data (filter (\<lambda>g. g \<in> X) cs))) \<le> length (concat (map frag_data cs))"
    by (induction cs) auto
  have pos: "0 < length (frag_data c)" using Cons.prems(1) frag_ok_pos [of c] by simp
  show ?case
  proof (cases "f = c")
    case True
    then show ?thesis using le pos Cons.prems(3) by (simp del: length_greater_0_conv)
  qed (use Cons in auto)
qed simp

definition slot_holds :: "u8 list list \<Rightarrow> u8 list set \<Rightarrow> fragment \<Rightarrow> bool" where
  "slot_holds fs X f \<longleftrightarrow> fbuf f = filter (\<lambda>g. g \<in> X) fs \<and>
     fcurlen f = int (length (concat (map frag_data (filter (\<lambda>g. g \<in> X) fs)))) \<and>
     ftotlen f = (if last fs \<in> X then int (length (concat (map frag_data fs))) else 0)"

lemma set_frag_nth [simp]:
  "i < length (allfrags st) \<Longrightarrow> allfrags (set_frag i f st) ! i = f"
  "allfrags (set_frag i f st) = (allfrags st)[i := f]" "larp (set_frag i f st) = larp st"
  by (simp_all add: set_frag_def)

lemma frag_insert_holds:
  assumes t: "tiling 0 fs" and f: "slot_holds fs X (allfrags st ! i)" and i: "i < length (allfrags st)"
    and p: "p \<in> set fs" "p \<notin> X"
  shows "\<exists>f'. frag_insert i p st = set_frag i f' st \<and> slot_holds fs (insert p X) f' \<and>
    fid f' = fid (allfrags st ! i) \<and> fsaddr f' = fsaddr (allfrags st ! i)"
proof -
  let ?f = "allfrags st ! i" and ?g = "\<lambda>X. filter (\<lambda>g. g \<in> X) fs"
  let ?e = "\<forall>g \<in> set fs \<inter> X. FRAG_OFFSET g < FRAG_OFFSET p"
  have ok: "frag_ok p" using tiling_ok [OF t p(1)] by simp
  have pl: "frag_place p (fbuf ?f) = Some (?g (insert p X), ?e)"
    using frag_place_filter [OF tiling_sorted [OF t] p] f by (simp add: slot_holds_def)
  have last: "?e" if "p = last fs"
  proof
    fix g assume "g \<in> set fs \<inter> X"
    then have "g \<in> set (butlast fs)" using that p by (metis IntD1 IntD2 append_butlast_last_id empty_iff list.set(1) Un_iff set_ConsD set_append)
    moreover have "sorted_wrt (\<lambda>a b. FRAG_OFFSET a < FRAG_OFFSET b) (butlast fs @ [last fs])"
      using tiling_sorted [OF t] p(1) by (metis append_butlast_last_id empty_iff list.set(1))
    ultimately show "FRAG_OFFSET g < FRAG_OFFSET p" using that by (simp add: sorted_wrt_append)
  qed
  have mf: "?e \<and> iph_fragoff p AND IP_MF = 0 \<longleftrightarrow> p = last fs" using tiling_mf [OF t p(1)] last by blast
  have tot: "int (FRAG_OFFSET (last fs)) * 8 + int (length (frag_data (last fs))) = int (length (concat (map frag_data fs)))"
    using tiling_last [OF t] p(1) by (cases fs) auto
  let ?f' = "?f\<lparr>fbuf := ?g (insert p X), fcurlen := fcurlen ?f + frag_datalen p,
      ftotlen := (if ?e \<and> iph_fragoff p AND IP_MF = 0 then int (FRAG_OFFSET p) * 8 + frag_datalen p else ftotlen ?f)\<rparr>"
  have "frag_insert i p st = set_frag i ?f' st" by (simp add: frag_insert_def pl Let_def)
  moreover have "slot_holds fs (insert p X) ?f'"
    unfolding slot_holds_def mf
    using f data_length_insert [OF tiling_distinct [OF t] p] tot frag_ok_datalen [OF ok]
    by (auto simp: slot_holds_def)
  ultimately show ?thesis by (intro exI [of _ ?f']) simp
qed

lemma release_simps [simp]:
  "allfrags (release p st) = allfrags st" "lroutes (release p st) = lroutes st" "lifs (release p st) = lifs st"
  "if_primary (release p st) = if_primary st" "ip_dgramid (release p st) = ip_dgramid st"
  "larp (release p st) = log_ev [Release p] (larp st)"
  by (simp_all add: release_def)

lemma release_fold:
  "fold release fs st = st\<lparr>larp := log_ev (map Release fs) (larp st)\<rparr>"
  by (induction fs arbitrary: st) (simp_all add: release_def log_ev_def)

lemma pull_loop_tiling:
  assumes "tiling off fs" and "off + length (concat (map frag_data fs)) \<le> room"
  shows "pull_loop (int room) (int off) new fs st =
    Some (Inr (new @ concat (map frag_data fs)), fold release fs st)"
  using assms
proof (induction off fs arbitrary: new st rule: tiling.induct)
  case (2 off f fs)
  have d: "frag_datalen f = int (length (frag_data f))" using "2.prems"(1) by (simp add: frag_ok_datalen)
  have "int (length f) = 4 * int (IPH_HDRLEN f) + frag_datalen f"
    using "2.prems"(1) by (simp add: frag_ok_def frag_datalen_def uint_nat)
  moreover have "take (nat (frag_datalen f)) (drop (4 * IPH_HDRLEN f) f) = frag_data f"
    by (simp add: d) (simp add: frag_data_def)
  ultimately show ?case using 2 d by simp
qed simp

text \<open>The datagram: the header of the first fragment, with its length and offset fields, and all data.\<close>

definition reassembled :: "u8 list list \<Rightarrow> u8 list" where
  "reassembled fs =
     (let d = concat (map frag_data fs)
      in put16 6 0 (put16 2 (word_of_nat (length d)) (take (4 * IPH_HDRLEN (hd fs)) (hd fs) @ d)))"

lemma frag_pullup_waits:
  assumes "tiling 0 fs" and "slot_holds fs X (allfrags st ! i)" and "\<not> set fs \<subseteq> X"
  shows "frag_pullup env i st = Some (None, st)"
proof -
  obtain f where f: "f \<in> set fs" "f \<notin> X" using assms(3) by auto
  have "length (concat (map frag_data (filter (\<lambda>g. g \<in> X) fs))) < length (concat (map frag_data fs))"
    by (rule data_length_missing [OF _ f]) (use tiling_ok [OF assms(1)] in blast)
  then show ?thesis using assms(2) by (auto simp: frag_pullup_def slot_holds_def Let_def)
qed

lemma frag_pullup_done:
  assumes t: "tiling 0 fs" "fs \<noteq> []" and f: "slot_holds fs X (allfrags st ! i)" and s: "set fs \<subseteq> X"
    and b: "e_bufok env (larp st)"
  shows "frag_pullup env i st =
    Some (Some (reassembled fs), frag_del_event i (set_frag i ((allfrags st ! i)\<lparr>fbuf := []\<rparr>) (fold release fs st)))"
proof -
  let ?f = "allfrags st ! i"
  define d where "d = concat (map frag_data fs)"
  have fl: "filter (\<lambda>g. g \<in> X) fs = fs" using s by (auto simp: filter_id_conv)
  have l: "last fs \<in> X" using s t(2) by auto
  have fb: "fbuf ?f = fs" "ftotlen ?f = int (length d)" "fcurlen ?f = int (length d)"
    using f fl l by (simp_all add: slot_holds_def d_def)
  obtain h hs where h: "fs = h # hs" using t(2) by (cases fs) auto
  have ok: "frag_ok h" using t(1) h by simp
  have "d \<noteq> []" using frag_ok_pos [OF ok] h by (simp add: d_def)
  moreover have "\<not> length h < 4 * IPH_HDRLEN h" using ok by (simp add: frag_ok_def)
  moreover have "pull_loop (int (length d)) 0 (take (4 * IPH_HDRLEN h) h) (h # hs) st =
      Some (Inr (take (4 * IPH_HDRLEN h) h @ d), fold release fs st)"
    using pull_loop_tiling [OF t(1), of "length d"] by (simp add: d_def h del: pull_loop.simps)
  moreover have "length (take (4 * IPH_HDRLEN h) h) = 4 * IPH_HDRLEN h" using ok by (simp add: frag_ok_def)
  moreover have "reassembled fs = put16 6 0 (put16 2 (word_of_nat (length d)) (take (4 * IPH_HDRLEN h) h @ d))"
    by (simp add: reassembled_def d_def h)
  ultimately show ?thesis using b by (simp add: frag_pullup_def fb Let_def h del: pull_loop.simps)
qed

text \<open>A sequence of arriving datagrams, with what \<^verbatim>\<open>ip_defrag\<close> returns for each.\<close>

primrec defrag_run :: "ipenv \<Rightarrow> u8 list list \<Rightarrow> ipstate \<Rightarrow> (u8 list option list \<times> ipstate) option" where
  "defrag_run env [] st = Some ([], st)"
| "defrag_run env (p # ps) st = do {
     (r, st1) \<leftarrow> ip_defrag env p st;
     (rs, st2) \<leftarrow> defrag_run env ps st1;
     Some (r # rs, st2)
   }"

text \<open>Slot \<open>i\<close>, and no other, collects the datagram.\<close>

definition collects :: "u8 list list \<Rightarrow> u8 list set \<Rightarrow> u16 \<Rightarrow> u32 \<Rightarrow> nat \<Rightarrow> fragment list \<Rightarrow> bool" where
  "collects fs X d sa i F \<longleftrightarrow> i < length F \<and> slot_holds fs X (F ! i) \<and> fid (F ! i) = d \<and> fsaddr (F ! i) = sa \<and>
     (\<forall>j < length F. j \<noteq> i \<longrightarrow> fbuf (F ! j) \<noteq> [] \<longrightarrow> \<not> (fid (F ! j) = d \<and> fsaddr (F ! j) = sa))"

definition frags_of :: "u8 list list \<Rightarrow> u16 \<Rightarrow> u32 \<Rightarrow> bool" where
  "frags_of fs d sa \<longleftrightarrow> tiling 0 fs \<and> 2 \<le> length fs \<and> (\<forall>f \<in> set fs. iph_id f = d \<and> iph_saddr f = sa)"

lemma frags_ofD:
  assumes "frags_of fs d sa"
  shows "tiling 0 fs" "fs \<noteq> []" "f \<in> set fs \<Longrightarrow> iph_id f = d \<and> iph_saddr f = sa"
    "f \<in> set fs \<Longrightarrow> iph_fragoff f AND (IP_MF OR IP_FRAGOFF) \<noteq> 0"
proof -
  show t: "tiling 0 fs" "fs \<noteq> []" "f \<in> set fs \<Longrightarrow> iph_id f = d \<and> iph_saddr f = sa"
    using assms by (auto simp: frags_of_def)
  assume f: "f \<in> set fs"
  obtain h hs where h1: "fs = h # hs" using t(2) by (cases fs) auto
  with assms have "hs \<noteq> []" by (cases hs) (simp_all add: frags_of_def)
  note h = h1 this
  have "iph_fragoff f AND IP_MF \<noteq> 0 \<or> FRAG_OFFSET f \<noteq> 0"
  proof (cases "f = h")
    case False
    then have "FRAG_OFFSET h < FRAG_OFFSET f" using tiling_sorted [OF t(1)] h f by auto
    then show ?thesis by simp
  qed (use t(1) h in simp)
  moreover have "iph_fragoff f AND IP_MF = (iph_fragoff f AND (IP_MF OR IP_FRAGOFF)) AND IP_MF"
    "iph_fragoff f AND IP_FRAGOFF = (iph_fragoff f AND (IP_MF OR IP_FRAGOFF)) AND IP_FRAGOFF" by (simp_all add: and.assoc)
  ultimately show "iph_fragoff f AND (IP_MF OR IP_FRAGOFF) \<noteq> 0" by (metis FRAG_OFFSET_def and_zero_eq and.commute unat_0)
qed

lemma collects_slot:
  assumes "collects fs X d sa i (allfrags st)" and "set fs \<inter> X \<noteq> {}"
  shows "\<exists>free. frag_slots d sa 0 None (allfrags st) = (Some i, free)"
proof -
  have "filter (\<lambda>g. g \<in> X) fs \<noteq> []" using assms(2) by (auto simp: filter_empty_conv)
  then have "fst (frag_slots d sa 0 None (allfrags st)) = Some (0 + i)"
    using assms(1) by (intro frag_slots_match) (auto simp: collects_def slot_holds_def)
  then show ?thesis by (cases "frag_slots d sa 0 None (allfrags st)") simp
qed

lemma collects_update:
  assumes "collects fs X d sa i F" and "slot_holds fs Y f" and "fid f = d" "fsaddr f = sa"
  shows "collects fs Y d sa i (F[i := f])"
  using assms by (auto simp: collects_def)

lemma ip_defrag_own:
  assumes fs: "frags_of fs d sa" and c: "collects fs X d sa i (allfrags st)" and X: "set fs \<inter> X \<noteq> {}"
    and p: "p \<in> set fs" "p \<notin> X"
  shows "\<exists>f'. ip_defrag env p st = frag_pullup env i (set_frag i f' st) \<and> slot_holds fs (insert p X) f' \<and>
    collects fs (insert p X) d sa i (allfrags (set_frag i f' st))"
proof -
  note t = frags_ofD [OF fs]
  obtain free where s: "frag_slots d sa 0 None (allfrags st) = (Some i, free)" using collects_slot [OF c X] by auto
  have i: "i < length (allfrags st)" "slot_holds fs X (allfrags st ! i)" "fid (allfrags st ! i) = d" "fsaddr (allfrags st ! i) = sa"
    using c by (auto simp: collects_def)
  obtain f' where f': "frag_insert i p st = set_frag i f' st" "slot_holds fs (insert p X) f'" "fid f' = d" "fsaddr f' = sa"
    using frag_insert_holds [OF t(1) i(2,1) p] i(3,4) by auto
  have "ip_defrag env p st = frag_pullup env i (set_frag i f' st)"
    using t(3,4) [OF p(1)] s f'(1) by (simp add: ip_defrag_def)
  then show ?thesis using f' collects_update [OF c f'(2-4)] by auto
qed

text \<open>What is left of the state when the last fragment has come.\<close>

definition finished :: "u8 list list \<Rightarrow> nat \<Rightarrow> ipstate \<Rightarrow> ipstate \<Rightarrow> bool" where
  "finished fs i st st' \<longleftrightarrow>
     (\<exists>f. fbuf f = [] \<and> st' = st\<lparr>allfrags := (allfrags st)[i := f],
        larp := (larp st)\<lparr>atimer := event_del (frag_event i) (atimer (larp st)), trace := trace (larp st) @ map Release fs\<rparr>\<rparr>)"

lemma defrag_run_own:
  assumes fs: "frags_of fs d sa" and b: "\<And>a. e_bufok env a"
  shows "collects fs X d sa i (allfrags st) \<Longrightarrow> set fs \<inter> X \<noteq> {} \<Longrightarrow> gs \<noteq> [] \<Longrightarrow> distinct gs \<Longrightarrow>
    set gs = set fs - X \<Longrightarrow>
    \<exists>st'. defrag_run env gs st = Some (replicate (length gs - 1) None @ [Some (reassembled fs)], st') \<and> finished fs i st st'"
proof (induction gs arbitrary: X st)
  case (Cons p gs)
  note t = frags_ofD [OF fs]
  have p: "p \<in> set fs" "p \<notin> X" using Cons.prems(5) by auto
  obtain f' where f': "ip_defrag env p st = frag_pullup env i (set_frag i f' st)" "slot_holds fs (insert p X) f'"
    "collects fs (insert p X) d sa i (allfrags (set_frag i f' st))"
    using ip_defrag_own [OF fs Cons.prems(1,2) p] by blast
  have i: "i < length (allfrags st)" using Cons.prems(1) by (simp add: collects_def)
  have sl: "slot_holds fs (insert p X) (allfrags (set_frag i f' st) ! i)" using f'(2) i by simp
  show ?case
  proof (cases "gs = []")
    case True
    then have "set fs \<subseteq> insert p X" using Cons.prems(5) by auto
    from frag_pullup_done [OF t(1,2) sl this b] True f'(1) i show ?thesis
      by (auto simp: finished_def release_fold log_ev_def frag_del_event_def set_frag_def intro!: exI [of _ "f'\<lparr>fbuf := []\<rparr>"])
  next
    case False
    then obtain q where q: "q \<in> set gs" by (cases gs) auto
    then have "\<not> set fs \<subseteq> insert p X" using Cons.prems(4,5) by auto
    from frag_pullup_waits [OF t(1) sl this] f'(1) have 1: "ip_defrag env p st = Some (None, set_frag i f' st)" by simp
    have "set gs = set fs - insert p X" "set fs \<inter> insert p X \<noteq> {}" using Cons.prems p by auto
    from Cons.IH [OF f'(3) this(2) False _ this(1)] Cons.prems(4) obtain st' where
      2: "defrag_run env gs (set_frag i f' st) = Some (replicate (length gs - 1) None @ [Some (reassembled fs)], st')"
         "finished fs i (set_frag i f' st) st'" by auto
    have "finished fs i st st'" using 2(2) by (auto simp: finished_def set_frag_def)
    moreover have "replicate (length (p # gs) - 1) None = (None :: u8 list option) # replicate (length gs - 1) None"
      using False by (cases gs) simp_all
    ultimately show ?thesis using 1 2(1) by simp
  qed
qed simp

lemma ip_defrag_first:
  assumes fs: "frags_of fs d sa" and p: "p \<in> set fs"
    and s: "frag_slots d sa 0 None (allfrags st) = (None, Some i)"
    and tm: "event_add (e_call env) (frag_event i) IPFRAG_TMOUT FRAG_TIMEOUT (word_of_nat i) (atimer (larp st)) = Some tm"
  shows "\<exists>f'. ip_defrag env p st = Some (None, set_frag i f' (st\<lparr>larp := (larp st)\<lparr>atimer := tm\<rparr>\<rparr>)) \<and>
    collects fs {p} d sa i ((allfrags st)[i := f'])"
proof -
  note t = frags_ofD [OF fs]
  let ?f = "(allfrags st ! i)\<lparr>ftotlen := 0, fcurlen := 0, fid := d, fsaddr := sa\<rparr>"
  let ?st = "set_frag i ?f (st\<lparr>larp := (larp st)\<lparr>atimer := tm\<rparr>\<rparr>)"
  from frag_slots_free [OF s] have i: "i < length (allfrags st)" "fbuf (allfrags st ! i) = []"
    and o: "\<forall>f \<in> set (allfrags st). fbuf f \<noteq> [] \<longrightarrow> \<not> (fid f = d \<and> fsaddr f = sa)" by auto
  have h: "slot_holds fs {} (allfrags ?st ! i)" "i < length (allfrags ?st)" using i by (simp_all add: slot_holds_def)
  obtain f' where f': "frag_insert i p ?st = set_frag i f' ?st" "slot_holds fs {p} f'" "fid f' = d" "fsaddr f' = sa"
    using frag_insert_holds [OF t(1) h p] i by auto
  have "ip_defrag env p st = Some (None, set_frag i f' ?st)"
    using t(3,4) [OF p] s tm f'(1) by (simp add: ip_defrag_def)
  moreover have "set_frag i f' ?st = set_frag i f' (st\<lparr>larp := (larp st)\<lparr>atimer := tm\<rparr>\<rparr>)" by (simp add: set_frag_def)
  moreover have "collects fs {p} d sa i ((allfrags st)[i := f'])"
    using f' i o by (auto simp: collects_def)
  ultimately show ?thesis by auto
qed

lemma defrag_run_reassembles:
  assumes fs: "frags_of fs d sa" and gs: "distinct gs" "set gs = set fs" and b: "\<And>a. e_bufok env a"
    and s: "frag_slots d sa 0 None (allfrags st) = (None, Some i)"
    and tm: "event_add (e_call env) (frag_event i) IPFRAG_TMOUT FRAG_TIMEOUT (word_of_nat i) (atimer (larp st)) = Some tm"
  shows "\<exists>st'. defrag_run env gs st = Some (replicate (length gs - 1) None @ [Some (reassembled fs)], st') \<and>
    finished fs i (st\<lparr>larp := (larp st)\<lparr>atimer := tm\<rparr>\<rparr>) st'"
proof -
  note t = frags_ofD [OF fs]
  have "length gs = length fs" using gs tiling_distinct [OF t(1)] by (metis distinct_card)
  moreover have "2 \<le> length fs" using fs by (simp add: frags_of_def)
  ultimately obtain p q gs'' where g0: "gs = p # q # gs''" by (cases gs; cases "tl gs") auto
  define gs' where "gs' = q # gs''"
  have g: "gs = p # gs'" "length gs' = Suc (length gs' - 1)" "gs' \<noteq> []" by (simp_all add: g0 gs'_def)
  let ?st = "st\<lparr>larp := (larp st)\<lparr>atimer := tm\<rparr>\<rparr>"
  have p: "p \<in> set fs" using g(1) gs(2) by auto
  obtain f' where f': "ip_defrag env p st = Some (None, set_frag i f' ?st)" "collects fs {p} d sa i ((allfrags st)[i := f'])"
    using ip_defrag_first [OF fs p s tm] by blast
  have c: "collects fs {p} d sa i (allfrags (set_frag i f' ?st))" "set gs' = set fs - {p}" using f'(2) gs g by auto
  from defrag_run_own [OF fs b c(1) _ g(3) _ c(2)] p gs(1) g(1) obtain st' where
    2: "defrag_run env gs' (set_frag i f' ?st) = Some (replicate (length gs' - 1) None @ [Some (reassembled fs)], st')"
       "finished fs i (set_frag i f' ?st) st'" by auto
  have "finished fs i ?st st'" using 2(2) by (auto simp: finished_def set_frag_def)
  moreover have "replicate (length gs - 1) None = (None :: u8 list option) # replicate (length gs' - 1) None"
    using g by (cases gs') simp_all
  ultimately show ?thesis using f'(1) 2(1) g(1) by auto
qed

section \<open>The options of later fragments\<close>

text \<open>Well-formed options, and what is kept of them: single-byte options and those with the copy flag.\<close>

function opts_ok :: "u8 list \<Rightarrow> bool" where
  "opts_ok [] \<longleftrightarrow> True"
| "opts_ok (t # r) \<longleftrightarrow>
     (if t AND IPOPT_TYPE = IPOPT_EOL then True
      else if t AND IPOPT_TYPE = IPOPT_NOP then opts_ok r
      else r \<noteq> [] \<and> 2 \<le> unat (hd r) \<and> unat (hd r) \<le> Suc (length r) \<and> opts_ok (drop (unat (hd r) - 1) r))"
  by pat_completeness auto
termination by (relation "measure length") auto

function kept_opts :: "u8 list \<Rightarrow> u8 list" where
  "kept_opts [] = []"
| "kept_opts (t # r) =
     (if t AND IPOPT_TYPE = IPOPT_EOL then [t]
      else if t AND IPOPT_TYPE = IPOPT_NOP then t # kept_opts r
      else if t AND IPOPT_COPY \<noteq> 0 then t # take (unat (hd r) - 1) r @ kept_opts (drop (unat (hd r) - 1) r)
      else kept_opts (drop (unat (hd r) - 1) r))"
  by pat_completeness auto
termination by (relation "measure length") auto

lemma kept_opts_length: "opts_ok os \<Longrightarrow> length (kept_opts os) \<le> length os"
proof (induction os rule: opts_ok.induct)
  case (2 t r)
  consider "t AND IPOPT_TYPE = IPOPT_EOL" | "t AND IPOPT_TYPE = IPOPT_NOP" "t AND IPOPT_TYPE \<noteq> IPOPT_EOL" |
    "t AND IPOPT_TYPE \<noteq> IPOPT_NOP" "t AND IPOPT_TYPE \<noteq> IPOPT_EOL" by blast
  then show ?case
  proof cases
    case 3
    then have "length (kept_opts (drop (unat (hd r) - 1) r)) \<le> length (drop (unat (hd r) - 1) r)"
      using "2.IH"(2) "2.prems" by simp
    then show ?thesis using 3 "2.prems" by auto
  qed (use 2 in auto)
qed simp

lemma opts_loop_ok:
  assumes "opts_ok os" and "length h = IP_MINLEN"
  shows "\<exists>junk. opts_loop (length pre) (length pre + length os) (h @ pre @ os @ rest) =
      Some (length pre + length (kept_opts os), h @ pre @ kept_opts os @ junk @ rest) \<and>
    length (kept_opts os) + length junk = length os"
  using assms(1)
proof (induction os arbitrary: pre rest rule: opts_ok.induct)
  case 1
  show ?case by (subst opts_loop.simps) simp
next
  case (2 t r)
  let ?p = "h @ pre @ (t # r) @ rest"
  have t: "?p ! (IP_MINLEN + length pre) = t" using assms(2) by (simp add: nth_append)
  consider (eol) "t AND IPOPT_TYPE = IPOPT_EOL" | (nop) "t AND IPOPT_TYPE = IPOPT_NOP" "t AND IPOPT_TYPE \<noteq> IPOPT_EOL" |
    (opt) "t AND IPOPT_TYPE \<noteq> IPOPT_NOP" "t AND IPOPT_TYPE \<noteq> IPOPT_EOL" by blast
  then show ?case
  proof cases
    case eol
    show ?thesis by (subst opts_loop.simps) (use eol t assms(2) in simp)
  next
    case nop
    have "opts_loop (length pre) (length pre + length (t # r)) ?p =
        opts_loop (length (pre @ [t])) (length (pre @ [t]) + length r) (h @ (pre @ [t]) @ r @ rest)"
      by (subst opts_loop.simps) (use nop t assms(2) in simp)
    then show ?thesis using "2.IH"(1) [of "pre @ [t]" rest] "2.prems" nop by auto
  next
    case opt
    let ?n = "unat (hd r)" and ?d = "drop (unat (hd r) - 1) r"
    have r: "r \<noteq> []" "2 \<le> ?n" "?n \<le> Suc (length r)" "opts_ok ?d" using "2.prems" opt by auto
    have l: "?p ! (IP_MINLEN + length pre + 1) = hd r" using assms(2) r(1) by (cases r) (simp_all add: nth_append)
    have s: "r = take (?n - 1) r @ ?d" "length ?d = Suc (length r) - ?n" "length (take (?n - 1) r) = ?n - 1" using r by auto
    have td: "take k r @ drop k r @ x = r @ x" for k x by (metis append.assoc append_take_drop_id)
    have dr: "drop k (t # r @ rest) = drop k (t # r) @ rest" if "k \<le> Suc (length r)" for k
      using that drop_append [of k "t # r" rest] by simp
    note IH = "2.IH"(2) [OF opt(2,1) r(4)]
    show ?thesis
    proof (cases "t AND IPOPT_COPY = 0")
      case False
      let ?pre = "pre @ t # take (?n - 1) r"
      have "opts_loop (length pre) (length pre + length (t # r)) ?p =
          opts_loop (length pre + ?n) (length pre + length (t # r)) ?p"
        by (subst opts_loop.simps) (use opt t l False assms(2) r in simp)
      moreover have "length pre + ?n = length ?pre" "length pre + length (t # r) = length ?pre + length ?d" using r by auto
      moreover have "?p = h @ ?pre @ ?d @ rest" by simp
      moreover obtain junk where
        "opts_loop (length ?pre) (length ?pre + length ?d) (h @ ?pre @ ?d @ rest) =
          Some (length ?pre + length (kept_opts ?d), h @ ?pre @ kept_opts ?d @ junk @ rest)"
        "length (kept_opts ?d) + length junk = length ?d" using IH [of ?pre rest] by blast
      ultimately show ?thesis using opt False s r by (intro exI [of _ junk]) (simp add: td del: drop_Suc_Cons)
    next
      case True
      let ?rest = "drop (length ?d) (t # r) @ rest"
      have e: "length pre + length (t # r) - ?n = length pre + length ?d" using r s by simp
      have e1: "take (IP_MINLEN + length pre) ?p = h @ pre" using assms(2) by simp
      have e2: "take (length (t # r) - ?n) (drop (IP_MINLEN + length pre + ?n) ?p) = ?d"
        using assms(2) r by (cases ?n) simp_all
      have e3: "drop (IP_MINLEN + (length pre + length (t # r)) - ?n) ?p = ?rest"
        using assms(2) r s by (simp add: dr)
      have "opts_loop (length pre) (length pre + length (t # r)) ?p =
          opts_loop (length pre) (length pre + length (t # r) - ?n)
            (take (IP_MINLEN + length pre) ?p @ take (length (t # r) - ?n) (drop (IP_MINLEN + length pre + ?n) ?p) @
             drop (IP_MINLEN + (length pre + length (t # r)) - ?n) ?p)"
        by (subst opts_loop.simps) (use opt t l True assms(2) r in simp)
      then have "opts_loop (length pre) (length pre + length (t # r)) ?p =
          opts_loop (length pre) (length pre + length ?d) (h @ pre @ ?d @ ?rest)"
        by (simp only: e e1 e2 e3 append_assoc)
      moreover obtain junk where
        "opts_loop (length pre) (length pre + length ?d) (h @ pre @ ?d @ ?rest) =
          Some (length pre + length (kept_opts ?d), h @ pre @ kept_opts ?d @ junk @ ?rest)"
        "length (kept_opts ?d) + length junk = length ?d" using IH [of pre ?rest] by blast
      ultimately show ?thesis using opt True s r
        by (intro exI [of _ "junk @ drop (length ?d) (t # r)"]) simp
    qed
  qed
qed

lemma pad_nop_pads:
  assumes "length h = IP_MINLEN" and "k \<le> length junk" and "(length pre + k) mod 4 = 0" and "k < 4"
  shows "pad_nop (length pre) (h @ pre @ junk @ rest) =
    Some (length pre + k, h @ pre @ replicate k IPOPT_NOP @ drop k junk @ rest)"
  using assms
proof (induction k arbitrary: pre junk)
  case 0
  then show ?case by (subst pad_nop.simps) simp
next
  case (Suc k)
  then obtain j js where j: "junk = j # js" by (cases junk) auto
  have m: "length pre mod 4 \<noteq> 0" using Suc.prems(3,4) by presburger
  have "pad_nop (length pre) (h @ pre @ junk @ rest) =
      pad_nop (length (pre @ [IPOPT_NOP])) (h @ (pre @ [IPOPT_NOP]) @ js @ rest)"
    using m Suc.prems(1) by (subst pad_nop.simps) (simp add: j list_update_append)
  also have "\<dots> = Some (length (pre @ [IPOPT_NOP]) + k, h @ (pre @ [IPOPT_NOP]) @ replicate k IPOPT_NOP @ drop k js @ rest)"
    by (rule Suc.IH) (use Suc.prems j in auto)
  finally show ?case by (simp add: j)
qed

text \<open>
  The header view of a datagram: what stays the same when the options are cut out, from the
  fixed part and from the data behind the original header of \<open>base\<close> bytes.
\<close>

definition same_dgram :: "nat \<Rightarrow> u8 list \<Rightarrow> u8 list \<Rightarrow> bool" where
  "same_dgram base p q \<longleftrightarrow> length q = length p \<and> drop base q = drop base p \<and>
     (\<forall>i. 0 < i \<and> i < IP_MINLEN \<longrightarrow> q ! i = p ! i) \<and> IPH_VERSION q = IPH_VERSION p"

lemma same_dgram_refl: "same_dgram base p p"
  by (simp add: same_dgram_def)

lemma same_dgramD:
  assumes "same_dgram base p q"
  shows "length q = length p" "drop base q = drop base p" "iph_id q = iph_id p" "iph_fragoff q = iph_fragoff p"
    "iph_saddr q = iph_saddr p"
  using assms by (simp_all add: same_dgram_def iph_id_def iph_fragoff_def iph_saddr_def pk16_def pk32_def)

lemma low_nibble: "unat (((a :: u8) AND 0xf0 OR word_of_nat (n mod 16)) AND 0xf) = n mod 16"
proof -
  have 15: "(15 :: u8) = mask 4" by (simp add: mask_eq_exp_minus_1)
  have "(a AND 0xf0 OR word_of_nat (n mod 16)) AND 0xf = (a AND (0xf0 AND 0xf)) OR (word_of_nat (n mod 16) AND 0xf)"
    by (simp only: bit.conj_disj_distrib2 and.assoc)
  also have "\<dots> = word_of_nat (n mod 16)" by (simp add: 15 flip: take_bit_eq_mask) (simp add: take_bit_eq_mod word_unat_eq_iff unat_mod unat_of_nat)
  finally show ?thesis by (simp add: unat_of_nat)
qed

lemma high_nibble: "drop_bit 4 ((a :: u8) AND 0xf0 OR word_of_nat (n mod 16)) = drop_bit 4 a"
proof -
  have "drop_bit 4 (word_of_nat (n mod 16) :: u8) = 0" by (simp add: drop_bit_eq_div word_unat_eq_iff unat_div unat_of_nat)
  moreover have "drop_bit 4 a AND mask 4 = drop_bit 4 a" by (simp add: take_bit_drop_bit take_bit_word_eq_self flip: take_bit_eq_mask)
  then have "drop_bit 4 (a AND 0xf0) = drop_bit 4 a" by (simp add: drop_bit_and mask_eq_exp_minus_1)
  ultimately show ?thesis by (simp add: drop_bit_or)
qed

lemma set_hdrlen_nth:
  assumes "p \<noteq> []"
  shows "IPH_HDRLEN (set_hdrlen n p) = n mod 16" "IPH_VERSION (set_hdrlen n p) = IPH_VERSION p"
    "0 < i \<Longrightarrow> set_hdrlen n p ! i = p ! i" "length (set_hdrlen n p) = length p" "0 < k \<Longrightarrow> drop k (set_hdrlen n p) = drop k p"
  using assms by (simp_all add: set_hdrlen_def IPH_HDRLEN_def IPH_VERSION_def low_nibble high_nibble del: drop_bit_or drop_bit_and)

lemma pad_mod: "(n + (4 - n mod 4) mod 4) mod 4 = (0 :: nat)"
proof -
  have "n mod 4 < 4" by simp
  then have "n + (4 - n mod 4) = 4 * (n div 4 + 1)" using div_mult_mod_eq [of n 4] by arith
  then have "(n + (4 - n mod 4)) mod 4 = 0" by (metis mod_mult_self1_is_0)
  then show ?thesis by (simp only: mod_add_right_eq)
qed

lemma frag_opts_ok:
  assumes "opts_ok os" and "length h = IP_MINLEN" and "length os mod 4 = 0" and "length os \<le> 40"
  shows "\<exists>h' q pad. frag_opts (h @ os @ rest) (length os) = Some (h', q) \<and> same_dgram (IP_MINLEN + length os) (h @ os @ rest) q \<and>
    IP_MINLEN \<le> h' \<and> h' \<le> IP_MINLEN + length os \<and> h' = 4 * IPH_HDRLEN q \<and>
    drop IP_MINLEN (take h' q) = kept_opts os @ replicate pad IPOPT_NOP"
proof -
  let ?p = "h @ os @ rest" and ?k = "length (kept_opts os)"
  define pad where "pad = (4 - ?k mod 4) mod 4"
  obtain junk where 1: "opts_loop 0 (length os) ?p = Some (?k, h @ kept_opts os @ junk @ rest)" "?k + length junk = length os"
    using opts_loop_ok [OF assms(1,2), of "[]" rest] by auto
  have m: "(?k + pad) mod 4 = 0" "pad < 4" unfolding pad_def by (rule pad_mod) simp
  obtain a b where ab: "?k + pad = 4 * a" "length os = 4 * b" using m(1) assms(3) by (metis mod_0_imp_dvd dvdE)
  moreover from this have "4 * a < 4 * (b + 1)" using kept_opts_length [OF assms(1)] m(2) by (simp only: distrib_left)
  ultimately have le: "?k + pad \<le> length os" by simp
  let ?q = "h @ kept_opts os @ replicate pad IPOPT_NOP @ drop pad junk @ rest"
  have 2: "pad_nop ?k (h @ kept_opts os @ junk @ rest) = Some (?k + pad, ?q)"
    by (rule pad_nop_pads [OF assms(2) _ m]) (use le 1(2) in linarith)
  define q where "q = set_hdrlen ((?k + pad + IP_MINLEN) div 4) ?q"
  have ne: "?q \<noteq> []" "h \<noteq> []" using assms(2) by auto
  have f: "frag_opts ?p (length os) = Some (?k + pad + IP_MINLEN, q)" by (simp add: frag_opts_def 1(1) 2 q_def)
  have "(?k + pad + IP_MINLEN) div 4 < 16" using le assms(4) by linarith
  moreover have "?k + pad + IP_MINLEN = 4 * ((?k + pad + IP_MINLEN) div 4)" using ab(1) by simp
  ultimately have h': "?k + pad + IP_MINLEN = 4 * IPH_HDRLEN q" by (simp add: q_def set_hdrlen_nth(1) [OF ne(1)])
  have "?q ! i = ?p ! i" if "i < IP_MINLEN" for i using that assms(2) by (simp add: nth_append)
  moreover have "IPH_VERSION ?q = IPH_VERSION ?p" using assms(2) by (simp add: IPH_VERSION_def nth_append)
  moreover have "length ?q = length ?p" using 1(2) le by simp
  moreover have "drop (IP_MINLEN + length os) ?q = drop (IP_MINLEN + length os) ?p"
    using assms(2) 1(2) le by simp
  ultimately have "same_dgram (IP_MINLEN + length os) ?p q"
    unfolding same_dgram_def q_def by (simp add: set_hdrlen_nth [OF ne(1)])
  moreover have "drop IP_MINLEN (take (?k + pad + IP_MINLEN) q) = kept_opts os @ replicate pad IPOPT_NOP"
    unfolding q_def drop_take using assms(2) by (simp add: set_hdrlen_nth(5) [OF ne(1)])
  ultimately show ?thesis using f h' le by (intro exI [of _ "?k + pad + IP_MINLEN"] exI [of _ q] exI [of _ pad]) simp
qed

section \<open>Fields of a packet\<close>

lemma be16_bytes: "be16 (ucast (drop_bit 8 w)) (ucast w) = w"
  by (rule bit_word_eqI) (auto simp: be16_def bit_simps)

lemma put16_simps [simp]:
  "length (put16 off w p) = length p"
  "off + 1 < length p \<Longrightarrow> pk16 (put16 off w p) off = w"
  "i \<noteq> off \<Longrightarrow> i \<noteq> off + 1 \<Longrightarrow> put16 off w p ! i = p ! i"
  "off + 2 \<le> k \<Longrightarrow> drop k (put16 off w p) = drop k p"
  by (simp_all add: put16_def pk16_def be16_bytes)

lemma put16_other [simp]:
  "i + 1 < off \<or> off + 1 < i \<Longrightarrow> pk16 (put16 off w p) i = pk16 p i"
  "i + 3 < off \<or> off + 1 < i \<Longrightarrow> pk32 (put16 off w p) i = pk32 p i"
  "0 < off \<Longrightarrow> IPH_HDRLEN (put16 off w p) = IPH_HDRLEN p" "0 < off \<Longrightarrow> IPH_VERSION (put16 off w p) = IPH_VERSION p"
  by (auto simp: pk16_def pk32_def IPH_HDRLEN_def IPH_VERSION_def)

lemma bytes16_alt: "bytes16 w = [ucast (drop_bit 8 w), ucast w]"
proof -
  have "unat (drop_bit 8 w) = unat w div 256" by (simp add: drop_bit_eq_div unat_div)
  then show ?thesis by (simp add: bytes16_def word_unat_eq_iff unat_ucast_byte unat_byte)
qed

lemma put16_split:
  assumes "off + 2 \<le> length p"
  shows "put16 off w p = take off p @ bytes16 w @ drop (off + 2) p"
proof -
  have "p = take off p @ [p ! off, p ! (off + 1)] @ drop (off + 2) p"
    using assms by (metis Cons_nth_drop_Suc add_2_eq_Suc' add.right_neutral add_Suc_right append.left_neutral append_Cons append_take_drop_id
      less_eq_Suc_le One_nat_def Suc_lessD)
  then have "put16 off w p = put16 off w (take off p @ [p ! off, p ! (off + 1)] @ drop (off + 2) p)" by simp
  also have "\<dots> = take off p @ bytes16 w @ drop (off + 2) p"
    using assms by (simp add: put16_def bytes16_alt list_update_append)
  finally show ?thesis .
qed

lemma put_chksum_ok:
  assumes "12 \<le> 2 * n" and "2 * n \<le> length p" and "n < 65536"
  shows "\<exists>c f. put_chksum n p = Some f \<and> f = put16 10 c p \<and> chksum f (word_of_nat n) = Some 0"
proof -
  have n: "unat (word_of_nat n :: u16) = n" using assms(3) by (simp add: unat_of_nat)
  have s: "put16 10 w p = take 10 p @ bytes16 w @ drop 12 p" for w using put16_split [of 10 p w] assms by simp
  have "\<exists>c. chksum (take 10 p @ [0, 0] @ drop 12 p) (word_of_nat n) = Some c \<and>
      chksum (take 10 p @ bytes16 c @ drop 12 p) (word_of_nat n) = Some 0"
    by (rule chksum_fill) (use assms n in auto)
  moreover have "bytes16 0 = [0, 0]" by (simp add: bytes16_def)
  ultimately show ?thesis by (auto simp: put_chksum_def s)
qed

lemma make_frag_ok:
  assumes p: "base + offset + todo \<le> length p" "hdrlen = 4 * IPH_HDRLEN p" "IP_MINLEN \<le> hdrlen" "hdrlen \<le> base"
    and t: "0 < todo" "hdrlen + todo < 65536"
  shows "\<exists>f. make_frag hdrlen hdrlen base offset todo mf p = Some f \<and> frag_ok f \<and> length f = hdrlen + todo \<and>
    frag_data f = take todo (drop (base + offset) p) \<and> 4 * IPH_HDRLEN f = hdrlen \<and>
    iph_fragoff f = (if mf then (iph_fragoff p + word_of_nat (offset div 8)) OR IP_MF else iph_fragoff p + word_of_nat (offset div 8)) \<and>
    chksum f (word_of_nat (hdrlen div 2)) = Some 0 \<and>
    (\<forall>i < hdrlen. i \<notin> {2, 3, 6, 7, 10, 11} \<longrightarrow> f ! i = p ! i)"
proof -
  let ?f0 = "take hdrlen p @ take todo (drop (base + offset) p)"
  let ?w = "if mf then (iph_fragoff p + word_of_nat (offset div 8)) OR IP_MF else iph_fragoff p + word_of_nat (offset div 8)"
  let ?f2 = "put16 6 ?w (put16 2 (word_of_nat (hdrlen + todo)) ?f0)"
  have l: "length ?f0 = hdrlen + todo" using p by simp
  have m: "12 \<le> 2 * (hdrlen div 2)" "hdrlen div 2 < 65536" "2 * (hdrlen div 2) \<le> length ?f2" using p(3) t(2) l by simp_all
  obtain c f where f: "put_chksum (hdrlen div 2) ?f2 = Some f" "f = put16 10 c ?f2" "chksum f (word_of_nat (hdrlen div 2)) = Some 0"
    using put_chksum_ok [OF m(1) _ m(2), of ?f2] m(3) by blast
  have n: "f ! i = ?f0 ! i" if "i \<notin> {2, 3, 6, 7, 10, 11}" for i using that f(2) by simp
  have f0: "?f0 ! i = p ! i" if "i < hdrlen" for i using that p by (simp add: nth_append)
  have lf: "length f = hdrlen + todo" using f(2) l by simp
  have h: "4 * IPH_HDRLEN f = hdrlen" using n [of 0] f0 [of 0] p(2,3) by (simp add: IPH_HDRLEN_def)
  have len: "iph_length f = word_of_nat (hdrlen + todo)" and off: "iph_fragoff f = ?w"
    using l p(3) by (simp_all add: iph_length_def iph_fragoff_def f(2))
  have "unat (iph_length f) = hdrlen + todo" unfolding len using t(2) by (simp add: unat_of_nat del: of_nat_add)
  then have "frag_ok f" using h lf p(3) t by (simp add: frag_ok_def)
  moreover have "frag_data f = drop hdrlen ?f0" unfolding frag_data_def h unfolding f(2) using p(3) by simp
  then have "frag_data f = take todo (drop (base + offset) p)" using p by simp
  moreover have "make_frag hdrlen hdrlen base offset todo mf p = Some f"
    using f(1) p by (simp add: make_frag_def Let_def)
  ultimately show ?thesis using lf h off f(3) n f0 by auto
qed

text \<open>Adding to the offset of a fragment leaves its flags alone.\<close>

lemma fragoff_add:
  fixes w :: u16
  assumes "unat (w AND IP_FRAGOFF) + k \<le> 0x1fff"
  shows "unat ((w + word_of_nat k) AND IP_FRAGOFF) = unat (w AND IP_FRAGOFF) + k"
    and "(w + word_of_nat k) AND IP_MF = w AND IP_MF"
proof -
  have m: "IP_FRAGOFF = mask 13" by (simp add: mask_eq_exp_minus_1)
  have u: "unat (x AND IP_FRAGOFF) = unat x mod 8192" for x :: u16
    by (simp add: m flip: take_bit_eq_mask) (simp add: take_bit_eq_mod unat_mod)
  have k: "unat (word_of_nat k :: u16) = k" using assms by (simp add: unat_of_nat)
  have "unat (w + word_of_nat k) mod 8192 = (unat w + k) mod 8192"
    by (simp add: unat_word_ariths k mod_mod_cancel)
  also have "\<dots> = (unat w mod 8192 + k) mod 8192" by (simp add: mod_simps)
  finally show 1: "unat ((w + word_of_nat k) AND IP_FRAGOFF) = unat (w AND IP_FRAGOFF) + k"
    using assms by (simp add: u)
  define y where "y = (w AND IP_FRAGOFF) + word_of_nat k"
  have "unat y = unat (w AND IP_FRAGOFF) + k" unfolding y_def using assms by (simp add: unat_word_ariths k)
  then have "unat (y AND IP_FRAGOFF) = unat y" using assms by (simp add: u)
  then have y: "y AND IP_FRAGOFF = y" by (simp add: word_unat_eq_iff)
  have "w = (w AND NOT IP_FRAGOFF) OR (w AND IP_FRAGOFF)" by (rule bit_word_eqI) (auto simp: bit_simps)
  also have "\<dots> = (w AND NOT IP_FRAGOFF) + (w AND IP_FRAGOFF)" by (rule disjunctive_add [symmetric]) (auto simp: bit_simps)
  finally have "w + word_of_nat k = (w AND NOT IP_FRAGOFF) + (y AND IP_FRAGOFF)" unfolding y by (simp add: y_def)
  also have "\<dots> = (w AND NOT IP_FRAGOFF) OR (y AND IP_FRAGOFF)" by (rule disjunctive_add) (auto simp: bit_simps)
  finally show "(w + word_of_nat k) AND IP_MF = w AND IP_MF"
    by (simp add: bit.conj_disj_distrib2 and.assoc)
qed

text \<open>The pieces of a datagram; \<open>m\<close> tells that more fragments follow the last one.\<close>

fun pieces :: "bool \<Rightarrow> nat \<Rightarrow> u8 list list \<Rightarrow> bool" where
  "pieces m off [] \<longleftrightarrow> True"
| "pieces m off (f # fs) \<longleftrightarrow> frag_ok f \<and> 8 * FRAG_OFFSET f = off \<and> (iph_fragoff f AND IP_MF \<noteq> 0 \<longleftrightarrow> fs \<noteq> [] \<or> m) \<and>
     pieces m (off + length (frag_data f)) fs"

lemma pieces_tiling: "pieces False off fs = tiling off fs"
  by (induction off fs rule: tiling.induct) auto

text \<open>The header a fragment is built with: the one of the datagram, perhaps with fewer options.\<close>

definition frag_hdr :: "nat \<Rightarrow> u8 list \<Rightarrow> nat \<Rightarrow> u8 list \<Rightarrow> bool" where
  "frag_hdr base p0 hdrlen p \<longleftrightarrow> same_dgram base p0 p \<and> hdrlen = 4 * IPH_HDRLEN p \<and> IP_MINLEN \<le> hdrlen \<and> hdrlen \<le> base"

lemma next_header:
  assumes "frag_hdr base p0 hdrlen p" and "base \<le> length p0"
    and "offset = 0 \<longrightarrow> hdrlen = base \<and> opts_ok (drop IP_MINLEN (take base p))"
  shows "\<exists>h' p'. (if offset = 0 \<and> hdrlen > IP_MINLEN then frag_opts p (hdrlen - IP_MINLEN) else Some (hdrlen, p)) = Some (h', p') \<and>
    frag_hdr base p0 h' p'"
proof (cases "offset = 0 \<and> hdrlen > IP_MINLEN")
  case True
  let ?h = "take IP_MINLEN p" and ?o = "drop IP_MINLEN (take base p)" and ?r = "drop base p"
  have b: "hdrlen = base" "opts_ok ?o" "base = 4 * IPH_HDRLEN p" "same_dgram base p0 p" "IP_MINLEN \<le> base"
    using True assms by (auto simp: frag_hdr_def)
  have l: "length p = length p0" using same_dgramD(1) [OF b(4)] .
  have "IPH_HDRLEN p < 16" unfolding IPH_HDRLEN_def
    using word_and_le1 [of "p ! 0" "0xf"] by (simp add: word_le_nat_alt and.commute)
  then have "\<exists>h' q pad. frag_opts (?h @ ?o @ ?r) (length ?o) = Some (h', q) \<and> same_dgram (IP_MINLEN + length ?o) (?h @ ?o @ ?r) q \<and>
    IP_MINLEN \<le> h' \<and> h' \<le> IP_MINLEN + length ?o \<and> h' = 4 * IPH_HDRLEN q \<and>
    drop IP_MINLEN (take h' q) = kept_opts ?o @ replicate pad IPOPT_NOP"
    using b l assms(2) by (intro frag_opts_ok) auto
  moreover have "?h = take IP_MINLEN (take base p)" using b(5) by (simp add: min_absorb1)
  then have "?h @ ?o @ ?r = p" by (simp only: append_take_drop_id append_assoc [symmetric])
  moreover have "length ?o = base - IP_MINLEN" using assms(2) l by simp
  ultimately obtain h' q where q: "frag_opts p (base - IP_MINLEN) = Some (h', q)" "same_dgram base p q"
    "IP_MINLEN \<le> h'" "h' \<le> base" "h' = 4 * IPH_HDRLEN q" using b(5) by auto
  moreover have "same_dgram base p0 q" using b(4) q(2) by (auto simp: same_dgram_def)
  ultimately show ?thesis using True b(1) by (auto simp: frag_hdr_def)
qed (use assms in auto)

section \<open>Fragmentation over a link\<close>

text \<open>
  What \<^verbatim>\<open>ip_frag\<close> relies on below it: while the link is ready there is memory for fragments
  and every packet it is given is taken over.
\<close>

definition same_header :: "nat \<Rightarrow> u8 list \<Rightarrow> u8 list \<Rightarrow> bool" where
  "same_header n p f \<longleftrightarrow> 4 * IPH_HDRLEN f = n \<and> (\<forall>i < n. i \<notin> {2, 3, 6, 7, 10, 11} \<longrightarrow> f ! i = p ! i)"

locale link_output =
  fixes alloc :: "'s \<Rightarrow> bool" and send :: "u8 list \<Rightarrow> 's \<Rightarrow> ((errno + unit) \<times> 's) option"
    and ready :: "'s \<Rightarrow> bool" and sent :: "'s \<Rightarrow> u8 list list"
  assumes alloc_ready: "ready st \<Longrightarrow> alloc st"
    and send_ready: "ready st \<Longrightarrow> \<exists>st'. send p st = Some (Inr (), st') \<and> ready st' \<and> sent st' = sent st @ [p]"
begin

definition sends :: "u8 list \<Rightarrow> nat \<Rightarrow> nat \<Rightarrow> nat \<Rightarrow> nat \<Rightarrow> 's \<Rightarrow> ((errno + unit) \<times> 's) option \<Rightarrow> bool" where
  "sends p0 base fl offset dl st res \<longleftrightarrow> (\<exists>F st'. res = Some (Inr (), st') \<and> ready st' \<and> sent st' = sent st @ F \<and>
     F \<noteq> [] \<and> pieces (iph_fragoff p0 AND IP_MF \<noteq> 0) (8 * FRAG_OFFSET p0 + offset) F \<and>
     concat (map frag_data F) = take dl (drop (base + offset) p0) \<and>
     (\<forall>f \<in> set F. iph_id f = iph_id p0 \<and> iph_saddr f = iph_saddr p0 \<and> length f \<le> base + fl \<and>
        chksum f (word_of_nat (2 * IPH_HDRLEN f)) = Some 0) \<and>
     (offset = 0 \<longrightarrow> same_header base p0 (hd F)))"

lemma frag_step:
  assumes r: "ready st" and d: "0 < dl" and fl: "0 < fl" "base + fl < 65536" and l: "base + offset + dl \<le> length p0"
    and h: "frag_hdr base p0 hdrlen p" and b: "offset = 0 \<longrightarrow> hdrlen = base \<and> opts_ok (drop IP_MINLEN (take base p))"
  defines "todo \<equiv> min fl dl"
  shows "\<exists>f st' h' p'. frag_loop alloc send release' (int fl) base hdrlen (int dl) offset p st =
      frag_loop alloc send release' (int fl) base h' (int (dl - todo)) (offset + todo) p' st' \<and>
    ready st' \<and> sent st' = sent st @ [f] \<and> frag_hdr base p0 h' p' \<and> frag_ok f \<and> length f \<le> base + fl \<and>
    frag_data f = take todo (drop (base + offset) p0) \<and>
    iph_fragoff f = (if fl < dl then (iph_fragoff p0 + word_of_nat (offset div 8)) OR IP_MF else iph_fragoff p0 + word_of_nat (offset div 8)) \<and>
    iph_id f = iph_id p0 \<and> iph_saddr f = iph_saddr p0 \<and> chksum f (word_of_nat (2 * IPH_HDRLEN f)) = Some 0 \<and>
    same_header hdrlen p f"
proof -
  have s: "same_dgram base p0 p" and hp: "hdrlen = 4 * IPH_HDRLEN p" "IP_MINLEN \<le> hdrlen" "hdrlen \<le> base" using h by (simp_all add: frag_hdr_def)
  note sd = same_dgramD [OF s]
  have t: "0 < todo" "todo \<le> fl" "todo \<le> dl" using d fl by (simp_all add: todo_def)
  have l1: "base + offset + todo \<le> length p" "hdrlen + todo < 65536" "base \<le> length p0" using l t sd(1) fl hp by linarith+
  obtain f where f: "make_frag hdrlen hdrlen base offset todo (fl < dl) p = Some f" "frag_ok f" "length f = hdrlen + todo"
    "frag_data f = take todo (drop (base + offset) p)" "4 * IPH_HDRLEN f = hdrlen"
    "iph_fragoff f = (if fl < dl then (iph_fragoff p + word_of_nat (offset div 8)) OR IP_MF else iph_fragoff p + word_of_nat (offset div 8))"
    "chksum f (word_of_nat (hdrlen div 2)) = Some 0" "\<forall>i < hdrlen. i \<notin> {2, 3, 6, 7, 10, 11} \<longrightarrow> f ! i = p ! i"
    using make_frag_ok [OF l1(1) hp t(1) l1(2), of "fl < dl"] by blast
  obtain st' where st': "send f st = Some (Inr (), st')" "ready st'" "sent st' = sent st @ [f]" using send_ready [OF r] by blast
  obtain h' p' where n: "(if offset = 0 \<and> hdrlen > IP_MINLEN then frag_opts p (hdrlen - IP_MINLEN) else Some (hdrlen, p)) = Some (h', p')"
    "frag_hdr base p0 h' p'" using next_header [OF h l1(3) b] by blast
  have hc: "(if fl < dl then hdrlen else 4 * IPH_HDRLEN p) = hdrlen" using hp(1) by simp
  have nm: "nat (min (int fl) (int dl)) = todo" by (simp add: todo_def min_def)
  have L: "frag_loop alloc send release' (int fl) base hdrlen (int dl) offset p st =
      frag_loop alloc send release' (int fl) base h' (int dl - int todo) (offset + todo) p' st'"
    using d f(1) st'(1) n(1) alloc_ready [OF r]
    by (subst frag_loop.simps) (simp add: Let_def nm hc del: of_nat_min)
  have e: "int dl - int todo = int (dl - todo)" using t by simp
  have I: "iph_id f = iph_id p0" "iph_saddr f = iph_saddr p0" unfolding sd(3,5) [symmetric]
    using f(8) hp(2) by (simp_all add: iph_id_def iph_saddr_def pk16_def pk32_def)
  have D: "frag_data f = take todo (drop (base + offset) p0)" using f(4) sd(2) by (metis add.commute drop_drop)
  have "hdrlen div 2 = 2 * IPH_HDRLEN f" using f(5) by linarith
  with f(7) have C: "chksum f (word_of_nat (2 * IPH_HDRLEN f)) = Some 0" by (simp only:)
  have sh: "same_header hdrlen p f" using f(5,8) by (simp add: same_header_def)
  have "length f \<le> base + fl" using f(3) hp(3) t(2) by linarith
  with L [unfolded e] st'(2,3) n(2) f(2) D f(6) [unfolded sd(4)] I C sh show ?thesis by (intro exI conjI)
qed

lemma frag_loop_sends:
  assumes fl: "0 < fl" "base + fl < 65536" "8 dvd fl"
  shows "ready st \<Longrightarrow> 0 < dl \<Longrightarrow> base + offset + dl \<le> length p0 \<Longrightarrow> frag_hdr base p0 hdrlen p \<Longrightarrow>
    offset = 0 \<longrightarrow> hdrlen = base \<and> opts_ok (drop IP_MINLEN (take base p)) \<Longrightarrow> offset = 0 \<longrightarrow> p = p0 \<Longrightarrow> 8 dvd offset \<Longrightarrow>
    FRAG_OFFSET p0 + (offset + dl) div 8 \<le> 0x1fff \<Longrightarrow>
    sends p0 base fl offset dl st (frag_loop alloc send release' (int fl) base hdrlen (int dl) offset p st)"
proof (induction dl arbitrary: offset hdrlen p st rule: less_induct)
  case (less dl)
  define todo where "todo = min fl dl"
  obtain f st' h' p' where
    L: "frag_loop alloc send release' (int fl) base hdrlen (int dl) offset p st =
      frag_loop alloc send release' (int fl) base h' (int (dl - todo)) (offset + todo) p' st'"
    and S: "ready st'" "sent st' = sent st @ [f]" "frag_hdr base p0 h' p'" "frag_ok f" "length f \<le> base + fl"
      "frag_data f = take todo (drop (base + offset) p0)"
    and O: "iph_fragoff f = (if fl < dl then (iph_fragoff p0 + word_of_nat (offset div 8)) OR IP_MF else iph_fragoff p0 + word_of_nat (offset div 8))"
    and I: "iph_id f = iph_id p0" "iph_saddr f = iph_saddr p0" "chksum f (word_of_nat (2 * IPH_HDRLEN f)) = Some 0"
    and H: "same_header hdrlen p f"
    using frag_step [where release' = release', OF less.prems(1,2) fl(1,2) less.prems(3,4,5), folded todo_def]
    by (elim exE conjE) (rule that)
  have le: "FRAG_OFFSET p0 + offset div 8 \<le> 0x1fff" using less.prems(8) by (meson add_left_mono div_le_mono le_add1 le_trans)
  note fa = fragoff_add [of "iph_fragoff p0" "offset div 8", folded FRAG_OFFSET_def, OF le]
  have "(x OR IP_MF) AND IP_FRAGOFF = x AND IP_FRAGOFF" "(x OR IP_MF) AND IP_MF = IP_MF" for x :: u16
    by (simp_all add: bit.conj_disj_distrib2 and.assoc)
  then have "FRAG_OFFSET f = FRAG_OFFSET p0 + offset div 8" and mf: "iph_fragoff f AND IP_MF \<noteq> 0 \<longleftrightarrow> fl < dl \<or> iph_fragoff p0 AND IP_MF \<noteq> 0"
    using fa O by (simp_all add: FRAG_OFFSET_def)
  then have off: "8 * FRAG_OFFSET f = 8 * FRAG_OFFSET p0 + offset" using less.prems(7) by simp
  have h0: "offset = 0 \<longrightarrow> same_header base p0 f" using H less.prems(5,6) by auto
  have ld: "length (frag_data f) = todo" using S(6) less.prems(3) by (simp add: todo_def)
  show ?case
  proof (cases "fl < dl")
    case False
    then have t: "todo = dl" by (simp add: todo_def)
    have "frag_loop alloc send release' (int fl) base h' 0 (offset + todo) p' st' = Some (Inr (), st')"
      by (subst frag_loop.simps) simp
    with L t have "frag_loop alloc send release' (int fl) base hdrlen (int dl) offset p st = Some (Inr (), st')" by simp
    then show ?thesis unfolding sends_def
      using S I off mf False t h0 by (intro exI [of _ "[f]"] exI [of _ st']) simp
  next
    case True
    then have t: "todo = fl" by (simp add: todo_def)
    have s: "dl - todo < dl" "0 < dl - todo" "base + (offset + todo) + (dl - todo) \<le> length p0" "8 dvd offset + todo"
      "FRAG_OFFSET p0 + ((offset + todo) + (dl - todo)) div 8 \<le> 0x1fff" "offset + todo \<noteq> 0"
      using True t fl less.prems by simp_all
    have "sends p0 base fl (offset + todo) (dl - todo) st'
      (frag_loop alloc send release' (int fl) base h' (int (dl - todo)) (offset + todo) p' st')"
      by (rule less.IH [OF s(1) S(1) s(2,3) S(3) _ _ s(4,5)]) (use s(6) in blast)+
    then obtain F st'' where F: "frag_loop alloc send release' (int fl) base hdrlen (int dl) offset p st = Some (Inr (), st'')"
      "ready st''" "sent st'' = sent st' @ F" "F \<noteq> []" "pieces (iph_fragoff p0 AND IP_MF \<noteq> 0) (8 * FRAG_OFFSET p0 + (offset + todo)) F"
      "concat (map frag_data F) = take (dl - todo) (drop (base + (offset + todo)) p0)"
      "\<forall>f \<in> set F. iph_id f = iph_id p0 \<and> iph_saddr f = iph_saddr p0 \<and> length f \<le> base + fl \<and>
        chksum f (word_of_nat (2 * IPH_HDRLEN f)) = Some 0" unfolding sends_def L by blast
    have "take todo (drop (base + offset) p0) @ take (dl - todo) (drop (base + (offset + todo)) p0) = take dl (drop (base + offset) p0)"
      using True t take_add [of todo "dl - todo" "drop (base + offset) p0"] by (simp add: add.commute add.left_commute)
    then show ?thesis unfolding sends_def
      using F S I off mf True t ld h0 by (intro exI [of _ "f # F"] exI [of _ st'']) (simp add: add.assoc)
  qed
qed

end

end
