(* ===== verification/Ip.thy ===== *)
theory Ip
  imports IpFrag InetData
begin

text \<open>
  The IP layer of \<^verbatim>\<open>kernel/ip.c\<close> and the control messages of \<^verbatim>\<open>kernel/icmp.c\<close>: sending,
  receiving and forwarding of datagrams over the router, the fragmentation and the address
  resolution, without masquerading. The two modules call each other: a datagram that cannot
  be sent causes a control message, which is sent as a datagram. The definitions of the IP
  functions take \<^verbatim>\<open>icmp_send\<close> as an argument, and \<^verbatim>\<open>icmp_send\<close> is defined by the number of
  calls of itself that may be open.
\<close>

abbreviation IPPROTO_ICMP :: u8 where "IPPROTO_ICMP \<equiv> 1"
abbreviation IPPROTO_RAW :: u8 where "IPPROTO_RAW \<equiv> 255"
abbreviation ICMPT_ECHORP :: u8 where "ICMPT_ECHORP \<equiv> 0"
abbreviation ICMPT_DSTUR :: u8 where "ICMPT_DSTUR \<equiv> 3"
abbreviation ICMPC_NETUR :: u8 where "ICMPC_NETUR \<equiv> 0"
abbreviation ICMPC_HOSTUR :: u8 where "ICMPC_HOSTUR \<equiv> 1"
abbreviation ICMPC_PROTOUR :: u8 where "ICMPC_PROTOUR \<equiv> 2"
abbreviation ICMPC_FNDF :: u8 where "ICMPC_FNDF \<equiv> 4"
abbreviation ICMPT_SRCQ :: u8 where "ICMPT_SRCQ \<equiv> 4"
abbreviation ICMPT_REDIR :: u8 where "ICMPT_REDIR \<equiv> 5"
abbreviation ICMPC_NETRD :: u8 where "ICMPC_NETRD \<equiv> 0"
abbreviation ICMPC_HOSTRD :: u8 where "ICMPC_HOSTRD \<equiv> 1"
abbreviation ICMPT_ECHORQ :: u8 where "ICMPT_ECHORQ \<equiv> 8"
abbreviation ICMPT_TIMEX :: u8 where "ICMPT_TIMEX \<equiv> 11"
abbreviation ICMPC_TTLEX :: u8 where "ICMPC_TTLEX \<equiv> 0"
abbreviation ICMPC_FRAGEX :: u8 where "ICMPC_FRAGEX \<equiv> 1"
abbreviation ICMPT_PARAMP :: u8 where "ICMPT_PARAMP \<equiv> 12"
abbreviation ICMPT_TIMERQ :: u8 where "ICMPT_TIMERQ \<equiv> 13"
abbreviation ICMPT_TIMERP :: u8 where "ICMPT_TIMERP \<equiv> 14"
abbreviation ICMPT_INFORQ :: u8 where "ICMPT_INFORQ \<equiv> 15"
abbreviation ICMPT_INFORP :: u8 where "ICMPT_INFORP \<equiv> 16"
abbreviation ICMPT_MASKRQ :: u8 where "ICMPT_MASKRQ \<equiv> 17"
abbreviation ICMPT_MASKRP :: u8 where "ICMPT_MASKRP \<equiv> 18"
abbreviation RTF_REJECT :: u16 where "RTF_REJECT \<equiv> 0x0008"
abbreviation RTF_DYNAMIC :: u16 where "RTF_DYNAMIC \<equiv> 0x0020"
abbreviation RTF_MODIFIED :: u16 where "RTF_MODIFIED \<equiv> 0x0040"

definition iph_ttl :: "u8 list \<Rightarrow> u8" where "iph_ttl p = p ! 8"
definition iph_proto :: "u8 list \<Rightarrow> u8" where "iph_proto p = p ! 9"
definition iph_daddr :: "u8 list \<Rightarrow> u32" where "iph_daddr p = pk32 p 16"

definition put32 :: "nat \<Rightarrow> u32 \<Rightarrow> u8 list \<Rightarrow> u8 list" where
  "put32 off w p = take off p @ addr_bytes w @ drop (off + 4) p"

section \<open>Addresses\<close>

definition netifs :: "ipstate \<Rightarrow> netif list" where
  "netifs st = List.map_filter (\<lambda>i. map_option netif.truncate (anifs (larp st) i)) (lifs st)"

definition nif_addr :: "nat \<Rightarrow> ipstate \<Rightarrow> ifaddr option" where
  "nif_addr nif st = Option.bind (anifs (larp st) nif) (\<lambda>n. if_af2ifaddr (netif.truncate n) AF_INET)"

definition get_route :: "u32 \<Rightarrow> ipstate \<Rightarrow> (nat option \<times> ipstate) option" where
  "get_route d st = map_option (\<lambda>(r, rts). (r, st\<lparr>lroutes := rts\<rparr>)) (route_get d (lroutes st))"

definition put_route :: "nat \<Rightarrow> ipstate \<Rightarrow> ipstate option" where
  "put_route a st = map_option (\<lambda>rts. st\<lparr>lroutes := rts\<rparr>) (route_deref a (lroutes st))"

definition ip_local_addr :: "u32 \<Rightarrow> ipstate \<Rightarrow> (u32 \<times> ipstate) option" where
  "ip_local_addr dstaddr st = do {
     (ifa, st1) \<leftarrow>
       (if dstaddr = INADDR_ANY then Some (nif_addr (if_primary st) st, st)
        else do {
          (r, st1) \<leftarrow> get_route dstaddr st;
          case r of
            None \<Rightarrow> Some (None, st1)
          | Some a \<Rightarrow> do {
              rt \<leftarrow> rheap (lroutes st1) a;
              st2 \<leftarrow> put_route a st1;
              Some (nif_addr (rt_nif rt) st1, st2)
            }
        });
     Some (case ifa of Some i \<Rightarrow> ia_addr i | None \<Rightarrow> INADDR_ANY, st1)
   }"

datatype addrtype = IPADDR_NONE | IPADDR_LOCAL | IPADDR_BRDCST | IPADDR_BADCLASS

definition ip_chk_addr :: "u32 \<Rightarrow> route \<Rightarrow> anetif \<Rightarrow> addrtype" where
  "ip_chk_addr addr rt n =
     (if addr = INADDR_ANY \<or> addr = INADDR_BROADCAST then IPADDR_BRDCST
      else if addr AND IN_CLASSA_NET = 0x7f000000 then IPADDR_LOCAL
      else if rt_flags rt AND RTF_LOCAL \<noteq> 0 then IPADDR_LOCAL
      else case if_af2ifaddr (netif.truncate n) AF_INET of
        Some ifa \<Rightarrow>
          if addr = ia_addr ifa then IPADDR_LOCAL
          else if addr = ia_net ifa \<or> addr = ia_subnet ifa \<or> addr = ia_net_broadaddr ifa then IPADDR_BRDCST
          else if nif_flags n AND IFF_BROADCAST \<noteq> 0 \<and> addr = ia_ifu ifa then IPADDR_BRDCST
          else if \<not> IN_CLASSA addr \<and> \<not> IN_CLASSB addr \<and> \<not> IN_CLASSC addr then IPADDR_BADCLASS
          else IPADDR_NONE
      | None \<Rightarrow>
          if \<not> IN_CLASSA addr \<and> \<not> IN_CLASSB addr \<and> \<not> IN_CLASSC addr then IPADDR_BADCLASS
          else IPADDR_NONE)"

section \<open>Sending\<close>

type_synonym icmp_fn = "u8 \<Rightarrow> u8 \<Rightarrow> u32 \<Rightarrow> u8 list \<Rightarrow> u8 list option \<Rightarrow> ipstate \<Rightarrow> ipstate option"

definition ip_if_send :: "ipenv \<Rightarrow> nat \<Rightarrow> u32 \<Rightarrow> bool \<Rightarrow> u8 list \<Rightarrow> ipstate \<Rightarrow> ((errno + unit) \<times> ipstate) option" where
  "ip_if_send env nif nexthop isbrcst p st = do {
     (r, a) \<leftarrow> if_send (e_kmalloc env) (e_call env) (e_bufok env) (e_drv env) nif p nexthop isbrcst (larp st);
     Some (r, st\<lparr>larp := a\<rparr>)
   }"

definition ip_frag ::
  "ipenv \<Rightarrow> icmp_fn \<Rightarrow> u8 list \<Rightarrow> nat \<Rightarrow> u32 \<Rightarrow> bool \<Rightarrow> ipstate \<Rightarrow> ((errno + unit) \<times> ipstate) option" where
  "ip_frag env icmp p nif nexthop isbrcst st =
     (if length p < IP_MINLEN then None else do {
        n \<leftarrow> anifs (larp st) nif;
        if unat (iph_length p) \<le> unat (nif_mtu n) then do {
          f \<leftarrow> put_chksum (2 * IPH_HDRLEN p) p;
          ip_if_send env nif nexthop isbrcst f st
        } else do {
          let hdrlen = 4 * IPH_HDRLEN p;
          let fraglen = sint ((nif_mtu n - word_of_nat hdrlen) AND NOT 7);
          let datalen = uint (iph_length p) - int hdrlen;
          if iph_fragoff p AND IP_DF \<noteq> 0 then do {
            st1 \<leftarrow> icmp ICMPT_DSTUR ICMPC_FNDF (iph_saddr p) p None st;
            Some (Inl EOPNOTSUPP, st1)
          }
          else if int (FRAG_OFFSET p) + datalen div 8 > 0x1fff then Some (Inl ENOSYS, release p st)
          else frag_loop (\<lambda>st. e_bufok env (larp st)) (ip_if_send env nif nexthop isbrcst) release
            fraglen hdrlen hdrlen datalen 0 p st
        }
      })"

definition ip_brdcst_copy :: "ipenv \<Rightarrow> u8 list \<Rightarrow> nat \<Rightarrow> route \<Rightarrow> addrtype \<Rightarrow> ipstate \<Rightarrow> u8 list option" where
  "ip_brdcst_copy env p nif rt t st =
     (if t \<noteq> IPADDR_BRDCST \<or> nif = rt_nif rt then None
      else if e_bufok env (larp st) then Some p else None)"

text \<open>The copy of a broadcast goes to the local address; the reference of the route moves on.\<close>

definition ip_send_copy :: "ipenv \<Rightarrow> icmp_fn \<Rightarrow> u8 list option \<Rightarrow> nat \<Rightarrow> ipstate \<Rightarrow> (nat \<times> ipstate) option" where
  "ip_send_copy env icmp nbuf2 a st =
     (case nbuf2 of
        None \<Rightarrow> Some (a, st)
      | Some b \<Rightarrow> do {
          st1 \<leftarrow> put_route a st;
          (la, st2) \<leftarrow> ip_local_addr (iph_daddr b) st1;
          (r, st3) \<leftarrow> get_route la st2;
          a' \<leftarrow> r;
          rt \<leftarrow> rheap (lroutes st3) a';
          (_, st4) \<leftarrow> ip_frag env icmp (put32 16 la b) (rt_nif rt) la False st3;
          Some (a', st4)
        })"

text \<open>
  The part \<^verbatim>\<open>ip_send\<close> and \<^verbatim>\<open>ip_output\<close> share once the route is known and the address is good:
  the source address, the datagram itself and the copy of a broadcast.
\<close>

definition ip_route_out ::
  "ipenv \<Rightarrow> icmp_fn \<Rightarrow> u32 \<Rightarrow> u32 \<Rightarrow> u8 list \<Rightarrow> nat \<Rightarrow> route \<Rightarrow> addrtype \<Rightarrow> ipstate \<Rightarrow> ((errno + unit) \<times> ipstate) option" where
  "ip_route_out env icmp src dst p a rt t st =
     (case (if src = INADDR_ANY then map_option (\<lambda>ifa. put32 12 (ia_addr ifa) p) (nif_addr (rt_nif rt) st) else Some p) of
        None \<Rightarrow> do { st1 \<leftarrow> put_route a (release p st); Some (Inl EADDRNOTAVAIL, st1) }
      | Some p1 \<Rightarrow> do {
          let nbuf2 = ip_brdcst_copy env p1 (rt_nif rt) rt t st;
          (r, st1) \<leftarrow> ip_frag env icmp p1 (rt_nif rt) (if rt_flags rt AND RTF_GATEWAY \<noteq> 0 then rt_gway rt else dst)
            (t = IPADDR_BRDCST) st;
          (a', st2) \<leftarrow> ip_send_copy env icmp nbuf2 a st1;
          st3 \<leftarrow> put_route a' st2;
          Some (r, st3)
        })"

definition ip_output :: "ipenv \<Rightarrow> icmp_fn \<Rightarrow> u8 list \<Rightarrow> ipstate \<Rightarrow> ((errno + unit) \<times> ipstate) option" where
  "ip_output env icmp p st =
     (if length p < IP_MINLEN then None else do {
        (r, st1) \<leftarrow> get_route (iph_daddr p) st;
        case r of
          None \<Rightarrow> do { st2 \<leftarrow> icmp ICMPT_DSTUR ICMPC_NETUR (iph_saddr p) p None st1; Some (Inl ENETUNREACH, st2) }
        | Some a \<Rightarrow> do {
            rt \<leftarrow> rheap (lroutes st1) a;
            n \<leftarrow> anifs (larp st1) (rt_nif rt);
            if ip_chk_addr (iph_daddr p) rt n = IPADDR_BADCLASS then
              do { st2 \<leftarrow> put_route a (release p st1); Some (Inl EADDRNOTAVAIL, st2) }
            else ip_route_out env icmp (iph_saddr p) (iph_daddr p) p a rt (ip_chk_addr (iph_daddr p) rt n) st1
          }
      })"

definition def_opts :: ip_options where
  "def_opts = \<lparr>opri = 0, ottl = 255, otos = 0, hdrincl = False\<rparr>"

definition ip_header :: "u8 \<Rightarrow> nat \<Rightarrow> u16 \<Rightarrow> u8 \<Rightarrow> u8 \<Rightarrow> u32 \<Rightarrow> u32 \<Rightarrow> u8 list" where
  "ip_header tos len d ttl proto src dst =
     [0x45, tos] @ bytes16 (word_of_nat len) @ bytes16 d @ [0, 0, ttl, proto, 0, 0] @ addr_bytes src @ addr_bytes dst"

definition ip_send ::
  "ipenv \<Rightarrow> icmp_fn \<Rightarrow> u32 \<Rightarrow> u32 \<Rightarrow> u8 list \<Rightarrow> u8 \<Rightarrow> bool \<Rightarrow> ip_options option \<Rightarrow> ipstate \<Rightarrow>
    ((errno + unit) \<times> ipstate) option" where
  "ip_send env icmp src dst buf proto brdcst_ok optp st =
     (if \<not> e_bufok env (larp st) then Some (Inl ENOMEM, release buf st)
      else do {
        let opts = (case optp of Some o' \<Rightarrow> o' | None \<Rightarrow> def_opts);
        let p = ip_header (otos opts) (IP_MINLEN + length buf) (ip_dgramid st) (ottl opts) proto src dst @ buf;
        (r, st1) \<leftarrow> get_route dst (st\<lparr>ip_dgramid := ip_dgramid st + 1\<rparr>);
        case r of
          None \<Rightarrow> do { st2 \<leftarrow> icmp ICMPT_DSTUR ICMPC_NETUR src p None st1; Some (Inl ENETUNREACH, st2) }
        | Some a \<Rightarrow> do {
            rt \<leftarrow> rheap (lroutes st1) a;
            n \<leftarrow> anifs (larp st1) (rt_nif rt);
            let t = ip_chk_addr dst rt n;
            if t = IPADDR_BADCLASS then
              do { st2 \<leftarrow> put_route a (release p st1); Some (Inl EADDRNOTAVAIL, st2) }
            else if t = IPADDR_BRDCST \<and> \<not> brdcst_ok then Some (Inl EACCES, release p st1)
            else ip_route_out env icmp src dst p a rt t st1
          }
      })"

section \<open>Control messages\<close>

definition icmp_dontsend :: "netif list \<Rightarrow> u8 \<Rightarrow> u8 list \<Rightarrow> bool" where
  "icmp_dontsend ifs type p =
     (if iph_fragoff p AND IP_FRAGOFF \<noteq> 0 then True
      else if iph_proto p = IPPROTO_ICMP \<and> type \<in> {ICMPT_DSTUR, ICMPT_REDIR, ICMPT_SRCQ, ICMPT_TIMEX, ICMPT_PARAMP} then True
      else if iph_proto p = IPPROTO_ICMP \<and> type = ICMPT_ECHORP then False
      else ip_is_brdcst_addr ifs (iph_daddr p))"

text \<open>
  The message built from the datagram it is about. The result has the new buffer, unless there
  is no memory or the type is not implemented, and the old one. A datagram with less than
  eight bytes of data is read behind its end.
\<close>

definition do_send :: "ipenv \<Rightarrow> u8 \<Rightarrow> u8 list \<Rightarrow> u8 list option \<Rightarrow> ipstate \<Rightarrow> (u8 list option \<times> u8 list) option" where
  "do_send env type p b2 st =
     (let h = 4 * IPH_HDRLEN p; q = take (h + 8) p in
      if type \<in> {ICMPT_ECHORP, ICMPT_TIMERP, ICMPT_INFORP, ICMPT_MASKRP} then
        (if length p < h then None else Some (Some (drop h p), p))
      else if type = ICMPT_DSTUR \<or> type = ICMPT_TIMEX then
        (if length p < h + 8 \<or> length (e_junk env) < 4 then None
         else if \<not> e_bufok env (larp st) then Some (None, q)
         else Some (Some (take 4 (e_junk env) @ [0, 0, 0, 0] @ q), q))
      else if type = ICMPT_REDIR then
        (case b2 of
           None \<Rightarrow> None
         | Some gw \<Rightarrow>
             if length p < h + 8 \<or> length (e_junk env) < 4 \<or> length gw < 4 then None
             else if \<not> e_bufok env (larp st) then Some (None, q)
             else Some (Some (take 4 (e_junk env) @ take 4 gw @ q), q))
      else Some (None, p))"

definition release_opt :: "u8 list option \<Rightarrow> ipstate \<Rightarrow> ipstate" where
  "release_opt b st = (case b of None \<Rightarrow> st | Some p \<Rightarrow> release p st)"

text \<open>
  Type, code and checksum; an odd length is padded with a zero byte behind the message. The
  number of words comes from a length that is kept as a signed 16-bit number.
\<close>

definition icmp_words :: "nat \<Rightarrow> u16" where
  "icmp_words datalen = word_of_int ((sint (word_of_nat datalen :: u16) + 1) div 2)"

definition icmp_finish :: "u8 \<Rightarrow> u8 \<Rightarrow> u8 list \<Rightarrow> u8 list option" where
  "icmp_finish type code m =
     (if length m < 4 then None
      else do {
        let m1 = put16 2 0 (m[0 := type, 1 := code]);
        c \<leftarrow> chksum (if odd (length m) then m1 @ [0] else m1) (icmp_words (length m));
        Some (put16 2 c m1)
      })"

fun icmp_send :: "nat \<Rightarrow> ipenv \<Rightarrow> icmp_fn" where
  "icmp_send 0 env type code dst p b2 st = None"
| "icmp_send (Suc n) env type code dst p b2 st =
     (if length p < IP_MINLEN then None
      else if icmp_dontsend (netifs st) type p then Some (release_opt b2 (release p st))
      else do {
        (src0, st1) \<leftarrow>
          (if ip_is_brdcst_addr (netifs st) (iph_daddr p) then ip_local_addr (iph_daddr p) st else Some (iph_daddr p, st));
        let src = (if ip_is_local_addr (netifs st1) src0 then src0 else INADDR_ANY);
        (nbuf, p1) \<leftarrow> do_send env type p b2 st1;
        case nbuf of
          None \<Rightarrow> Some (release_opt b2 (release p1 st1))
        | Some m \<Rightarrow> do {
            st2 \<leftarrow> (if ip_is_brdcst_addr (netifs st1) dst \<and> e_bufok env (larp st1) then
                      map_option snd (ip_send env (icmp_send n env) src INADDR_LOOPBACK m IPPROTO_ICMP False None st1)
                    else Some st1);
            m1 \<leftarrow> icmp_finish type code m;
            st3 \<leftarrow> map_option snd (ip_send env (icmp_send n env) src dst m1 IPPROTO_ICMP False None st2);
            Some (release_opt b2 st3)
          }
      })"

text \<open>Two open calls are enough: see \<open>icmp_send_settles\<close> below.\<close>

definition icmp :: "ipenv \<Rightarrow> icmp_fn" where
  "icmp env = icmp_send 2 env"

definition frag_timeout :: "ipenv \<Rightarrow> nat \<Rightarrow> ipstate \<Rightarrow> ipstate option" where
  "frag_timeout env i st =
     (case fbuf (allfrags st ! i) of
        [] \<Rightarrow> None
      | b # bs \<Rightarrow> do {
          st1 \<leftarrow> icmp env ICMPT_TIMEX ICMPC_FRAGEX (fsaddr (allfrags st ! i)) b None st;
          Some (frag_delete i (set_frag i ((allfrags st1 ! i)\<lparr>fbuf := bs\<rparr>) st1))
        })"

section \<open>Receiving\<close>

text \<open>
  The protocols are asked in turn. The protocol number and the addresses are read through a
  pointer into the datagram that arrived, which may have been freed by the reassembly; a
  freed buffer keeps its contents until it is used again.
\<close>

fun ip_deliver :: "ipenv \<Rightarrow> ip_ops list \<Rightarrow> nat \<Rightarrow> u8 list \<Rightarrow> u8 list \<Rightarrow> ipstate \<Rightarrow> ipstate option" where
  "ip_deliver env [] nif hdr buf st = icmp env ICMPT_DSTUR ICMPC_PROTOUR (iph_saddr hdr) buf None st"
| "ip_deliver env (p # ps) nif hdr buf st =
     (if op_proto p = iph_proto hdr \<or> op_proto p = IPPROTO_RAW then do {
        (taken, st1) \<leftarrow> op_input p nif buf (iph_saddr hdr) (iph_daddr hdr) st;
        if taken then Some st1 else ip_deliver env ps nif hdr buf st1
      }
      else ip_deliver env ps nif hdr buf st)"

text \<open>
  Forwarding. The time to live is counted down through the pointer into the datagram that
  arrived; \<open>buf\<close> is that datagram or, for a broadcast, a copy of it.
\<close>

definition ip_forward :: "ipenv \<Rightarrow> nat \<Rightarrow> u8 list \<Rightarrow> bool \<Rightarrow> nat \<Rightarrow> route \<Rightarrow> addrtype \<Rightarrow> ipstate \<Rightarrow> ipstate option" where
  "ip_forward env nif hdr copied a rt t st =
     (let ttl = iph_ttl hdr - 1;
          hdr1 = hdr[8 := ttl];
          buf = (if copied then hdr else hdr1)
      in if ttl = 0 then do {
           st1 \<leftarrow> icmp env ICMPT_TIMEX ICMPC_TTLEX (iph_saddr hdr) buf None st;
           put_route a st1
         }
         else if rt_nif rt = nif then do {
           st1 \<leftarrow> (if rt_flags rt AND RTF_GATEWAY \<noteq> 0 \<and> e_bufok env (larp st) then
                     icmp env ICMPT_REDIR (if rt_flags rt AND RTF_HOST \<noteq> 0 then ICMPC_HOSTRD else ICMPC_NETRD)
                       (iph_saddr hdr) buf (Some (addr_bytes (rt_gway rt))) st
                   else Some (release buf st));
           put_route a st1
         }
         else do {
           (_, st1) \<leftarrow> ip_frag env (icmp env) buf (rt_nif rt)
             (if rt_flags rt AND RTF_GATEWAY \<noteq> 0 then rt_gway rt else iph_daddr hdr) (t = IPADDR_BRDCST) st;
           put_route a st1
         })"

definition ip_input :: "ipenv \<Rightarrow> nat \<Rightarrow> u8 list \<Rightarrow> ipstate \<Rightarrow> ipstate option" where
  "ip_input env nif p st =
     (let pktlen = word_of_nat (length p) :: u16 in
      if sint pktlen < int IP_MINLEN \<or> pktlen \<noteq> iph_length p then Some (release p st)
      else do {
        c \<leftarrow> chksum p (word_of_nat (2 * IPH_HDRLEN p));
        if c \<noteq> 0 \<or> IPH_VERSION p \<noteq> 4 then Some (release p st)
        else do {
          (r, st1) \<leftarrow> get_route (iph_daddr p) st;
          case r of
            None \<Rightarrow> icmp env ICMPT_DSTUR ICMPC_NETUR (iph_saddr p) p None st1
          | Some a \<Rightarrow> do {
              rt \<leftarrow> rheap (lroutes st1) a;
              n \<leftarrow> anifs (larp st1) (rt_nif rt);
              let t = ip_chk_addr (iph_daddr p) rt n;
              if t = IPADDR_BADCLASS then put_route a (release p st1)
              else if t = IPADDR_LOCAL \<or> t = IPADDR_BRDCST then do {
                let buf2 = ip_brdcst_copy env p nif rt t st1;
                (d, st2) \<leftarrow> ip_defrag env p st1;
                st3 \<leftarrow> (case d of None \<Rightarrow> Some st2 | Some buf \<Rightarrow> ip_deliver env (e_protos env) nif p buf st2);
                case buf2 of None \<Rightarrow> put_route a st3 | Some b \<Rightarrow> ip_forward env nif b True a rt t st3
              }
              else ip_forward env nif p False a rt t st1
            }
        }
      })"

section \<open>Control messages about control messages\<close>

lemma ip_header_fields:
  assumes "p = ip_header tos len d ttl proto src dst @ b"
  shows "iph_proto p = proto" "iph_fragoff p = 0" "IP_MINLEN \<le> length p"
  using assms by (simp_all add: ip_header_def bytes16_alt addr_bytes_def iph_proto_def iph_fragoff_def pk16_def be16_def)

lemma ip_brdcst_copy_self: "ip_brdcst_copy env p (rt_nif rt) rt t st = None"
  by (simp add: ip_brdcst_copy_def)

lemma put32_fragoff: "IP_MINLEN \<le> length p \<Longrightarrow> iph_fragoff (put32 12 w p) = iph_fragoff p"
  by (simp add: iph_fragoff_def put32_def pk16_def nth_append)

lemma ip_frag_no_df:
  "iph_fragoff p AND IP_DF = 0 \<Longrightarrow> ip_frag env i1 p nif h b st = ip_frag env i2 p nif h b st"
  by (simp add: ip_frag_def Let_def cong: if_cong)

lemma ip_route_out_no_df:
  assumes "iph_fragoff p = 0" and "IP_MINLEN \<le> length p"
  shows "ip_route_out env i1 src dst p a rt t st = ip_route_out env i2 src dst p a rt t st"
proof -
  have "ip_frag env i1 q nif h b st = ip_frag env i2 q nif h b st" if "iph_fragoff q = 0" for q nif h b st
    by (rule ip_frag_no_df) (simp add: that)
  then show ?thesis using assms
    by (auto simp: ip_route_out_def ip_brdcst_copy_self ip_send_copy_def put32_fragoff Let_def split: option.split)
qed

lemma ip_send_cong:
  assumes "\<forall>d p st. iph_proto p = proto \<longrightarrow> iph_fragoff p = 0 \<longrightarrow> IP_MINLEN \<le> length p \<longrightarrow>
    i1 ICMPT_DSTUR ICMPC_NETUR d p None st = i2 ICMPT_DSTUR ICMPC_NETUR d p None st"
  shows "ip_send env i1 src dst b proto f optp st = ip_send env i2 src dst b proto f optp st"
proof -
  define p where "p = ip_header (otos (case optp of Some o' \<Rightarrow> o' | None \<Rightarrow> def_opts)) (IP_MINLEN + length b) (ip_dgramid st)
      (ottl (case optp of Some o' \<Rightarrow> o' | None \<Rightarrow> def_opts)) proto src dst @ b"
  note h = ip_header_fields [OF p_def]
  have "i1 ICMPT_DSTUR ICMPC_NETUR d p None s = i2 ICMPT_DSTUR ICMPC_NETUR d p None s" for d s
    using assms h by blast
  moreover have "ip_route_out env i1 src dst p a rt t s = ip_route_out env i2 src dst p a rt t s" for a rt t s
    by (rule ip_route_out_no_df [OF h(2,3)])
  ultimately show ?thesis unfolding ip_send_def Let_def p_def [symmetric] by (simp cong: option.case_cong if_cong)
qed

lemma icmp_send_quiet:
  "iph_proto p = IPPROTO_ICMP \<Longrightarrow> IP_MINLEN \<le> length p \<Longrightarrow>
     icmp_send (Suc n) env ICMPT_DSTUR c d p None st = Some (release p st)"
  by (simp add: icmp_dontsend_def release_opt_def)

lemma ip_send_icmp: "ip_send env (icmp_send (Suc n) env) src dst b IPPROTO_ICMP f optp st =
    ip_send env (icmp_send (Suc m) env) src dst b IPPROTO_ICMP f optp st"
  by (rule ip_send_cong) (metis icmp_send_quiet)


section \<open>A link that takes packets\<close>

definition resolved_at :: "nat \<Rightarrow> u32 \<Rightarrow> arp \<Rightarrow> bool" where
  "resolved_at nif hop st \<longleftrightarrow> (\<exists>a e idx. a \<noteq> 0 \<and> arp_hash (addr_bytes hop) 4 = Some idx \<and>
     arp_search nif ARPRTYPE_IP 4 (addr_bytes hop) idx st = Some a \<and> ents st a = Some e \<and>
     aflags e AND ATF_COM = ATF_COM \<and> alinks e \<noteq> 0)"

definition link_up :: "nat \<Rightarrow> u32 \<Rightarrow> bool \<Rightarrow> arp \<Rightarrow> bool" where
  "link_up nif hop b st \<longleftrightarrow> (\<exists>n. anifs st nif = Some n \<and> if_ready n \<and>
     (sint HWTYPE_NONE \<le> sint (nhwtype n) \<or> nhwtype n = HWTYPE_ETH \<and> (b \<or> resolved_at nif hop st)))"

text \<open>The packets an interface was given.\<close>

definition sent_on :: "nat \<Rightarrow> arp_event list \<Rightarrow> u8 list list" where
  "sent_on nif tr = List.map_filter (\<lambda>e. case e of Output i p _ _ _ \<Rightarrow> if i = nif then Some p else None | Release _ \<Rightarrow> None) tr"

lemma sent_on_app: "sent_on nif (xs @ ys) = sent_on nif xs @ sent_on nif ys"
  by (simp add: sent_on_def map_filter_def)

lemma log_ev_simps [simp]:
  "ents (log_ev es st) = ents st" "arptab (log_ev es st) = arptab st" "anifs (log_ev es st) = anifs st"
  "trace (log_ev es st) = trace st @ es" "atimer (log_ev es st) = atimer st"
  by (simp_all add: log_ev_def)

lemma resolved_at_log [simp]: "resolved_at nif hop (log_ev es st) = resolved_at nif hop st"
  by (simp add: resolved_at_def arp_search_def cong: if_cong)

lemma link_up_log [simp]: "link_up nif hop b (log_ev es st) = link_up nif hop b st"
  by (simp add: link_up_def)

lemma if_send_resolved:
  assumes "resolved_at nif hop st" and n: "anifs st nif = Some n" "if_ready n" "nhwtype n = HWTYPE_ETH"
  shows "\<exists>adr l. if_send kmalloc call bufok drv nif p hop False st = Some (drv, log_ev [Output nif p adr l PKTYPE_IP] st)"
proof -
  obtain a e idx where a: "a \<noteq> 0" "arp_hash (addr_bytes hop) 4 = Some idx"
    "arp_search nif ARPRTYPE_IP 4 (addr_bytes hop) idx st = Some a" "ents st a = Some e"
    "aflags e AND ATF_COM = ATF_COM" "alinks e \<noteq> 0" using assms(1) by (auto simp: resolved_at_def)
  let ?e = "e\<lparr>alinks := alinks e + 1\<rparr>"
  have l: "arp_lookup kmalloc call bufok 0 nif ARPRTYPE_IP 4 (addr_bytes hop) st = Some (a, set_ent a ?e st)"
    using a by (simp add: arp_lookup_def)
  let ?ev = "Output nif p (hbytes (ahwaddr e)) (hlen (ahwaddr e)) PKTYPE_IP"
  have "arp_deref a (log_ev [?ev] (set_ent a ?e st)) = Some (log_ev [?ev] st)"
    using a by (simp add: arp_deref_def set_ent_def log_ev_def fun_upd_idem)
  then show ?thesis using l a n by (auto simp: if_send_def set_ent_def Let_def)
qed

lemma if_send_up:
  assumes "link_up nif hop b st"
  shows "\<exists>adr l. if_send kmalloc call bufok drv nif p hop b st = Some (drv, log_ev [Output nif p adr l PKTYPE_IP] st)"
proof -
  obtain n where n: "anifs st nif = Some n" "if_ready n"
    "sint HWTYPE_NONE \<le> sint (nhwtype n) \<or> nhwtype n = HWTYPE_ETH \<and> (b \<or> resolved_at nif hop st)"
    using assms by (auto simp: link_up_def)
  show ?thesis
  proof (cases "sint HWTYPE_NONE \<le> sint (nhwtype n) \<or> b")
    case True
    then show ?thesis using n by (auto simp: if_send_def)
  next
    case False
    then show ?thesis using if_send_resolved [of nif hop st n] n by auto
  qed
qed

definition link_open :: "ipenv \<Rightarrow> nat \<Rightarrow> u32 \<Rightarrow> bool \<Rightarrow> ipstate \<Rightarrow> bool" where
  "link_open env nif hop b st \<longleftrightarrow> (\<forall>a. e_bufok env a) \<and> e_drv env = Inr () \<and> link_up nif hop b (larp st)"

interpretation ifl: link_output "\<lambda>st. e_bufok env (larp st)" "ip_if_send env nif hop b" "link_open env nif hop b"
  "\<lambda>st. sent_on nif (trace (larp st))" for env nif hop b
proof
  fix st p
  assume "link_open env nif hop b st"
  then have o: "\<forall>a. e_bufok env a" "e_drv env = Inr ()" "link_up nif hop b (larp st)" by (simp_all add: link_open_def)
  show "e_bufok env (larp st)" using o by simp
  obtain adr l where "if_send (e_kmalloc env) (e_call env) (e_bufok env) (e_drv env) nif p hop b (larp st) =
      Some (e_drv env, log_ev [Output nif p adr l PKTYPE_IP] (larp st))" using if_send_up [OF o(3)] by blast
  then show "\<exists>st'. ip_if_send env nif hop b p st = Some (Inr (), st') \<and> link_open env nif hop b st' \<and>
      sent_on nif (trace (larp st')) = sent_on nif (trace (larp st)) @ [p]"
    using o by (simp add: ip_if_send_def link_open_def sent_on_app) (simp add: sent_on_def map_filter_def)
qed

lemma round_down_8:
  fixes x :: u32
  assumes "unat x < 2 ^ 31"
  shows "sint (x AND NOT 7) = int (unat x div 8 * 8)"
proof -
  have 7: "(7 :: u32) = mask 3" by (simp add: mask_eq_exp_minus_1)
  have "x AND NOT 7 = push_bit 3 (drop_bit 3 x)" unfolding 7 by (rule bit_word_eqI) (auto simp: bit_simps)
  also have "\<dots> = word_of_nat (unat x div 8 * 8)"
    by (simp add: push_bit_eq_mult drop_bit_eq_div word_unat_eq_iff unat_word_ariths unat_div unat_of_nat)
  finally show ?thesis using assms sint_word_of_nat_32 [of "unat x div 8 * 8"] by simp
qed

text \<open>A whole datagram that needs fragmentation: it fills its buffer and its options are well-formed.\<close>

definition dgram_ok :: "u8 list \<Rightarrow> bool" where
  "dgram_ok p \<longleftrightarrow> frag_ok p \<and> iph_fragoff p = 0 \<and> opts_ok (drop IP_MINLEN (take (4 * IPH_HDRLEN p) p))"

lemma ip_frag_pieces:
  assumes o: "link_open env nif hop b st" and n: "anifs (larp st) nif = Some n" and p: "dgram_ok p"
    and m: "4 * IPH_HDRLEN p + 8 \<le> unat (nif_mtu n)" "unat (nif_mtu n) < length p"
  shows "\<exists>F st'. ip_frag env icmpf p nif hop b st = Some (Inr (), st') \<and>
    sent_on nif (trace (larp st')) = sent_on nif (trace (larp st)) @ F \<and> frags_of F (iph_id p) (iph_saddr p) \<and>
    concat (map frag_data F) = frag_data p \<and> same_header (4 * IPH_HDRLEN p) p (hd F) \<and>
    (\<forall>f \<in> set F. length f \<le> unat (nif_mtu n) \<and> chksum f (word_of_nat (2 * IPH_HDRLEN f)) = Some 0)"
proof -
  define h dl fl where "h = 4 * IPH_HDRLEN p" and "dl = length p - h" and "fl = (unat (nif_mtu n) - h) div 8 * 8"
  have ok: "IP_MINLEN \<le> h" "h < length p" "unat (iph_length p) = length p" "FRAG_OFFSET p = 0"
    using p by (auto simp: dgram_ok_def frag_ok_def h_def FRAG_OFFSET_def)
  have l: "length p < 65536" using p by (simp add: dgram_ok_def frag_ok_length)
  have dl: "0 < dl" "h + 0 + dl \<le> length p" using ok by (simp_all add: dl_def)
  have fl: "0 < fl" "h + fl \<le> unat (nif_mtu n)" "8 dvd fl" "h + fl < 65536" "fl < dl"
  proof -
    have le: "fl \<le> unat (nif_mtu n) - h" by (simp add: fl_def)
    show "0 < fl" "8 dvd fl" using m(1) by (auto simp: fl_def h_def div_greater_zero_iff)
    show "h + fl \<le> unat (nif_mtu n)" "h + fl < 65536" "fl < dl" using le m l by (simp_all add: dl_def h_def)
  qed
  have hh: "frag_hdr h p h p" using ok by (simp add: frag_hdr_def same_dgram_refl h_def)
  have oo: "(0 :: nat) = 0 \<longrightarrow> h = h \<and> opts_ok (drop IP_MINLEN (take h p))" using p by (simp add: dgram_ok_def h_def)
  have fo: "FRAG_OFFSET p + (0 + dl) div 8 \<le> 0x1fff" using l ok by (simp add: dl_def)
  have "nif_mtu n - word_of_nat h = word_of_nat (unat (nif_mtu n) - h)" using m(1) by (simp add: h_def of_nat_diff)
  then have "unat (nif_mtu n - word_of_nat h) = unat (nif_mtu n) - h" using m l by (simp add: unat_of_nat)
  then have sfl: "sint ((nif_mtu n - word_of_nat h) AND NOT 7) = int fl"
    using round_down_8 [of "nif_mtu n - word_of_nat h"] m l by (simp add: fl_def)
  have idl: "uint (iph_length p) - int h = int dl" using ok by (simp add: dl_def uint_nat)
  have gt: "unat (nif_mtu n) < unat (iph_length p)" using m ok by simp
  have big: "\<not> 0x1fff < int (FRAG_OFFSET p) + int dl div 8" using fo by (simp add: zdiv_int [symmetric])
  have "ip_frag env icmpf p nif hop b st = frag_loop (\<lambda>st. e_bufok env (larp st)) (ip_if_send env nif hop b) release
      (int fl) h h (int dl) 0 p st"
    using gt n ok big p unfolding ip_frag_def
    by (simp add: Let_def h_def [symmetric] sfl [simplified] idl dgram_ok_def)
  moreover note ifl.frag_loop_sends [OF fl(1,4,3) o dl hh oo _ _ fo, of release]
  ultimately have "ifl.sends env nif hop b p h fl 0 dl st (ip_frag env icmpf p nif hop b st)" by simp
  then obtain F st' where F: "ip_frag env icmpf p nif hop b st = Some (Inr (), st')"
    "sent_on nif (trace (larp st')) = sent_on nif (trace (larp st)) @ F" "F \<noteq> []"
    "pieces (iph_fragoff p AND IP_MF \<noteq> 0) (8 * FRAG_OFFSET p + 0) F" "concat (map frag_data F) = take dl (drop (h + 0) p)"
    "\<forall>f \<in> set F. iph_id f = iph_id p \<and> iph_saddr f = iph_saddr p \<and> length f \<le> h + fl \<and>
        chksum f (word_of_nat (2 * IPH_HDRLEN f)) = Some 0" "same_header h p (hd F)"
    unfolding ifl.sends_def by blast
  have t: "tiling 0 F" using F(4) p ok by (simp add: dgram_ok_def pieces_tiling)
  have d: "concat (map frag_data F) = frag_data p" using F(5) by (simp add: frag_data_def h_def dl_def)
  have "2 \<le> length F"
  proof (rule ccontr)
    assume "\<not> 2 \<le> length F"
    then obtain f where f: "F = [f]" using F(3) by (cases F; cases "tl F") auto
    have "length f = h + length (frag_data f)" using t F(7) f by (auto simp: frag_data_def frag_ok_def same_header_def)
    moreover have "length (frag_data f) = dl" using d f by (simp add: frag_data_def dl_def h_def)
    ultimately show False using F(6) f fl(5) by simp
  qed
  then have "frags_of F (iph_id p) (iph_saddr p)" using t F(6) by (simp add: frags_of_def)
  then show ?thesis using F(1,2,6,7) d fl(2) unfolding h_def by (intro exI [of _ F] exI [of _ st']) auto
qed

lemma reassembled_fields:
  assumes F: "frags_of F d sa" and c: "concat (map frag_data F) = frag_data p" and h: "same_header (4 * IPH_HDRLEN p) p (hd F)"
    and p: "frag_ok p"
  shows "frag_data (reassembled F) = frag_data p" "IPH_HDRLEN (reassembled F) = IPH_HDRLEN p"
    "iph_fragoff (reassembled F) = 0" "unat (iph_length (reassembled F)) = length (frag_data p)"
    "iph_proto (reassembled F) = iph_proto p" "iph_saddr (reassembled F) = iph_saddr p" "iph_daddr (reassembled F) = iph_daddr p"
proof -
  let ?h = "4 * IPH_HDRLEN p" and ?d = "frag_data p"
  have e: "IPH_HDRLEN (hd F) = IPH_HDRLEN p" using h by (simp add: same_header_def)
  have ok: "frag_ok (hd F)" using frags_ofD(1,2) [OF F] tiling_ok [of 0 F "hd F"] by simp
  have l: "length (take ?h (hd F)) = ?h" "IP_MINLEN \<le> ?h" using ok p e by (simp_all add: frag_ok_def)
  let ?r = "take ?h (hd F) @ ?d"
  have r: "reassembled F = put16 6 0 (put16 2 (word_of_nat (length ?d)) ?r)"
    by (simp add: reassembled_def c e Let_def)
  have n: "?r ! i = p ! i" if "i < ?h" "i \<notin> {2, 3, 6, 7, 10, 11}" for i
    using that h l(1) by (simp add: nth_append same_header_def)
  show hd: "IPH_HDRLEN (reassembled F) = IPH_HDRLEN p" unfolding r using n [of 0] l by (simp add: IPH_HDRLEN_def)
  show "frag_data (reassembled F) = frag_data p" unfolding frag_data_def [of "reassembled F"] hd unfolding r using l by simp
  have lr: "20 \<le> length ?r" using l by simp
  show "iph_fragoff (reassembled F) = 0" unfolding r iph_fragoff_def using lr by simp
  have "length ?d < 65536" using frag_ok_length [OF p] by (simp add: frag_data_def)
  then show "unat (iph_length (reassembled F)) = length ?d" unfolding r iph_length_def using lr by (simp add: unat_of_nat)
  show "iph_proto (reassembled F) = iph_proto p" "iph_saddr (reassembled F) = iph_saddr p" "iph_daddr (reassembled F) = iph_daddr p"
    unfolding r iph_proto_def iph_saddr_def iph_daddr_def using n l by (simp_all add: pk32_def)
qed

text \<open>
  C36: Fragmentation and reassembly are inverse to each other. A datagram longer than the
  MTU of an interface that can send, with well-formed options, leaves the interface as
  fragments that fit the MTU and carry a right header checksum; and a host that gets these
  fragments in any order, with memory and a free slot, returns nothing for all but the last
  and then a datagram with the data, the protocol and the addresses of the original. Its
  length field, though, holds the length of the data, without the header.
\<close>
theorem ip_frag_roundtrip:
  assumes "link_open env nif hop b st" and "anifs (larp st) nif = Some n" and "dgram_ok p"
    and "4 * IPH_HDRLEN p + 8 \<le> unat (nif_mtu n)" and "unat (nif_mtu n) < length p"
    and "\<forall>a. e_bufok env' a" and "frag_slots (iph_id p) (iph_saddr p) 0 None (allfrags rs) = (None, Some i)"
    and "event_add (e_call env') (frag_event i) IPFRAG_TMOUT FRAG_TIMEOUT (word_of_nat i) (atimer (larp rs)) = Some tm"
  shows "\<exists>F st'. ip_frag env icmpf p nif hop b st = Some (Inr (), st') \<and>
    sent_on nif (trace (larp st')) = sent_on nif (trace (larp st)) @ F \<and>
    (\<forall>f \<in> set F. length f \<le> unat (nif_mtu n) \<and> chksum f (word_of_nat (2 * IPH_HDRLEN f)) = Some 0) \<and>
    (\<forall>gs. distinct gs \<and> set gs = set F \<longrightarrow> (\<exists>q rs'.
       defrag_run env' gs rs = Some (replicate (length F - 1) None @ [Some q], rs') \<and>
       frag_data q = frag_data p \<and> iph_proto q = iph_proto p \<and> iph_saddr q = iph_saddr p \<and> iph_daddr q = iph_daddr p \<and>
       unat (iph_length q) = length (frag_data p)))"
proof -
  obtain F st' where F: "ip_frag env icmpf p nif hop b st = Some (Inr (), st')"
    "sent_on nif (trace (larp st')) = sent_on nif (trace (larp st)) @ F" "frags_of F (iph_id p) (iph_saddr p)"
    "concat (map frag_data F) = frag_data p" "same_header (4 * IPH_HDRLEN p) p (hd F)"
    "\<forall>f \<in> set F. length f \<le> unat (nif_mtu n) \<and> chksum f (word_of_nat (2 * IPH_HDRLEN f)) = Some 0"
    using ip_frag_pieces [OF assms(1-5)] by blast
  note r = reassembled_fields [OF F(3-5)]
  have ok: "frag_ok p" using assms(3) by (simp add: dgram_ok_def)
  have "\<exists>q rs'. defrag_run env' gs rs = Some (replicate (length F - 1) None @ [Some q], rs') \<and>
       frag_data q = frag_data p \<and> iph_proto q = iph_proto p \<and> iph_saddr q = iph_saddr p \<and> iph_daddr q = iph_daddr p \<and>
       unat (iph_length q) = length (frag_data p)"
    if g: "distinct gs" "set gs = set F" for gs
  proof -
    have "length gs = length F" using g tiling_distinct [OF frags_ofD(1) [OF F(3)]] by (metis distinct_card)
    with defrag_run_reassembles [OF F(3) g _ assms(7,8)] assms(6) r(1,4-7) [OF ok] show ?thesis by metis
  qed
  then show ?thesis using F(1,2,6) by blast
qed

definition sample_env :: ipenv where
  "sample_env = \<lparr>e_kmalloc = arp_kmalloc, e_rtalloc = (\<lambda>_. None), e_call = observer, e_bufok = (\<lambda>_. True), e_drv = Inr (),
     e_protos = [], e_junk = [0, 0, 0, 0], e_time = 0\<rparr>"

definition sample_slip :: anetif where
  "sample_slip = sample_nif\<lparr>nhwtype := 201, nif_mtu := 28, nif_addrlist := [\<lparr>ia_family = AF_INET, ia_addr = 0x0a000001,
     ia_ifu = 0x0affffff, ia_net = 0x0a000000, ia_netmask = 0xff000000, ia_subnet = 0x0a000000, ia_subnetmask = 0xff000000,
     ia_net_broadaddr = 0x0affffff\<rparr>]\<rparr>"

definition sample_ip :: ipstate where
  "sample_ip = \<lparr>larp = sample_arp\<lparr>anifs := [1 \<mapsto> sample_slip]\<rparr>, lroutes = routes1,
     lifs = [1], if_primary = 1, allfrags = replicate IPFRAG_HEADS \<lparr>fbuf = [], fid = 0, fsaddr = 0, ftotlen = 0, fcurlen = 0\<rparr>, ip_dgramid = 0\<rparr>"

definition sample_dgram :: "u8 list" where
  "sample_dgram = [0x45, 0, 0, 40, 0, 7, 0, 0, 64, 17, 0, 0, 10, 0, 0, 1, 10, 0, 0, 2] @ replicate 20 5"

lemma sample_dgram_ok: "dgram_ok sample_dgram" "IPH_HDRLEN sample_dgram = 5" "length sample_dgram = 40"
  by (simp_all add: sample_dgram_def dgram_ok_def frag_ok_def IPH_HDRLEN_def iph_length_def iph_fragoff_def pk16_def be16_def)

lemma sample_link: "link_open sample_env 1 hop b sample_ip"
  by (simp add: link_open_def sample_env_def link_up_def sample_ip_def sample_slip_def sample_nif_def if_ready_def)

lemma sample_slot: "frag_slots d sa 0 None (allfrags sample_ip) = (None, Some 15)"
  by (simp add: sample_ip_def numeral_eq_Suc)

lemma sample_frag_event:
  "\<exists>tm. event_add (e_call sample_env) (frag_event 15) IPFRAG_TMOUT FRAG_TIMEOUT (word_of_nat 15) (atimer (larp sample_ip)) = Some tm"
  by (simp add: sample_env_def sample_ip_def sample_arp_def timer_run_simps)

theorem ip_frag_roundtrip_witness:
  "\<exists>F st' gs q rs'. ip_frag sample_env (icmp sample_env) sample_dgram 1 0x0a000002 False sample_ip = Some (Inr (), st') \<and>
     set gs = set F \<and> defrag_run sample_env gs sample_ip = Some (replicate (length F - 1) None @ [Some q], rs') \<and>
     frag_data q = replicate 20 5"
proof -
  obtain tm where tm: "event_add (e_call sample_env) (frag_event 15) IPFRAG_TMOUT FRAG_TIMEOUT (word_of_nat 15) (atimer (larp sample_ip)) = Some tm"
    using sample_frag_event by blast
  have n: "anifs (larp sample_ip) 1 = Some sample_slip" "unat (nif_mtu sample_slip) = 28" "\<forall>a. e_bufok sample_env a"
    by (simp_all add: sample_ip_def sample_slip_def sample_env_def)
  have d: "frag_data sample_dgram = replicate 20 5" by (simp add: frag_data_def sample_dgram_ok) (simp add: sample_dgram_def)
  have m: "4 * IPH_HDRLEN sample_dgram + 8 \<le> unat (nif_mtu sample_slip)" "unat (nif_mtu sample_slip) < length sample_dgram"
    using n(2) sample_dgram_ok by simp_all
  obtain F st' where F: "ip_frag sample_env (icmp sample_env) sample_dgram 1 0x0a000002 False sample_ip = Some (Inr (), st')"
    "\<forall>gs. distinct gs \<and> set gs = set F \<longrightarrow> (\<exists>q rs'.
       defrag_run sample_env gs sample_ip = Some (replicate (length F - 1) None @ [Some q], rs') \<and>
       frag_data q = frag_data sample_dgram \<and> iph_proto q = iph_proto sample_dgram \<and>
       iph_saddr q = iph_saddr sample_dgram \<and> iph_daddr q = iph_daddr sample_dgram \<and>
       unat (iph_length q) = length (frag_data sample_dgram))"
    using ip_frag_roundtrip [OF sample_link [of "0x0a000002" False] n(1) sample_dgram_ok(1) m n(3) sample_slot tm, of "icmp sample_env"]
    by (elim exE conjE) (rule that)
  from F(2) obtain q rs' where "defrag_run sample_env (remdups F) sample_ip = Some (replicate (length F - 1) None @ [Some q], rs')"
    "frag_data q = replicate 20 5" unfolding d by (metis distinct_remdups set_remdups)
  then show ?thesis using F(1) d set_remdups by metis
qed

section \<open>Route references\<close>

lemma frag_loop_keeps:
  assumes eq: "frag_loop alloc send rel fraglen base hdrlen datalen offset p st = Some (r, st')"
    and "\<forall>p st r st'. send p st = Some (r, st') \<longrightarrow> f st' = f st" and "\<forall>p st. f (rel p st) = f st"
  shows "f st' = f st"
proof -
  have "(\<forall>p st r st'. send p st = Some (r, st') \<longrightarrow> f st' = f st) \<longrightarrow> (\<forall>p st. f (rel p st) = f st) \<longrightarrow> f (snd (r, st')) = f st"
  proof (rule frag_loop.raw_induct [where P = "\<lambda>alloc send rel fraglen base hdrlen datalen offset p st y.
        (\<forall>p st r st'. send p st = Some (r, st') \<longrightarrow> f st' = f st) \<longrightarrow> (\<forall>p st. f (rel p st) = f st) \<longrightarrow> f (snd y) = f st", OF _ eq], intro impI)
    fix loop alloc send rel fraglen base hdrlen datalen offset p st y
    assume IH: "\<And>alloc send rel fraglen base hdrlen datalen offset p st y.
        loop alloc send rel fraglen base hdrlen datalen offset p st = Some y \<Longrightarrow>
        (\<forall>p st r st'. send p st = Some (r, st') \<longrightarrow> f st' = f st) \<longrightarrow> (\<forall>p st. f (rel p st) = f st) \<longrightarrow> f (snd y) = f st"
      and eq: "(if datalen \<le> 0 then Some (Inr (), st)
        else if datalen > fraglen \<and> \<not> alloc st then Some (Inl ENOMEM, rel p st)
        else if datalen > fraglen \<and> fraglen < 0 then None
        else (let todo = nat (min fraglen datalen);
                  hcopy = (if datalen > fraglen then hdrlen else 4 * IPH_HDRLEN p)
              in Option.bind (make_frag hcopy hdrlen base offset todo (datalen > fraglen) p) (\<lambda>f.
                 Option.bind (send f st) (\<lambda>(r, st1).
                   if r \<noteq> Inr () then Some (r, if datalen > fraglen then rel p st1 else st1)
                   else Option.bind (if offset = 0 \<and> hdrlen > IP_MINLEN then frag_opts p (hdrlen - IP_MINLEN) else Some (hdrlen, p))
                     (\<lambda>(hdrlen', p'). loop alloc send rel fraglen base hdrlen' (datalen - int todo) (offset + todo) p' st1))))) = Some y"
      and s: "\<forall>p st r st'. send p st = Some (r, st') \<longrightarrow> f st' = f st" and k: "\<forall>p st. f (rel p st) = f st"
    show "f (snd y) = f st"
    proof (cases "datalen \<le> 0 \<or> datalen > fraglen \<and> (\<not> alloc st \<or> fraglen < 0)")
      case True
      with eq k show ?thesis by (auto split: if_splits)
    next
      case False
      let ?t = "nat (min fraglen datalen)"
      let ?step = "\<lambda>(r, st1).
          if r \<noteq> Inr () then Some (r, if datalen > fraglen then rel p st1 else st1)
          else Option.bind (if offset = 0 \<and> hdrlen > IP_MINLEN then frag_opts p (hdrlen - IP_MINLEN) else Some (hdrlen, p))
            (\<lambda>(hdrlen', p'). loop alloc send rel fraglen base hdrlen' (datalen - int ?t) (offset + ?t) p' st1)"
      let ?mf = "make_frag (if datalen > fraglen then hdrlen else 4 * IPH_HDRLEN p) hdrlen base offset ?t (datalen > fraglen) p"
      have n1: "\<not> datalen \<le> 0" "\<not> (datalen > fraglen \<and> \<not> alloc st)" "\<not> (datalen > fraglen \<and> fraglen < 0)" using False by auto
      have e0: "Option.bind ?mf (\<lambda>g. Option.bind (send g st) ?step) = Some y" using eq by (simp only: n1 if_False Let_def)
      then obtain g where e1: "Option.bind (send g st) ?step = Some y"
        by (cases ?mf) (simp_all only: bind.bind_lzero bind.bind_lunit option.distinct)
      obtain r st1 where g: "send g st = Some (r, st1)" using e1 by (cases "send g st") auto
      have e2: "?step (r, st1) = Some y" using e1 unfolding g by simp
      have c: "y = (r, if datalen > fraglen then rel p st1 else st1) \<or>
          (\<exists>h' p'. loop alloc send rel fraglen base h' (datalen - int ?t) (offset + ?t) p' st1 = Some y)"
      proof (cases "r = Inr ()")
        case True
        then show ?thesis
          using e2 by (cases "if offset = 0 \<and> hdrlen > IP_MINLEN then frag_opts p (hdrlen - IP_MINLEN) else Some (hdrlen, p)") auto
      qed (use e2 in auto)
      have "f st1 = f st" using s g by blast
      moreover have "f (snd y) = f st1"
        using c
      proof
        assume "y = (r, if datalen > fraglen then rel p st1 else st1)"
        then show ?thesis using k by simp
      qed (use IH s k in blast)
      ultimately show ?thesis by simp
    qed
  qed
  with assms(2,3) show ?thesis by simp
qed

lemma ip_if_send_routes: "ip_if_send env nif hop b p st = Some (r, st') \<Longrightarrow> lroutes st' = lroutes st"
  by (auto simp: ip_if_send_def bind_eq_Some_conv)

lemma ip_frag_routes:
  assumes "ip_frag env icmpf p nif hop b st = Some (r, st')" and "iph_fragoff p AND IP_DF = 0"
  shows "lroutes st' = lroutes st"
proof -
  have "lroutes st' = lroutes st"
    if "frag_loop (\<lambda>st. e_bufok env (larp st)) (ip_if_send env nif hop b) release fl h h dl 0 p st = Some (r, st')" for fl h dl
    by (rule frag_loop_keeps [OF that]) (auto dest: ip_if_send_routes)
  then show ?thesis using assms
    by (auto simp: ip_frag_def Let_def bind_eq_Some_conv dest: ip_if_send_routes split: if_splits)
qed

lemma put_route_inv:
  assumes "routes_inv (held(a := Suc (held a))) (lroutes st)" and "put_route a st = Some st'"
  shows "routes_inv held (lroutes st')"
  using route_deref_inv [OF assms(1), of a] assms(2) by (auto simp: put_route_def)

lemma ip_route_out_inv:
  assumes "ip_route_out env icmpf src dst p a rt t st = Some (r, st')" and "iph_fragoff p = 0" and "IP_MINLEN \<le> length p"
    and inv: "routes_inv (held(a := Suc (held a))) (lroutes st)"
  shows "routes_inv held (lroutes st')"
proof -
  have put: "routes_inv held (lroutes s')" if "lroutes s = lroutes st" "put_route a s = Some s'" for s s'
    using put_route_inv [of held a s s'] inv that by simp
  let ?p = "if src = INADDR_ANY then map_option (\<lambda>ifa. put32 12 (ia_addr ifa) p) (nif_addr (rt_nif rt) st) else Some p"
  show ?thesis
  proof (cases ?p)
    case None
    with assms(1) have "\<exists>s'. put_route a (release p st) = Some s' \<and> st' = s'"
      by (auto simp: ip_route_out_def bind_eq_Some_conv)
    then show ?thesis using put [of "release p st"] by auto
  next
    case (Some p1)
    then have df: "iph_fragoff p1 AND IP_DF = 0" using assms(2,3) by (auto simp: put32_fragoff split: if_splits)
    from Some assms(1) obtain s1 where "ip_frag env icmpf p1 (rt_nif rt)
        (if rt_flags rt AND RTF_GATEWAY \<noteq> 0 then rt_gway rt else dst) (t = IPADDR_BRDCST) st = Some (r, s1)" "put_route a s1 = Some st'"
      by (auto simp: ip_route_out_def ip_brdcst_copy_self ip_send_copy_def Let_def bind_eq_Some_conv)
    then show ?thesis using put [of s1 st'] ip_frag_routes [OF _ df] by blast
  qed
qed

text \<open>
  C39: \<^verbatim>\<open>ip_send\<close> gives the reference to its route back on every path but one. When the
  destination has a route and the call returns, the reference counts are exact with the
  references held before; but when a broadcast is refused, \<^verbatim>\<open>EACCES\<close> is returned and the
  reference taken for the call is never given back.
\<close>
theorem ip_send_route_refs:
  assumes "routes_inv held (lroutes st)" and "held a < 2 ^ 15 - 2" and "route_get dst (lroutes st) = Some (Some a, rts)"
    and "rheap rts a = Some rt" and "anifs (larp st) (rt_nif rt) = Some n" and "e_bufok env (larp st)"
  shows "if ip_chk_addr dst rt n = IPADDR_BRDCST \<and> \<not> brdcst_ok
    then (\<exists>st'. ip_send env icmpf src dst b proto brdcst_ok optp st = Some (Inl EACCES, st') \<and>
      routes_inv (held(a := held a + 1)) (lroutes st'))
    else (\<forall>r st'. ip_send env icmpf src dst b proto brdcst_ok optp st = Some (r, st') \<longrightarrow> routes_inv held (lroutes st'))"
proof -
  define p where "p = ip_header (otos (case optp of Some o' \<Rightarrow> o' | None \<Rightarrow> def_opts)) (IP_MINLEN + length b) (ip_dgramid st)
      (ottl (case optp of Some o' \<Rightarrow> o' | None \<Rightarrow> def_opts)) proto src dst @ b"
  define st1 where "st1 = st\<lparr>ip_dgramid := ip_dgramid st + 1, lroutes := rts\<rparr>"
  note h = ip_header_fields [OF p_def]
  have inv: "routes_inv (held(a := Suc (held a))) (lroutes st1)"
    using route_get_inv [OF assms(1,3,2)] by (simp add: st1_def)
  have e: "ip_send env icmpf src dst b proto brdcst_ok optp st =
      (if ip_chk_addr dst rt n = IPADDR_BADCLASS then Option.bind (put_route a (release p st1)) (\<lambda>s. Some (Inl EADDRNOTAVAIL, s))
       else if ip_chk_addr dst rt n = IPADDR_BRDCST \<and> \<not> brdcst_ok then Some (Inl EACCES, release p st1)
       else ip_route_out env icmpf src dst p a rt (ip_chk_addr dst rt n) st1)"
    using assms(3-6) unfolding ip_send_def Let_def p_def [symmetric] by (simp add: get_route_def st1_def)
  show ?thesis
  proof (cases "ip_chk_addr dst rt n = IPADDR_BRDCST \<and> \<not> brdcst_ok")
    case True
    then show ?thesis using e inv by simp
  next
    case False
    have "routes_inv held (lroutes st')" if "ip_send env icmpf src dst b proto brdcst_ok optp st = Some (r, st')" for r st'
    proof (cases "ip_chk_addr dst rt n = IPADDR_BADCLASS")
      case True
      then show ?thesis using that e put_route_inv [of held a "release p st1" st'] inv by (auto simp: bind_eq_Some_conv)
    next
      case bad: False
      then show ?thesis using that e False ip_route_out_inv [OF _ h(2,3) inv] by auto
    qed
    then show ?thesis unfolding if_not_P [OF False] by blast
  qed
qed

lemma sample_route:
  "\<exists>rts rt. route_get 0x0affffff routes1 = Some (Some 7, rts) \<and> rheap rts 7 = Some rt \<and> rt_nif rt = 1 \<and> rt_flags rt = RTF_UP"
  by (simp add: routes1_def routes0_def route_init_def route_add_def route_alloc_def Let_def route_get_def rt_usable_def route_hash_def IN_CLASSA_def)

theorem ip_send_route_refs_witness:
  "\<exists>st'. ip_send sample_env (icmp sample_env) 0 0x0affffff [1, 2] 17 False None sample_ip = Some (Inl EACCES, st') \<and>
     routes_inv ((\<lambda>_. 0)(7 := 1)) (lroutes st')"
proof -
  obtain rts rt where r: "route_get 0x0affffff routes1 = Some (Some 7, rts)" "rheap rts 7 = Some rt" "rt_nif rt = 1" "rt_flags rt = RTF_UP"
    using sample_route by auto
  have s: "lroutes sample_ip = routes1" "anifs (larp sample_ip) (rt_nif rt) = Some sample_slip" "e_bufok sample_env (larp sample_ip)"
    by (simp_all add: sample_ip_def sample_env_def r)
  have b: "ip_chk_addr 0x0affffff rt sample_slip = IPADDR_BRDCST"
    by (simp add: ip_chk_addr_def r(4) sample_slip_def sample_nif_def netif.truncate_def if_af2ifaddr_def)
  from ip_send_route_refs [of "\<lambda>_. 0" sample_ip 7 "0x0affffff" rts rt sample_slip sample_env False] show ?thesis
    using routes1_inv r(1,2) s b by simp
qed

section \<open>A short datagram over an open link\<close>

lemma bit_be32:
  "bit (be32 a b c d) n = (if n < 8 then bit d n else if n < 16 then bit c (n - 8) else if n < 24 then bit b (n - 16)
     else n < 32 \<and> bit a (n - 24))"
  by (auto simp: be32_def bit_simps dest: bit_imp_le_length)

lemma pk32_addr: "pk32 (xs @ addr_bytes w @ ys) (length xs) = w"
  by (rule bit_word_eqI) (auto simp: pk32_def bit_be32 addr_bytes_def nth_append bit_simps)

lemma ip_header_more:
  assumes "p = ip_header tos len d ttl proto src dst @ b"
  shows "iph_saddr p = src" "iph_daddr p = dst" "IPH_HDRLEN p = 5" "iph_length p = word_of_nat len" "drop IP_MINLEN p = b"
    "length p = IP_MINLEN + length b"
proof -
  let ?h = "[0x45, tos] @ bytes16 (word_of_nat len) @ bytes16 d @ [0, 0, ttl, proto, 0, 0]"
  have l: "length ?h = 12" by (simp add: bytes16_alt)
  have p: "p = ?h @ addr_bytes src @ addr_bytes dst @ b" "p = (?h @ addr_bytes src) @ addr_bytes dst @ b"
    using assms by (simp_all add: ip_header_def)
  show "iph_saddr p = src" using pk32_addr [of ?h src "addr_bytes dst @ b"] l unfolding iph_saddr_def p by simp
  show "iph_daddr p = dst" using pk32_addr [of "?h @ addr_bytes src" dst b] l unfolding iph_daddr_def p(2)
    by (simp add: addr_bytes_def)
  show "IPH_HDRLEN p = 5" "drop IP_MINLEN p = b" "length p = IP_MINLEN + length b" "iph_length p = word_of_nat len"
    unfolding p by (simp_all add: IPH_HDRLEN_def bytes16_alt addr_bytes_def iph_length_def pk16_def be16_bytes)
qed

lemma ip_if_send_open:
  assumes "link_open env nif hop b st"
  shows "\<exists>st'. ip_if_send env nif hop b p st = Some (Inr (), st') \<and> link_open env nif hop b st' \<and> anifs (larp st') = anifs (larp st) \<and>
    sent_on nif (trace (larp st')) = sent_on nif (trace (larp st)) @ [p]"
proof -
  have o: "\<forall>a. e_bufok env a" "e_drv env = Inr ()" "link_up nif hop b (larp st)" using assms by (simp_all add: link_open_def)
  obtain adr l where "if_send (e_kmalloc env) (e_call env) (e_bufok env) (e_drv env) nif p hop b (larp st) =
      Some (e_drv env, log_ev [Output nif p adr l PKTYPE_IP] (larp st))" using if_send_up [OF o(3)] by blast
  then show ?thesis using o by (simp add: ip_if_send_def link_open_def sent_on_app) (simp add: sent_on_def map_filter_def)
qed

lemma ip_frag_short:
  assumes o: "link_open env nif hop b st" and n: "anifs (larp st) nif = Some n" and h: "IPH_HDRLEN p = 5" "IP_MINLEN \<le> length p"
    and l: "unat (iph_length p) \<le> unat (nif_mtu n)"
  shows "\<exists>c st'. ip_frag env icmpf p nif hop b st = Some (Inr (), st') \<and> lroutes st' = lroutes st \<and>
    link_open env nif hop b st' \<and> anifs (larp st') = anifs (larp st) \<and>
    sent_on nif (trace (larp st')) = sent_on nif (trace (larp st)) @ [put16 10 c p] \<and> chksum (put16 10 c p) 10 = Some 0"
proof -
  obtain c where c: "put_chksum 10 p = Some (put16 10 c p)" "chksum (put16 10 c p) 10 = Some 0"
    using put_chksum_ok [of 10 p] h by auto
  obtain st' where s: "ip_if_send env nif hop b (put16 10 c p) st = Some (Inr (), st')"
    "sent_on nif (trace (larp st')) = sent_on nif (trace (larp st)) @ [put16 10 c p]" "link_open env nif hop b st'"
    "anifs (larp st') = anifs (larp st)" using ip_if_send_open [OF o] by blast
  have "ip_frag env icmpf p nif hop b st = Some (Inr (), st')" using h n l c(1) s(1) by (simp add: ip_frag_def)
  then show ?thesis using s(2-4) c(2) ip_if_send_routes [OF s(1)] by blast
qed

text \<open>A destination the router knows: the route, its interface and an open link to the next hop.\<close>

definition reaches :: "ipenv \<Rightarrow> u32 \<Rightarrow> nat \<Rightarrow> route \<Rightarrow> anetif \<Rightarrow> routes \<Rightarrow> ipstate \<Rightarrow> bool" where
  "reaches env dst a rt n rts st \<longleftrightarrow> route_get dst (lroutes st) = Some (Some a, rts) \<and> rheap rts a = Some rt \<and>
     anifs (larp st) (rt_nif rt) = Some n \<and> ip_chk_addr dst rt n \<in> {IPADDR_NONE, IPADDR_LOCAL} \<and>
     link_open env (rt_nif rt) (if rt_flags rt AND RTF_GATEWAY \<noteq> 0 then rt_gway rt else dst) False st"

lemma ip_send_reach:
  assumes r: "reaches env dst a rt n rts st" and inv: "routes_inv held (lroutes st)" "held a < 2 ^ 15 - 2"
    and src: "src \<noteq> INADDR_ANY" and l: "IP_MINLEN + length b \<le> unat (nif_mtu n)" "IP_MINLEN + length b < 65536"
  shows "\<exists>q st'. ip_send env icmpf src dst b proto brdcst_ok optp st = Some (Inr (), st') \<and> routes_inv held (lroutes st') \<and>
    sent_on (rt_nif rt) (trace (larp st')) = sent_on (rt_nif rt) (trace (larp st)) @ [q] \<and>
    length q = IP_MINLEN + length b \<and> unat (iph_length q) = length q \<and> IPH_HDRLEN q = 5 \<and> chksum q 10 = Some 0 \<and>
    iph_proto q = proto \<and> iph_saddr q = src \<and> iph_daddr q = dst \<and> iph_fragoff q = 0 \<and> drop IP_MINLEN q = b \<and>
    (\<exists>rt' rts'. reaches env dst a rt' n rts' st' \<and> rt_nif rt' = rt_nif rt)"
proof -
  define p where "p = ip_header (otos (case optp of Some o' \<Rightarrow> o' | None \<Rightarrow> def_opts)) (IP_MINLEN + length b) (ip_dgramid st)
      (ottl (case optp of Some o' \<Rightarrow> o' | None \<Rightarrow> def_opts)) proto src dst @ b"
  define st1 where "st1 = st\<lparr>ip_dgramid := ip_dgramid st + 1, lroutes := rts\<rparr>"
  define hop where "hop = (if rt_flags rt AND RTF_GATEWAY \<noteq> 0 then rt_gway rt else dst)"
  note h = ip_header_fields [OF p_def] ip_header_more [OF p_def]
  have ok: "route_get dst (lroutes st) = Some (Some a, rts)" "rheap rts a = Some rt" "anifs (larp st) (rt_nif rt) = Some n"
    "ip_chk_addr dst rt n \<noteq> IPADDR_BADCLASS" "ip_chk_addr dst rt n \<noteq> IPADDR_BRDCST"
    and lo: "link_open env (rt_nif rt) hop False st" using r by (auto simp: reaches_def hop_def)
  have len: "unat (iph_length p) = length p" unfolding h(7,9) using l(2) by (simp add: unat_of_nat del: of_nat_add)
  have lo1: "link_open env (rt_nif rt) hop False st1" "anifs (larp st1) (rt_nif rt) = Some n"
    using lo ok(3) by (simp_all add: link_open_def st1_def)
  obtain c st2 where f: "ip_frag env icmpf p (rt_nif rt) hop False st1 = Some (Inr (), st2)" "lroutes st2 = rts"
    "sent_on (rt_nif rt) (trace (larp st2)) = sent_on (rt_nif rt) (trace (larp st)) @ [put16 10 c p]" "chksum (put16 10 c p) 10 = Some 0"
    "link_open env (rt_nif rt) hop False st2" "anifs (larp st2) (rt_nif rt) = Some n"
    using ip_frag_short [OF lo1 h(6,3), of icmpf] len l(1) h(9) ok(3) by (auto simp: st1_def)
  have "routes_inv (held(a := Suc (held a))) (lroutes st2)" using route_get_inv [OF inv(1) ok(1) inv(2)] f(2) by simp
  then obtain r3 where r3: "route_deref a rts = Some r3" "routes_inv held r3"
    using route_deref_inv [of "held(a := Suc (held a))" "lroutes st2" a] f(2) by auto
  define st3 where "st3 = st2\<lparr>lroutes := r3\<rparr>"
  have p3: "put_route a st2 = Some st3" "routes_inv held (lroutes st3)" "larp st3 = larp st2" "route_deref a rts = Some (lroutes st3)"
    using r3 f(2) by (simp_all add: st3_def put_route_def)
  obtain rts' rt' where again: "route_get dst (lroutes st3) = Some (Some a, rts')" "rheap rts' a = Some rt'" "entry rt' = entry rt"
    using route_get_again [OF inv(1) ok(1) inv(2) p3(4) ok(2)] by blast
  have "ip_chk_addr dst rt' n = ip_chk_addr dst rt n" by (simp add: ip_chk_addr_def entry_fields [OF again(3)])
  then have rea: "reaches env dst a rt' n rts' st3" "rt_nif rt' = rt_nif rt"
    using again(1,2) f(5,6) p3(3) r unfolding reaches_def entry_fields [OF again(3)] hop_def by (simp_all add: link_open_def)
  have e: "e_bufok env (larp st)" using lo by (simp add: link_open_def)
  have "ip_send env icmpf src dst b proto brdcst_ok optp st = ip_route_out env icmpf src dst p a rt (ip_chk_addr dst rt n) st1"
    using ok e unfolding ip_send_def Let_def p_def [symmetric] by (simp add: get_route_def st1_def)
  also have "\<dots> = Some (Inr (), st3)" using src ok(5) f(1) p3(1)
    by (simp add: ip_route_out_def ip_brdcst_copy_self ip_send_copy_def Let_def hop_def)
  finally have send: "ip_send env icmpf src dst b proto brdcst_ok optp st = Some (Inr (), st3)" .
  let ?q = "put16 10 c p"
  have q: "length ?q = IP_MINLEN + length b" "unat (iph_length ?q) = length ?q" "IPH_HDRLEN ?q = 5" "iph_proto ?q = proto"
    "iph_saddr ?q = src" "iph_daddr ?q = dst" "iph_fragoff ?q = 0" "drop IP_MINLEN ?q = b"
    using h len by (simp_all add: iph_length_def iph_proto_def iph_saddr_def iph_daddr_def iph_fragoff_def)
  show ?thesis using f(3,4) p3(3) by (intro exI conjI) (rule send, rule p3(2), simp, (rule q f(4) rea)+)
qed

lemma ip_send_short:
  assumes "reaches env dst a rt n rts st" "routes_inv held (lroutes st)" "held a < 2 ^ 15 - 2" "src \<noteq> INADDR_ANY"
    and "IP_MINLEN + length b \<le> unat (nif_mtu n)" "IP_MINLEN + length b < 65536"
  shows "\<exists>q st'. ip_send env icmpf src dst b proto brdcst_ok optp st = Some (Inr (), st') \<and> routes_inv held (lroutes st') \<and>
    sent_on (rt_nif rt) (trace (larp st')) = sent_on (rt_nif rt) (trace (larp st)) @ [q] \<and>
    length q = IP_MINLEN + length b \<and> unat (iph_length q) = length q \<and> IPH_HDRLEN q = 5 \<and> chksum q 10 = Some 0 \<and>
    iph_proto q = proto \<and> iph_saddr q = src \<and> iph_daddr q = dst \<and> iph_fragoff q = 0 \<and> drop IP_MINLEN q = b"
  using ip_send_reach [OF assms, of icmpf proto brdcst_ok optp] by blast

text \<open>A destination the router knows, whatever references to the route there are.\<close>

definition reachable :: "ipenv \<Rightarrow> u32 \<Rightarrow> nat \<Rightarrow> anetif \<Rightarrow> ipstate \<Rightarrow> bool" where
  "reachable env dst i n st \<longleftrightarrow> (\<exists>held a rt rts. reaches env dst a rt n rts st \<and> rt_nif rt = i \<and> routes_inv held (lroutes st) \<and>
     held a < 2 ^ 15 - 2)"

lemma ip_send_reachable:
  assumes r: "reachable env dst i n st" and src: "src \<noteq> INADDR_ANY"
    and l: "IP_MINLEN + length b \<le> unat (nif_mtu n)" "IP_MINLEN + length b < 65536"
  shows "\<exists>q st'. ip_send env icmpf src dst b proto brdcst_ok optp st = Some (Inr (), st') \<and> reachable env dst i n st' \<and>
    sent_on i (trace (larp st')) = sent_on i (trace (larp st)) @ [q] \<and> IPH_HDRLEN q = 5 \<and> chksum q 10 = Some 0 \<and>
    iph_proto q = proto \<and> iph_saddr q = src \<and> iph_daddr q = dst \<and> iph_fragoff q = 0 \<and> drop IP_MINLEN q = b"
proof -
  obtain held a rt rts where h: "reaches env dst a rt n rts st" "rt_nif rt = i" "routes_inv held (lroutes st)" "held a < 2 ^ 15 - 2"
    using r by (auto simp: reachable_def)
  show ?thesis using ip_send_reach [OF h(1,3,4) src l, of icmpf proto brdcst_ok optp] h(2,4) unfolding reachable_def by metis
qed

end
