(* ===== verification/Tcp.thy ===== *)
theory Tcp
  imports Ip
begin

text \<open>
  The data of TCP (\<^verbatim>\<open>kernel/tcp.h\<close>) and its receive queue: sequence numbers, segments, the
  control block with its queues, the insertion of a segment that may be out of order or
  overlap others (\<^verbatim>\<open>tcpin.c\<close>), and reading from the queue (\<^verbatim>\<open>tcp.c\<close>).
\<close>

section \<open>Sequence numbers\<close>

definition SEQLT :: "u32 \<Rightarrow> u32 \<Rightarrow> bool" where "SEQLT x y \<longleftrightarrow> sint (x - y) < 0"
definition SEQLE :: "u32 \<Rightarrow> u32 \<Rightarrow> bool" where "SEQLE x y \<longleftrightarrow> sint (x - y) \<le> 0"
definition SEQGT :: "u32 \<Rightarrow> u32 \<Rightarrow> bool" where "SEQGT x y \<longleftrightarrow> sint (x - y) > 0"
definition SEQGE :: "u32 \<Rightarrow> u32 \<Rightarrow> bool" where "SEQGE x y \<longleftrightarrow> sint (x - y) \<ge> 0"

section \<open>Segments\<close>

abbreviation TCP_MINLEN :: nat where "TCP_MINLEN \<equiv> 20"
abbreviation TCPF_URG :: u8 where "TCPF_URG \<equiv> 0x20"
abbreviation TCPF_ACK :: u8 where "TCPF_ACK \<equiv> 0x10"
abbreviation TCPF_PSH :: u8 where "TCPF_PSH \<equiv> 0x08"
abbreviation TCPF_RST :: u8 where "TCPF_RST \<equiv> 0x04"
abbreviation TCPF_SYN :: u8 where "TCPF_SYN \<equiv> 0x02"
abbreviation TCPF_FIN :: u8 where "TCPF_FIN \<equiv> 0x01"
abbreviation TCPF_FREEME :: u8 where "TCPF_FREEME \<equiv> 0x08"

text \<open>
  A segment in its buffer: the header, the options, the data and the \<^verbatim>\<open>info\<close> word of the
  buffer. On the queues the urgent pointer holds the length of the data.
\<close>

record tseg =
  th_srcport :: u16
  th_dstport :: u16
  th_seq :: u32
  th_ack :: u32
  th_hdr :: u8
  th_flags :: u8
  th_window :: u16
  th_chksum :: u16
  th_urgptr :: u16
  th_opts :: "u8 list"
  th_data :: "u8 list"
  b_info :: u32

definition has :: "tseg \<Rightarrow> u8 \<Rightarrow> bool" where "has s f \<longleftrightarrow> th_flags s AND f \<noteq> 0"

text \<open>The twelve bits of \<^verbatim>\<open>f.b.flags\<close>.\<close>

definition th_bflags :: "tseg \<Rightarrow> u16" where
  "th_bflags s = push_bit 8 (ucast (th_hdr s AND 0x0f)) OR ucast (th_flags s)"

definition TCP_HDRLEN :: "tseg \<Rightarrow> nat" where "TCP_HDRLEN s = 4 * unat (drop_bit 4 (th_hdr s))"

definition th_bytes :: "tseg \<Rightarrow> u8 list" where
  "th_bytes s = bytes16 (th_srcport s) @ bytes16 (th_dstport s) @ addr_bytes (th_seq s) @ addr_bytes (th_ack s) @
     [th_hdr s, th_flags s] @ bytes16 (th_window s) @ bytes16 (th_chksum s) @ bytes16 (th_urgptr s) @ th_opts s @ th_data s"

text \<open>
  The segment in a datagram. A header length that is less than \<^verbatim>\<open>TCP_MINLEN\<close> or more than the
  datagram has, which the program does not check, is outside the model.
\<close>

definition th_parse :: "u8 list \<Rightarrow> tseg option" where
  "th_parse m =
     (if length m < TCP_MINLEN then None
      else let h = 4 * unat (drop_bit 4 (m ! 12)) in
        if h < TCP_MINLEN \<or> length m < h then None
        else Some \<lparr>th_srcport = pk16 m 0, th_dstport = pk16 m 2, th_seq = pk32 m 4, th_ack = pk32 m 8, th_hdr = m ! 12,
          th_flags = m ! 13, th_window = pk16 m 14, th_chksum = pk16 m 16, th_urgptr = pk16 m 18,
          th_opts = take (h - TCP_MINLEN) (drop TCP_MINLEN m), th_data = drop h m, b_info = 0\<rparr>)"

definition tcp_datalen :: "tseg \<Rightarrow> u32" where
  "tcp_datalen s = word_of_nat (length (th_data s))"

definition tcp_seglen :: "tseg \<Rightarrow> u32" where
  "tcp_seglen s = tcp_datalen s + (if has s TCPF_SYN then 1 else 0) + (if has s TCPF_FIN then 1 else 0)"

abbreviation SEQ1ST :: "tseg \<Rightarrow> u32" where "SEQ1ST \<equiv> th_seq"

definition SEQNXT :: "tseg \<Rightarrow> u32" where "SEQNXT s = th_seq s + ucast (th_urgptr s)"

section \<open>The receive queue\<close>

record tcpq =
  maxlen :: u32
  curlen :: u32
  segs :: "tseg list"

text \<open>
  The search for a hole, backwards from the end: \<open>bs\<close> is the part of the queue in front of
  the current place in reverse, \<open>after\<close> the part behind it.
\<close>

fun find_hole :: "tseg \<Rightarrow> tseg list \<Rightarrow> tseg list \<Rightarrow> (tseg list \<times> tseg list) option" where
  "find_hole buf (b # p # bs) after =
     (if SEQLT (SEQNXT p) (SEQ1ST b) \<and> SEQLT (SEQ1ST buf) (SEQ1ST b) \<and> SEQLT (SEQNXT p) (SEQNXT buf)
      then Some (rev (p # bs), b # after)
      else find_hole buf (p # bs) (b # after))"
| "find_hole buf _ after = None"

text \<open>
  The insertion. The result has the buffers that were freed, the queue and, unless the
  segment is empty or a duplicate, the queue from the new segment on.
\<close>

definition tcp_addseg :: "tcpq \<Rightarrow> tseg \<Rightarrow> tseg list \<times> tcpq \<times> tseg list option" where
  "tcp_addseg q seg =
     (if th_urgptr seg = 0 then ([seg], q, None)
      else let buf = seg\<lparr>th_hdr := th_hdr seg AND NOT TCPF_FREEME\<rparr>;
               seq1st = SEQ1ST buf;
               seqnxt = SEQNXT buf
        in if segs q = [] then ([], q\<lparr>segs := [buf], curlen := ucast (th_urgptr buf)\<rparr>, Some [buf])
        else case
          (if SEQLT (SEQNXT (last (segs q))) seqnxt then Some (curlen q + (seqnxt - SEQNXT (last (segs q))), segs q, [])
           else if SEQLT seq1st (SEQ1ST (hd (segs q))) then Some (curlen q + (SEQ1ST (hd (segs q)) - seq1st), [], segs q)
           else map_option (\<lambda>(l, r). (curlen q, l, r)) (find_hole buf (rev (segs q)) []))
        of None \<Rightarrow> ([buf], q, None)
        | Some (cur, l, r) \<Rightarrow>
            (let r' = dropWhile (\<lambda>b. SEQLE (SEQNXT b) seqnxt) r;
                 l' = rev (dropWhile (\<lambda>b. SEQLE seq1st (SEQ1ST b)) (rev l))
             in (takeWhile (\<lambda>b. SEQLE (SEQNXT b) seqnxt) r @ takeWhile (\<lambda>b. SEQLE seq1st (SEQ1ST b)) (rev l),
                 q\<lparr>segs := l' @ buf # r', curlen := cur\<rparr>, Some (buf # r'))))"

text \<open>The end of the continuous sequence of bytes.\<close>

fun seq_run :: "u32 \<Rightarrow> tseg list \<Rightarrow> u32" where
  "seq_run nxt [] = nxt"
| "seq_run nxt (b # bs) = (if SEQLE (SEQ1ST b) nxt then seq_run (SEQNXT b) bs else nxt)"

text \<open>
  Dropping the segments that are marked from the front of the queue: the lowest sequence
  number that is left, the length of the queue, the freed buffers and the rest.
\<close>

primrec drop_free :: "u32 \<Rightarrow> u32 \<Rightarrow> tseg list \<Rightarrow> u32 \<times> u32 \<times> tseg list \<times> tseg list" where
  "drop_free low cur [] = (low, cur, [], [])"
| "drop_free low cur (b # bs) =
     (if th_hdr b AND TCPF_FREEME = 0 then (low, cur, [], b # bs)
      else (let (low', cur', fr, rest) =
              drop_free (SEQNXT b) (case bs of [] \<Rightarrow> 0 | n # _ \<Rightarrow> cur - (SEQ1ST n - SEQ1ST b)) bs
            in (low', cur', b # fr, rest)))"

text \<open>
  The search of \<^verbatim>\<open>tcp_recv\<close> for the segment to read from: the segments that were passed, the
  next sequence number and the rest of the queue.
\<close>

primrec recv_skip :: "u16 \<Rightarrow> u16 \<Rightarrow> u32 \<Rightarrow> tseg list \<Rightarrow> tseg list \<times> u32 \<times> tseg list" where
  "recv_skip urgflag msk readnxt [] = ([], readnxt, [])"
| "recv_skip urgflag msk readnxt (b # bs) =
     (if (th_bflags b XOR urgflag) AND msk \<noteq> 0 \<and> SEQLE (SEQ1ST b) readnxt then
        (let (p, n, r) = recv_skip urgflag msk (SEQNXT b) bs in (b # p, n, r))
      else ([], readnxt, b # bs))"

text \<open>
  The copy loop: the bytes, the next sequence number and the segments with the ones that
  were read marked. \<open>None\<close> is a copy from outside a segment.
\<close>

primrec recv_copy :: "bool \<Rightarrow> bool \<Rightarrow> bool \<Rightarrow> bool \<Rightarrow> u32 \<Rightarrow> nat \<Rightarrow> u32 \<Rightarrow> tseg list \<Rightarrow>
    (u8 list \<times> u32 \<times> tseg list) option" where
  "recv_copy urg inl oob peek uread room readnxt [] = Some ([], readnxt, [])"
| "recv_copy urg inl oob peek uread room readnxt (b # bs) =
     (if room = 0 \<or> has b TCPF_URG \<noteq> urg \<or> SEQLT readnxt (SEQ1ST b) then Some ([], readnxt, b # bs)
      else if th_hdr b AND TCPF_FREEME \<noteq> 0 then
        map_option (\<lambda>(d, n, r). (d, n, b # r)) (recv_copy urg inl oob peek uread room (SEQNXT b) bs)
      else let rn = (if inl \<and> urg \<and> \<not> oob \<and> SEQLT readnxt uread \<and> SEQLT uread (SEQNXT b) then uread else readnxt);
               offset = nat (sint (rn - SEQ1ST b));
               cando = min room (unat (th_urgptr b) - offset);
               b' = (if \<not> peek \<and> SEQLE (SEQNXT b) (rn + word_of_nat cando) then b\<lparr>th_hdr := th_hdr b OR TCPF_FREEME\<rparr> else b)
        in if unat (th_urgptr b) < offset \<or> length (th_data b) < offset + cando then None
           else map_option (\<lambda>(d, n, r). (take cando (drop offset (th_data b)) @ d, n, b' # r))
             (recv_copy urg inl oob peek uread (room - cando) (rn + word_of_nat cando) bs))"

text \<open>The part of \<^verbatim>\<open>tcp_rcvdata\<close> that adds a segment and moves \<^verbatim>\<open>rcv_nxt\<close>.\<close>

definition rcv_merge :: "u32 \<Rightarrow> tcpq \<Rightarrow> tseg \<Rightarrow> tseg list \<times> tcpq \<times> tseg list option \<times> u32" where
  "rcv_merge nxt q seg =
     (let (fr, q', r) = tcp_addseg q seg in (fr, q', r, case r of None \<Rightarrow> nxt | Some bs \<Rightarrow> seq_run nxt bs))"

text \<open>
  The part of \<^verbatim>\<open>tcp_recv\<close> that reads: \<open>Some None\<close> if there is nothing to read, else the bytes,
  the next sequence number and the queue with the segments that were read marked.
\<close>

definition read_queue :: "bool \<Rightarrow> bool \<Rightarrow> bool \<Rightarrow> u32 \<Rightarrow> nat \<Rightarrow> u32 \<Rightarrow> tseg list \<Rightarrow>
    (u8 list \<times> u32 \<times> tseg list) option option" where
  "read_queue inl oob peek uread room readnxt xs =
     (let old = (\<lambda>b. SEQLE (SEQNXT b) readnxt);
          (p, rn, r) = recv_skip (if oob then 0x20 else 0) (if inl then 0x800 else 0x820) readnxt (dropWhile old xs)
      in case r of
           [] \<Rightarrow> Some None
         | b # _ \<Rightarrow>
             if SEQLE (SEQ1ST b) rn then
               map_option (\<lambda>(d, n, r'). Some (d, n, takeWhile old xs @ p @ r'))
                 (recv_copy (has b TCPF_URG) inl oob peek uread room rn r)
             else Some None)"

declare recv_copy.simps [simp del]

section \<open>Segments of a stream\<close>

text \<open>
  The positions of a stream \<open>S\<close> of less than \<open>2 ^ 31\<close> bytes whose first byte has the sequence
  number \<open>base\<close>.
\<close>

definition soff :: "u32 \<Rightarrow> u32 \<Rightarrow> nat" where "soff base x = unat (x - base)"
definition slo :: "u32 \<Rightarrow> tseg \<Rightarrow> nat" where "slo base s = soff base (th_seq s)"
definition shi :: "u32 \<Rightarrow> tseg \<Rightarrow> nat" where "shi base s = slo base s + unat (th_urgptr s)"

definition from_stream :: "u32 \<Rightarrow> u8 list \<Rightarrow> tseg \<Rightarrow> bool" where
  "from_stream base S s \<longleftrightarrow> 0 < unat (th_urgptr s) \<and> length (th_data s) = unat (th_urgptr s) \<and> shi base s \<le> length S \<and>
     th_data s = take (unat (th_urgptr s)) (drop (slo base s) S)"

definition ordered :: "u32 \<Rightarrow> tseg list \<Rightarrow> bool" where
  "ordered base = sorted_wrt (\<lambda>a b. slo base a < slo base b \<and> shi base a < shi base b)"

definition covers :: "u32 \<Rightarrow> tseg list \<Rightarrow> nat set" where
  "covers base xs = (\<Union>s \<in> set xs. {slo base s..<shi base s})"

lemma covers_simps [simp]:
  "covers base [] = {}" "covers base (s # xs) = {slo base s..<shi base s} \<union> covers base xs"
  "covers base (xs @ ys) = covers base xs \<union> covers base ys"
  by (auto simp: covers_def)

lemma ordered_simps [simp]:
  "ordered base []" "ordered base (s # xs) \<longleftrightarrow> (\<forall>t \<in> set xs. slo base s < slo base t \<and> shi base s < shi base t) \<and> ordered base xs"
  "ordered base (xs @ ys) \<longleftrightarrow> ordered base xs \<and> ordered base ys \<and>
     (\<forall>s \<in> set xs. \<forall>t \<in> set ys. slo base s < slo base t \<and> shi base s < shi base t)"
  by (auto simp: ordered_def sorted_wrt_append)

lemma sint_soff:
  assumes "soff base x < 2 ^ 31" and "soff base y < 2 ^ 31"
  shows "sint (x - y) = int (soff base x) - int (soff base y)"
proof -
  have s: "sint (x - base) = int (soff base x)" "sint (y - base) = int (soff base y)"
    using assms sint_word_of_nat_32 [of "soff base x"] sint_word_of_nat_32 [of "soff base y"] by (simp_all add: soff_def)
  have "sint ((x - base) - (y - base)) = sint (x - base) - sint (y - base)"
    by (rule sint_minus_32) (use assms in \<open>simp_all only: s, simp_all\<close>)
  then show ?thesis by (simp add: s)
qed

lemma seq_cmp:
  assumes "soff base x < 2 ^ 31" and "soff base y < 2 ^ 31"
  shows "SEQLT x y \<longleftrightarrow> soff base x < soff base y" "SEQLE x y \<longleftrightarrow> soff base x \<le> soff base y"
    "SEQGT x y \<longleftrightarrow> soff base x > soff base y" "SEQGE x y \<longleftrightarrow> soff base x \<ge> soff base y"
  using sint_soff [OF assms] by (simp_all add: SEQLT_def SEQLE_def SEQGT_def SEQGE_def)

lemma soff_add:
  assumes "soff base x + n < 2 ^ 32"
  shows "soff base (x + word_of_nat n) = soff base x + n"
proof -
  have e: "x + word_of_nat n - base = (x - base) + word_of_nat n" by simp
  have n: "unat (word_of_nat n :: u32) = n" using assms by (simp add: unat_of_nat)
  show ?thesis using assms n unat_plus_32 [of "x - base" "word_of_nat n"] unfolding soff_def e by simp
qed

lemma soff_SEQNXT: "shi base s < 2 ^ 32 \<Longrightarrow> soff base (SEQNXT s) = shi base s"
  using soff_add [of base "th_seq s" "unat (th_urgptr s)"] by (simp add: SEQNXT_def shi_def slo_def)

lemma from_stream_bounds:
  assumes "length S < 2 ^ 31" and "from_stream base S s"
  shows "soff base (th_seq s) = slo base s" "soff base (SEQNXT s) = shi base s" "slo base s < shi base s" "shi base s < 2 ^ 31"
  using assms soff_SEQNXT [of base s] by (auto simp: from_stream_def shi_def slo_def)

section \<open>Insertion\<close>

definition fits_hole :: "tseg \<Rightarrow> tseg \<Rightarrow> tseg \<Rightarrow> bool" where
  "fits_hole buf p b \<longleftrightarrow> SEQLT (SEQNXT p) (SEQ1ST b) \<and> SEQLT (SEQ1ST buf) (SEQ1ST b) \<and> SEQLT (SEQNXT p) (SEQNXT buf)"

lemma find_hole_None: "find_hole buf bs after = None \<Longrightarrow> successively (\<lambda>b p. \<not> fits_hole buf p b) bs"
  by (induction buf bs after rule: find_hole.induct) (auto simp: fits_hole_def split: if_splits)

lemma find_hole_Some:
  "find_hole buf bs after = Some (l, r) \<Longrightarrow>
     l @ r = rev bs @ after \<and> l \<noteq> [] \<and> r \<noteq> [] \<and> fits_hole buf (last l) (hd r)"
  by (induction buf bs after rule: find_hole.induct) (auto simp: fits_hole_def split: if_splits)

lemma no_hole_covered:
  assumes "ordered base xs" and "xs \<noteq> []" and "slo base (hd xs) \<le> x" and "x < shi base (last xs)"
    and "successively (\<lambda>p b. \<not> (shi base p \<le> x \<and> x < slo base b)) xs"
  shows "x \<in> covers base xs"
  using assms
proof (induction xs)
  case (Cons a xs)
  show ?case
  proof (cases xs)
    case Nil
    then show ?thesis using Cons.prems by simp
  next
    case (Cons b ys)
    then show ?thesis using Cons.IH Cons.prems by (cases "x < shi base a"; cases "slo base b \<le> x") auto
  qed
qed simp

lemma dropWhile_sorted:
  assumes "sorted_wrt R xs" and "\<And>x y. R x y \<Longrightarrow> P y \<Longrightarrow> P x"
  shows "\<forall>x \<in> set (dropWhile P xs). \<not> P x"
  using assms(1) by (induction xs) (auto dest: assms(2))

text \<open>The new segment between the two parts of the queue, without the segments it contains.\<close>

lemma insert_ordered:
  fixes base buf l r
  defines "l' \<equiv> rev (dropWhile (\<lambda>b. slo base buf \<le> slo base b) (rev l))" and "r' \<equiv> dropWhile (\<lambda>b. shi base b \<le> shi base buf) r"
  assumes o: "ordered base (l @ r)" and l: "\<forall>a \<in> set l. shi base a < shi base buf" and r: "\<forall>b \<in> set r. slo base buf < slo base b"
    and n: "slo base buf < shi base buf"
  shows "ordered base (l' @ buf # r')" "set l' \<subseteq> set l" "set r' \<subseteq> set r"
    "covers base (l' @ buf # r') = covers base (l @ r) \<union> {slo base buf..<shi base buf}"
proof -
  have ol: "ordered base l" and or: "ordered base r" using o by simp_all
  show sl: "set l' \<subseteq> set l" and sr: "set r' \<subseteq> set r" by (auto simp: l'_def r'_def dest: set_dropWhileD)
  have "sorted_wrt (\<lambda>a b. slo base a < slo base b) l"
    using ol unfolding ordered_def by (rule sorted_wrt_mono_rel [rotated]) simp
  then have l1: "\<forall>a \<in> set l'. slo base a < slo base buf"
    using dropWhile_sorted [of "\<lambda>a b. slo base b < slo base a" "rev l" "\<lambda>b. slo base buf \<le> slo base b"]
    by (auto simp: l'_def sorted_wrt_rev not_le)
  have "sorted_wrt (\<lambda>a b. shi base a < shi base b) r"
    using or unfolding ordered_def by (rule sorted_wrt_mono_rel [rotated]) simp
  then have r1: "\<forall>b \<in> set r'. shi base buf < shi base b"
    using dropWhile_sorted [of "\<lambda>a b. shi base a < shi base b" r "\<lambda>b. shi base b \<le> shi base buf"]
    by (auto simp: r'_def not_le)
  have tl: "rev l = takeWhile (\<lambda>b. slo base buf \<le> slo base b) (rev l) @ rev l'" by (simp add: l'_def)
  have tr: "r = takeWhile (\<lambda>b. shi base b \<le> shi base buf) r @ r'" by (simp add: r'_def)
  have "l = l' @ rev (takeWhile (\<lambda>b. slo base buf \<le> slo base b) (rev l))" using tl by (metis rev_append rev_rev_ident)
  then have ol': "ordered base l'" using ol by (metis ordered_simps(3))
  have or': "ordered base r'" using or tr by (metis ordered_simps(3))
  show "ordered base (l' @ buf # r')" using ol' or' l1 r1 l r o sl sr by (auto; fastforce)
  have cl: "covers base l \<subseteq> covers base l' \<union> {slo base buf..<shi base buf}"
  proof
    fix x assume "x \<in> covers base l"
    then obtain a where a: "a \<in> set (rev l)" "x \<in> {slo base a..<shi base a}" by (auto simp: covers_def)
    then consider "slo base buf \<le> slo base a" | "a \<in> set l'" using tl by (metis UnE set_append set_rev set_takeWhileD)
    then show "x \<in> covers base l' \<union> {slo base buf..<shi base buf}" using a l by cases (fastforce simp: covers_def)+
  qed
  have cr: "covers base r \<subseteq> covers base r' \<union> {slo base buf..<shi base buf}"
  proof
    fix x assume "x \<in> covers base r"
    then obtain a where a: "a \<in> set r" "x \<in> {slo base a..<shi base a}" by (auto simp: covers_def)
    then consider "shi base a \<le> shi base buf" | "a \<in> set r'" using tr by (metis UnE set_append set_takeWhileD)
    then show "x \<in> covers base r' \<union> {slo base buf..<shi base buf}" using a r by cases (fastforce simp: covers_def)+
  qed
  have "covers base l' \<subseteq> covers base l" "covers base r' \<subseteq> covers base r" using sl sr by (auto simp: covers_def)
  with cl cr show "covers base (l' @ buf # r') = covers base (l @ r) \<union> {slo base buf..<shi base buf}" by auto
qed

definition rq_ok :: "u32 \<Rightarrow> u8 list \<Rightarrow> tseg list \<Rightarrow> bool" where
  "rq_ok base S xs \<longleftrightarrow> ordered base xs \<and> (\<forall>s \<in> set xs. from_stream base S s)"

lemma dropWhile_eq: "(\<And>x. x \<in> set xs \<Longrightarrow> P x = Q x) \<Longrightarrow> dropWhile P xs = dropWhile Q xs"
  by (induction xs) auto

lemma from_stream_marks [simp]:
  "from_stream base S (s\<lparr>th_hdr := h\<rparr>) = from_stream base S s" "slo base (s\<lparr>th_hdr := h\<rparr>) = slo base s"
  "shi base (s\<lparr>th_hdr := h\<rparr>) = shi base s" "SEQNXT (s\<lparr>th_hdr := h\<rparr>) = SEQNXT s"
  by (simp_all add: from_stream_def shi_def slo_def SEQNXT_def)

lemma ordered_ends:
  assumes "ordered base xs" and "s \<in> set xs"
  shows "slo base (hd xs) \<le> slo base s" "shi base s \<le> shi base (last xs)"
  using assms by (induction xs) (auto intro: less_imp_le)

text \<open>Where the segment goes, in terms of positions.\<close>

lemma addseg_cases:
  assumes S: "length S < 2 ^ 31" and q: "rq_ok base S (segs q)" and s: "from_stream base S seg" and ne: "segs q \<noteq> []"
  obtains (dup) "tcp_addseg q seg = ([seg\<lparr>th_hdr := th_hdr seg AND NOT TCPF_FREEME\<rparr>], q, None)"
      "{slo base seg..<shi base seg} \<subseteq> covers base (segs q)"
  | (ins) l r fr cur where "segs q = l @ r" "\<forall>a \<in> set l. shi base a < shi base seg" "\<forall>b \<in> set r. slo base seg < slo base b"
      "tcp_addseg q seg = (fr, q\<lparr>segs := rev (dropWhile (\<lambda>b. slo base seg \<le> slo base b) (rev l)) @
         seg\<lparr>th_hdr := th_hdr seg AND NOT TCPF_FREEME\<rparr> # dropWhile (\<lambda>b. shi base b \<le> shi base seg) r, curlen := cur\<rparr>,
         Some (seg\<lparr>th_hdr := th_hdr seg AND NOT TCPF_FREEME\<rparr> # dropWhile (\<lambda>b. shi base b \<le> shi base seg) r))"
proof -
  let ?b = "seg\<lparr>th_hdr := th_hdr seg AND NOT TCPF_FREEME\<rparr>"
  let ?x = "segs q"
  have o: "ordered base ?x" and st: "\<And>t. t \<in> set ?x \<Longrightarrow> from_stream base S t" using q by (auto simp: rq_ok_def)
  note bs = from_stream_bounds [OF S s]
  note bt = from_stream_bounds [OF S st]
  have sb: "SEQ1ST ?b = th_seq seg" "SEQNXT ?b = SEQNXT seg" by simp_all
  have u: "th_urgptr seg \<noteq> 0" using s by (auto simp: from_stream_def)
  have lt: "slo base seg < 2 ^ 31" "\<And>t. t \<in> set ?x \<Longrightarrow> slo base t < 2 ^ 31" using bs(3,4) bt(3,4) by (auto intro: less_trans)
  have nn: "SEQLT (SEQNXT t) (SEQNXT seg) \<longleftrightarrow> shi base t < shi base seg" "SEQLE (SEQNXT t) (SEQNXT seg) \<longleftrightarrow> shi base t \<le> shi base seg"
      "SEQLT (th_seq seg) (th_seq t) \<longleftrightarrow> slo base seg < slo base t" "SEQLE (th_seq seg) (th_seq t) \<longleftrightarrow> slo base seg \<le> slo base t"
      if "t \<in> set ?x" for t
    using seq_cmp [of base "SEQNXT t" "SEQNXT seg"] seq_cmp [of base "th_seq seg" "th_seq t"] bt [OF that] bs lt that by simp_all
  have hole: "fits_hole ?b p b \<longleftrightarrow> shi base p < slo base b \<and> slo base seg < slo base b \<and> shi base p < shi base seg"
      if "p \<in> set ?x" "b \<in> set ?x" for p b
    using seq_cmp [of base "SEQNXT p" "th_seq b"] nn that bt lt by (simp add: fits_hole_def sb)
  have drops: "dropWhile (\<lambda>b. SEQLE (SEQNXT b) (SEQNXT ?b)) r = dropWhile (\<lambda>b. shi base b \<le> shi base seg) r"
      "dropWhile (\<lambda>b. SEQLE (SEQ1ST ?b) (SEQ1ST b)) (rev l) = dropWhile (\<lambda>b. slo base seg \<le> slo base b) (rev l)"
      if "?x = l @ r" for l r
    using nn that by (auto simp: sb intro!: dropWhile_eq)
  define place where "place = (if SEQLT (SEQNXT (last ?x)) (SEQNXT ?b) then Some (curlen q + (SEQNXT ?b - SEQNXT (last ?x)), ?x, [])
       else if SEQLT (SEQ1ST ?b) (SEQ1ST (hd ?x)) then Some (curlen q + (SEQ1ST (hd ?x) - SEQ1ST ?b), [], ?x)
       else map_option (\<lambda>(l, r). (curlen q, l, r)) (find_hole ?b (rev ?x) []))"
  have add: "tcp_addseg q seg = (case place of None \<Rightarrow> ([?b], q, None) | Some (cur, l, r) \<Rightarrow>
      (let r' = dropWhile (\<lambda>b. SEQLE (SEQNXT b) (SEQNXT ?b)) r; l' = rev (dropWhile (\<lambda>b. SEQLE (SEQ1ST ?b) (SEQ1ST b)) (rev l))
       in (takeWhile (\<lambda>b. SEQLE (SEQNXT b) (SEQNXT ?b)) r @ takeWhile (\<lambda>b. SEQLE (SEQ1ST ?b) (SEQ1ST b)) (rev l),
           q\<lparr>segs := l' @ ?b # r', curlen := cur\<rparr>, Some (?b # r'))))"
    using u ne unfolding place_def tcp_addseg_def Let_def by simp
  have last: "last ?x \<in> set ?x" "hd ?x \<in> set ?x" using ne by simp_all
  show thesis
  proof (cases place)
    case None
    then have n: "\<not> shi base (last ?x) < shi base seg" "\<not> slo base seg < slo base (hd ?x)" and h: "find_hole ?b (rev ?x) [] = None"
      using nn last by (auto simp: place_def sb split: if_splits)
    have "successively (\<lambda>p b. \<not> fits_hole ?b p b) ?x" using find_hole_None [OF h] by simp
    then have h': "successively (\<lambda>p b. \<not> (shi base p < slo base b \<and> slo base seg < slo base b \<and> shi base p < shi base seg)) ?x"
      by (rule successively_mono) (use hole in auto)
    have "x \<in> covers base ?x" if x: "slo base seg \<le> x" "x < shi base seg" for x
    proof (rule no_hole_covered [OF o ne])
      show "successively (\<lambda>p b. \<not> (shi base p \<le> x \<and> x < slo base b)) ?x"
        by (rule successively_mono [OF h']) (use x in auto)
    qed (use n x in auto)
    then have "{slo base seg..<shi base seg} \<subseteq> covers base ?x" by auto
    then show thesis using dup add None by simp
  next
    case (Some a)
    then obtain cur l r where p: "place = Some (cur, l, r)" by (cases a) auto
    have lr: "?x = l @ r" "\<forall>a \<in> set l. shi base a < shi base seg" "\<forall>b \<in> set r. slo base seg < slo base b"
    proof -
      consider (atend) "shi base (last ?x) < shi base seg" "l = ?x" "r = []" | (front) "slo base seg < slo base (hd ?x)" "l = []" "r = ?x"
        | (mid) "find_hole ?b (rev ?x) [] = Some (l, r)" using p nn last by (auto simp: place_def sb split: if_splits)
      then have "?x = l @ r \<and> (\<forall>a \<in> set l. shi base a < shi base seg) \<and> (\<forall>b \<in> set r. slo base seg < slo base b)"
      proof cases
        case atend
        then show ?thesis using ordered_ends(2) [OF o] by force
      next
        case front
        then show ?thesis using ordered_ends(1) [OF o] by force
      next
        case mid
        then have m: "l @ r = ?x" "l \<noteq> []" "r \<noteq> []" "fits_hole ?b (last l) (hd r)" using find_hole_Some [OF mid] by simp_all
        have "last l \<in> set ?x" "hd r \<in> set ?x" using m(2,3) unfolding m(1) [symmetric] by simp_all
        then have f: "slo base seg < slo base (hd r)" "shi base (last l) < shi base seg" using hole m(4) by simp_all
        have "ordered base l" "ordered base r" using o unfolding m(1) [symmetric] by simp_all
        then show ?thesis using f ordered_ends m(1) by (metis le_less_trans less_le_trans)
      qed
      then show "?x = l @ r" "\<forall>a \<in> set l. shi base a < shi base seg" "\<forall>b \<in> set r. slo base seg < slo base b" by simp_all
    qed
    show thesis by (rule ins [OF lr]) (use add p drops [OF lr(1)] in \<open>simp add: Let_def\<close>)
  qed
qed

text \<open>The insertion adds the bytes of the segment to the queue, and the rest of the queue starts with it.\<close>

lemma addseg_covers:
  assumes S: "length S < 2 ^ 31" and q: "rq_ok base S (segs q)" and s: "from_stream base S seg"
  obtains fr q' where "tcp_addseg q seg = (fr, q', None)" "q' = q" "{slo base seg..<shi base seg} \<subseteq> covers base (segs q)"
  | fr q' l' b r' where "tcp_addseg q seg = (fr, q', Some (b # r'))" "segs q' = l' @ b # r'" "rq_ok base S (segs q')"
      "covers base (segs q') = covers base (segs q) \<union> {slo base seg..<shi base seg}" "set l' \<subseteq> set (segs q)"
      "set r' \<subseteq> set (segs q)" "b = seg\<lparr>th_hdr := th_hdr seg AND NOT TCPF_FREEME\<rparr>" "maxlen q' = maxlen q"
proof (cases "segs q = []")
  case True
  let ?b = "seg\<lparr>th_hdr := th_hdr seg AND NOT TCPF_FREEME\<rparr>"
  have "th_urgptr seg \<noteq> 0" using s by (auto simp: from_stream_def)
  then have "tcp_addseg q seg = ([], q\<lparr>segs := [] @ ?b # [], curlen := ucast (th_urgptr seg)\<rparr>, Some (?b # []))"
    using True by (simp add: tcp_addseg_def Let_def)
  then show thesis by (rule that(2)) (use True s in \<open>simp_all add: rq_ok_def\<close>)
next
  case False
  from S q s False show thesis
  proof (cases rule: addseg_cases)
    case dup
    then show thesis using that(1) by blast
  next
    case (ins l r fr cur)
    have o: "ordered base (l @ r)" and st: "\<forall>t \<in> set (l @ r). from_stream base S t" using q by (simp_all add: rq_ok_def flip: ins(1))
    have n: "slo base seg < shi base seg" using from_stream_bounds(3) [OF S s] .
    let ?b = "seg\<lparr>th_hdr := th_hdr seg AND NOT TCPF_FREEME\<rparr>"
    note i = insert_ordered [of base l r ?b, unfolded from_stream_marks, OF o ins(2,3) n]
    show thesis
    proof (rule that(2) [OF ins(4)])
      show "rq_ok base S (segs (q\<lparr>segs := rev (dropWhile (\<lambda>b. slo base seg \<le> slo base b) (rev l)) @
         ?b # dropWhile (\<lambda>b. shi base b \<le> shi base seg) r, curlen := cur\<rparr>))"
        using i(1-3) st s by (auto simp: rq_ok_def subset_iff simp del: ordered_simps)
    qed (use i(2-4) ins(1) in \<open>auto simp del: covers_simps\<close>)
  qed
qed

fun run :: "u32 \<Rightarrow> nat \<Rightarrow> tseg list \<Rightarrow> nat" where
  "run base n [] = n"
| "run base n (b # bs) = (if slo base b \<le> n then run base (shi base b) bs else n)"

lemma seq_run_off:
  assumes "length S < 2 ^ 31" and "\<forall>s \<in> set xs. from_stream base S s" and "soff base nxt \<le> length S"
  shows "soff base (seq_run nxt xs) = run base (soff base nxt) xs"
  using assms(2,3)
proof (induction xs arbitrary: nxt)
  case (Cons b xs)
  note f = from_stream_bounds [OF assms(1), of base b]
  have "SEQLE (th_seq b) nxt \<longleftrightarrow> slo base b \<le> soff base nxt"
    using seq_cmp(2) [of base "th_seq b" nxt] f Cons.prems assms(1) by auto
  moreover have "shi base b \<le> length S" using Cons.prems(1) by (auto simp: from_stream_def)
  ultimately show ?case using Cons f by auto
qed simp

lemma run_covers:
  assumes "ordered base xs" and "\<forall>s \<in> set xs. n < shi base s"
  shows "n \<le> run base n xs \<and> {n..<run base n xs} \<subseteq> covers base xs \<and> run base n xs \<notin> covers base xs \<and>
    (\<forall>s \<in> set (take 1 xs). slo base s \<le> n \<longrightarrow> shi base s \<le> run base n xs)"
  using assms
proof (induction xs arbitrary: n)
  case (Cons b xs)
  have IH: "shi base b \<le> run base (shi base b) xs \<and> {shi base b..<run base (shi base b) xs} \<subseteq> covers base xs \<and>
      run base (shi base b) xs \<notin> covers base xs"
    using Cons.IH [of "shi base b"] Cons.prems by auto
  show ?case
  proof (cases "slo base b \<le> n")
    case True
    have "{n..<run base (shi base b) xs} \<subseteq> {slo base b..<shi base b} \<union> {shi base b..<run base (shi base b) xs}" using True by auto
    then show ?thesis using True IH Cons.prems by auto
  next
    case False
    have "n \<notin> covers base (b # xs)" using False Cons.prems(1) by (auto simp: covers_def)
    then show ?thesis using False by simp
  qed
qed simp

section \<open>Reading\<close>

definition plain :: "tseg \<Rightarrow> bool" where
  "plain s \<longleftrightarrow> th_hdr s AND TCPF_FREEME = 0 \<and> \<not> has s TCPF_URG"

lemma bit_2080: "bit (0x820 :: u16) n \<longleftrightarrow> n = 5 \<or> n = 11" "bit (0x800 :: u16) n \<longleftrightarrow> n = 11"
proof -
  have e: "(0x820 :: u16) = push_bit 5 1 OR push_bit 11 1" "(0x800 :: u16) = push_bit 11 1" by simp_all
  show "bit (0x820 :: u16) n \<longleftrightarrow> n = 5 \<or> n = 11" "bit (0x800 :: u16) n \<longleftrightarrow> n = 11"
    unfolding e bit_or_iff bit_push_bit_iff bit_1_iff by auto
qed

lemma plain_bflags:
  assumes "plain s"
  shows "th_bflags s AND 0x820 = 0" "th_bflags s AND 0x800 = 0"
proof -
  have "\<not> bit (th_flags s AND TCPF_URG) 5" "\<not> bit (th_hdr s AND TCPF_FREEME) 3"
    using assms by (simp_all only: plain_def has_def bit_0_eq bot_apply) simp_all
  then have f: "\<not> bit (th_flags s) 5" "\<not> bit (th_hdr s) 3" by (simp_all add: bit_and_iff)
  have b: "\<not> bit (th_bflags s) 5" "\<not> bit (th_bflags s) 11" using f by (auto simp: th_bflags_def bit_simps dest: bit_imp_le_length)
  show "th_bflags s AND 0x820 = 0"
    by (rule bit_word_eqI, simp only: bit_and_iff bit_2080 bit_0_eq bot_apply) (use b in auto)
  show "th_bflags s AND 0x800 = 0"
    by (rule bit_word_eqI, simp only: bit_and_iff bit_2080 bit_0_eq bot_apply) (use b in auto)
qed

definition mark :: "u32 \<Rightarrow> nat \<Rightarrow> tseg \<Rightarrow> tseg" where
  "mark base m b = (if shi base b \<le> m then b\<lparr>th_hdr := th_hdr b OR TCPF_FREEME\<rparr> else b)"

lemma recv_copy_room0: "recv_copy urg inl oob peek uread 0 n xs = Some ([], n, xs)"
  by (cases xs) (simp_all add: recv_copy.simps)

lemma map_mark_id: "\<forall>s \<in> set xs. m < shi base s \<Longrightarrow> map (mark base m) xs = xs"
  by (rule map_idI) (auto simp: mark_def)

lemma recv_copy_stream:
  assumes S: "length S < 2 ^ 31"
  shows "ordered base xs \<Longrightarrow> \<forall>s \<in> set xs. from_stream base S s \<and> plain s \<and> soff base n < shi base s \<Longrightarrow> soff base n \<le> length S \<Longrightarrow>
    \<exists>d n'. recv_copy False inl oob False uread room n xs = Some (d, n', map (mark base (soff base n')) xs) \<and>
      soff base n' = soff base n + length d \<and> d = take (min room (run base (soff base n) xs - soff base n)) (drop (soff base n) S)"
proof (induction xs arbitrary: room n)
  case (Cons b xs)
  let ?n = "soff base n"
  have b: "from_stream base S b" "plain b" "?n < shi base b" using Cons.prems(2) by auto
  note f = from_stream_bounds [OF S b(1)]
  have h: "shi base b \<le> length S" "length (th_data b) = unat (th_urgptr b)"
    "th_data b = take (unat (th_urgptr b)) (drop (slo base b) S)" using b(1) by (auto simp: from_stream_def)
  have l: "slo base b < 2 ^ 31" "?n < 2 ^ 31" using f(3,4) b(3) by simp_all
  show ?case
  proof (cases "room = 0 \<or> ?n < slo base b")
    case True
    have "recv_copy False inl oob False uread room n (b # xs) = Some ([], n, b # xs)"
      using True seq_cmp(1) [of base n "th_seq b"] l f(1) by (auto simp: recv_copy.simps)
    moreover have "map (mark base ?n) (b # xs) = b # xs" using Cons.prems(2) by (intro map_mark_id) auto
    ultimately show ?thesis using True by auto
  next
    case False
    have offs: "nat (sint (n - th_seq b)) = ?n - slo base b" using sint_soff [of base n "th_seq b"] l f(1) by simp
    define cando where "cando = min room (shi base b - ?n)"
    have c: "min room (unat (th_urgptr b) - (?n - slo base b)) = cando" using False by (simp add: cando_def shi_def)
    have c2: "?n + cando \<le> shi base b" "0 < cando" using b(3) False by (auto simp: cando_def)
    define n1 where "n1 = n + word_of_nat cando"
    have n1: "soff base n1 = ?n + cando" unfolding n1_def using soff_add [of base n cando] c2 f(4) by simp
    have le: "SEQLE (SEQNXT b) n1 \<longleftrightarrow> shi base b \<le> ?n + cando"
      using seq_cmp(2) [of base "SEQNXT b" n1] f(2,4) c2(1) n1 by simp
    have piece: "take cando (drop (?n - slo base b) (th_data b)) = take cando (drop ?n S)"
      using False c2(1) h(3) by (simp add: drop_take min_def shi_def)
    have g: "\<not> (unat (th_urgptr b) < ?n - slo base b \<or> length (th_data b) < ?n - slo base b + cando)"
      using c2(1) h(2) False by (auto simp: shi_def)
    have step: "recv_copy False inl oob False uread room n (b # xs) =
        map_option (\<lambda>(d, n', r). (take cando (drop ?n S) @ d, n', mark base (?n + cando) b # r))
          (recv_copy False inl oob False uread (room - cando) n1 xs)"
      using False b(2) seq_cmp(1) [of base n "th_seq b"] l f(1) le g offs c piece c2
      by (simp add: recv_copy.simps plain_def mark_def Let_def flip: n1_def)
    show ?thesis
    proof (cases "room \<le> shi base b - ?n")
      case True
      then have "cando = room" by (simp add: cando_def)
      moreover have "shi base b - ?n \<le> run base ?n (b # xs) - ?n"
        using run_covers [OF Cons.prems(1), of ?n] Cons.prems(2) False by (auto intro!: diff_le_mono)
      moreover have "map (mark base (?n + cando)) xs = xs" using Cons.prems(1) c2(1) by (intro map_mark_id) auto
      moreover have "length (take room (drop ?n S)) = room" using c2(1) h(1) \<open>cando = room\<close> by simp
      ultimately show ?thesis using step True n1 recv_copy_room0 [of False inl oob False uread n1 xs]
        by (intro exI [of _ "take room (drop ?n S)"] exI [of _ n1]) (simp del: run.simps length_take)
    next
      case full: False
      then have cn: "?n + cando = shi base b" using b(3) by (simp add: cando_def)
      obtain d n' where IH: "recv_copy False inl oob False uread (room - cando) n1 xs = Some (d, n', map (mark base (soff base n')) xs)"
        "soff base n' = soff base n1 + length d"
        "d = take (min (room - cando) (run base (soff base n1) xs - soff base n1)) (drop (soff base n1) S)"
        using Cons.IH [of n1 "room - cando"] Cons.prems n1 cn h(1) by auto
      have r: "run base ?n (b # xs) = run base (soff base n1) xs" using False n1 cn by simp
      have ge: "soff base n1 \<le> run base (soff base n1) xs" using run_covers [of base xs "soff base n1"] Cons.prems n1 cn by auto
      have ap: "take cando (drop ?n S) @ d = take (min room (run base ?n (b # xs) - ?n)) (drop ?n S)"
      proof -
        have "min room (run base ?n (b # xs) - ?n) = cando + min (room - cando) (run base (soff base n1) xs - soff base n1)"
          unfolding r using ge n1 c2(1) full by (simp add: cando_def)
        then show ?thesis unfolding IH(3) by (simp add: take_add n1 add.commute)
      qed
      have mk: "mark base (?n + cando) b = mark base (soff base n') b" using cn IH(2) n1 by (simp add: mark_def)
      have len: "length (take cando (drop ?n S)) = cando" using c2(1) h(1) by simp
      show ?thesis
      proof (intro exI conjI)
        show "recv_copy False inl oob False uread room n (b # xs) =
            Some (take cando (drop ?n S) @ d, n', map (mark base (soff base n')) (b # xs))"
          unfolding step IH(1) using mk by simp
        show "soff base n' = ?n + length (take cando (drop ?n S) @ d)" using IH(2) n1 unfolding length_append len by simp
      qed (rule ap)
    qed
  qed
qed (simp add: recv_copy.simps)

definition rcv_inv :: "u32 \<Rightarrow> u8 list \<Rightarrow> nat \<Rightarrow> nat \<Rightarrow> tseg list \<Rightarrow> bool" where
  "rcv_inv base S r n xs \<longleftrightarrow> rq_ok base S xs \<and> (\<forall>s \<in> set xs. plain s \<and> r < shi base s) \<and>
     r \<le> n \<and> n \<le> length S \<and> {r..<n} \<subseteq> covers base xs \<and> n \<notin> covers base xs"

lemma recv_skip_plain: "xs = [] \<or> plain (hd xs) \<Longrightarrow> recv_skip 0 (if inl then 0x800 else 0x820) n xs = ([], n, xs)"
  by (cases xs) (auto simp: plain_bflags)

lemma run_all:
  assumes S: "length S < 2 ^ 31" and inv: "rcv_inv base S r n xs"
  shows "run base r xs = n"
proof -
  have o: "ordered base xs" "\<forall>s \<in> set xs. r < shi base s" using inv by (simp_all add: rcv_inv_def rq_ok_def)
  note c = run_covers [OF o]
  have i: "r \<le> n" "{r..<n} \<subseteq> covers base xs" "n \<notin> covers base xs" using inv by (simp_all add: rcv_inv_def)
  show ?thesis
  proof (rule antisym)
    show "run base r xs \<le> n" using c i by (meson atLeastLessThan_iff not_le subsetD)
    show "n \<le> run base r xs" using c i by (meson atLeastLessThan_iff not_le subsetD)
  qed
qed

lemma read_queue_stream:
  assumes S: "length S < 2 ^ 31" and inv: "rcv_inv base S (soff base sr) n xs"
  shows "if soff base sr < n then
      \<exists>d rn. read_queue inl False False uread room sr xs = Some (Some (d, rn, map (mark base (soff base rn)) xs)) \<and>
        soff base rn = soff base sr + length d \<and> d = take (min room (n - soff base sr)) (drop (soff base sr) S)
    else read_queue inl False False uread room sr xs = Some None"
proof -
  let ?r = "soff base sr"
  have q: "rq_ok base S xs" and p: "\<forall>s \<in> set xs. plain s \<and> ?r < shi base s" and rn: "?r \<le> n" "n \<le> length S"
    and c: "{?r..<n} \<subseteq> covers base xs" "n \<notin> covers base xs" using inv by (auto simp: rcv_inv_def)
  have o: "ordered base xs" and st: "\<forall>s \<in> set xs. from_stream base S s" using q by (simp_all add: rq_ok_def)
  have "\<not> SEQLE (SEQNXT s) sr" if "s \<in> set xs" for s
    using seq_cmp(2) [of base "SEQNXT s" sr] from_stream_bounds [OF S, of base s] st p that rn S by auto
  then have old: "takeWhile (\<lambda>b. SEQLE (SEQNXT b) sr) xs = []" "dropWhile (\<lambda>b. SEQLE (SEQNXT b) sr) xs = xs"
    by (cases xs; simp)+
  have skip: "recv_skip 0 (if inl then 0x800 else 0x820) sr xs = ([], sr, xs)" using p by (intro recv_skip_plain) (cases xs; simp)
  have hd: "SEQLE (th_seq b) sr \<longleftrightarrow> slo base b \<le> ?r" if "b \<in> set xs" for b
    using seq_cmp(2) [of base "th_seq b" sr] from_stream_bounds [OF S, of base b] st that rn S by auto
  have e: "read_queue inl False False uread room sr xs = (case xs of [] \<Rightarrow> Some None | b # _ \<Rightarrow>
      if slo base b \<le> ?r then map_option (\<lambda>(d, n, r'). Some (d, n, r')) (recv_copy (has b TCPF_URG) inl False False uread room sr xs)
      else Some None)"
    using skip hd by (auto simp: read_queue_def Let_def old split: list.split)
  have run: "run base ?r xs = n" using run_all [OF S inv] .
  show ?thesis
  proof (cases "?r < n")
    case True
    then obtain b ys where b: "xs = b # ys" "slo base b \<le> ?r" using run by (cases xs) (auto split: if_splits)
    obtain d n' where "recv_copy False inl False False uread room sr xs = Some (d, n', map (mark base (soff base n')) xs)"
      "soff base n' = ?r + length d" "d = take (min room (run base ?r xs - ?r)) (drop ?r S)"
      using recv_copy_stream [OF S o, of sr inl False uread room] st p rn by auto
    then show ?thesis using True e b p run by (auto simp: plain_def)
  next
    case False
    have "\<not> slo base b \<le> ?r" if "xs = b # ys" for b ys
      using False run run_covers [OF o, of ?r] p rn that by auto
    then show ?thesis using False e by (auto split: list.split)
  qed
qed

lemma plain_unmarked: "plain s \<Longrightarrow> th_hdr (mark base m s) AND TCPF_FREEME = 0 \<longleftrightarrow> m < shi base s"
proof -
  assume p: "plain s"
  have "(th_hdr s OR TCPF_FREEME) AND TCPF_FREEME \<noteq> 0" by (simp add: bit.conj_disj_distrib2)
  then show ?thesis using p by (auto simp: mark_def plain_def)
qed

lemma drop_free_marked:
  "ordered base xs \<Longrightarrow> \<forall>s \<in> set xs. plain s \<Longrightarrow>
     \<exists>low' cur' fr. drop_free low cur (map (mark base m) xs) = (low', cur', fr, dropWhile (\<lambda>s. shi base s \<le> m) xs)"
proof (induction xs arbitrary: low cur)
  case (Cons b xs)
  show ?case
  proof (cases "shi base b \<le> m")
    case True
    then obtain low' cur' fr where "drop_free (SEQNXT (mark base m b)) (case map (mark base m) xs of [] \<Rightarrow> 0
        | n # _ \<Rightarrow> cur - (SEQ1ST n - SEQ1ST (mark base m b))) (map (mark base m) xs) = (low', cur', fr, dropWhile (\<lambda>s. shi base s \<le> m) xs)"
      using Cons by (metis list.set_intros(2) ordered_simps(2))
    then show ?thesis using True plain_unmarked [of b base m] Cons.prems(2) by (simp add: Let_def)
  next
    case False
    have "map (mark base m) (b # xs) = b # xs" using False Cons.prems(1) by (intro map_mark_id) auto
    then show ?thesis using False plain_unmarked [of b base m] Cons.prems(2) by simp
  qed
qed simp

section \<open>The byte stream\<close>

lemma rcv_inv_arrive:
  assumes S: "length S < 2 ^ 31" and inv: "rcv_inv base S r (soff base nxt) (segs q)" and s: "from_stream base S seg"
    and u: "\<not> has seg TCPF_URG" and v: "SEQLT nxt (SEQNXT seg)" and m: "rcv_merge nxt q seg = (fr, q', rest, nxt')"
  shows "rcv_inv base S r (soff base nxt') (segs q') \<and> covers base (segs q') = covers base (segs q) \<union> {slo base seg..<shi base seg}"
proof -
  let ?n = "soff base nxt"
  have q: "rq_ok base S (segs q)" and p: "\<forall>s \<in> set (segs q). plain s \<and> r < shi base s" and n: "r \<le> ?n" "?n \<le> length S"
    "{r..<?n} \<subseteq> covers base (segs q)" "?n \<notin> covers base (segs q)" using inv by (auto simp: rcv_inv_def)
  note f = from_stream_bounds [OF S s]
  have v': "?n < shi base seg" using v seq_cmp(1) [of base nxt "SEQNXT seg"] f n(2) S by simp
  from S q s show ?thesis
  proof (cases rule: addseg_covers)
    case (1 fr q')
    then show ?thesis using m inv by (auto simp: rcv_merge_def)
  next
    case (2 fr2 q2 l b r')
    have e: "q' = q2" "nxt' = seq_run nxt (b # r')" using m 2(1) by (auto simp: rcv_merge_def)
    have b: "slo base b = slo base seg" "shi base b = shi base seg" "plain b"
      using 2(7) u by (simp_all add: plain_def has_def and.assoc)
    have st: "\<forall>s \<in> set (b # r'). from_stream base S s" and o: "ordered base (b # r')" "ordered base (segs q2)"
      using 2(2,3) by (auto simp: rq_ok_def)
    have hi: "\<forall>s \<in> set (b # r'). ?n < shi base s" using v' b(2) o(1) by auto
    define n' where "n' = run base ?n (b # r')"
    have n': "soff base nxt' = n'" unfolding e(2) n'_def by (rule seq_run_off [OF S st n(2)])
    have c: "?n \<le> n'" "{?n..<n'} \<subseteq> covers base (b # r')" "n' \<notin> covers base (b # r')" "slo base b \<le> ?n \<Longrightarrow> shi base b \<le> n'"
      using run_covers [OF o(1) hi] by (auto simp: n'_def)
    have "n' \<notin> covers base l"
    proof (cases "slo base b \<le> ?n")
      case True
      have "\<forall>s \<in> set l. shi base s < shi base b" using o(2) 2(2) by simp
      then show ?thesis using c(4) [OF True] by (auto simp: covers_def)
    next
      case False
      then have "n' = ?n" by (simp add: n'_def)
      then show ?thesis using n(4) 2(5) by (auto simp: covers_def)
    qed
    then have "n' \<notin> covers base (segs q2)" using c(3) 2(2) by simp
    moreover have "{r..<n'} \<subseteq> covers base (segs q2)"
    proof -
      have "{r..<n'} \<subseteq> {r..<?n} \<union> {?n..<n'}" by auto
      then show ?thesis using n(3) c(2) 2(2,4) by auto
    qed
    moreover have "n' \<le> length S"
    proof (rule ccontr)
      assume "\<not> n' \<le> length S"
      then have "length S \<in> {?n..<n'}" using n(2) by simp
      then have "length S \<in> covers base (b # r')" using c(2) by blast
      then show False using st by (auto simp: covers_def from_stream_def)
    qed
    moreover have "\<forall>s \<in> set (segs q2). plain s \<and> r < shi base s" using p 2(2,5,6) b v' n(1) by auto
    ultimately show ?thesis using 2(3,4) n(1) c(1) n' e(1) by (simp add: rcv_inv_def)
  qed
qed

lemma rcv_inv_read:
  assumes S: "length S < 2 ^ 31" and inv: "rcv_inv base S (soff base sr) n xs"
    and rd: "read_queue inl False False uread room sr xs = Some (Some (d, rn, ys))" and df: "drop_free low cur ys = (low', cur', fr, rest)"
  shows "soff base rn = soff base sr + length d \<and> d = take (length d) (drop (soff base sr) S) \<and> rcv_inv base S (soff base rn) n rest \<and>
    covers base xs \<subseteq> covers base rest \<union> {..<soff base rn}"
proof -
  have r: "soff base sr < n" "ys = map (mark base (soff base rn)) xs" "soff base rn = soff base sr + length d"
    "d = take (min room (n - soff base sr)) (drop (soff base sr) S)"
    using read_queue_stream [OF S inv, of inl uread room] rd by (auto split: if_splits)
  have q: "rq_ok base S xs" and p: "\<forall>s \<in> set xs. plain s \<and> soff base sr < shi base s" and n: "n \<le> length S"
    and c: "{soff base sr..<n} \<subseteq> covers base xs" "n \<notin> covers base xs" using inv by (auto simp: rcv_inv_def)
  have o: "ordered base xs" using q by (simp add: rq_ok_def)
  let ?m = "soff base rn"
  have rest: "rest = dropWhile (\<lambda>s. shi base s \<le> ?m) xs" using drop_free_marked [OF o, of low cur ?m] p df r(2) by auto
  have "length d \<le> n - soff base sr" using r(4) by (simp add: min_def split: if_splits)
  then have m: "?m \<le> n" using r(1,3) by simp
  have "sorted_wrt (\<lambda>a b. shi base a < shi base b) xs" using o unfolding ordered_def by (rule sorted_wrt_mono_rel [rotated]) simp
  then have hi: "\<forall>s \<in> set rest. ?m < shi base s"
    using dropWhile_sorted [of "\<lambda>a b. shi base a < shi base b" xs "\<lambda>s. shi base s \<le> ?m"] unfolding rest by (auto simp: not_le)
  have split: "xs = takeWhile (\<lambda>s. shi base s \<le> ?m) xs @ rest" by (simp add: rest)
  have cov: "covers base xs \<subseteq> covers base rest \<union> {..<?m}"
  proof -
    have "covers base (takeWhile (\<lambda>s. shi base s \<le> ?m) xs) \<subseteq> {..<?m}" by (auto simp: covers_def dest: set_takeWhileD)
    then show ?thesis by (subst split) (auto simp del: takeWhile_dropWhile_id)
  qed
  have sub: "set rest \<subseteq> set xs" by (auto simp: rest dest: set_dropWhileD)
  have "ordered base rest" using o split by (metis ordered_simps(3))
  then have "rq_ok base S rest" using q sub by (auto simp: rq_ok_def)
  moreover have "{?m..<n} \<subseteq> covers base rest" 
  proof
    fix x assume x: "x \<in> {?m..<n}"
    then have "x \<in> {soff base sr..<n}" using r(3) by simp
    then show "x \<in> covers base rest" using c(1) cov x by (auto dest!: subsetD)
  qed
  moreover have "n \<notin> covers base rest" using c(2) sub by (auto simp: covers_def)
  ultimately have "rcv_inv base S ?m n rest" using p hi sub m n by (auto simp: rcv_inv_def)
  moreover have "d = take (length d) (drop (soff base sr) S)" using r(4) by (metis append_eq_conv_conj append_take_drop_id)
  ultimately show ?thesis using r(3) cov by blast
qed

text \<open>
  The receiving end of a connection on the stream \<open>S\<close>: segments of it arrive in any order,
  cut in any way, overlapping or again, as long as they end behind \<^verbatim>\<open>rcv_nxt\<close> (\<^verbatim>\<open>tcp_valid\<close>
  drops the others), and the application reads at any time, as much as it likes. The state
  has the positions that arrived, the bytes read, \<^verbatim>\<open>seq_read\<close>, \<^verbatim>\<open>rcv_nxt\<close> and the queue.
\<close>

inductive tcp_rx :: "u32 \<Rightarrow> u8 list \<Rightarrow> nat set \<Rightarrow> u8 list \<Rightarrow> u32 \<Rightarrow> u32 \<Rightarrow> tcpq \<Rightarrow> bool" for base S where
  init: "segs q = [] \<Longrightarrow> tcp_rx base S {} [] base base q"
| arrive: "tcp_rx base S A out sr nxt q \<Longrightarrow> from_stream base S seg \<Longrightarrow> \<not> has seg TCPF_URG \<Longrightarrow> SEQLT nxt (SEQNXT seg) \<Longrightarrow>
    rcv_merge nxt q seg = (fr, q', rest, nxt') \<Longrightarrow> tcp_rx base S (A \<union> {slo base seg..<shi base seg}) out sr nxt' q'"
| reads: "tcp_rx base S A out sr nxt q \<Longrightarrow> read_queue inl False False uread room sr (segs q) = Some (Some (d, rn, ys)) \<Longrightarrow>
    drop_free low cur ys = (low', cur', fr, rest) \<Longrightarrow> tcp_rx base S A (out @ d) rn nxt (q\<lparr>segs := rest, curlen := cur'\<rparr>)"

lemma tcp_rx_inv:
  assumes S: "length S < 2 ^ 31" and rx: "tcp_rx base S A out sr nxt q"
  shows "out = take (length out) S \<and> soff base sr = length out \<and> rcv_inv base S (length out) (soff base nxt) (segs q) \<and>
    A \<subseteq> covers base (segs q) \<union> {..<length out} \<and> covers base (segs q) \<subseteq> A \<and> {..<soff base nxt} \<subseteq> A"
  using rx
proof induction
  case (init q)
  then show ?case by (simp add: rcv_inv_def rq_ok_def soff_def)
next
  case (arrive A out sr nxt q seg fr q' rest nxt')
  have a: "rcv_inv base S (length out) (soff base nxt') (segs q')"
    "covers base (segs q') = covers base (segs q) \<union> {slo base seg..<shi base seg}"
    using rcv_inv_arrive [OF S _ arrive(2-5)] arrive.IH by blast+
  have "{..<soff base nxt'} \<subseteq> {..<soff base nxt} \<union> {length out..<soff base nxt'}"
    using arrive.IH by (auto simp: rcv_inv_def)
  also have "\<dots> \<subseteq> A \<union> covers base (segs q')" using arrive.IH a(1) unfolding rcv_inv_def by blast
  finally show ?case using a arrive.IH by auto
next
  case (reads A out sr nxt q inl uread room d rn ys low cur low' cur' fr rest)
  have i: "out = take (length out) S" "soff base sr = length out" "rcv_inv base S (soff base sr) (soff base nxt) (segs q)"
    using reads.IH by auto
  note r = rcv_inv_read [OF S i(3) reads(2,3)]
  have len: "length (out @ d) = soff base rn" using i(2) r by simp
  have c1: "out @ d = take (length (out @ d)) S" using i(1,2) r by (metis length_append take_add)
  have c2: "covers base rest \<subseteq> A"
  proof -
    obtain m where "rest = dropWhile (\<lambda>s. shi base s \<le> m) (segs q)"
      using drop_free_marked read_queue_stream [OF S i(3), of inl uread room] reads(2,3) i(3)
      by (auto simp: rcv_inv_def rq_ok_def split: if_splits) (metis Pair_inject)
    then have "covers base rest \<subseteq> covers base (segs q)" by (auto simp: covers_def dest: set_dropWhileD)
    then show ?thesis using reads.IH by blast
  qed
  have c3: "A \<subseteq> covers base rest \<union> {..<length (out @ d)}" using r i(2) reads.IH by fastforce
  have c4: "rcv_inv base S (length (out @ d)) (soff base nxt) rest" "{..<soff base nxt} \<subseteq> A" using r reads.IH unfolding len by blast+
  have q: "segs (q\<lparr>segs := rest, curlen := cur'\<rparr>) = rest" by simp
  show ?case unfolding q by (intro conjI c1 c2 c3 c4 len [symmetric])
qed

text \<open>
  C2: TCP receives a reliable byte stream. Whatever segments of a stream of less than 2 GB
  arrive, in whatever order, overlapping or repeated, and however the application reads in
  between: the bytes it has read are the first bytes of the stream; \<^verbatim>\<open>rcv_nxt\<close> is the first
  position that has not arrived, also where sequence numbers wrap around; and a further read
  returns all bytes up to there, or as many as it has room for, and nothing only if there
  are none.
\<close>
theorem tcp_receives_stream:
  assumes "length S < 2 ^ 31" and "tcp_rx base S A out sr nxt q"
  shows "out = take (length out) S \<and> soff base nxt \<notin> A \<and> {..<soff base nxt} \<subseteq> A \<and>
    (if length out < soff base nxt
     then \<exists>rn ys. read_queue inl False False uread room sr (segs q) =
       Some (Some (take (min room (soff base nxt - length out)) (drop (length out) S), rn, ys))
     else read_queue inl False False uread room sr (segs q) = Some None)"
proof -
  have i: "out = take (length out) S" "soff base sr = length out" "rcv_inv base S (length out) (soff base nxt) (segs q)"
    "A \<subseteq> covers base (segs q) \<union> {..<length out}" "{..<soff base nxt} \<subseteq> A"
    using tcp_rx_inv [OF assms] by blast+
  have "soff base nxt \<notin> covers base (segs q)" "length out \<le> soff base nxt" using i(3) by (simp_all add: rcv_inv_def)
  then have n: "soff base nxt \<notin> A" using i(4) by auto
  have "if length out < soff base nxt
     then \<exists>rn ys. read_queue inl False False uread room sr (segs q) =
       Some (Some (take (min room (soff base nxt - length out)) (drop (length out) S), rn, ys))
     else read_queue inl False False uread room sr (segs q) = Some None"
    using read_queue_stream [OF assms(1), of base sr "soff base nxt" "segs q" inl uread room] i(2,3) by (auto split: if_splits)
  then show ?thesis using i(1,5) n by blast
qed

text \<open>Two overlapping segments in the wrong order, where the sequence numbers wrap around.\<close>

definition sample_seg :: "u32 \<Rightarrow> u8 list \<Rightarrow> tseg" where
  "sample_seg s d = \<lparr>th_srcport = 1024, th_dstport = 23, th_seq = s, th_ack = 0, th_hdr = 0x50, th_flags = 0x10, th_window = 4096,
     th_chksum = 0, th_urgptr = word_of_nat (length d), th_opts = [], th_data = d, b_info = 0\<rparr>"

lemma sample_rx:
  "\<exists>q. tcp_rx 0xfffffffe [1, 2, 3, 4, 5] ({2..<5} \<union> {0..<3}) [] 0xfffffffe 3 q"
proof -
  let ?q0 = "\<lparr>maxlen = 4096, curlen = 0, segs = []\<rparr>"
  let ?s1 = "sample_seg 0 [3, 4, 5]" and ?s2 = "sample_seg 0xfffffffe [1, 2, 3]"
  have f: "from_stream 0xfffffffe [1, 2, 3, 4, 5] ?s1" "from_stream 0xfffffffe [1, 2, 3, 4, 5] ?s2"
    "slo 0xfffffffe ?s1 = 2" "shi 0xfffffffe ?s1 = 5" "slo 0xfffffffe ?s2 = 0" "shi 0xfffffffe ?s2 = 3"
    by (simp_all add: from_stream_def shi_def slo_def soff_def sample_seg_def)
  have u: "\<not> has (sample_seg s d) TCPF_URG" for s d by (simp add: has_def sample_seg_def)
  have m1: "\<exists>fr rest. rcv_merge 0xfffffffe ?q0 ?s1 = (fr, ?q0\<lparr>segs := [?s1], curlen := 3\<rparr>, rest, 0xfffffffe)"
    by (simp add: rcv_merge_def tcp_addseg_def Let_def SEQLE_def SEQNXT_def sample_seg_def)
  have m2: "\<exists>fr q rest. rcv_merge 0xfffffffe (?q0\<lparr>segs := [?s1], curlen := 3\<rparr>) ?s2 = (fr, q, rest, 3)"
    by (simp add: rcv_merge_def tcp_addseg_def Let_def SEQLE_def SEQLT_def SEQNXT_def sample_seg_def)
  have v: "SEQLT 0xfffffffe (SEQNXT ?s1)" "SEQLT 0xfffffffe (SEQNXT ?s2)" by (simp_all add: SEQLT_def SEQNXT_def sample_seg_def)
  obtain fr rest where 1: "rcv_merge 0xfffffffe ?q0 ?s1 = (fr, ?q0\<lparr>segs := [?s1], curlen := 3\<rparr>, rest, 0xfffffffe)" using m1 by blast
  obtain fr2 q rest2 where 2: "rcv_merge 0xfffffffe (?q0\<lparr>segs := [?s1], curlen := 3\<rparr>) ?s2 = (fr2, q, rest2, 3)" using m2 by blast
  have "tcp_rx 0xfffffffe [1, 2, 3, 4, 5] {} [] 0xfffffffe 0xfffffffe ?q0" by (rule tcp_rx.init) simp
  from tcp_rx.arrive [OF tcp_rx.arrive [OF this f(1) u v(1) 1] f(2) u v(2) 2] show ?thesis using f(3-6) by auto
qed

theorem tcp_receives_stream_witness:
  "\<exists>q. tcp_rx 0xfffffffe [1, 2, 3, 4, 5] ({2..<5} \<union> {0..<3}) [] 0xfffffffe 3 q \<and>
     (\<exists>rn ys. read_queue False False False 0 4 0xfffffffe (segs q) = Some (Some ([1, 2, 3, 4], rn, ys)))"
proof -
  obtain q where q: "tcp_rx 0xfffffffe [1, 2, 3, 4, 5] ({2..<5} \<union> {0..<3}) [] 0xfffffffe 3 q" using sample_rx by blast
  have "soff 0xfffffffe 3 = 5" by (simp add: soff_def)
  then show ?thesis using tcp_receives_stream [OF _ q, of False 0 4] q by auto
qed

end
