(* ===== verification/TcpOut.thy ===== *)
theory TcpOut
  imports Tcp "HOL-Library.Signed_Division"
begin

text \<open>
  The control block of a connection (\<^verbatim>\<open>kernel/tcp.h\<close>), the helpers of \<^verbatim>\<open>kernel/tcputil.c\<close> and the
  sending side of \<^verbatim>\<open>kernel/tcpout.c\<close>: segments are queued, sent as the window of the peer and
  the congestion window allow, sent again when they are not acknowledged, and dropped when
  they are. The state is one connection with the network layer below it.
\<close>

section \<open>Connections\<close>

datatype tcbstate = TCBS_CLOSED | TCBS_LISTEN | TCBS_SYNSENT | TCBS_SYNRCVD | TCBS_ESTABLISHED | TCBS_FINWAIT1
  | TCBS_FINWAIT2 | TCBS_CLOSEWAIT | TCBS_LASTACK | TCBS_CLOSING | TCBS_TIMEWAIT

text \<open>The states are compared as the numbers of \<^verbatim>\<open>tcp.h\<close>.\<close>

primrec tcbs_num :: "tcbstate \<Rightarrow> nat" where
  "tcbs_num TCBS_CLOSED = 0"
| "tcbs_num TCBS_LISTEN = 1"
| "tcbs_num TCBS_SYNSENT = 2"
| "tcbs_num TCBS_SYNRCVD = 3"
| "tcbs_num TCBS_ESTABLISHED = 4"
| "tcbs_num TCBS_FINWAIT1 = 5"
| "tcbs_num TCBS_FINWAIT2 = 6"
| "tcbs_num TCBS_CLOSEWAIT = 7"
| "tcbs_num TCBS_LASTACK = 8"
| "tcbs_num TCBS_CLOSING = 9"
| "tcbs_num TCBS_TIMEWAIT = 10"

lemma tcbs_num_eq [simp]: "tcbs_num a = tcbs_num b \<longleftrightarrow> a = b"
  by (cases a; cases b) simp_all

instantiation tcbstate :: linorder
begin

definition less_eq_tcbstate :: "tcbstate \<Rightarrow> tcbstate \<Rightarrow> bool" where
  "a \<le> b \<longleftrightarrow> tcbs_num a \<le> tcbs_num b"

definition less_tcbstate :: "tcbstate \<Rightarrow> tcbstate \<Rightarrow> bool" where
  "a < b \<longleftrightarrow> tcbs_num a < tcbs_num b"

instance
  by standard (auto simp: less_eq_tcbstate_def less_tcbstate_def)

end

datatype tcbostate = TCBOS_IDLE | TCBOS_RETRANS | TCBOS_PERSIST | TCBOS_XMIT

datatype oevent = TCBOE_SEND | TCBOE_ACKRCVD | TCBOE_WNDOPEN | TCBOE_WNDCLOSE | TCBOE_TIMEOUT | TCBOE_DUPACK

abbreviation TCP_MSS :: u32 where "TCP_MSS \<equiv> 1460"
abbreviation TCP_MSL :: u32 where "TCP_MSL \<equiv> 3000"
abbreviation TCP_MINRETRANS :: u32 where "TCP_MINRETRANS \<equiv> 20"
abbreviation TCP_MAXRETRANS :: u32 where "TCP_MAXRETRANS \<equiv> 10000"
abbreviation TCP_MAXPROBE :: u32 where "TCP_MAXPROBE \<equiv> 3000"
abbreviation TCP_MAXRETRY :: nat where "TCP_MAXRETRY \<equiv> 15"
abbreviation TCP_CONN_TMOUT :: u32 where "TCP_CONN_TMOUT \<equiv> 60000"
abbreviation TCP_DUPTHRESH :: nat where "TCP_DUPTHRESH \<equiv> 3"
abbreviation TCP_DROPTHRESH :: int where "TCP_DROPTHRESH \<equiv> 1"
abbreviation TCBF_PSH :: u16 where "TCBF_PSH \<equiv> 0x01"
abbreviation TCBF_FIN :: u16 where "TCBF_FIN \<equiv> 0x02"
abbreviation TCBF_PASSIVE :: u16 where "TCBF_PASSIVE \<equiv> 0x04"
abbreviation TCBF_DORTT :: u16 where "TCBF_DORTT \<equiv> 0x08"
abbreviation TCBF_NDELAY :: u16 where "TCBF_NDELAY \<equiv> 0x10"
abbreviation TCBF_DELACK :: u16 where "TCBF_DELACK \<equiv> 0x20"
abbreviation TCBF_ACKVALID :: u16 where "TCBF_ACKVALID \<equiv> 0x40"
abbreviation IPPROTO_TCP :: u8 where "IPPROTO_TCP \<equiv> 6"

definition WAKEME :: fn where "WAKEME = 9"
definition DELETEME :: fn where "DELETEME = 10"
definition DODELACK :: fn where "DODELACK = 11"

text \<open>The control block; \<open>t_addr\<close> is its address, the argument of its events.\<close>

record tcb =
  t_addr :: u32
  tstate :: tcbstate
  ostate :: tcbostate
  tflags :: u16
  snd_isn :: u32
  snd_una :: u32
  snd_nxt :: u32
  snd_max :: u32
  snd_wnd :: u32
  snd_cwnd :: u32
  snd_thresh :: u32
  snd_wndseq :: u32
  snd_wndack :: u32
  snd_wndmax :: u32
  snd_ppw :: u16
  snd_mss :: u32
  snd_urg :: u32
  rcv_isn :: u32
  rcv_nxt :: u32
  rcv_wnd :: u32
  rcv_mss :: u32
  rcv_urg :: u32
  seq_psh :: u32
  seq_fin :: u32
  seq_read :: u32
  seq_uread :: u32
  seq_write :: u32
  rttseq :: u32
  rtt :: u32
  rttdev :: u32
  backoff :: u16
  dupacks :: u16
  nretrans :: u16
  retrans_tmo :: u32
  persist_tmo :: u32
  timer_evt :: eid
  delete_evt :: eid
  ack_evt :: eid
  last_recv :: u32
  last_ack :: u32
  artt :: u32
  arttdev :: u32

text \<open>
  A connection: what TCP uses of \<^verbatim>\<open>struct in_data\<close>, with the buffers of its queues as values,
  and the control block. A freed connection has \<open>c_gone\<close>.
\<close>

record conn =
  c_src :: in_sockadr
  c_dst :: in_sockadr
  c_flags :: u16
  c_opts :: ip_options
  c_err :: "errno option"
  rcvq :: tcpq
  sndq :: tcpq
  c_sock :: "tsock option"
  c_tcb :: tcb
  c_gone :: bool

record tcpst =
  tc :: conn
  tnet :: ipstate
  twakes :: "wake list"

abbreviation tb :: "tcpst \<Rightarrow> tcb" where "tb st \<equiv> c_tcb (tc st)"

definition upd_tcb :: "(tcb \<Rightarrow> tcb) \<Rightarrow> tcpst \<Rightarrow> tcpst" where
  "upd_tcb f st = st\<lparr>tc := (tc st)\<lparr>c_tcb := f (c_tcb (tc st))\<rparr>\<rparr>"

definition set_flag :: "u16 \<Rightarrow> tcpst \<Rightarrow> tcpst" where
  "set_flag f = upd_tcb (\<lambda>t. t\<lparr>tflags := tflags t OR f\<rparr>)"

definition clr_flag :: "u16 \<Rightarrow> tcpst \<Rightarrow> tcpst" where
  "clr_flag f = upd_tcb (\<lambda>t. t\<lparr>tflags := tflags t AND NOT f\<rparr>)"

definition tflag :: "u16 \<Rightarrow> tcpst \<Rightarrow> bool" where
  "tflag f st \<longleftrightarrow> tflags (tb st) AND f \<noteq> 0"

definition wakes :: "wake list \<Rightarrow> tcpst \<Rightarrow> tcpst" where
  "wakes ws st = st\<lparr>twakes := twakes st @ ws\<rparr>"

definition free_segs :: "tseg list \<Rightarrow> tcpst \<Rightarrow> tcpst" where
  "free_segs xs st = st\<lparr>tnet := fold (\<lambda>s. release (th_bytes s)) xs (tnet st)\<rparr>"

definition GETTIME :: "tcpst \<Rightarrow> u32" where
  "GETTIME st = hz200 (touts (atimer (larp (tnet st))))"

section \<open>Timers\<close>

definition tcp_event_add :: "ipenv \<Rightarrow> (tcb \<Rightarrow> eid) \<Rightarrow> u32 \<Rightarrow> fn \<Rightarrow> tcpst \<Rightarrow> tcpst option" where
  "tcp_event_add env ev delta f st =
     map_option (\<lambda>tm. st\<lparr>tnet := (tnet st)\<lparr>larp := (larp (tnet st))\<lparr>atimer := tm\<rparr>\<rparr>\<rparr>)
       (event_add (e_call env) (ev (tb st)) delta f (t_addr (tb st)) (atimer (larp (tnet st))))"

definition tcp_event_reset :: "ipenv \<Rightarrow> (tcb \<Rightarrow> eid) \<Rightarrow> u32 \<Rightarrow> tcpst \<Rightarrow> tcpst option" where
  "tcp_event_reset env ev delta st =
     map_option (\<lambda>tm. st\<lparr>tnet := (tnet st)\<lparr>larp := (larp (tnet st))\<lparr>atimer := tm\<rparr>\<rparr>\<rparr>)
       (event_reset (e_call env) (ev (tb st)) delta (atimer (larp (tnet st))))"

definition tcp_event_del :: "(tcb \<Rightarrow> eid) \<Rightarrow> tcpst \<Rightarrow> tcpst" where
  "tcp_event_del ev st =
     st\<lparr>tnet := (tnet st)\<lparr>larp := (larp (tnet st))\<lparr>atimer := event_del (ev (tb st)) (atimer (larp (tnet st)))\<rparr>\<rparr>\<rparr>"

definition tcb_deltimers :: "tcpst \<Rightarrow> tcpst" where
  "tcb_deltimers st = tcp_event_del ack_evt (tcp_event_del delete_evt (tcp_event_del timer_evt st))"

section \<open>Utilities\<close>

definition flush_queues :: "tcpst \<Rightarrow> tcpst" where
  "flush_queues st =
     (free_segs (segs (rcvq (tc st)) @ segs (sndq (tc st))) st)\<lparr>tc := (tc st)\<lparr>rcvq := (rcvq (tc st))\<lparr>segs := [], curlen := 0\<rparr>,
        sndq := (sndq (tc st))\<lparr>segs := [], curlen := 0\<rparr>\<rparr>\<rparr>"

definition tcb_delete :: "tcpst \<Rightarrow> tcpst" where
  "tcb_delete st =
     (let st1 = upd_tcb (\<lambda>t. t\<lparr>tstate := TCBS_CLOSED\<rparr>) st
      in if c_sock (tc st1) \<noteq> None then st1
         else (let st2 = flush_queues (tcb_deltimers st1) in st2\<lparr>tc := (tc st2)\<lparr>c_gone := True\<rparr>\<rparr>))"

definition tcb_wait :: "ipenv \<Rightarrow> tcpst \<Rightarrow> tcpst option" where
  "tcb_wait env st =
     (if tstate (tb st) = TCBS_FINWAIT2 then tcp_event_add env delete_evt TCP_CONN_TMOUT DELETEME st
      else tcp_event_add env delete_evt (2 * TCP_MSL) DELETEME (tcb_deltimers st))"

definition tcb_reset :: "errno \<Rightarrow> tcpst \<Rightarrow> tcpst" where
  "tcb_reset err st =
     (let st1 = upd_tcb (\<lambda>t. t\<lparr>ostate := TCBOS_IDLE\<rparr>) (tcb_deltimers st);
          st2 = flush_queues (st1\<lparr>tc := (tc st1)\<lparr>c_err := Some err\<rparr>\<rparr>)
      in if c_sock (tc st2) = None then st2
         else wakes ((if tstate (tb st2) = TCBS_SYNRCVD \<and> tflag TCBF_PASSIVE st2 then [WakeParent] else []) @
           [WakeRsel, WakeWsel, WakeIO]) st2)"

definition tcb_error :: "errno \<Rightarrow> tcpst \<Rightarrow> tcpst" where
  "tcb_error err st =
     (let st1 = st\<lparr>tc := (tc st)\<lparr>c_err := Some err\<rparr>\<rparr>
      in if c_sock (tc st1) = None then st1 else wakes [WakeRsel, WakeWsel, WakeIO] st1)"

text \<open>The window to advertise.\<close>

definition tcp_rcvwnd :: "bool \<Rightarrow> tcpst \<Rightarrow> u32 \<times> tcpst" where
  "tcp_rcvwnd wnd_update st =
     (let q = rcvq (tc st);
          t = tb st;
          room = maxlen q - curlen q;
          space = (if sint room < sint (rcv_mss t) \<and> sint (room * 4) < sint (maxlen q) then 0 else room)
      in if tstate t \<ge> TCBS_SYNRCVD then
           (let minwnd = rcv_wnd t - rcv_nxt t;
                space' = (if sint space < sint minwnd then minwnd else space)
            in (space', if wnd_update then upd_tcb (\<lambda>t. t\<lparr>rcv_wnd := rcv_nxt t + space'\<rparr>) st else st))
         else (space, st))"

definition tcp_timeout :: "tcb \<Rightarrow> u32" where
  "tcp_timeout t =
     (let tmout = signed_drop_bit 3 (rtt t) + rttdev t in
      if unat tmout > 0x7fffffff div 2 ^ TCP_MAXRETRY then TCP_MAXRETRANS
      else let tmout' = push_bit (unat (backoff t)) tmout in
        if sint tmout' < sint TCP_MINRETRANS then TCP_MINRETRANS
        else if sint tmout' > sint TCP_MAXRETRANS then TCP_MAXRETRANS else tmout')"

definition tcp_atimeout :: "tcb \<Rightarrow> u32" where
  "tcp_atimeout t =
     (let tmout = signed_drop_bit 3 (artt t) + arttdev t in
      if sint tmout < sint TCP_MINRETRANS then TCP_MINRETRANS
      else if sint tmout > sint TCP_MAXRETRANS then TCP_MAXRETRANS else tmout)"

definition canretrans :: "tcpst \<Rightarrow> bool" where
  "canretrans st \<longleftrightarrow> sint (snd_wnd (tb st)) > 0 \<and> segs (sndq (tc st)) \<noteq> [] \<and> SEQLT (snd_una (tb st)) (snd_nxt (tb st)) \<and>
     SEQLT (SEQ1ST (hd (segs (sndq (tc st))))) (snd_nxt (tb st))"

definition tcp_canwrite :: "conn \<Rightarrow> u32" where
  "tcp_canwrite c =
     (if tstate (c_tcb c) \<noteq> TCBS_ESTABLISHED \<and> tstate (c_tcb c) \<noteq> TCBS_CLOSEWAIT then 0
      else let room = maxlen (sndq c) - curlen (sndq c);
               space = (if sint room < sint (snd_mss (c_tcb c)) \<and> sint (2 * snd_mss (c_tcb c)) \<le> sint (maxlen (sndq c)) then 0 else room)
        in if sint space > 0 then space else 0)"

section \<open>Segments\<close>

text \<open>A new segment; \<open>dat\<close> is what the memory behind its header holds.\<close>

definition tcp_mkseg :: "ipenv \<Rightarrow> u8 list \<Rightarrow> tcpst \<Rightarrow> tseg option" where
  "tcp_mkseg env dat st =
     (if \<not> e_bufok env (larp (tnet st)) then None
      else Some \<lparr>th_srcport = sport (c_src (tc st)), th_dstport = sport (c_dst (tc st)), th_seq = snd_nxt (tb st),
        th_ack = rcv_nxt (tb st), th_hdr = 0x50, th_flags = 0, th_window = 0, th_chksum = 0, th_urgptr = 0,
        th_opts = [], th_data = dat, b_info = 0\<rparr>)"

text \<open>The checksum and the call of \<^verbatim>\<open>ip_send\<close>.\<close>

definition tcp_ip_send :: "ipenv \<Rightarrow> tseg \<Rightarrow> tcpst \<Rightarrow> ((errno + unit) \<times> tcpst) option" where
  "tcp_ip_send env s st = do {
     let src = saddr (c_src (tc st));
     let dst = saddr (c_dst (tc st));
     c \<leftarrow> tcp_checksum (th_bytes (s\<lparr>th_chksum := 0\<rparr>)) src dst (word_of_nat (length (th_bytes s)));
     (r, net) \<leftarrow> ip_send env (icmp env) src dst (th_bytes (s\<lparr>th_chksum := c\<rparr>)) IPPROTO_TCP False (Some (c_opts (tc st))) (tnet st);
     Some (r, st\<lparr>tnet := net\<rparr>)
   }"

text \<open>The part of a segment inside the window, with the flags to clear; \<open>None\<close> is a copy of a negative length.\<close>

definition seg_cut :: "tseg \<Rightarrow> u32 \<Rightarrow> u32 \<Rightarrow> (tseg \<times> u8) option" where
  "seg_cut b wnd1st wndnxt =
     (let seq1st = SEQ1ST b;
          seqnxt = seq1st + tcp_seglen b;
          beyond = SEQLT wndnxt seqnxt;
          seqnxt' = (if has b TCPF_FIN then seqnxt - 1 else seqnxt);
          over = (if beyond then sint (seqnxt' - wndnxt) else 0);
          cutfin = (if beyond then TCPF_FIN else 0)
      in if \<not> SEQLT seq1st wnd1st then
           (if over < 0 \<or> over > int (length (th_data b)) then None
            else Some (b\<lparr>th_data := take (length (th_data b) - nat over) (th_data b)\<rparr>, cutfin))
         else (let offs = sint (wnd1st - (if has b TCPF_SYN then seq1st + 1 else seq1st));
                   todo = uint (th_urgptr b) - offs - over
               in if offs < 0 \<or> todo < 0 \<or> offs + todo > int (length (th_data b)) then None
                  else Some (b\<lparr>th_seq := wnd1st, th_data := take (nat todo) (drop (nat offs) (th_data b))\<rparr>, TCPF_SYN OR cutfin)))"

text \<open>The bytes of the next segment that go with the segment on its \<open>n\<close>th transmission, and \<^verbatim>\<open>snd_max\<close>.\<close>

definition seg_extra :: "tcb \<Rightarrow> tseg \<Rightarrow> nat \<Rightarrow> bool \<Rightarrow> tseg list \<Rightarrow> u8 list \<times> u32" where
  "seg_extra t s n cutfin rest =
     (case rest of
        [] \<Rightarrow> ([], snd_max t)
      | b2 # _ \<Rightarrow>
          (let k = min (unat (th_urgptr b2)) n;
               seqnxt = th_seq b2 + word_of_nat k
           in if n > 0 \<and> \<not> cutfin \<and> k > 0 \<and> SEQLE seqnxt (snd_wndack t + snd_wnd t) \<and>
                (th_flags s XOR th_flags b2) AND (TCPF_URG OR TCPF_SYN OR TCPF_FIN) = 0
              then (take k (th_data b2), if SEQLT (snd_max t) seqnxt then seqnxt else snd_max t)
              else ([], snd_max t)))"

text \<open>The urgent pointer: the first urgent segment of the queue from \<open>bs\<close> on.\<close>

definition seg_urg :: "tcb \<Rightarrow> tseg list \<Rightarrow> tseg \<Rightarrow> tseg" where
  "seg_urg t bs s =
     (if SEQGT (snd_urg t) (th_seq s) then
        (case find (\<lambda>b. has b TCPF_URG) bs of
           None \<Rightarrow> s
         | Some b \<Rightarrow> s\<lparr>th_flags := th_flags s OR TCPF_URG, th_urgptr := ucast (SEQ1ST b + ucast (th_urgptr b) - th_seq s)\<rparr>)
      else s)"

text \<open>
  A copy of the first segment of \<open>bs\<close>, the queue from there on, is sent as far as it is in the
  window from \<open>wnd1st\<close> to \<open>wndnxt\<close>. The error code -1 is \<open>EERROR\<close>.
\<close>

definition tcp_sndseg :: "ipenv \<Rightarrow> tseg list \<Rightarrow> nat \<Rightarrow> u32 \<Rightarrow> u32 \<Rightarrow> tcpst \<Rightarrow> ((errno + unit) \<times> tcpst) option" where
  "tcp_sndseg env bs n wnd1st wndnxt st =
     (case bs of
        [] \<Rightarrow> None
      | b # rest \<Rightarrow>
          if \<not> e_bufok env (larp (tnet st)) then Some (Inl ENOMEM, st)
          else if SEQLE wndnxt (SEQ1ST b) \<or> SEQLE (SEQ1ST b + tcp_seglen b) wnd1st then Some (Inl EERROR, st)
          else do {
            (s1, cut) \<leftarrow> seg_cut b wnd1st wndnxt;
            let s2 = s1\<lparr>th_flags := th_flags s1 AND NOT cut\<rparr>;
            if SEQGT (th_seq s2 + tcp_datalen s2) wndnxt then Some (Inl EERROR, st)
            else do {
              let (extra, smax) = seg_extra (tb st) s2 n (cut AND TCPF_FIN \<noteq> 0) rest;
              let st1 = upd_tcb (\<lambda>t. t\<lparr>snd_max := smax\<rparr>) st;
              let (wnd, st2) = tcp_rcvwnd True st1;
              let s3 = s2\<lparr>th_data := th_data s2 @ extra, th_ack := rcv_nxt (tb st2), th_window := ucast wnd, th_urgptr := 0\<rparr>;
              tcp_ip_send env (seg_urg (tb st2) bs s3) (clr_flag TCBF_DELACK st2)
            }
          })"

section \<open>Round trip times and acknowledged data\<close>

definition tcp_rtt :: "tseg \<Rightarrow> tcpst \<Rightarrow> tcpst" where
  "tcp_rtt buf st =
     (let t = tb st;
          seqnxt = SEQ1ST buf + tcp_seglen buf
      in if tflag TCBF_DORTT st \<and> SEQLT (rttseq t) seqnxt then
           (let err = DIFTIME (b_info buf) (GETTIME st) - signed_drop_bit 3 (rtt t);
                aerr = (if sint err < 0 then - err else err);
                t1 = t\<lparr>rtt := rtt t + err, rttdev := rttdev t + (aerr - signed_drop_bit 2 (rttdev t)), backoff := 0, rttseq := seqnxt\<rparr>;
                t2 = (if tflags t1 AND TCBF_ACKVALID = 0 then t1\<lparr>last_ack := GETTIME st, tflags := tflags t1 OR TCBF_ACKVALID\<rparr> else t1)
            in upd_tcb (\<lambda>_. t2) st)
         else st)"

definition tcp_artt :: "tcpst \<Rightarrow> tcpst" where
  "tcp_artt st =
     (let t = tb st in
      if tflag TCBF_DORTT st then
        (let err = DIFTIME (last_ack t) (GETTIME st) - signed_drop_bit 3 (artt t);
             aerr = (if sint err < 0 then - err else err);
             t1 = (if tflag TCBF_ACKVALID st then
                     t\<lparr>artt := artt t + err, arttdev := arttdev t + (aerr - signed_drop_bit 2 (arttdev t))\<rparr> else t)
         in upd_tcb (\<lambda>_. t1\<lparr>last_ack := GETTIME st, tflags := tflags t1 OR TCBF_ACKVALID\<rparr>) st)
      else st)"

text \<open>Every segment that is acknowledged leaves the queue; \<open>None\<close> is a division by zero.\<close>

definition acked :: "u32 \<Rightarrow> tseg \<Rightarrow> bool" where
  "acked una b \<longleftrightarrow> SEQLE (SEQ1ST b + tcp_seglen b) una"

definition tcp_dropdata :: "tcpst \<Rightarrow> (nat \<times> tcpst) option" where
  "tcp_dropdata st =
     (let q = sndq (tc st);
          una = snd_una (tb st);
          gone = takeWhile (acked una) (segs q);
          rest = dropWhile (acked una) (segs q);
          n = length gone;
          cur = (if gone = [] then curlen q else if rest = [] then 0
                 else curlen q - sum_list (map (\<lambda>b. ucast (th_urgptr b)) gone));
          st1 = st\<lparr>tc := (tc st)\<lparr>sndq := q\<lparr>segs := rest, curlen := cur\<rparr>\<rparr>\<rparr>;
          st2 = free_segs gone (fold tcp_rtt gone st1);
          st3 = (if c_sock (tc st2) \<noteq> None \<and> n > 0 \<and> tcp_canwrite (tc st2) \<noteq> 0 then wakes [WakeWsel, WakeIO] st2 else st2)
      in do {
        st4 \<leftarrow> (if n = 0 then Some st3
                else let t = tb (tcp_artt st3) in
                  if sint (snd_cwnd t) \<ge> sint (snd_thresh t) \<and> snd_cwnd t = 0 then None
                  else Some (upd_tcb (\<lambda>t. t\<lparr>nretrans := 0, snd_cwnd := snd_cwnd t + word_of_nat n *
                    (if sint (snd_cwnd t) < sint (snd_thresh t) then snd_mss t
                     else word_of_int (sint (snd_mss t * snd_mss t) sdiv sint (snd_cwnd t)))\<rparr>) (tcp_artt st3)));
        Some (n, if SEQLT (snd_urg (tb st4)) (snd_una (tb st4)) then upd_tcb (\<lambda>t. t\<lparr>snd_urg := snd_una t\<rparr>) st4 else st4)
      })"

section \<open>Sending what the window allows\<close>

definition note_sent :: "u32 \<Rightarrow> tcb \<Rightarrow> tcb" where
  "note_sent nxt t = t\<lparr>snd_nxt := nxt, snd_max := (if SEQLT (snd_max t) nxt then nxt else snd_max t)\<rparr>"

text \<open>
  The loop over the segments from the first that is not sent: the segments with their time
  of sending, how many were sent, the first sequence number, and whether the loop ended
  with the return in its middle.
\<close>

primrec sndhead_loop :: "ipenv \<Rightarrow> u32 \<Rightarrow> nat \<Rightarrow> u32 \<Rightarrow> tseg list \<Rightarrow> tcpst \<Rightarrow> ((tseg list \<times> nat \<times> u32 \<times> bool) \<times> tcpst) option" where
  "sndhead_loop env wndnxt sent rttsq [] st = Some (([], sent, rttsq, False), st)"
| "sndhead_loop env wndnxt sent rttsq (b # bs) st =
     (let seqnxt = SEQ1ST b + tcp_seglen b;
          t = tb st;
          stamp = GETTIME st
      in if \<not> (SEQLE seqnxt wndnxt \<or> (SEQLT (snd_nxt t) wndnxt \<and> sint (2 * (wndnxt - snd_nxt t)) > sint (snd_wndmax t)))
         then Some ((b # bs, sent, rttsq, False), st)
         else do {
           (r, st1) \<leftarrow> tcp_sndseg env (b # bs) 0 (snd_nxt t) wndnxt st;
           case r of
             Inl e \<Rightarrow> do {
               let st2 = (if e \<noteq> ENOMEM then tcb_error e st1 else st1);
               if snd_una (tb st2) = snd_nxt (tb st2) then
                 Some ((b\<lparr>b_info := stamp\<rparr> # bs, 1, rttsq, True), upd_tcb (\<lambda>t. (note_sent seqnxt t)\<lparr>backoff :=
                   (if e = ENOMEM \<and> sint (backoff t) > 0 then backoff t - 1 else backoff t)\<rparr>) st2)
               else Some ((b # bs, sent, rttsq, False), st2)
             }
           | Inr _ \<Rightarrow> do {
               let st2 = upd_tcb (\<lambda>t. note_sent (if SEQLE seqnxt wndnxt then seqnxt else wndnxt) t) st1;
               ((bs', x), st3) \<leftarrow> sndhead_loop env wndnxt (sent + 1) (if sent = 0 then snd_nxt (tb st1) else rttsq) bs st2;
               Some ((b\<lparr>b_info := stamp\<rparr> # bs', x), st3)
             }
         })"

definition tcp_sndhead :: "ipenv \<Rightarrow> tcpst \<Rightarrow> tcpst option" where
  "tcp_sndhead env st =
     (let t = tb st;
          q = segs (sndq (tc st))
      in if SEQGE (snd_nxt t) (seq_write t) then Some st
         else if q = [] then None
         else do {
           let b = last q;
           let r = (if \<not> tflag TCBF_NDELAY st \<and> sint (b_info b) > uint (th_urgptr b) \<and>
                       (SEQLT (snd_una t) (snd_nxt t) \<or> length q > 1) \<and>
                       sint (SEQ1ST b - snd_wndack t) < sint (snd_cwnd t)
                    then SEQ1ST b - snd_wndack t else snd_cwnd t);
           let wndnxt = snd_wndack t + (if sint (snd_wnd t) < sint r then snd_wnd t else r);
           let old = (\<lambda>b. \<not> SEQLT (snd_nxt t) (SEQ1ST b + tcp_seglen b));
           ((bs, sent, rttsq, early), st1) \<leftarrow> sndhead_loop env wndnxt 0 0 (dropWhile old q) st;
           let st2 = st1\<lparr>tc := (tc st1)\<lparr>sndq := (sndq (tc st1))\<lparr>segs := takeWhile old q @ bs\<rparr>\<rparr>\<rparr>;
           Some (if \<not> early \<and> sent > 0 \<and> \<not> tflag TCBF_DORTT st2
                 then set_flag TCBF_DORTT (upd_tcb (\<lambda>t. t\<lparr>rttseq := rttsq\<rparr>) st2) else st2)
         })"

section \<open>Probes and retransmissions\<close>

text \<open>Both may destroy the connection; the first result tells.\<close>

definition tcp_probe :: "ipenv \<Rightarrow> tcpst \<Rightarrow> (bool \<times> tcpst) option" where
  "tcp_probe env st =
     (if sint (DIFTIME (last_recv (tb st)) (GETTIME st)) > sint TCP_CONN_TMOUT then
        Some (True, tcb_delete (upd_tcb (\<lambda>t. t\<lparr>tstate := TCBS_CLOSED\<rparr>) (tcb_reset ETIMEDOUT st)))
      else do {
        st1 \<leftarrow> (case tcp_mkseg env (take 1 (e_junk env)) st of
                   None \<Rightarrow> Some st
                 | Some b \<Rightarrow> do {
                     let (wnd, st1) = tcp_rcvwnd False st;
                     let s1 = b\<lparr>th_flags := TCPF_ACK, th_seq := snd_una (tb st) - 2, th_window := ucast wnd\<rparr>;
                     let s2 = (if SEQGT (snd_urg (tb st)) (snd_una (tb st)) then
                        (case find (\<lambda>b. has b TCPF_URG) (segs (sndq (tc st))) of
                           None \<Rightarrow> s1
                         | Some u \<Rightarrow> s1\<lparr>th_flags := th_flags s1 OR TCPF_URG,
                             th_urgptr := ucast (SEQ1ST u + ucast (th_urgptr u) - th_seq s1)\<rparr>) else s1);
                     map_option snd (tcp_ip_send env s2 st1)
                   });
        let tmo = push_bit 1 (persist_tmo (tb st1));
        let tmo1 = (if sint TCP_MAXPROBE < sint tmo then TCP_MAXPROBE else tmo);
        let tmo2 = (if sint tmo1 < sint TCP_MINRETRANS then TCP_MINRETRANS else tmo1);
        st2 \<leftarrow> tcp_event_add env timer_evt tmo2 WAKEME (upd_tcb (\<lambda>t. t\<lparr>persist_tmo := tmo2\<rparr>) st1);
        Some (False, st2)
      })"

text \<open>The congestion window after a loss; also the answer to a source quench.\<close>

definition shrink_cwnd :: "tcb \<Rightarrow> tcb" where
  "shrink_cwnd t =
     (let th = (if sint (snd_cwnd t) > sint (snd_thresh t) then snd_cwnd t else snd_thresh t);
          half = signed_drop_bit 1 (if sint th < sint (snd_wnd t) then th else snd_wnd t)
      in t\<lparr>snd_thresh := (if sint half < sint (2 * snd_mss t) then 2 * snd_mss t else half), snd_cwnd := snd_mss t\<rparr>)"

definition tcp_retrans :: "ipenv \<Rightarrow> tcpst \<Rightarrow> (bool \<times> tcpst) option" where
  "tcp_retrans env st =
     (let st0 = upd_tcb (\<lambda>t. t\<lparr>nretrans := nretrans t + 1\<rparr>) st in
      if sint (nretrans (tb st0)) > int TCP_MAXRETRY then
        Some (True, tcb_delete (upd_tcb (\<lambda>t. t\<lparr>tstate := TCBS_CLOSED\<rparr>) (tcb_reset ETIMEDOUT st0)))
      else if segs (sndq (tc st0)) = [] then Some (False, upd_tcb (\<lambda>t. t\<lparr>ostate := TCBOS_IDLE\<rparr>) st0)
      else do {
        let st1 = upd_tcb shrink_cwnd st0;
        (r, st2) \<leftarrow> tcp_sndseg env (segs (sndq (tc st1))) (unat (nretrans (tb st1))) (snd_una (tb st1)) (snd_nxt (tb st1)) st1;
        let st3 = (case r of
                     Inl e \<Rightarrow> if e = ENOMEM then st2 else upd_tcb (\<lambda>t. t\<lparr>backoff := backoff t + 1\<rparr>) (tcb_error e st2)
                   | Inr _ \<Rightarrow> upd_tcb (\<lambda>t. t\<lparr>backoff := backoff t + 1\<rparr>) st2);
        let st4 = upd_tcb (\<lambda>t. t\<lparr>retrans_tmo := tcp_timeout t\<rparr>) st3;
        st5 \<leftarrow> tcp_event_add env timer_evt (retrans_tmo (tb st4)) WAKEME st4;
        Some (False, st5)
      })"

section \<open>The output state machine\<close>

text \<open>The time until the first segment of the queue times out.\<close>

definition due_in :: "u32 \<Rightarrow> u32 \<Rightarrow> tcpst \<Rightarrow> u32" where
  "due_in tmout least st =
     (let d = tmout - DIFTIME (b_info (hd (segs (sndq (tc st))))) (GETTIME st)
      in if sint d < sint least then least else d)"

definition to_persist :: "tcpst \<Rightarrow> tcpst" where
  "to_persist st = clr_flag (TCBF_DORTT OR TCBF_ACKVALID) (upd_tcb (\<lambda>t. t\<lparr>ostate := TCBOS_PERSIST\<rparr>) st)"

definition slow_start :: "tcb \<Rightarrow> tcb" where
  "slow_start t =
     t\<lparr>snd_thresh := (if sint (snd_cwnd t) > sint (snd_thresh t) then snd_cwnd t else snd_thresh t), snd_cwnd := snd_mss t\<rparr>"

definition tcbos_idle :: "ipenv \<Rightarrow> oevent \<Rightarrow> tcpst \<Rightarrow> tcpst option" where
  "tcbos_idle env ev st =
     (if ev \<noteq> TCBOE_SEND \<or> SEQGE (snd_nxt (tb st)) (seq_write (tb st)) then Some st
      else do {
        let st1 = (if sint (DIFTIME (last_recv (tb st)) (GETTIME st)) > sint (tcp_timeout (tb st)) then upd_tcb slow_start st else st);
        st2 \<leftarrow> tcp_sndhead env (upd_tcb (\<lambda>t. t\<lparr>last_recv := GETTIME st1\<rparr>) st1);
        let tmout = tcp_timeout (tb st2);
        let st3 = upd_tcb (\<lambda>t. t\<lparr>persist_tmo := tmout, retrans_tmo := tmout\<rparr>) st2;
        if canretrans st3 then
          tcp_event_add env timer_evt (due_in tmout 1 st3) WAKEME (upd_tcb (\<lambda>t. t\<lparr>ostate := TCBOS_XMIT\<rparr>) st3)
        else tcp_event_add env timer_evt tmout WAKEME (to_persist st3)
      })"

text \<open>Sending the head of the queue when there is something new.\<close>

definition send_new :: "ipenv \<Rightarrow> tcpst \<Rightarrow> tcpst option" where
  "send_new env st = (if SEQLT (snd_nxt (tb st)) (seq_write (tb st)) then tcp_sndhead env st else Some st)"

definition xmit_wndclose :: "tcpst \<Rightarrow> tcpst" where
  "xmit_wndclose st = (if canretrans st then st else to_persist (upd_tcb (\<lambda>t. t\<lparr>persist_tmo := retrans_tmo t\<rparr>) st))"

definition tcbos_xmit :: "ipenv \<Rightarrow> oevent \<Rightarrow> tcpst \<Rightarrow> tcpst option" where
  "tcbos_xmit env ev st =
     (case ev of
        TCBOE_SEND \<Rightarrow> send_new env st
      | TCBOE_WNDOPEN \<Rightarrow> map_option xmit_wndclose (send_new env st)
      | TCBOE_WNDCLOSE \<Rightarrow> Some (xmit_wndclose st)
      | TCBOE_ACKRCVD \<Rightarrow> do {
          (n, st1) \<leftarrow> tcp_dropdata st;
          if SEQGE (snd_una (tb st1)) (seq_write (tb st1)) then
            Some (clr_flag TCBF_ACKVALID (upd_tcb (\<lambda>t. t\<lparr>ostate := TCBOS_IDLE\<rparr>) (tcp_event_del timer_evt st1)))
          else do {
            let tmout = tcp_timeout (tb st1);
            let st2 = upd_tcb (\<lambda>t. t\<lparr>retrans_tmo := tmout\<rparr>) st1;
            tcp_event_reset env timer_evt (if canretrans st2 then due_in tmout (tcp_atimeout (tb st2)) st2 else tmout) st2
          }
        }
      | TCBOE_TIMEOUT \<Rightarrow>
          map_option snd (tcp_retrans env (upd_tcb (\<lambda>t. t\<lparr>dupacks := (if sint (dupacks t) \<ge> int TCP_DUPTHRESH
              then word_of_nat (TCP_DUPTHRESH - 1) else dupacks t)\<rparr>)
            (clr_flag (TCBF_DORTT OR TCBF_ACKVALID) (upd_tcb (\<lambda>t. t\<lparr>ostate := TCBOS_RETRANS\<rparr>) st))))
      | TCBOE_DUPACK \<Rightarrow> Some st)"

definition tcbos_retrans :: "ipenv \<Rightarrow> oevent \<Rightarrow> tcpst \<Rightarrow> tcpst option" where
  "tcbos_retrans env ev st =
     (case ev of
        TCBOE_TIMEOUT \<Rightarrow> map_option snd (tcp_retrans env st)
      | TCBOE_WNDCLOSE \<Rightarrow>
          Some (if canretrans st then st
                else upd_tcb (\<lambda>t. t\<lparr>persist_tmo := retrans_tmo t, ostate := TCBOS_PERSIST\<rparr>) st)
      | TCBOE_DUPACK \<Rightarrow>
          (let i = unat (dupacks (tb st));
               bs = drop (i - TCP_DUPTHRESH) (segs (sndq (tc st)))
           in if sint (dupacks (tb st)) \<ge> int TCP_DUPTHRESH \<and> canretrans st \<and> bs \<noteq> [] \<and>
                SEQLE (SEQ1ST (hd bs) + tcp_seglen (hd bs)) (snd_nxt (tb st)) then
                map_option snd (tcp_sndseg env bs (if i = TCP_DUPTHRESH then unat (nretrans (tb st)) else 0)
                  (snd_una (tb st)) (snd_nxt (tb st)) st)
              else Some st)
      | TCBOE_ACKRCVD \<Rightarrow> do {
          (n, st1) \<leftarrow> tcp_dropdata st;
          if SEQGE (snd_una (tb st1)) (seq_write (tb st1)) then
            Some (upd_tcb (\<lambda>t. t\<lparr>ostate := TCBOS_IDLE\<rparr>) (tcp_event_del timer_evt st1))
          else do {
            let st2 = (if n = 1 \<and> segs (sndq (tc st1)) \<noteq> [] \<and>
                           sint (snd_una (tb st1) - SEQ1ST (hd (segs (sndq (tc st1))))) \<ge> TCP_DROPTHRESH
                       then upd_tcb (\<lambda>t. t\<lparr>backoff := 0\<rparr>) st1 else st1);
            if SEQGE (snd_una (tb st2)) (snd_nxt (tb st2)) then do {
              st3 \<leftarrow> send_new env (upd_tcb slow_start st2);
              let st4 = upd_tcb (\<lambda>t. t\<lparr>ostate := TCBOS_XMIT, retrans_tmo := tcp_timeout t\<rparr>) st3;
              tcp_event_reset env timer_evt (retrans_tmo (tb st4)) st4
            }
            else do {
              let tmout = tcp_timeout (tb st2);
              let st3 = upd_tcb (\<lambda>t. t\<lparr>retrans_tmo := tmout\<rparr>) st2;
              tcp_event_reset env timer_evt (if canretrans st3 then due_in tmout 1 st3 else tmout) st3
            }
          }
        }
      | _ \<Rightarrow> Some st)"

definition tcbos_persist :: "ipenv \<Rightarrow> oevent \<Rightarrow> tcpst \<Rightarrow> tcpst option" where
  "tcbos_persist env ev st =
     (case ev of
        TCBOE_TIMEOUT \<Rightarrow>
          if sint (snd_wnd (tb st)) > 0 then do {
            st1 \<leftarrow> tcp_sndhead env (upd_tcb (\<lambda>t. t\<lparr>snd_wndmax := snd_wnd t\<rparr>) st);
            if canretrans st1 then do {
              let st2 = upd_tcb (\<lambda>t. t\<lparr>ostate := TCBOS_XMIT, retrans_tmo := tcp_timeout t\<rparr>) st1;
              tcp_event_add env timer_evt (retrans_tmo (tb st2)) WAKEME st2
            }
            else map_option snd (tcp_probe env (clr_flag (TCBF_DORTT OR TCBF_ACKVALID) st1))
          }
          else map_option snd (tcp_probe env st)
      | TCBOE_ACKRCVD \<Rightarrow> do {
          (n, st1) \<leftarrow> tcp_dropdata st;
          Some (if SEQGE (snd_una (tb st1)) (seq_write (tb st1))
                then upd_tcb (\<lambda>t. t\<lparr>ostate := TCBOS_IDLE\<rparr>) (tcp_event_del timer_evt st1) else st1)
        }
      | TCBOE_WNDOPEN \<Rightarrow> do {
          st1 \<leftarrow> send_new env st;
          if canretrans st1 then do {
            let st2 = upd_tcb (\<lambda>t. t\<lparr>ostate := TCBOS_XMIT, retrans_tmo := tcp_timeout t\<rparr>) st1;
            tcp_event_reset env timer_evt (retrans_tmo (tb st2)) st2
          }
          else Some (clr_flag (TCBF_DORTT OR TCBF_ACKVALID) st1)
        }
      | _ \<Rightarrow> Some st)"

definition TCB_OSTATE :: "ipenv \<Rightarrow> oevent \<Rightarrow> tcpst \<Rightarrow> tcpst option" where
  "TCB_OSTATE env ev st =
     (case ostate (tb st) of
        TCBOS_IDLE \<Rightarrow> tcbos_idle env ev st
      | TCBOS_RETRANS \<Rightarrow> tcbos_retrans env ev st
      | TCBOS_PERSIST \<Rightarrow> tcbos_persist env ev st
      | TCBOS_XMIT \<Rightarrow> tcbos_xmit env ev st)"

section \<open>Output\<close>

text \<open>An acknowledgement without data.\<close>

definition tcp_output_ack :: "ipenv \<Rightarrow> u8 \<Rightarrow> tcpst \<Rightarrow> ((errno + unit) \<times> tcpst) option" where
  "tcp_output_ack env flags st =
     (case tcp_mkseg env [] st of
        None \<Rightarrow> Some (Inl ENOMEM, st)
      | Some b \<Rightarrow>
          (let (wnd, st1) = tcp_rcvwnd True st
           in tcp_ip_send env (b\<lparr>th_flags := TCPF_ACK OR (flags AND TCPF_PSH), th_window := ucast wnd\<rparr>) (clr_flag TCBF_DELACK st1)))"

text \<open>The room in the last segment of the queue if new data may go there.\<close>

definition cancombine :: "u8 \<Rightarrow> tcpst \<Rightarrow> nat" where
  "cancombine flags st =
     (let q = segs (sndq (tc st)) in
      if q \<noteq> [] \<and> SEQLE (snd_max (tb st)) (SEQ1ST (last q)) \<and> (flags XOR th_flags (last q)) AND TCPF_URG = 0 \<and>
        flags AND TCPF_SYN = 0
      then nat (sint (b_info (last q)) - uint (th_urgptr (last q))) else 0)"

text \<open>The new segment at the end of the queue, with the option for the segment size on a \<^verbatim>\<open>SYN\<close>.\<close>

definition enqueue_seg :: "bool \<Rightarrow> u8 \<Rightarrow> nat \<Rightarrow> tseg \<Rightarrow> tcpst \<Rightarrow> tcpst" where
  "enqueue_seg first flags r b st =
     (let syn = first \<and> flags AND TCPF_SYN \<noteq> 0;
          q = sndq (tc st);
          f = flags AND NOT (TCPF_SYN OR TCPF_FIN);
          b1 = b\<lparr>th_flags := f OR (if syn then TCPF_SYN else TCPF_ACK), th_seq := seq_write (tb st), th_urgptr := 0,
                 b_info := snd_mss (tb st) - word_of_nat TCP_MAXRETRY, th_data := [],
                 th_hdr := (if syn then th_hdr b + 0x10 else th_hdr b),
                 th_opts := (if syn then [2, 4] @ bytes16 (ucast (rcv_mss (tb st))) else [])\<rparr>;
          st1 = (if syn then upd_tcb (\<lambda>t. t\<lparr>seq_write := seq_write t + 1\<rparr>) st else st)
      in st1\<lparr>tc := (tc st1)\<lparr>sndq := q\<lparr>segs := segs q @ [b1],
           curlen := (if segs q = [] then word_of_nat r else curlen q + word_of_nat r)\<rparr>\<rparr>\<rparr>)"

text \<open>Data, and the \<^verbatim>\<open>FIN\<close> behind the last of it, go into the last segment of the queue.\<close>

definition fill_seg :: "u8 \<Rightarrow> u8 list \<Rightarrow> bool \<Rightarrow> tcpst \<Rightarrow> tcpst" where
  "fill_seg flags dat done st =
     (let q = sndq (tc st);
          b = last (segs q);
          b1 = (if dat = [] then b
                else b\<lparr>th_data := th_data b @ dat, th_urgptr := th_urgptr b + word_of_nat (length dat), th_flags := th_flags b OR TCPF_PSH\<rparr>);
          fin = done \<and> flags AND TCPF_FIN \<noteq> 0;
          b2 = (if fin then b1\<lparr>th_flags := th_flags b1 OR TCPF_FIN, b_info := ucast (th_urgptr b1)\<rparr> else b1)
      in upd_tcb (\<lambda>t. t\<lparr>seq_write := seq_write t + word_of_nat (length dat) + (if fin then 1 else 0)\<rparr>)
           (st\<lparr>tc := (tc st)\<lparr>sndq := q\<lparr>segs := butlast (segs q) @ [b2]\<rparr>\<rparr>\<rparr>))"

text \<open>
  The loop: it goes on until the data is queued or there is no memory. \<open>None\<close> stands for a
  loop that does not end because a segment has no room.
\<close>

partial_function (option) output_loop :: "ipenv \<Rightarrow> bool \<Rightarrow> u8 \<Rightarrow> u8 list \<Rightarrow> tcpst \<Rightarrow> ((bool \<times> errno + unit) \<times> tcpst) option" where
  "output_loop env first flags dat st =
     (let room = cancombine flags st
      in if room > 0 then
           (let r = min room (length dat);
                q = sndq (tc st);
                st1 = fill_seg flags (take r dat) (r = length dat)
                        (st\<lparr>tc := (tc st)\<lparr>sndq := q\<lparr>curlen := curlen q + word_of_nat r\<rparr>\<rparr>\<rparr>)
            in if r < length dat then output_loop env False flags (drop r dat) st1 else Some (Inr (), st1))
         else case tcp_mkseg env [] st of
           None \<Rightarrow> Some (Inl (first, ENOMEM), st)
         | Some b \<Rightarrow>
             (let r = min (nat (sint (snd_mss (tb st))) - TCP_MAXRETRY) (length dat);
                  st1 = fill_seg flags (take r dat) (r = length dat) (enqueue_seg first flags r b st)
              in if sint (snd_mss (tb st)) < int TCP_MAXRETRY then None
                 else if r < length dat then output_loop env False flags (drop r dat) st1 else Some (Inr (), st1)))"

text \<open>
  \<^verbatim>\<open>tcp_output\<close> on the bytes \<open>dat\<close> of the vector it gets. Urgent data makes it send a probe when
  the window is closed.
\<close>

definition tcp_output :: "ipenv \<Rightarrow> u8 list \<Rightarrow> u8 \<Rightarrow> tcpst \<Rightarrow> ((errno + unit) \<times> tcpst) option" where
  "tcp_output env dat flags st =
     (if dat = [] \<and> flags AND (TCPF_SYN OR TCPF_FIN) = 0 then tcp_output_ack env flags st
      else do {
        (r, st1) \<leftarrow> output_loop env True flags dat st;
        let ret = (case r of Inl (_, e) \<Rightarrow> Inl e | Inr _ \<Rightarrow> Inr ());
        if r = Inl (True, ENOMEM) then Some (Inl ENOMEM, st1)
        else if flags AND TCPF_URG \<noteq> 0 then do {
          let st2 = upd_tcb (\<lambda>t. t\<lparr>snd_urg := seq_write t\<rparr>) st1;
          if ostate (tb st2) = TCBOS_PERSIST then do {
            (dead, st3) \<leftarrow> tcp_probe env (upd_tcb (\<lambda>t. t\<lparr>persist_tmo := tcp_timeout t\<rparr>) (tcp_event_del timer_evt st2));
            if dead then Some (ret, st3) else do { st4 \<leftarrow> TCB_OSTATE env TCBOE_SEND st3; Some (ret, st4) }
          }
          else do { st3 \<leftarrow> TCB_OSTATE env TCBOE_SEND st2; Some (ret, st3) }
        }
        else do { st2 \<leftarrow> TCB_OSTATE env TCBOE_SEND st1; Some (ret, st2) }
      })"

end
