(* ===== verification/Icmp.thy ===== *)
theory Icmp
  imports Ip
begin

text \<open>
  Incoming control messages, \<^verbatim>\<open>kernel/icmp.c\<close>: echo, time, mask and information requests are
  answered, error messages are reported to the protocol they are about, and unreachable and
  redirect messages work on the routes. The sending side is in theory \<open>Ip\<close>.
\<close>

section \<open>Incoming control messages\<close>

text \<open>The handlers get the datagram \<open>p\<close>; the message starts at \<open>4 * IPH_HDRLEN p\<close>.\<close>

definition icmp_msg :: "u8 list \<Rightarrow> u8 list" where
  "icmp_msg p = drop (4 * IPH_HDRLEN p) p"

definition do_unreach :: "u8 list \<Rightarrow> ipstate \<Rightarrow> ipstate option" where
  "do_unreach p st =
     (let m = icmp_msg p in
      if length m < 36 then Some st
      else if m ! 1 = ICMPC_HOSTUR \<or> m ! 1 = ICMPC_NETUR then do {
        (r, st1) \<leftarrow> get_route (iph_daddr (drop 8 m)) st;
        case r of
          None \<Rightarrow> Some st1
        | Some a \<Rightarrow> do {
            rt \<leftarrow> rheap (lroutes st1) a;
            put_route a (st1\<lparr>lroutes := (lroutes st1)\<lparr>rheap := (rheap (lroutes st1))(a \<mapsto>
              rt\<lparr>rt_flags := rt_flags rt OR RTF_REJECT\<rparr>)\<rparr>\<rparr>)
          }
      }
      else Some st)"

text \<open>A route that is looked up for a test only.\<close>

definition route_test :: "(route \<Rightarrow> bool) \<Rightarrow> u32 \<Rightarrow> ipstate \<Rightarrow> (bool \<times> ipstate) option" where
  "route_test P d st = do {
     (r, st1) \<leftarrow> get_route d st;
     case r of
       None \<Rightarrow> Some (False, st1)
     | Some a \<Rightarrow> do { rt \<leftarrow> rheap (lroutes st1) a; st2 \<leftarrow> put_route a st1; Some (P rt, st2) }
   }"

definition add_route :: "ipenv \<Rightarrow> nat \<Rightarrow> u32 \<Rightarrow> u32 \<Rightarrow> u32 \<Rightarrow> u16 \<Rightarrow> ipstate \<Rightarrow> ipstate option" where
  "add_route env nif net msk gway flags st =
     map_option (\<lambda>(_, rts). st\<lparr>lroutes := rts\<rparr>)
       (route_add (e_rtalloc env (lroutes st)) nif net msk gway flags RT_TTL 1 (lroutes st))"

definition do_redir :: "ipenv \<Rightarrow> nat \<Rightarrow> u8 list \<Rightarrow> ipstate \<Rightarrow> ipstate option" where
  "do_redir env nif p st =
     (let m = icmp_msg p; code = m ! 1; gw = pk32 m 4; d = iph_daddr (drop 8 m) in
      if length m < 36 then Some st
      else if code \<noteq> ICMPC_NETRD \<and> code \<noteq> ICMPC_HOSTRD then Some st
      else do {
        (ok1, st1) \<leftarrow> route_test (\<lambda>rt. rt_flags rt AND RTF_GATEWAY = 0) gw st;
        if \<not> ok1 then Some st1
        else do {
          (ok2, st2) \<leftarrow> route_test (\<lambda>rt. rt_flags rt AND RTF_GATEWAY \<noteq> 0 \<and> rt_gway rt = iph_saddr p) d st1;
          if \<not> ok2 then Some st2
          else if code = ICMPC_NETRD then
            add_route env nif d (ip_netmask (netifs st2) d) gw (RTF_DYNAMIC OR RTF_MODIFIED OR RTF_GATEWAY) st2
          else add_route env nif d 0xffffffff gw (RTF_DYNAMIC OR RTF_MODIFIED OR RTF_HOST OR RTF_GATEWAY) st2
        }
      })"

definition do_echo :: "ipenv \<Rightarrow> u8 list \<Rightarrow> ipstate \<Rightarrow> ipstate option" where
  "do_echo env p st =
     (if length (icmp_msg p) < 8 then Some (release p st)
      else icmp env ICMPT_ECHORP 0 (iph_saddr p) p None st)"

definition do_info :: "ipenv \<Rightarrow> u8 list \<Rightarrow> ipstate \<Rightarrow> ipstate option" where
  "do_info env p st =
     (if length (icmp_msg p) < 8 then Some (release p st)
      else icmp env ICMPT_INFORP 0 (iph_saddr p) p None st)"

definition do_time :: "ipenv \<Rightarrow> u8 list \<Rightarrow> ipstate \<Rightarrow> ipstate option" where
  "do_time env p st =
     (let h = 4 * IPH_HDRLEN p in
      if length (icmp_msg p) < 20 then Some (release p st)
      else icmp env ICMPT_TIMERP 0 (iph_saddr p) (put32 (h + 12) (e_time env) (put32 (h + 16) (e_time env) p)) None st)"

definition do_mask :: "ipenv \<Rightarrow> nat \<Rightarrow> u8 list \<Rightarrow> ipstate \<Rightarrow> ipstate option" where
  "do_mask env nif p st =
     (if length (icmp_msg p) < 12 then Some (release p st)
      else do {
        ifa \<leftarrow> nif_addr nif st;
        icmp env ICMPT_MASKRP 0 (iph_saddr p) (put32 (4 * IPH_HDRLEN p + 8) (ia_subnetmask ifa) p) None st
      })"

definition do_erreport :: "ipenv \<Rightarrow> u8 list \<Rightarrow> ipstate \<Rightarrow> ipstate option" where
  "do_erreport env p st =
     (let m = icmp_msg p; b = drop 8 m in
      if length m < 36 \<or> \<not> e_bufok env (larp st) then Some st
      else case find (\<lambda>o'. op_proto o' = iph_proto b) (e_protos env) of
        Some o' \<Rightarrow> op_error o' (m ! 0) (m ! 1) b (iph_saddr b) (iph_daddr b) st
      | None \<Rightarrow> Some (release b st))"

definition icmp_input :: "ipenv \<Rightarrow> nat \<Rightarrow> u8 list \<Rightarrow> u32 \<Rightarrow> u32 \<Rightarrow> ipstate \<Rightarrow> (bool \<times> ipstate) option" where
  "icmp_input env nif p src dst st =
     (let m = icmp_msg p in
      if length p < 4 * IPH_HDRLEN p then None
      else do {
        c \<leftarrow> chksum (if odd (length m) then m @ [0] else m) (icmp_words (length m));
        if c \<noteq> 0 then Some (True, release p st)
        else if m ! 0 = ICMPT_DSTUR then do {
          st1 \<leftarrow> do_unreach p st; st2 \<leftarrow> do_erreport env p st1; Some (False, st2)
        }
        else if m ! 0 \<in> {ICMPT_TIMEX, ICMPT_SRCQ, ICMPT_PARAMP} then map_option (Pair False) (do_erreport env p st)
        else if m ! 0 = ICMPT_REDIR then map_option (Pair False) (do_redir env nif p st)
        else if m ! 0 = ICMPT_ECHORQ then map_option (Pair True) (do_echo env p st)
        else if m ! 0 = ICMPT_TIMERQ then map_option (Pair True) (do_time env p st)
        else if m ! 0 = ICMPT_INFORQ then map_option (Pair True) (do_info env p st)
        else if m ! 0 = ICMPT_MASKRQ then map_option (Pair True) (do_mask env nif p st)
        else Some (False, st)
      })"

definition icmp_error :: "u8 list \<Rightarrow> ipstate \<Rightarrow> ipstate" where
  "icmp_error p st = release p st"

text \<open>The table of error codes: \<open>None\<close> for a read behind its end.\<close>

definition icmp_errno :: "u16 \<Rightarrow> u16 \<Rightarrow> errno option" where
  "icmp_errno type code =
     (let icmp_errors = [ENETUNREACH, EHOSTUNREACH, ENOPROTOOPT, ECONNREFUSED, EOPNOTSUPP, EOPNOTSUPP] in
      if type \<noteq> ucast ICMPT_DSTUR then Some EOPNOTSUPP
      else if unat code > length icmp_errors then Some EINTERNAL
      else if unat code < length icmp_errors then Some (icmp_errors ! unat code) else None)"

definition icmp_ops :: "ipenv \<Rightarrow> ip_ops" where
  "icmp_ops env = \<lparr>op_proto = IPPROTO_ICMP, op_error = (\<lambda>_ _ p _ _ st. Some (icmp_error p st)), op_input = icmp_input env\<rparr>"

section \<open>Echo replies\<close>

lemma icmp_words_even: "n < 2 ^ 15 - 1 \<Longrightarrow> unat (icmp_words n) = (n + 1) div 2"
proof -
  assume n: "n < 2 ^ 15 - 1"
  then have "sint (word_of_nat n :: u16) = int n" by (simp add: signed_of_nat signed_take_bit_int_eq_self)
  moreover have "(int n + 1) div 2 = int ((n + 1) div 2)" by (simp add: zdiv_int)
  ultimately have "icmp_words n = word_of_nat ((n + 1) div 2)" unfolding icmp_words_def by (simp del: of_nat_div)
  then show ?thesis using n by (simp add: unat_of_nat)
qed

definition icmp_valid :: "u8 list \<Rightarrow> bool" where
  "icmp_valid m \<longleftrightarrow> chksum (if odd (length m) then m @ [0] else m) (icmp_words (length m)) = Some 0"

lemma icmp_finish_ok:
  assumes "4 \<le> length m" and "length m < 2 ^ 15 - 1"
  shows "\<exists>c. icmp_finish type code m = Some ([type, code] @ bytes16 c @ drop 4 m) \<and> icmp_valid ([type, code] @ bytes16 c @ drop 4 m)"
proof -
  obtain a b c d q where m: "m = a # b # c # d # q" using assms(1) by (auto simp: numeral_eq_Suc Suc_le_length_iff)
  let ?q = "if odd (length m) then q @ [0] else q"
  have p: "put16 2 w (x # y # z # v # q) = x # y # bytes16 w @ q" for w x y z v
    by (simp add: put16_def bytes16_alt numeral_2_eq_2 numeral_3_eq_3)
  have l: "length ?q = 2 * unat (icmp_words (length m)) - 4" "4 \<le> 2 * unat (icmp_words (length m))"
    unfolding icmp_words_even [OF assms(2)] using m by (auto elim!: oddE)
  have "\<exists>w. chksum ([type, code] @ [0, 0] @ ?q) (icmp_words (length m)) = Some w \<and>
      chksum ([type, code] @ bytes16 w @ ?q) (icmp_words (length m)) = Some 0"
  proof (rule chksum_fill)
    show "length [type, code] + 2 \<le> 2 * unat (icmp_words (length m))" using l(2) by simp
    show "2 * unat (icmp_words (length m)) \<le> length [type, code] + 2 + length ?q" unfolding l(1) using l(2) by simp
  qed simp
  moreover have "bytes16 0 = [0, 0]" by (simp add: bytes16_def)
  ultimately show ?thesis using assms(1) m by (auto simp: icmp_finish_def icmp_valid_def p bytes16_alt Let_def)
qed

text \<open>A request that is not a fragment, came from one host and was sent to this one.\<close>

definition echo_request :: "netif list \<Rightarrow> u8 list \<Rightarrow> bool" where
  "echo_request ifs p \<longleftrightarrow> IP_MINLEN \<le> length p \<and> iph_proto p = IPPROTO_ICMP \<and> iph_fragoff p AND IP_FRAGOFF = 0 \<and>
     8 \<le> length (icmp_msg p) \<and> icmp_msg p ! 0 = ICMPT_ECHORQ \<and>
     \<not> ip_is_brdcst_addr ifs (iph_saddr p) \<and> \<not> ip_is_brdcst_addr ifs (iph_daddr p) \<and> ip_is_local_addr ifs (iph_daddr p)"

lemma icmp_input_echo:
  assumes "echo_request (netifs st) p" and "icmp_valid (icmp_msg p)" and "icmp_finish ICMPT_ECHORP 0 (icmp_msg p) = Some m1"
  shows "icmp_input env nif p src dst st =
    map_option (\<lambda>x. (True, snd x)) (ip_send env (icmp_send 1 env) (iph_daddr p) (iph_saddr p) m1 IPPROTO_ICMP False None st)"
proof -
  note e = assms(1) [unfolded echo_request_def]
  have c: "\<not> length (icmp_msg p) < 8" using e by simp
  then have h: "4 * IPH_HDRLEN p \<le> length p" by (simp add: icmp_msg_def)
  have d: "\<not> icmp_dontsend (netifs st) ICMPT_ECHORP p" using e by (simp add: icmp_dontsend_def)
  have s: "do_send env ICMPT_ECHORP p None st = Some (Some (icmp_msg p), p)" using h by (simp add: do_send_def icmp_msg_def Let_def)
  have i: "icmp env ICMPT_ECHORP 0 (iph_saddr p) p None st =
      map_option snd (ip_send env (icmp_send 1 env) (iph_daddr p) (iph_saddr p) m1 IPPROTO_ICMP False None st)"
    using e d s assms(3) unfolding icmp_def numeral_2_eq_2 icmp_send.simps(2) [of "Suc 0"]
    by (simp add: Let_def release_opt_def map_option_case split: option.split)
  have "icmp_input env nif p src dst st = map_option (Pair True) (do_echo env p st)"
    using e h assms(2) by (simp add: icmp_input_def icmp_valid_def Let_def)
  then show ?thesis unfolding do_echo_def if_not_P [OF c] i
    by (simp add: option.map_comp comp_def case_prod_beta)
qed

text \<open>
  C37: An echo request is answered. A request with a right checksum from a host the router
  knows a way to, over an interface that can send, makes the kernel send one datagram to that
  host: from the address the request was sent to, with a right header checksum, holding an
  echo reply with a right checksum and the identifier, sequence number and data of the
  request. All route references are given back.
\<close>
theorem icmp_echo_reply:
  assumes "echo_request (netifs st) p" and "icmp_valid (icmp_msg p)" and "reaches env (iph_saddr p) a rt n rts st"
    and "routes_inv held (lroutes st)" and "held a < 2 ^ 15 - 2"
    and "IP_MINLEN + length (icmp_msg p) \<le> unat (nif_mtu n)" and "length (icmp_msg p) < 2 ^ 15 - 1"
  shows "\<exists>q st'. icmp_input env nif p src dst st = Some (True, st') \<and> routes_inv held (lroutes st') \<and>
    sent_on (rt_nif rt) (trace (larp st')) = sent_on (rt_nif rt) (trace (larp st)) @ [q] \<and>
    chksum q 10 = Some 0 \<and> unat (iph_length q) = length q \<and> iph_proto q = IPPROTO_ICMP \<and>
    iph_saddr q = iph_daddr p \<and> iph_daddr q = iph_saddr p \<and>
    icmp_msg q ! 0 = ICMPT_ECHORP \<and> icmp_msg q ! 1 = 0 \<and> icmp_valid (icmp_msg q) \<and> drop 4 (icmp_msg q) = drop 4 (icmp_msg p)"
proof -
  note e = assms(1) [unfolded echo_request_def]
  have any: "iph_daddr p \<noteq> INADDR_ANY" using e by (auto simp: ip_is_brdcst_addr_def)
  obtain c m1 where m1: "icmp_finish ICMPT_ECHORP 0 (icmp_msg p) = Some m1" "m1 = [ICMPT_ECHORP, 0] @ bytes16 c @ drop 4 (icmp_msg p)"
    "icmp_valid m1"
    using icmp_finish_ok [of "icmp_msg p" ICMPT_ECHORP 0] e assms(7) by auto
  have "8 \<le> length (icmp_msg p)" using e by blast
  then have l: "length m1 = length (icmp_msg p)" using m1(2) by (simp add: bytes16_alt)
  obtain q st' where q: "ip_send env (icmp_send 1 env) (iph_daddr p) (iph_saddr p) m1 IPPROTO_ICMP False None st = Some (Inr (), st')"
    "routes_inv held (lroutes st')" "sent_on (rt_nif rt) (trace (larp st')) = sent_on (rt_nif rt) (trace (larp st)) @ [q]"
    "unat (iph_length q) = length q" "IPH_HDRLEN q = 5" "chksum q 10 = Some 0" "iph_proto q = IPPROTO_ICMP"
    "iph_saddr q = iph_daddr p" "iph_daddr q = iph_saddr p" "drop IP_MINLEN q = m1"
    using ip_send_short [OF assms(3-5) any, of m1 "icmp_send 1 env" IPPROTO_ICMP False None] l assms(6,7)
    by auto
  have m: "icmp_msg q = m1" using q(5,10) by (simp add: icmp_msg_def)
  have i: "icmp_input env nif p src dst st = Some (True, st')" using icmp_input_echo [OF assms(1,2) m1(1)] q(1) by simp
  have v: "icmp_msg q ! 0 = ICMPT_ECHORP" "icmp_msg q ! 1 = 0" "icmp_valid (icmp_msg q)" "drop 4 (icmp_msg q) = drop 4 (icmp_msg p)"
    unfolding m using m1(3) by (simp_all add: m1(2) bytes16_alt)
  show ?thesis by (intro exI conjI) (rule i q v)+
qed

text \<open>The host 10.0.0.2 pings 10.0.0.1, which has the address on an interface with the net 10.\<close>

definition sample_slip96 :: anetif where
  "sample_slip96 = sample_slip\<lparr>nif_mtu := 96\<rparr>"

definition sample_host :: ipstate where
  "sample_host = sample_ip\<lparr>larp := (larp sample_ip)\<lparr>anifs := [1 \<mapsto> sample_slip96]\<rparr>\<rparr>"

definition sample_ping :: "u8 list" where
  "sample_ping = [0x45, 0, 0, 31, 0, 7, 0, 0, 64, 1, 0x66, 0xd1, 10, 0, 0, 2, 10, 0, 0, 1] @
     [8, 0, 0x96, 0xfc, 0, 1, 0, 2, 0x61, 0, 0]"

lemma sample_ping_msg: "icmp_msg sample_ping = [8, 0, 0x96, 0xfc, 0, 1, 0, 2, 0x61, 0, 0]"
  by (simp add: icmp_msg_def sample_ping_def IPH_HDRLEN_def)

lemma sample_ping_valid: "icmp_valid (icmp_msg sample_ping)"
proof -
  have w: "unat (icmp_words 11) = 6" and l: "length (icmp_msg sample_ping) = 11" by (simp_all add: icmp_words_even sample_ping_msg)
  have "(- 65536 :: u16) = 0" by code_simp
  then show ?thesis unfolding icmp_valid_def l
    using chksum_sum [of "icmp_words 11" "icmp_msg sample_ping @ [0]"] w by (simp add: sample_ping_msg ones_add_def)
qed

lemma sample_ping_request: "echo_request (netifs sample_host) sample_ping"
proof -
  have i: "netifs sample_host = [netif.truncate sample_slip96]"
    by (simp add: netifs_def sample_host_def sample_ip_def List.map_filter_def)
  show ?thesis unfolding echo_request_def sample_ping_msg i
    by (simp add: sample_ping_def iph_proto_def iph_fragoff_def iph_saddr_def iph_daddr_def pk16_def be16_def pk32_def be32_def
        ip_is_brdcst_addr_def ip_is_local_addr_def sample_slip96_def sample_slip_def sample_nif_def netif.truncate_def if_af2ifaddr_def)
qed

lemma sample_ping_route:
  "\<exists>rts rt. reaches sample_env (iph_saddr sample_ping) 7 rt sample_slip96 rts sample_host \<and> rt_nif rt = 1"
proof -
  have s: "iph_saddr sample_ping = 0x0a000002" by (simp add: sample_ping_def iph_saddr_def pk32_def be32_def)
  obtain rts rt where r: "route_get 0x0a000002 routes1 = Some (Some 7, rts)" "rheap rts 7 = Some rt" "rt_nif rt = 1" "rt_flags rt = RTF_UP"
    by (simp add: routes1_def routes0_def route_init_def route_add_def route_alloc_def Let_def route_get_def rt_usable_def
        route_hash_def IN_CLASSA_def)
  have l: "lroutes sample_host = routes1" "anifs (larp sample_host) 1 = Some sample_slip96"
    by (simp_all add: sample_host_def sample_ip_def)
  have c: "ip_chk_addr 0x0a000002 rt sample_slip96 = IPADDR_NONE"
    by (simp add: ip_chk_addr_def r(4) sample_slip96_def sample_slip_def sample_nif_def netif.truncate_def if_af2ifaddr_def IN_CLASSA_def)
  have "link_open sample_env 1 0x0a000002 False sample_host"
    by (simp add: link_open_def sample_env_def link_up_def sample_host_def sample_slip96_def sample_slip_def sample_nif_def if_ready_def)
  then show ?thesis unfolding s reaches_def using r l c by (intro exI [of _ rts] exI [of _ rt]) simp
qed

theorem icmp_echo_reply_witness:
  "\<exists>q st'. icmp_input sample_env 1 sample_ping 0x0a000002 0x0a000001 sample_host = Some (True, st') \<and>
     sent_on 1 (trace (larp st')) = [q] \<and> iph_daddr q = 0x0a000002 \<and> drop 4 (icmp_msg q) = [0, 1, 0, 2, 0x61, 0, 0]"
proof -
  obtain rts rt where r: "reaches sample_env (iph_saddr sample_ping) 7 rt sample_slip96 rts sample_host" "rt_nif rt = 1"
    using sample_ping_route by blast
  have s: "lroutes sample_host = routes1" "trace (larp sample_host) = []" "iph_saddr sample_ping = 0x0a000002"
    "IP_MINLEN + length (icmp_msg sample_ping) \<le> unat (nif_mtu sample_slip96)" "length (icmp_msg sample_ping) < 2 ^ 15 - 1"
    by (simp_all add: sample_host_def sample_ip_def sample_arp_def sample_ping_msg sample_slip96_def)
      (simp add: sample_ping_def iph_saddr_def pk32_def be32_def)
  show ?thesis
    using icmp_echo_reply [OF sample_ping_request sample_ping_valid r(1) _ _ s(4,5), of "\<lambda>_. 0" 1 "0x0a000002" "0x0a000001"]
      routes1_inv s(1-3) r(2) by (auto simp: sample_ping_msg sent_on_def List.map_filter_def)
qed

end
