(* ===== verification/TcpIn.thy ===== *)
theory TcpIn
  imports TcpOut Icmp
begin

text \<open>
  Incoming segments (\<^verbatim>\<open>kernel/tcpin.c\<close>, \<^verbatim>\<open>kernel/tcputil.c\<close>, \<^verbatim>\<open>tcp_input\<close> and \<^verbatim>\<open>tcp_error\<close> of
  \<^verbatim>\<open>kernel/tcp.c\<close>): the checks, the acknowledgments with the window of the peer, the data, urgent
  data, and the state machine of a connection. A segment comes with the addresses \<open>sa\<close> and \<open>da\<close>
  of its datagram.
\<close>

section \<open>Replies\<close>

definition tcp_reply :: "ipenv \<Rightarrow> u32 \<Rightarrow> u32 \<Rightarrow> tseg \<Rightarrow> ip_options option \<Rightarrow> tcpst \<Rightarrow> tcpst option" where
  "tcp_reply env src dst s optp st = do {
     c \<leftarrow> tcp_checksum (th_bytes (s\<lparr>th_chksum := 0\<rparr>)) src dst (word_of_nat TCP_MINLEN);
     (r, net) \<leftarrow> ip_send env (icmp env) src dst (th_bytes (s\<lparr>th_chksum := c\<rparr>)) IPPROTO_TCP False optp (tnet st);
     Some (st\<lparr>tnet := net\<rparr>)
   }"

text \<open>A segment without data and options that answers \<open>s\<close>.\<close>

definition reply_to :: "tseg \<Rightarrow> tseg" where
  "reply_to s = \<lparr>th_srcport = th_dstport s, th_dstport = th_srcport s, th_seq = 0, th_ack = 0, th_hdr = 0x50, th_flags = 0,
     th_window = 0, th_chksum = 0, th_urgptr = 0, th_opts = [], th_data = [], b_info = 0\<rparr>"

definition rst_for :: "tseg \<Rightarrow> tseg" where
  "rst_for s = (reply_to s)\<lparr>th_seq := (if has s TCPF_ACK then th_ack s else 0),
     th_flags := (if has s TCPF_ACK then TCPF_RST else TCPF_RST OR TCPF_ACK), th_ack := th_seq s + tcp_seglen s\<rparr>"

definition tcp_sndrst :: "ipenv \<Rightarrow> u32 \<Rightarrow> u32 \<Rightarrow> tseg \<Rightarrow> tcpst \<Rightarrow> tcpst option" where
  "tcp_sndrst env sa da s st =
     (if has s TCPF_RST \<or> \<not> e_bufok env (larp (tnet st)) then Some st else tcp_reply env da sa (rst_for s) None st)"

definition tcp_sndack :: "ipenv \<Rightarrow> u32 \<Rightarrow> u32 \<Rightarrow> tseg \<Rightarrow> tcpst \<Rightarrow> tcpst option" where
  "tcp_sndack env sa da s st =
     (let t = tb st;
          wndlast = snd_wndack t + snd_wnd t - (if sint (snd_wnd t) > 0 then 1 else 0)
      in if has s TCPF_RST \<or> \<not> e_bufok env (larp (tnet st)) then Some st
         else let (wnd, st1) = tcp_rcvwnd True st
           in tcp_reply env da sa ((reply_to s)\<lparr>th_seq := (if SEQLE (snd_nxt t) wndlast then snd_nxt t else wndlast), th_ack := rcv_nxt t,
                th_flags := TCPF_ACK, th_window := ucast wnd\<rparr>) (Some (c_opts (tc st))) (clr_flag TCBF_DELACK st1))"

section \<open>Checks\<close>

text \<open>
  Is a segment acceptable? The check also takes off a \<^verbatim>\<open>SYN\<close> in front of the window and a \<^verbatim>\<open>FIN\<close>
  behind it.
\<close>

definition tcp_valid :: "tseg \<Rightarrow> tcpst \<Rightarrow> bool \<times> tseg" where
  "tcp_valid s st =
     (let t = tb st; seglen = tcp_seglen s; seq = th_seq s; window = fst (tcp_rcvwnd False st) in
      if tstate t < TCBS_SYNRCVD then (True, s)
      else if sint window > 0 then
        (let wndlast = rcv_nxt t + window;
             seqlast = (if seglen \<noteq> 0 then seq + seglen - 1 else seq + seglen);
             s1 = (if has s TCPF_SYN \<and> SEQLT seq (rcv_nxt t) then s\<lparr>th_flags := th_flags s AND NOT TCPF_SYN, th_seq := th_seq s + 1\<rparr> else s);
             s2 = (if has s1 TCPF_FIN \<and> SEQGE seqlast wndlast then s1\<lparr>th_flags := th_flags s1 AND NOT TCPF_FIN\<rparr> else s1)
         in (SEQLE (rcv_nxt t) seqlast \<and> SEQLT seq wndlast, s2))
      else (seglen = 0 \<and> seq = rcv_nxt t, s))"

text \<open>
  The options: \<open>bs\<close> is the memory behind the header, of which the first \<open>optlen\<close> bytes are
  options. \<open>None\<close> is a loop that does not end, \<open>Some None\<close> a read behind the segment.
\<close>

partial_function (option) opt_scan :: "bool \<Rightarrow> u8 list \<Rightarrow> nat \<Rightarrow> nat \<Rightarrow> u32 \<Rightarrow> u32 option option" where
  "opt_scan syn bs optlen i mss =
     (if i \<ge> optlen then Some (Some mss)
      else if i \<ge> length bs then Some None
      else if bs ! i = 0 then Some (Some mss)
      else if bs ! i = 1 then opt_scan syn bs optlen (i + 1) mss
      else if bs ! i = 2 then
        (if i + 1 \<ge> length bs then Some None
         else if bs ! (i + 1) \<noteq> 4 \<or> \<not> syn then opt_scan syn bs optlen (i + unat (bs ! (i + 1))) mss
         else if i + 3 \<ge> length bs then Some None
         else opt_scan syn bs optlen (i + 4) (push_bit 8 (ucast (bs ! (i + 2))) + ucast (bs ! (i + 3))))
      else Some (Some mss))"

abbreviation TCP_MAXMSS :: u32 where "TCP_MAXMSS \<equiv> 0x2000"

definition tcp_options :: "tseg \<Rightarrow> u32 option option" where
  "tcp_options s = opt_scan (has s TCPF_SYN) (th_opts s @ th_data s) (TCP_HDRLEN s - TCP_MINLEN) 0 TCP_MSS"

text \<open>The segment size for a peer; it may shrink the receive queue.\<close>

definition mss_for :: "route \<Rightarrow> anetif \<Rightarrow> u32 \<Rightarrow> u32" where
  "mss_for rt n maxmss =
     (let m0 = min (nif_mtu n - 20) (maxmss + 20) - 20;
          m1 = (if (sint (rt_metric rt) > 0 \<or> rt_flags rt AND RTF_GATEWAY \<noteq> 0) \<and> sint m0 > sint TCP_MSS then TCP_MSS else m0)
      in if sint m1 < 32 then 32 else m1)"

definition tcp_mss :: "u32 \<Rightarrow> u32 \<Rightarrow> tcpst \<Rightarrow> (u32 \<times> tcpst) option" where
  "tcp_mss faddr maxmss st = do {
     (r, net) \<leftarrow> get_route faddr (tnet st);
     case r of
       None \<Rightarrow> Some (TCP_MSS, st\<lparr>tnet := net\<rparr>)
     | Some a \<Rightarrow> do {
         rt \<leftarrow> rheap (lroutes net) a;
         n \<leftarrow> anifs (larp net) (rt_nif rt);
         let mss = mss_for rt n maxmss;
         let c = tc st;
         let win = word_of_int (sint (nif_maxpackets n)) * mss;
         let c1 = (if sint (nif_maxpackets n) > 0 \<and> sint win < sint (maxlen (rcvq c)) then c\<lparr>rcvq := (rcvq c)\<lparr>maxlen := win\<rparr>\<rparr> else c);
         let mss' = (if sint (2 * mss) > sint (maxlen (sndq c)) then signed_drop_bit 1 (maxlen (sndq c)) else mss);
         net' \<leftarrow> put_route a net;
         Some (mss', st\<lparr>tc := c1, tnet := net'\<rparr>)
       }
   }"

definition tcp_finished :: "tcpst \<Rightarrow> bool" where
  "tcp_finished st \<longleftrightarrow> tflag TCBF_FIN st \<and> SEQLT (seq_fin (tb st)) (rcv_nxt (tb st))"

section \<open>Acknowledgments\<close>

text \<open>
  The window of the peer: \<open>None\<close> in the pair stands for -1, else the event for the output side.
  Outside it stands for the division by a segment size of zero.
\<close>

definition tcp_sndwnd :: "tseg \<Rightarrow> tcpst \<Rightarrow> (oevent option \<times> tcpst) option" where
  "tcp_sndwnd s st =
     (let t = tb st;
          owlast = snd_wndack t + snd_wnd t;
          wlast = th_ack s + ucast (th_window s)
      in if \<not> has s TCPF_ACK \<or> SEQLT (th_seq s) (snd_wndseq t) \<or> th_seq s = snd_wndseq t \<and> SEQLT (th_ack s) (snd_wndack t)
         then Some (None, st)
         else
           (let t1 = (if SEQLT wlast owlast \<and> SEQLT wlast (snd_nxt t) then t\<lparr>snd_nxt := wlast\<rparr> else t);
                t2 = t1\<lparr>snd_wnd := ucast (th_window s), snd_wndseq := th_seq s, snd_wndack := th_ack s\<rparr>;
                ev = (if SEQLE owlast wlast \<and> sint (snd_wnd t2) > 0 then TCBOE_WNDOPEN else TCBOE_WNDCLOSE)
            in if sint (snd_wnd t2) > sint (snd_wndmax t2) then
                 (if snd_mss t = 0 then None
                  else let ppw = word_of_int (sint (snd_wnd t2) sdiv sint (snd_mss t)) :: u16
                    in Some (Some ev, upd_tcb (\<lambda>_. t2\<lparr>snd_wndmax := snd_wnd t2, snd_ppw := (if sint ppw < 2 then 2 else ppw)\<rparr>) st))
               else Some (Some ev, upd_tcb (\<lambda>_. t2) st)))"

text \<open>The first result is false for a segment without an acknowledgment.\<close>

definition tcp_ack :: "ipenv \<Rightarrow> u32 \<Rightarrow> u32 \<Rightarrow> tseg \<Rightarrow> bool \<Rightarrow> tcpst \<Rightarrow> (bool \<times> tcpst) option" where
  "tcp_ack env sa da s update_sndwnd st =
     (if \<not> has s TCPF_ACK then Some (False, st)
      else do {
        let osnd_wnd = snd_wnd (tb st);
        (cmd, st1) \<leftarrow> (if update_sndwnd then tcp_sndwnd s st else Some (None, st));
        let t = tb st1;
        st2 \<leftarrow>
          (if SEQGT (th_ack s) (snd_max t) then
             (if tstate t = TCBS_SYNRCVD then tcp_sndrst env sa da s st1 else tcp_sndack env sa da s st1)
           else if SEQLT (snd_una t) (th_ack s) then
             map_option (upd_tcb (\<lambda>t. t\<lparr>dupacks := 0\<rparr>)) (TCB_OSTATE env TCBOE_ACKRCVD (upd_tcb (\<lambda>t. t\<lparr>snd_una := th_ack s\<rparr>) st1))
           else if SEQLT (th_ack s) (snd_una t) then Some st1
           else if snd_una t = th_ack s \<and> osnd_wnd = ucast (th_window s) \<and> tcp_seglen s = 0 then
             TCB_OSTATE env TCBOE_DUPACK (upd_tcb (\<lambda>t. t\<lparr>dupacks := dupacks t + 1\<rparr>) st1)
           else Some st1);
        st3 \<leftarrow> (case cmd of None \<Rightarrow> Some st2 | Some ev \<Rightarrow> TCB_OSTATE env ev st2);
        Some (True, st3)
      })"

section \<open>Data\<close>

definition ack_now :: "ipenv \<Rightarrow> tcpst \<Rightarrow> tcpst option" where
  "ack_now env st = map_option snd (tcp_output env [] TCPF_ACK st)"

definition so_wake :: "wake list \<Rightarrow> tcpst \<Rightarrow> tcpst" where
  "so_wake ws st = (if c_sock (tc st) = None then st else wakes ws st)"

text \<open>The segment goes to the receive queue: the new end of the data, and whether the acknowledgment can wait.\<close>

definition rcv_enqueue :: "tseg \<Rightarrow> tcpst \<Rightarrow> u32 \<times> bool \<times> tcpst" where
  "rcv_enqueue s st =
     (let nxt0 = rcv_nxt (tb st);
          (fr, q, r, nxt) = rcv_merge nxt0 (rcvq (tc st)) s;
          st1 = free_segs fr (st\<lparr>tc := (tc st)\<lparr>rcvq := q\<rparr>\<rparr>)
      in case r of
           None \<Rightarrow> (nxt0, True, st1)
         | Some _ \<Rightarrow>
             (nxt, nxt0 \<noteq> SEQ1ST s \<or> nxt - nxt0 \<noteq> tcp_datalen s,
              if SEQLT (seq_read (tb st)) nxt then so_wake [WakeRsel, WakeIO] st1 else st1))"

text \<open>Delay an acknowledgment, but not a second one.\<close>

definition tcp_delack :: "ipenv \<Rightarrow> tcpst \<Rightarrow> tcpst option" where
  "tcp_delack env st =
     (if \<not> tflag TCBF_DELACK st then tcp_event_add env ack_evt 1 DODELACK (set_flag TCBF_DELACK st) else ack_now env st)"

definition dodelack :: "ipenv \<Rightarrow> tcpst \<Rightarrow> tcpst option" where
  "dodelack env st = (if tflag TCBF_DELACK st then ack_now env st else Some st)"

definition tcp_rcvdata :: "ipenv \<Rightarrow> tseg \<Rightarrow> tcpst \<Rightarrow> tcpst option" where
  "tcp_rcvdata env s st =
     (let datalen = tcp_datalen s;
          syn = has s TCPF_SYN;
          s1 = s\<lparr>th_urgptr := ucast datalen, th_seq := (if syn then th_seq s + 1 else th_seq s),
                 th_flags := th_flags s AND NOT (TCPF_SYN OR TCPF_PSH OR TCPF_FIN)\<rparr>;
          st1 = (if syn then upd_tcb (\<lambda>t. t\<lparr>rcv_nxt := rcv_nxt t + 1\<rparr>) st else st);
          st2 = (if has s TCPF_FIN then set_flag TCBF_FIN (upd_tcb (\<lambda>t. t\<lparr>seq_fin := th_seq s1 + datalen\<rparr>) st1) else st1);
          st3 = (if has s TCPF_PSH then set_flag TCBF_PSH (upd_tcb (\<lambda>t. t\<lparr>seq_psh := th_seq s1 + datalen\<rparr>) st2) else st2);
          (nxt, acknow, st4) = rcv_enqueue s1 st3;
          fin = tflag TCBF_FIN st4 \<and> seq_fin (tb st4) = nxt;
          st5 = upd_tcb (\<lambda>t. t\<lparr>rcv_nxt := (if fin then nxt + 1 else nxt)\<rparr>) st4
      in if sint datalen > 0 \<or> has s TCPF_FIN then
           (if tstate (tb st5) = TCBS_ESTABLISHED \<and> \<not> (acknow \<or> fin) then tcp_delack env st5 else ack_now env st5)
         else Some st5)"

text \<open>
  Urgent data gets a segment of its own; the rest of the segment is what the next steps see.
  \<open>None\<close> is a copy of a negative length.
\<close>

definition rcvurg_adjust :: "tseg \<Rightarrow> tseg" where
  "rcvurg_adjust s = s\<lparr>th_data := drop (unat (th_urgptr s)) (th_data s), th_flags := th_flags s AND NOT TCPF_URG,
     th_seq := th_seq s + ucast (th_urgptr s)\<rparr>"

definition tcp_rcvurg :: "ipenv \<Rightarrow> tseg \<Rightarrow> tcpst \<Rightarrow> (tseg \<times> tcpst) option" where
  "tcp_rcvurg env s st =
     (let t = tb st;
          s0 = s\<lparr>th_flags := th_flags s AND NOT TCPF_URG\<rparr>;
          urgptr = th_seq s + ucast (th_urgptr s);
          carried = (0 < length (th_data s) \<and> unat (th_urgptr s) \<le> length (th_data s))
      in if \<not> has s TCPF_URG then Some (s, st)
         else if tstate t < TCBS_SYNRCVD \<or> tstate t > TCBS_CLOSEWAIT \<or> has s TCPF_SYN then Some (s0, st)
         else if SEQLE urgptr (rcv_nxt t) then Some (if carried then rcvurg_adjust s else s0, st)
         else
           (let st1 = (if SEQLT (rcv_urg t) urgptr then so_wake [WakeXsel, SendSig] (upd_tcb (\<lambda>t. t\<lparr>rcv_urg := urgptr\<rparr>) st) else st)
            in if \<not> carried then Some (s0, st1)
               else if \<not> e_bufok env (larp (tnet st1)) then Some (rcvurg_adjust s, st1)
               else
                 (let u = s\<lparr>th_flags := TCPF_URG, th_data := take (unat (th_urgptr s)) (th_data s)\<rparr>;
                      (fr, q, r, nxt) = rcv_merge (rcv_nxt t) (rcvq (tc st1)) u;
                      st2 = free_segs fr (st1\<lparr>tc := (tc st1)\<lparr>rcvq := q\<rparr>\<rparr>)
                  in case r of
                       None \<Rightarrow> Some (rcvurg_adjust s, st2)
                     | Some _ \<Rightarrow> do {
                         st3 \<leftarrow> (if SEQLT (rcv_nxt t) nxt then ack_now env (upd_tcb (\<lambda>t. t\<lparr>rcv_nxt := nxt\<rparr>) st2) else Some st2);
                         Some (rcvurg_adjust s, so_wake [WakeXsel, WakeRsel, WakeIO] st3)
                       })))"

section \<open>The states of a connection\<close>

definition set_state :: "tcbstate \<Rightarrow> tcpst \<Rightarrow> tcpst" where
  "set_state s = upd_tcb (\<lambda>t. t\<lparr>tstate := s\<rparr>)"

text \<open>The state of the socket; \<open>None\<close> if there is no socket.\<close>

definition set_so :: "sockstate \<Rightarrow> tcpst \<Rightarrow> tcpst option" where
  "set_so s st = map_option (\<lambda>so. st\<lparr>tc := (tc st)\<lparr>c_sock := Some (so\<lparr>so_state := s\<rparr>)\<rparr>\<rparr>) (c_sock (tc st))"

definition set_dead :: "tcpst \<Rightarrow> tcpst" where
  "set_dead st = st\<lparr>tc := (tc st)\<lparr>c_flags := c_flags (tc st) OR IN_DEAD\<rparr>\<rparr>"

text \<open>\<^verbatim>\<open>so_free\<close> on a closed connection that was never accepted: its queues, its timers and the socket go.\<close>

definition so_free :: "tcpst \<Rightarrow> tcpst" where
  "so_free st =
     (let st1 = wakes [WakeIO, WakeRsel, WakeWsel, WakeXsel] (flush_queues (tcb_deltimers st))
      in st1\<lparr>tc := (tc st1)\<lparr>c_sock := None, c_gone := True\<rparr>\<rparr>)"

definition tcbs_closed :: "ipenv \<Rightarrow> u32 \<Rightarrow> u32 \<Rightarrow> tseg \<Rightarrow> tcpst \<Rightarrow> tcpst option" where
  "tcbs_closed env sa da s st = map_option (free_segs [s]) (tcp_sndrst env sa da s st)"

text \<open>The segment size the peer asked for, and the windows that follow from it.\<close>

definition peer_mss :: "tseg \<Rightarrow> tcpst \<Rightarrow> tcpst option" where
  "peer_mss s st = do {
     r \<leftarrow> tcp_options s;
     m \<leftarrow> r;
     (mss, st1) \<leftarrow> tcp_mss (saddr (c_dst (tc st))) m st;
     Some (upd_tcb (\<lambda>t. t\<lparr>snd_mss := mss, snd_cwnd := mss,
       snd_thresh := (if sint (snd_thresh t) < sint (2 * mss) then 2 * mss else snd_thresh t)\<rparr>) st1)
   }"

definition set_window :: "tseg \<Rightarrow> tcpst \<Rightarrow> tcpst" where
  "set_window s = upd_tcb (\<lambda>t. t\<lparr>snd_wnd := ucast (th_window s), snd_wndseq := th_seq s, snd_wndack := th_ack s\<rparr>)"

definition tcbs_synsent :: "ipenv \<Rightarrow> u32 \<Rightarrow> u32 \<Rightarrow> tseg \<Rightarrow> tcpst \<Rightarrow> tcpst option" where
  "tcbs_synsent env sa da s st =
     (let t = tb st in
      if has s TCPF_ACK \<and> (SEQLE (th_ack s) (snd_isn t) \<or> SEQGT (th_ack s) (snd_max t)) then
        map_option (free_segs [s]) (tcp_sndrst env sa da s st)
      else if has s TCPF_RST then
        (if has s TCPF_ACK then map_option (free_segs [s]) (set_so SS_ISDISCONNECTING (set_state TCBS_CLOSED (tcb_reset ECONNREFUSED st)))
         else Some (free_segs [s] st))
      else if \<not> has s TCPF_SYN then Some (free_segs [s] st)
      else if ip_is_brdcst_addr (netifs (tnet st)) da then Some (free_segs [s] st)
      else do {
        let st1 = upd_tcb (\<lambda>t. t\<lparr>rcv_isn := th_seq s, rcv_nxt := th_seq s, rcv_wnd := th_seq s, rcv_urg := th_seq s,
              seq_read := th_seq s + 1, seq_uread := th_seq s + 1\<rparr>) st;
        (r, st2) \<leftarrow> tcp_ack env sa da s False st1;
        st3 \<leftarrow> (if SEQGT (snd_una (tb st2)) (snd_isn (tb st2)) then
                  map_option (wakes [WakeWsel, WakeIO]) (set_so SS_ISCONNECTED (set_window s (set_state TCBS_ESTABLISHED st2)))
                else Some (set_state TCBS_SYNRCVD st2));
        st4 \<leftarrow> peer_mss s st3;
        st5 \<leftarrow> tcp_rcvdata env s st4;
        ack_now env st5
      })"

text \<open>The end of a connection that was not accepted or established.\<close>

definition synrcvd_abort :: "tcpst \<Rightarrow> tcpst option" where
  "synrcvd_abort st =
     (if tflag TCBF_PASSIVE st then Some (so_free (set_state TCBS_CLOSED st))
      else set_so SS_ISDISCONNECTING (set_state TCBS_CLOSED (tcb_reset ECONNRESET st)))"

definition tcbs_synrcvd :: "ipenv \<Rightarrow> u32 \<Rightarrow> u32 \<Rightarrow> tseg \<Rightarrow> tcpst \<Rightarrow> tcpst option" where
  "tcbs_synrcvd env sa da s st =
     (if has s TCPF_RST then map_option (free_segs [s]) (synrcvd_abort st)
      else if has s TCPF_SYN then do {
        st1 \<leftarrow> tcp_sndrst env sa da s st;
        map_option (free_segs [s]) (synrcvd_abort st1)
      }
      else do {
        (ok, st1) \<leftarrow> tcp_ack env sa da s False st;
        if \<not> ok then Some (free_segs [s] st1)
        else do {
          st2 \<leftarrow> tcp_rcvdata env s (set_window s (set_state TCBS_ESTABLISHED st1));
          st3 \<leftarrow> (if tflag TCBF_PASSIVE st2 then Some (wakes [WakeParent] st2)
                   else map_option (wakes [WakeWsel, WakeIO]) (set_so SS_ISCONNECTED st2));
          if tcp_finished st3 then do {
            st4 \<leftarrow> set_so SS_ISDISCONNECTING (set_state TCBS_CLOSEWAIT st3);
            Some (if tflag TCBF_PASSIVE st4 then st4 else wakes [WakeRsel] st4)
          }
          else Some st3
        }
      })"

definition tcbs_established :: "ipenv \<Rightarrow> u32 \<Rightarrow> u32 \<Rightarrow> tseg \<Rightarrow> tcpst \<Rightarrow> tcpst option" where
  "tcbs_established env sa da s st =
     (if has s TCPF_RST then Some (free_segs [s] (set_state TCBS_CLOSED (tcb_reset ECONNRESET st)))
      else if has s TCPF_SYN then
        map_option (\<lambda>st. free_segs [s] (set_state TCBS_CLOSED (tcb_reset ECONNRESET st))) (tcp_sndrst env sa da s st)
      else do {
        (ok, st1) \<leftarrow> tcp_ack env sa da s True st;
        if \<not> ok then Some (free_segs [s] st1)
        else do {
          st2 \<leftarrow> tcp_rcvdata env s st1;
          Some (if tcp_finished st2 then wakes [WakeRsel, WakeIO] (set_state TCBS_CLOSEWAIT st2) else st2)
        }
      })"

text \<open>A reset, a \<^verbatim>\<open>SYN\<close>, or data nobody will read ends a connection that is closing.\<close>

definition kill_seg :: "tseg \<Rightarrow> tcpst \<Rightarrow> bool" where
  "kill_seg s st \<longleftrightarrow> has s (TCPF_RST OR TCPF_SYN) \<or> c_sock (tc st) = None \<and> tcp_datalen s \<noteq> 0"

definition tcb_kill :: "ipenv \<Rightarrow> u32 \<Rightarrow> u32 \<Rightarrow> tseg \<Rightarrow> tcpst \<Rightarrow> tcpst option" where
  "tcb_kill env sa da s st =
     map_option (\<lambda>st1. tcb_delete (set_state TCBS_CLOSED (free_segs [s] (tcb_reset ECONNRESET st1)))) (tcp_sndrst env sa da s st)"

definition to_timewait :: "ipenv \<Rightarrow> tcpst \<Rightarrow> tcpst option" where
  "to_timewait env st = tcb_wait env (set_dead (set_state TCBS_TIMEWAIT st))"

definition fin_acked :: "tcpst \<Rightarrow> bool" where
  "fin_acked st \<longleftrightarrow> SEQLE (seq_write (tb st)) (snd_una (tb st))"

definition tcbs_finwait1 :: "ipenv \<Rightarrow> u32 \<Rightarrow> u32 \<Rightarrow> tseg \<Rightarrow> tcpst \<Rightarrow> tcpst option" where
  "tcbs_finwait1 env sa da s st =
     (if kill_seg s st then tcb_kill env sa da s st
      else do {
        (ok, st1) \<leftarrow> tcp_ack env sa da s True st;
        if \<not> ok then Some (free_segs [s] st1)
        else do {
          st2 \<leftarrow> tcp_rcvdata env s st1;
          if tcp_finished st2 then
            (if SEQGT (seq_write (tb st2)) (snd_una (tb st2)) then Some (set_state TCBS_CLOSING st2) else to_timewait env st2)
          else if fin_acked st2 then tcb_wait env (set_state TCBS_FINWAIT2 st2)
          else Some st2
        }
      })"

definition tcbs_finwait2 :: "ipenv \<Rightarrow> u32 \<Rightarrow> u32 \<Rightarrow> tseg \<Rightarrow> tcpst \<Rightarrow> tcpst option" where
  "tcbs_finwait2 env sa da s st =
     (if kill_seg s st then
        map_option (\<lambda>st1. tcb_delete (set_state TCBS_CLOSED (tcb_reset ECONNRESET (free_segs [s] st1)))) (tcp_sndrst env sa da s st)
      else do {
        (ok, st1) \<leftarrow> tcp_ack env sa da s False st;
        if \<not> ok then Some (free_segs [s] st1)
        else do {
          st2 \<leftarrow> tcp_rcvdata env s st1;
          if tcp_finished st2 then to_timewait env st2 else Some st2
        }
      })"

definition tcbs_closewait :: "ipenv \<Rightarrow> u32 \<Rightarrow> u32 \<Rightarrow> tseg \<Rightarrow> tcpst \<Rightarrow> tcpst option" where
  "tcbs_closewait env sa da s st =
     (if has s (TCPF_RST OR TCPF_SYN) then tcb_kill env sa da s st
      else map_option (\<lambda>(_, st1). free_segs [s] st1) (tcp_ack env sa da s True st))"

text \<open>Neither of the next two frees the buffer of the segment when the connection goes on.\<close>

definition tcbs_lastack :: "ipenv \<Rightarrow> u32 \<Rightarrow> u32 \<Rightarrow> tseg \<Rightarrow> tcpst \<Rightarrow> tcpst option" where
  "tcbs_lastack env sa da s st =
     (if kill_seg s st then tcb_kill env sa da s st
      else do {
        (_, st1) \<leftarrow> tcp_ack env sa da s False st;
        Some (if fin_acked st1 then tcb_delete (set_dead (set_state TCBS_CLOSED st1)) else st1)
      })"

definition tcbs_closing :: "ipenv \<Rightarrow> u32 \<Rightarrow> u32 \<Rightarrow> tseg \<Rightarrow> tcpst \<Rightarrow> tcpst option" where
  "tcbs_closing env sa da s st =
     (if kill_seg s st then tcb_kill env sa da s st
      else do {
        (_, st1) \<leftarrow> tcp_ack env sa da s False st;
        if fin_acked st1 then to_timewait env st1 else Some st1
      })"

definition tcbs_timewait :: "ipenv \<Rightarrow> u32 \<Rightarrow> u32 \<Rightarrow> tseg \<Rightarrow> tcpst \<Rightarrow> tcpst option" where
  "tcbs_timewait env sa da s st =
     (if kill_seg s st then
        map_option (\<lambda>st1. tcb_delete (set_state TCBS_CLOSED (free_segs [s] st1))) (tcp_sndrst env sa da s st)
      else do {
        (_, st1) \<leftarrow> tcp_ack env sa da s False st;
        st2 \<leftarrow> tcp_rcvdata env s st1;
        tcb_wait env st2
      })"

section \<open>New connections\<close>

text \<open>\<^verbatim>\<open>tcb_alloc\<close>, with the address of the block and of its events.\<close>

definition tcb_alloc :: "u32 \<Rightarrow> eid \<Rightarrow> eid \<Rightarrow> eid \<Rightarrow> tcb" where
  "tcb_alloc a te de ae = \<lparr>t_addr = a, tstate = TCBS_CLOSED, ostate = TCBOS_IDLE, tflags = 0, snd_isn = 0, snd_una = 0, snd_nxt = 0,
     snd_max = 0, snd_wnd = 0, snd_cwnd = TCP_MSS, snd_thresh = 65536, snd_wndseq = 0, snd_wndack = 0, snd_wndmax = 0, snd_ppw = 2,
     snd_mss = TCP_MSS, snd_urg = 0, rcv_isn = 0, rcv_nxt = 0, rcv_wnd = 0, rcv_mss = TCP_MSS, rcv_urg = 0, seq_psh = 0, seq_fin = 0,
     seq_read = 0, seq_uread = 0, seq_write = 0, rttseq = 0, rtt = 0, rttdev = 200, backoff = 0, dupacks = 0, nretrans = 0,
     retrans_tmo = 0, persist_tmo = 0, timer_evt = te, delete_evt = de, ack_evt = ae, last_recv = 0, last_ack = 0,
     artt = 0, arttdev = TCP_MINRETRANS\<rparr>"

text \<open>All sequence numbers of the sending side start at the initial one.\<close>

definition start_isn :: "u32 \<Rightarrow> tcb \<Rightarrow> tcb" where
  "start_isn n t = t\<lparr>snd_isn := n, snd_una := n, snd_wndack := n, snd_nxt := n, snd_max := n, snd_urg := n, seq_write := n, snd_wnd := TCP_MSS\<rparr>"

text \<open>\<^verbatim>\<open>so_connect\<close> without waiting: the server listens and has room for another client.\<close>

definition so_connect_ok :: "bool \<Rightarrow> nat \<Rightarrow> u16 \<Rightarrow> bool" where
  "so_connect_ok acceptcon clients lim \<longleftrightarrow> acceptcon \<and> (if clients = 0 then lim \<noteq> 0 else int clients < sint lim)"

text \<open>What \<^verbatim>\<open>tcbs_listen\<close> finds around the listening socket: the search for a duplicate, memory, a new number, the queue of clients.\<close>

record listener =
  l_dup :: bool
  l_mem :: bool
  l_addr :: u32
  l_evts :: "eid \<times> eid \<times> eid"
  l_isn :: u32
  l_accept :: bool
  l_clients :: nat
  l_backlog :: u16

definition check_syn :: "u32 \<Rightarrow> u32 \<Rightarrow> u32 \<Rightarrow> u16 \<Rightarrow> u16 \<Rightarrow> conn list \<Rightarrow> bool" where
  "check_syn syn sa da spt dpt cs \<longleftrightarrow>
     list_ex (\<lambda>c. saddr (c_src c) = da \<and> sport (c_src c) = dpt \<and> saddr (c_dst c) = sa \<and> sport (c_dst c) = spt \<and>
       c_flags c AND IN_DEAD \<noteq> 0 \<and> rcv_isn (c_tcb c) = syn) cs"

definition passive_conn :: "listener \<Rightarrow> u32 \<Rightarrow> u32 \<Rightarrow> tseg \<Rightarrow> conn \<Rightarrow> conn" where
  "passive_conn L sa da s c =
     (let (te, de, ae) = l_evts L;
          t = start_isn (l_isn L) (tcb_alloc (l_addr L) te de ae)
      in \<lparr>c_src = \<lparr>saddr = da, sport = th_dstport s\<rparr>, c_dst = \<lparr>saddr = sa, sport = th_srcport s\<rparr>,
          c_flags = 3 OR (c_flags c AND 0x1f8), c_opts = def_opts, c_err = None,
          rcvq = \<lparr>maxlen = IN_DEFAULT_RSPACE, curlen = 0, segs = []\<rparr>, sndq = \<lparr>maxlen = IN_DEFAULT_WSPACE, curlen = 0, segs = []\<rparr>,
          c_sock = Some \<lparr>so_state = SS_ISUNCONNECTED, so_cantrcv = False, so_cantsnd = False\<rparr>,
          c_tcb = t\<lparr>tflags := TCBF_PASSIVE, tstate := TCBS_SYNRCVD, rcv_isn := th_seq s, rcv_nxt := th_seq s, rcv_wnd := th_seq s,
            rcv_urg := th_seq s, seq_read := th_seq s + 1, seq_uread := th_seq s + 1\<rparr>,
          c_gone = False\<rparr>)"

text \<open>
  A segment for a listening socket; the first result is the new connection. Without memory
  the program goes on with null pointers, which is \<open>None\<close>.
\<close>

definition tcbs_listen :: "ipenv \<Rightarrow> listener \<Rightarrow> u32 \<Rightarrow> u32 \<Rightarrow> tseg \<Rightarrow> tcpst \<Rightarrow> (conn option \<times> tcpst) option" where
  "tcbs_listen env L sa da s st =
     (if th_flags s AND (TCPF_RST OR TCPF_SYN) \<noteq> TCPF_SYN then Some (None, free_segs [s] st)
      else if has s TCPF_ACK then map_option (\<lambda>st1. (None, free_segs [s] st1)) (tcp_sndrst env sa da s st)
      else if l_dup L \<or> ip_is_brdcst_addr (netifs (tnet st)) da then Some (None, free_segs [s] st)
      else if \<not> l_mem L then None
      else do {
        (mss, st1) \<leftarrow> tcp_mss sa TCP_MAXMSS (st\<lparr>tc := passive_conn L sa da s (tc st)\<rparr>);
        let st2 = upd_tcb (\<lambda>t. t\<lparr>rcv_mss := mss\<rparr>) st1;
        if \<not> so_connect_ok (l_accept L) (l_clients L) (l_backlog L) then do {
          st3 \<leftarrow> tcp_sndrst env sa da s (so_free (set_state TCBS_CLOSED st2));
          Some (None, free_segs [s] (st3\<lparr>tc := tc st\<rparr>))
        }
        else do {
          st3 \<leftarrow> set_so SS_ISCONNECTING st2;
          st4 \<leftarrow> peer_mss s st3;
          st5 \<leftarrow> tcp_rcvdata env s st4;
          (_, st6) \<leftarrow> tcp_output env [] (TCPF_SYN OR TCPF_ACK) st5;
          Some (Some (tc st6), st6\<lparr>tc := tc st\<rparr>)
        }
      })"

section \<open>Input\<close>

text \<open>The table of the state machine. Every other state than \<^verbatim>\<open>LISTEN\<close> leaves the listening sockets alone.\<close>

definition tcb_state :: "ipenv \<Rightarrow> listener \<Rightarrow> u32 \<Rightarrow> u32 \<Rightarrow> tseg \<Rightarrow> tcpst \<Rightarrow> (conn option \<times> tcpst) option" where
  "tcb_state env L sa da s st =
     (case tstate (tb st) of
        TCBS_LISTEN \<Rightarrow> tcbs_listen env L sa da s st
      | TCBS_CLOSED \<Rightarrow> map_option (Pair None) (tcbs_closed env sa da s st)
      | TCBS_SYNSENT \<Rightarrow> map_option (Pair None) (tcbs_synsent env sa da s st)
      | TCBS_SYNRCVD \<Rightarrow> map_option (Pair None) (tcbs_synrcvd env sa da s st)
      | TCBS_ESTABLISHED \<Rightarrow> map_option (Pair None) (tcbs_established env sa da s st)
      | TCBS_FINWAIT1 \<Rightarrow> map_option (Pair None) (tcbs_finwait1 env sa da s st)
      | TCBS_FINWAIT2 \<Rightarrow> map_option (Pair None) (tcbs_finwait2 env sa da s st)
      | TCBS_CLOSEWAIT \<Rightarrow> map_option (Pair None) (tcbs_closewait env sa da s st)
      | TCBS_LASTACK \<Rightarrow> map_option (Pair None) (tcbs_lastack env sa da s st)
      | TCBS_CLOSING \<Rightarrow> map_option (Pair None) (tcbs_closing env sa da s st)
      | TCBS_TIMEWAIT \<Rightarrow> map_option (Pair None) (tcbs_timewait env sa da s st))"

text \<open>The steps for a segment of a connection.\<close>

definition tcp_segment :: "ipenv \<Rightarrow> listener \<Rightarrow> u32 \<Rightarrow> u32 \<Rightarrow> tseg \<Rightarrow> tcpst \<Rightarrow> (conn option \<times> tcpst) option" where
  "tcp_segment env L sa da s st =
     (if tstate (tb st) = TCBS_LISTEN \<and> sa = da \<and> th_srcport s = th_dstport s then Some (None, free_segs [s] st)
      else do {
        (s1, st1) \<leftarrow> tcp_rcvurg env s (upd_tcb (\<lambda>t. t\<lparr>last_recv := GETTIME st\<rparr>) st);
        let (ok, s2) = tcp_valid s1 st1;
        if ok then tcb_state env L sa da s2 st1
        else map_option (\<lambda>st2. (None, free_segs [s2] st2)) (tcp_sndack env sa da s2 st1)
      })"

text \<open>
  \<^verbatim>\<open>tcp_input\<close> on the data of a datagram; \<open>found\<close> tells whether \<^verbatim>\<open>in_data_lookup\<close>, which
  \<^verbatim>\<open>InetData\<close> models, finds this connection for the addresses and ports. The first result is
  false if nobody wants the segment.
\<close>

definition tcp_input :: "ipenv \<Rightarrow> listener \<Rightarrow> (tseg \<Rightarrow> bool) \<Rightarrow> u8 list \<Rightarrow> u32 \<Rightarrow> u32 \<Rightarrow> tcpst \<Rightarrow> (bool \<times> conn option \<times> tcpst) option" where
  "tcp_input env L found m sa da st =
     (if length m < TCP_MINLEN then Some (True, None, st\<lparr>tnet := release m (tnet st)\<rparr>)
      else do {
        c \<leftarrow> tcp_checksum m sa da (word_of_nat (length m));
        if c \<noteq> 0 then Some (True, None, st\<lparr>tnet := release m (tnet st)\<rparr>)
        else do {
          s \<leftarrow> th_parse m;
          if \<not> found s then map_option (\<lambda>st1. (False, None, st1)) (tcp_sndrst env sa da s st)
          else map_option (Pair True) (tcp_segment env L sa da s st)
        }
      })"

text \<open>
  An ICMP error about a segment of this connection, with the type and code as the program
  passes them on.
\<close>

definition tcp_error :: "u16 \<Rightarrow> u16 \<Rightarrow> bool \<Rightarrow> u8 list \<Rightarrow> tcpst \<Rightarrow> (bool \<times> tcpst) option" where
  "tcp_error type code found m st =
     (let drop_buf = (\<lambda>st. st\<lparr>tnet := release m (tnet st)\<rparr>);
          soft = (if c_sock (tc st) = None then Some st
                  else map_option (\<lambda>e. wakes [WakeIO, WakeRsel, WakeWsel] (st\<lparr>tc := (tc st)\<lparr>c_err := Some e\<rparr>\<rparr>)) (icmp_errno type code))
      in if \<not> found then Some (False, drop_buf st)
         else map_option (\<lambda>st1. (True, drop_buf st1))
           (if type = ucast ICMPT_SRCQ then Some (upd_tcb shrink_cwnd st)
            else if type = ucast ICMPT_DSTUR then
              (if 2 \<le> sint code \<and> sint code \<le> 4 then
                 map_option (\<lambda>e. tcb_delete (set_state TCBS_CLOSED (tcb_reset e st))) (icmp_errno type code)
               else soft)
            else if type = ucast ICMPT_TIMEX \<or> type = ucast ICMPT_PARAMP then soft
            else Some st))"

end
