(* ===== verification/TcpSend.thy ===== *)
theory TcpSend
  imports TcpOut Icmp
begin

text \<open>
  What the sending side of TCP (\<^verbatim>\<open>TcpOut\<close>) does: the segments it puts on the wire carry the
  bytes of the stream at their place and stay inside the window of the peer, what the
  application writes is queued as the stream, and what is acknowledged is dropped.
\<close>

section \<open>Segments on the wire\<close>

definition seg_wf :: "tseg \<Rightarrow> bool" where
  "seg_wf s \<longleftrightarrow> TCP_HDRLEN s = TCP_MINLEN + length (th_opts s)"

definition th_front :: "tseg \<Rightarrow> u8 list" where
  "th_front s = bytes16 (th_srcport s) @ bytes16 (th_dstport s) @ addr_bytes (th_seq s) @ addr_bytes (th_ack s) @
     [th_hdr s, th_flags s] @ bytes16 (th_window s)"

lemma th_bytes_split: "th_bytes s = th_front s @ bytes16 (th_chksum s) @ (bytes16 (th_urgptr s) @ th_opts s @ th_data s)"
  by (simp add: th_bytes_def th_front_def)

lemma bytes_length [simp]: "length (bytes16 w) = 2" "length (addr_bytes a) = 4"
  by (simp_all add: bytes16_alt addr_bytes_def)

lemma th_front_simps [simp]:
  "length (th_front s) = 16" "th_front (s\<lparr>th_chksum := c\<rparr>) = th_front s"
  by (simp_all add: th_front_def)

lemma length_th_bytes: "length (th_bytes s) = TCP_MINLEN + length (th_opts s) + length (th_data s)"
  by (simp add: th_bytes_split)

lemma pk16_bytes: "pk16 (xs @ bytes16 w @ ys) (length xs) = w"
  by (simp add: pk16_def bytes16_alt nth_append be16_bytes)

text \<open>The bytes of a segment are parsed into the segment.\<close>

lemma th_parse_bytes:
  assumes "seg_wf s"
  shows "th_parse (th_bytes s) = Some (s\<lparr>b_info := 0\<rparr>)"
proof -
  let ?b = "th_bytes s"
  have l: "length ?b = TCP_MINLEN + length (th_opts s) + length (th_data s)" by (rule length_th_bytes)
  have h: "?b ! 12 = th_hdr s" "?b ! 13 = th_flags s" by (simp_all add: th_bytes_def bytes16_alt addr_bytes_def)
  have hl: "4 * unat (drop_bit 4 (th_hdr s)) = TCP_MINLEN + length (th_opts s)" using assms by (simp add: seg_wf_def TCP_HDRLEN_def)
  have p16: "pk16 ?b i = w" if "?b = xs @ bytes16 w @ ys" "length xs = i" for i w xs ys
    using pk16_bytes [of xs w ys] that by simp
  have p32: "pk32 ?b i = w" if "?b = xs @ addr_bytes w @ ys" "length xs = i" for i w xs ys
    using pk32_addr [of xs w ys] that by simp
  have f: "pk16 ?b 0 = th_srcport s" "pk16 ?b 2 = th_dstport s" "pk32 ?b 4 = th_seq s" "pk32 ?b 8 = th_ack s"
    "pk16 ?b 14 = th_window s" "pk16 ?b 16 = th_chksum s" "pk16 ?b 18 = th_urgptr s"
    by (rule p16 [where xs = "[]"] p16 [where xs = "bytes16 (th_srcport s)"]
      p32 [where xs = "bytes16 (th_srcport s) @ bytes16 (th_dstport s)"]
      p32 [where xs = "bytes16 (th_srcport s) @ bytes16 (th_dstport s) @ addr_bytes (th_seq s)"]
      p16 [where xs = "bytes16 (th_srcport s) @ bytes16 (th_dstport s) @ addr_bytes (th_seq s) @ addr_bytes (th_ack s) @ [th_hdr s, th_flags s]"]
      p16 [where xs = "th_front s"] p16 [where xs = "th_front s @ bytes16 (th_chksum s)"];
      simp add: th_bytes_def th_front_def)+
  have d: "drop TCP_MINLEN ?b = th_opts s @ th_data s" by (simp add: th_bytes_split)
  have d2: "drop (TCP_MINLEN + length (th_opts s)) ?b = th_data s"
    using d by (metis add.commute append_eq_conv_conj drop_drop)
  show ?thesis unfolding th_parse_def Let_def h f hl d d2 using l by simp
qed

lemma tcp_checksum_fill:
  assumes "even (length a)" and "length a + 2 + length q < 65535" and n: "n = word_of_nat (length a + 2 + length q)"
  shows "\<exists>c. tcp_checksum (a @ [0, 0] @ q) src dst n = Some c \<and> tcp_checksum (a @ bytes16 c @ q) src dst n = Some 0"
proof -
  let ?h = "pseudo_header 6 src dst n"
  have u16: "unat (word_of_nat m :: u16) = m" if "m < 65536" for m using that by (simp add: unat_of_nat)
  have u: "unat n = length a + 2 + length q" unfolding n by (rule u16) (use assms(2) in simp)
  have s: "tcp_checksum (a @ w @ q) src dst n = Some (NOT (word_of_nat (ones_sum 0 (?h @ a @ w @ q))))" if "length w = 2" for w
    using dgram_sum [of n "a @ w @ q" 6 src dst] u assms(2) that by (simp add: tcp_checksum_def)
  define c :: u16 where "c = NOT (word_of_nat (ones_sum 0 ((?h @ a) @ [0, 0] @ q)))"
  have e: "even (length (?h @ a))" using assms(1) by (simp add: pseudo_header_def bytes32_def)
  have "NOT (word_of_nat (ones_sum 0 ((?h @ a) @ bytes16 c @ q)) :: u16) = 0" unfolding ones_sum_fill [OF e c_def] by simp
  then have "tcp_checksum (a @ bytes16 c @ q) src dst n = Some 0" using s [of "bytes16 c"] by simp
  moreover have "tcp_checksum (a @ [0, 0] @ q) src dst n = Some c" using s [of "[0, 0]"] by (simp add: c_def)
  ultimately show ?thesis by blast
qed

text \<open>
  The peer of a connection can be reached over an interface; and a datagram that carries a
  segment to it, with the right checksums.
\<close>

definition peer_open :: "ipenv \<Rightarrow> nat \<Rightarrow> anetif \<Rightarrow> tcpst \<Rightarrow> bool" where
  "peer_open env i n st \<longleftrightarrow> reachable env (saddr (c_dst (tc st))) i n (tnet st) \<and> saddr (c_src (tc st)) \<noteq> INADDR_ANY"

definition carries :: "in_sockadr \<Rightarrow> in_sockadr \<Rightarrow> u8 list \<Rightarrow> tseg \<Rightarrow> bool" where
  "carries src dst p s \<longleftrightarrow> iph_saddr p = saddr src \<and> iph_daddr p = saddr dst \<and> iph_proto p = IPPROTO_TCP \<and>
     chksum p 10 = Some 0 \<and> th_parse (drop IP_MINLEN p) = Some s \<and>
     tcp_checksum (drop IP_MINLEN p) (saddr src) (saddr dst) (word_of_nat (length (drop IP_MINLEN p))) = Some 0"

abbreviation tcp_sent :: "nat \<Rightarrow> tcpst \<Rightarrow> u8 list list" where
  "tcp_sent i st \<equiv> sent_on i (trace (larp (tnet st)))"

text \<open>A segment that fits the interface leaves it as one datagram that the peer accepts.\<close>

lemma tcp_ip_send_wire:
  assumes o: "peer_open env i n st" and wf: "seg_wf s"
    and l: "IP_MINLEN + length (th_bytes s) \<le> unat (nif_mtu n)" "IP_MINLEN + length (th_bytes s) < 65535"
  shows "\<exists>p c net. tcp_ip_send env s st = Some (Inr (), st\<lparr>tnet := net\<rparr>) \<and> peer_open env i n (st\<lparr>tnet := net\<rparr>) \<and>
    tcp_sent i (st\<lparr>tnet := net\<rparr>) = tcp_sent i st @ [p] \<and> carries (c_src (tc st)) (c_dst (tc st)) p (s\<lparr>th_chksum := c, b_info := 0\<rparr>)"
proof -
  let ?src = "saddr (c_src (tc st))" and ?dst = "saddr (c_dst (tc st))"
  let ?q = "bytes16 (th_urgptr s) @ th_opts s @ th_data s"
  have len: "length (th_bytes s) = length (th_front s) + 2 + length ?q" by (simp add: length_th_bytes)
  have z: "bytes16 0 = [0, 0]" by (simp add: bytes16_def)
  obtain c where c: "tcp_checksum (th_bytes (s\<lparr>th_chksum := 0\<rparr>)) ?src ?dst (word_of_nat (length (th_bytes s))) = Some c"
    "tcp_checksum (th_bytes (s\<lparr>th_chksum := c\<rparr>)) ?src ?dst (word_of_nat (length (th_bytes s))) = Some 0"
    using tcp_checksum_fill [of "th_front s" ?q "word_of_nat (length (th_bytes s))" ?src ?dst] len l(2)
    by (auto simp: th_bytes_split z)
  let ?b = "th_bytes (s\<lparr>th_chksum := c\<rparr>)"
  have lb: "length ?b = length (th_bytes s)" by (simp add: length_th_bytes)
  obtain p net where p: "ip_send env (icmp env) ?src ?dst ?b IPPROTO_TCP False (Some (c_opts (tc st))) (tnet st) = Some (Inr (), net)"
    "reachable env ?dst i n net" "sent_on i (trace (larp net)) = sent_on i (trace (larp (tnet st))) @ [p]"
    "chksum p 10 = Some 0" "iph_proto p = IPPROTO_TCP" "iph_saddr p = ?src" "iph_daddr p = ?dst" "drop IP_MINLEN p = ?b"
    using ip_send_reachable [of env ?dst i n "tnet st" ?src ?b "icmp env" IPPROTO_TCP False "Some (c_opts (tc st))"] o l lb
    by (auto simp: peer_open_def)
  have "tcp_ip_send env s st = Some (Inr (), st\<lparr>tnet := net\<rparr>)" using c(1) p(1) by (simp add: tcp_ip_send_def Let_def)
  moreover have "th_parse ?b = Some (s\<lparr>th_chksum := c, b_info := 0\<rparr>)"
    using th_parse_bytes [of "s\<lparr>th_chksum := c\<rparr>"] wf by (simp add: seg_wf_def TCP_HDRLEN_def)
  ultimately show ?thesis using p c(2) lb o
    by (intro exI [of _ p] exI [of _ c] exI [of _ net]) (simp add: carries_def peer_open_def)
qed

section \<open>The part of a segment inside the window\<close>

definition data_seg :: "tseg \<Rightarrow> bool" where
  "data_seg s \<longleftrightarrow> \<not> has s TCPF_SYN \<and> \<not> has s TCPF_FIN"

lemma data_seg_next:
  assumes "from_stream base S b" and "data_seg b"
  shows "SEQ1ST b + tcp_seglen b = SEQNXT b"
proof -
  have "tcp_datalen b = ucast (th_urgptr b)" using assms(1) unfolding tcp_datalen_def from_stream_def by (metis of_nat_unat)
  then show ?thesis using assms(2) by (simp add: tcp_seglen_def data_seg_def SEQNXT_def)
qed

lemma seg_cut_stream:
  assumes S: "length S < 2 ^ 31" and b: "from_stream base S b" "data_seg b"
    and w: "soff base w1 < shi base b" "slo base b < soff base wn" "soff base w1 < soff base wn" "soff base wn < 2 ^ 31"
  defines "lo \<equiv> max (slo base b) (soff base w1)" and "hi \<equiv> min (shi base b) (soff base wn)"
  shows "\<exists>s cut. seg_cut b w1 wn = Some (s, cut) \<and> soff base (th_seq s) = lo \<and> th_data s = take (hi - lo) (drop lo S) \<and>
    th_flags s = th_flags b \<and> th_hdr s = th_hdr b \<and> th_opts s = th_opts b \<and> cut AND NOT (TCPF_SYN OR TCPF_FIN) = 0 \<and>
    (cut AND TCPF_FIN \<noteq> 0 \<longleftrightarrow> soff base wn < shi base b)"
proof -
  note f = from_stream_bounds [OF S b(1)]
  have nx: "SEQ1ST b + tcp_seglen b = SEQNXT b" by (rule data_seg_next [OF b])
  have h: "shi base b \<le> length S" "length (th_data b) = unat (th_urgptr b)" "shi base b = slo base b + unat (th_urgptr b)"
    "th_data b = take (unat (th_urgptr b)) (drop (slo base b) S)" using b(1) by (auto simp: from_stream_def shi_def)
  have lt: "slo base b < 2 ^ 31" "soff base w1 < 2 ^ 31" using f(3,4) w by simp_all
  have beyond: "SEQLT wn (SEQNXT b) \<longleftrightarrow> soff base wn < shi base b" using seq_cmp(1) [of base wn "SEQNXT b"] w(4) f by simp
  have before: "SEQLT (th_seq b) w1 \<longleftrightarrow> slo base b < soff base w1" using seq_cmp(1) [of base "th_seq b" w1] lt f by simp
  have over: "(if SEQLT wn (SEQNXT b) then sint (SEQNXT b - wn) else 0) = int (shi base b - hi)"
    using sint_soff [of base "SEQNXT b" wn] f w(4) beyond by (auto simp: hi_def)
  have fl: "\<not> has b TCPF_FIN" "\<not> has b TCPF_SYN" using b(2) by (simp_all add: data_seg_def)
  let ?cf = "if SEQLT wn (SEQNXT b) then TCPF_FIN else 0 :: u8"
  have cf: "?cf AND TCPF_FIN \<noteq> 0 \<longleftrightarrow> soff base wn < shi base b" "(TCPF_SYN OR ?cf) AND TCPF_FIN \<noteq> 0 \<longleftrightarrow> soff base wn < shi base b"
    using beyond by auto
  show ?thesis
  proof (cases "slo base b < soff base w1")
    case False
    have d: "take (length (th_data b) - (shi base b - hi)) (th_data b) = take (hi - lo) (drop lo S)"
      using False w h by (simp add: lo_def hi_def min_def max_def)
    have "seg_cut b w1 wn = Some (b\<lparr>th_data := take (length (th_data b) - (shi base b - hi)) (th_data b)\<rparr>, ?cf)"
    proof -
      have "shi base b - hi \<le> length (th_data b)" using False w h(2,3) by (auto simp: hi_def)
      then show ?thesis using False before over fl unfolding seg_cut_def Let_def nx by (cases "SEQLT wn (SEQNXT b)") simp_all
    qed
    then show ?thesis using d cf False f(1) by (auto simp: lo_def max_def)
  next
    case True
    define x y where "x = soff base w1 - slo base b" and "y = shi base b - hi"
    have offs: "sint (w1 - th_seq b) = int x" using sint_soff [of base w1 "th_seq b"] lt f True by (simp add: x_def)
    have d: "take (unat (th_urgptr b) - x - y) (drop x (th_data b)) = take (hi - lo) (drop lo S)"
      using True w h(3,4) by (simp add: x_def y_def lo_def hi_def drop_take min_def max_def)
    have xy: "x + y \<le> unat (th_urgptr b)" using True w h(3) by (auto simp: x_def y_def hi_def)
    have "seg_cut b w1 wn = Some (b\<lparr>th_seq := w1, th_data := take (unat (th_urgptr b) - x - y) (drop x (th_data b))\<rparr>, TCPF_SYN OR ?cf)"
    proof -
      have i: "int x + int y \<le> uint (th_urgptr b)" using xy by (metis of_nat_add of_nat_le_iff of_nat_unat)
      have n: "nat (uint (th_urgptr b) - int x - int y) = unat (th_urgptr b) - (x + y)" using xy i by (simp add: nat_eq_iff of_nat_diff)
      have l: "int (length (th_data b)) = uint (th_urgptr b)" using h(2) by simp
      show ?thesis
        using True before fl i n over unfolding seg_cut_def Let_def nx y_def [symmetric]
        by (cases "SEQLT wn (SEQNXT b)") (simp_all add: offs l)
    qed
    then show ?thesis using d cf True by (auto simp: lo_def max_def)
  qed
qed

section \<open>Sending one segment\<close>

lemma stream_join: "lo \<le> hi \<Longrightarrow> take (hi - lo) (drop lo S) @ take k (drop hi S) = take (hi + k - lo) (drop lo S)"
  using take_add [of "hi - lo" k "drop lo S"] by simp

text \<open>The extra bytes are the ones behind the segment.\<close>

lemma seg_extra_stream:
  assumes S: "length S < 2 ^ 31" and r: "rest \<noteq> [] \<Longrightarrow> from_stream base S (hd rest) \<and> slo base (hd rest) = h"
    and w: "soff base (snd_wndack t + snd_wnd t) < 2 ^ 31" and e: "seg_extra t s n cf rest = (e, m)"
  shows "\<exists>k. k \<le> n \<and> e = take k (drop h S) \<and> length e = k \<and> (k > 0 \<longrightarrow> \<not> cf \<and> h + k \<le> soff base (snd_wndack t + snd_wnd t))"
proof (cases "e = []")
  case False
  then obtain b2 ys where rest: "rest = b2 # ys" using e by (cases rest) (auto simp: seg_extra_def)
  define k where "k = min (unat (th_urgptr b2)) n"
  have b: "from_stream base S b2" "slo base b2 = h" using r rest by simp_all
  have e': "e = take k (th_data b2)" "\<not> cf" "SEQLE (th_seq b2 + word_of_nat k) (snd_wndack t + snd_wnd t)"
    using e False unfolding rest by (auto simp: seg_extra_def Let_def k_def split: if_splits)
  note f = from_stream_bounds [OF S b(1)]
  have k: "k \<le> n" "k \<le> unat (th_urgptr b2)" by (simp_all add: k_def)
  have "soff base (th_seq b2 + word_of_nat k) = h + k" using soff_add [of base "th_seq b2" k] f k b(2) by (simp add: shi_def)
  then have "h + k \<le> soff base (snd_wndack t + snd_wnd t)"
    using e'(3) seq_cmp(2) [of base "th_seq b2 + word_of_nat k" "snd_wndack t + snd_wnd t"] w f(4) k b(2) by (simp add: shi_def)
  moreover have "e = take k (drop h S)" "length e = k"
    using e'(1) b k by (auto simp: from_stream_def min_def)
  ultimately show ?thesis using k(1) e'(2) by blast
qed (intro exI [of _ 0], simp)

lemma seg_urg_fields [simp]:
  "th_seq (seg_urg t bs s) = th_seq s" "th_data (seg_urg t bs s) = th_data s" "th_ack (seg_urg t bs s) = th_ack s"
  "th_hdr (seg_urg t bs s) = th_hdr s" "th_opts (seg_urg t bs s) = th_opts s" "th_window (seg_urg t bs s) = th_window s"
  by (simp_all add: seg_urg_def split: option.splits)

lemma tcp_rcvwnd_keeps:
  assumes "tcp_rcvwnd u st = (w, st')"
  shows "tnet st' = tnet st" "c_src (tc st') = c_src (tc st)" "c_dst (tc st') = c_dst (tc st)" "rcv_nxt (tb st') = rcv_nxt (tb st)"
    "sndq (tc st') = sndq (tc st)" "rcvq (tc st') = rcvq (tc st)" "snd_nxt (tb st') = snd_nxt (tb st)" "snd_una (tb st') = snd_una (tb st)"
  using assms by (auto simp: tcp_rcvwnd_def Let_def upd_tcb_def split: if_splits)

lemma clr_flag_keeps [simp]:
  "tnet (clr_flag f st) = tnet st" "c_src (tc (clr_flag f st)) = c_src (tc st)" "c_dst (tc (clr_flag f st)) = c_dst (tc st)"
  "sndq (tc (clr_flag f st)) = sndq (tc st)" "rcvq (tc (clr_flag f st)) = rcvq (tc st)" "snd_nxt (tb (clr_flag f st)) = snd_nxt (tb st)"
  by (simp_all add: clr_flag_def upd_tcb_def)

text \<open>A segment of the queue whose front is \<open>b\<close>: consecutive segments of the stream without options.\<close>

definition sendable :: "u32 \<Rightarrow> u8 list \<Rightarrow> tseg list \<Rightarrow> bool" where
  "sendable base S bs \<longleftrightarrow> (\<forall>b \<in> set bs. from_stream base S b \<and> data_seg b \<and> th_hdr b = 0x50 \<and> th_opts b = []) \<and>
     successively (\<lambda>a b. slo base b = shi base a) bs"

text \<open>The segment that leaves: the part in the window, and the extra bytes.\<close>

lemma tcp_sndseg_sends:
  assumes S: "length S < 2 ^ 31" and q: "sendable base S (b # rest)"
    and w: "soff base w1 < shi base b" "slo base b < soff base wn" "soff base w1 < soff base wn" "soff base wn < 2 ^ 31"
      "soff base (snd_wndack (tb st) + snd_wnd (tb st)) < 2 ^ 31" and ok: "e_bufok env (larp (tnet st))"
  defines "lo \<equiv> max (slo base b) (soff base w1)"
  shows "\<exists>s hi m. tcp_sndseg env (b # rest) n w1 wn st =
      tcp_ip_send env s (clr_flag TCBF_DELACK (snd (tcp_rcvwnd True (upd_tcb (\<lambda>t. t\<lparr>snd_max := m\<rparr>) st)))) \<and>
    th_hdr s = 0x50 \<and> th_opts s = [] \<and> th_ack s = rcv_nxt (tb st) \<and>
    soff base (th_seq s) = lo \<and> th_data s = take (hi - lo) (drop lo S) \<and> length (th_data s) = hi - lo \<and> lo < hi \<and>
    length (th_data s) \<le> length (th_data b) + n \<and>
    (hi = min (shi base b) (soff base wn) \<or>
     shi base b \<le> soff base wn \<and> shi base b < hi \<and> hi \<le> shi base b + n \<and> hi \<le> soff base (snd_wndack (tb st) + snd_wnd (tb st))) \<and>
    (n = 0 \<longrightarrow> m = snd_max (tb st))"
proof -
  have b: "from_stream base S b" "data_seg b" "th_hdr b = 0x50" "th_opts b = []"
    and rest: "rest \<noteq> [] \<Longrightarrow> from_stream base S (hd rest) \<and> slo base (hd rest) = shi base b"
    using q by (auto simp: sendable_def neq_Nil_conv)
  note f = from_stream_bounds [OF S b(1)]
  define h where "h = min (shi base b) (soff base wn)"
  obtain s1 ct where c: "seg_cut b w1 wn = Some (s1, ct)" "soff base (th_seq s1) = lo" "th_data s1 = take (h - lo) (drop lo S)"
    "th_hdr s1 = 0x50" "th_opts s1 = []" "ct AND TCPF_FIN \<noteq> 0 \<longleftrightarrow> soff base wn < shi base b"
    using seg_cut_stream [OF S b(1,2) w(1-4)] b(3,4) unfolding lo_def h_def by auto
  have lh: "lo < h" "h \<le> length S" "h - lo \<le> length (th_data b)" using w f b(1) by (auto simp: lo_def h_def from_stream_def shi_def)
  have dl: "length (th_data s1) = h - lo" using lh c(3) by simp
  define s2 where "s2 = s1\<lparr>th_flags := th_flags s1 AND NOT ct\<rparr>"
  obtain e m where ex: "seg_extra (tb st) s2 n (ct AND TCPF_FIN \<noteq> 0) rest = (e, m)" by fastforce
  obtain k where k: "k \<le> n" "e = take k (drop (shi base b) S)" "length e = k"
      "k > 0 \<longrightarrow> \<not> soff base wn < shi base b \<and> shi base b + k \<le> soff base (snd_wndack (tb st) + snd_wnd (tb st))"
    using seg_extra_stream [OF S rest w(5) ex] unfolding c(6) by blast
  have m: "n = 0 \<longrightarrow> m = snd_max (tb st)" using ex by (auto simp: seg_extra_def Let_def split: list.splits)
  define st1 where "st1 = upd_tcb (\<lambda>t. t\<lparr>snd_max := m\<rparr>) st"
  obtain wnd st2 where rw: "tcp_rcvwnd True st1 = (wnd, st2)" by fastforce
  define s3 where "s3 = seg_urg (tb st2) (b # rest) (s2\<lparr>th_data := th_data s2 @ e, th_ack := rcv_nxt (tb st2), th_window := ucast wnd, th_urgptr := 0\<rparr>)"
  have s3: "th_seq s3 = th_seq s1" "th_data s3 = th_data s1 @ e" "th_ack s3 = rcv_nxt (tb st)" "th_hdr s3 = 0x50" "th_opts s3 = []"
    using c(4,5) tcp_rcvwnd_keeps(4) [OF rw] by (simp_all add: s3_def s2_def st1_def upd_tcb_def)
  have d: "th_data s3 = take (h + k - lo) (drop lo S)"
  proof (cases "k > 0")
    case True
    then have "h = shi base b" using k(4) by (simp add: h_def)
    then show ?thesis unfolding s3(2) c(3) k(2) using lh by (simp add: stream_join)
  qed (use s3(2) c(3) k(3) in simp)
  have dd: "length (th_data s3) = h + k - lo" using s3(2) dl k(3) lh by simp
  have g2: "\<not> SEQLE wn (SEQ1ST b)" "\<not> SEQLE (SEQ1ST b + tcp_seglen b) w1"
    using seq_cmp(2) [of base wn "SEQ1ST b"] seq_cmp(2) [of base "SEQNXT b" w1] f w data_seg_next [OF b(1,2)] by simp_all
  have "soff base (th_seq s2 + tcp_datalen s2) = h"
    using soff_add [of base "th_seq s1" "h - lo"] dl c(2) lh f(4) by (simp add: tcp_datalen_def s2_def h_def)
  then have g3: "\<not> SEQGT (th_seq s2 + tcp_datalen s2) wn"
    using seq_cmp(3) [of base "th_seq s2 + tcp_datalen s2" wn] w(4) by (simp add: h_def)
  have send: "tcp_sndseg env (b # rest) n w1 wn st = tcp_ip_send env s3 (clr_flag TCBF_DELACK (snd (tcp_rcvwnd True st1)))"
    using ok g2 g3 c(1) ex rw unfolding tcp_sndseg_def s2_def st1_def s3_def by (simp add: Let_def)
  have hi: "h + k = min (shi base b) (soff base wn) \<or>
     shi base b \<le> soff base wn \<and> shi base b < h + k \<and> h + k \<le> shi base b + n \<and> h + k \<le> soff base (snd_wndack (tb st) + snd_wnd (tb st))"
    using k(1,4) by (cases "k > 0") (auto simp: h_def)
  have le: "length (th_data s3) \<le> length (th_data b) + n" using dd lh k(1) by simp
  show ?thesis
    by (intro exI [of _ s3] exI [of _ "h + k"] exI [of _ m] conjI) (use send s3 d dd c(2) hi lh le m in \<open>simp_all add: st1_def\<close>)
qed

definition as_arrived :: "tseg \<Rightarrow> tseg" where
  "as_arrived s = s\<lparr>th_urgptr := word_of_nat (length (th_data s))\<rparr>"

lemma from_stream_arrived:
  assumes "soff base (th_seq s) = lo" and "th_data s = take (hi - lo) (drop lo S)" and "length (th_data s) = hi - lo" and "lo < hi"
    and "length (th_data s) < 2 ^ 16"
  shows "from_stream base S (as_arrived s)" "slo base (as_arrived s) = lo" "shi base (as_arrived s) = hi"
proof -
  have u: "unat (word_of_nat (length (th_data s)) :: u16) = hi - lo" using assms(3,5) by (simp add: unat_of_nat)
  show s: "slo base (as_arrived s) = lo" "shi base (as_arrived s) = hi" using assms(1,4) u by (simp_all add: as_arrived_def slo_def shi_def)
  have "min (length S - lo) (hi - lo) = hi - lo" using assms(2,3) by simp
  then have "hi \<le> length S" using assms(4) by linarith
  then show "from_stream base S (as_arrived s)" unfolding from_stream_def s using u assms by (simp add: as_arrived_def)
qed

text \<open>What a transmission changes of the connection: nothing but these fields of the control block.\<close>

definition only_sent :: "tcpst \<Rightarrow> tcpst \<Rightarrow> bool" where
  "only_sent st st' \<longleftrightarrow> (\<exists>m w f net. st' = (upd_tcb (\<lambda>t. t\<lparr>snd_max := m, rcv_wnd := w, tflags := f\<rparr>) st)\<lparr>tnet := net\<rparr>)"

lemma tcp_rcvwnd_form: "\<exists>w. snd (tcp_rcvwnd u st) = upd_tcb (\<lambda>t. t\<lparr>rcv_wnd := w\<rparr>) st"
proof -
  have e: "upd_tcb (\<lambda>t. t\<lparr>rcv_wnd := rcv_wnd (tb st)\<rparr>) st = st" by (simp add: upd_tcb_def)
  have "snd (tcp_rcvwnd u st) = (if tstate (tb st) \<ge> TCBS_SYNRCVD \<and> u
      then upd_tcb (\<lambda>t. t\<lparr>rcv_wnd := rcv_nxt (tb st) + fst (tcp_rcvwnd u st)\<rparr>) st else st)"
    by (simp add: tcp_rcvwnd_def Let_def upd_tcb_def)
  then show ?thesis using e by (metis (no_types))
qed

lemma only_sent_keeps:
  assumes "only_sent st st'"
  shows "c_src (tc st') = c_src (tc st)" "c_dst (tc st') = c_dst (tc st)" "sndq (tc st') = sndq (tc st)" "rcvq (tc st') = rcvq (tc st)"
    "snd_nxt (tb st') = snd_nxt (tb st)" "snd_wndack (tb st') = snd_wndack (tb st)" "snd_wnd (tb st') = snd_wnd (tb st)"
    "rcv_nxt (tb st') = rcv_nxt (tb st)" "snd_cwnd (tb st') = snd_cwnd (tb st)" "snd_una (tb st') = snd_una (tb st)"
    "seq_write (tb st') = seq_write (tb st)" "snd_wndmax (tb st') = snd_wndmax (tb st)"
  using assms by (auto simp: only_sent_def upd_tcb_def)

lemma tcp_sndseg_wire:
  assumes S: "length S < 2 ^ 31" and q: "sendable base S (b # rest)"
    and w: "soff base w1 < shi base b" "slo base b < soff base wn" "soff base w1 < soff base wn" "soff base wn < 2 ^ 31"
      "soff base (snd_wndack (tb st) + snd_wnd (tb st)) < 2 ^ 31"
    and o: "peer_open env i nif st"
    and l: "IP_MINLEN + TCP_MINLEN + length (th_data b) + n \<le> unat (nif_mtu nif)" "IP_MINLEN + TCP_MINLEN + length (th_data b) + n < 65535"
  shows "\<exists>p s st'. tcp_sndseg env (b # rest) n w1 wn st = Some (Inr (), st') \<and> only_sent st st' \<and> peer_open env i nif st' \<and>
    tcp_sent i st' = tcp_sent i st @ [p] \<and> carries (c_src (tc st)) (c_dst (tc st)) p s \<and> th_ack s = rcv_nxt (tb st) \<and>
    from_stream base S (as_arrived s) \<and> slo base (as_arrived s) = max (slo base b) (soff base w1) \<and>
    (shi base (as_arrived s) = min (shi base b) (soff base wn) \<or>
     shi base b \<le> soff base wn \<and> shi base b < shi base (as_arrived s) \<and> shi base (as_arrived s) \<le> shi base b + n \<and>
     shi base (as_arrived s) \<le> soff base (snd_wndack (tb st) + snd_wnd (tb st)))"
proof -
  have ok: "e_bufok env (larp (tnet st))" using o by (auto simp: peer_open_def reachable_def reaches_def link_open_def)
  let ?lo = "max (slo base b) (soff base w1)"
  obtain s hi m where s: "tcp_sndseg env (b # rest) n w1 wn st =
      tcp_ip_send env s (clr_flag TCBF_DELACK (snd (tcp_rcvwnd True (upd_tcb (\<lambda>t. t\<lparr>snd_max := m\<rparr>) st))))"
    "th_hdr s = 0x50" "th_opts s = []" "th_ack s = rcv_nxt (tb st)"
    "soff base (th_seq s) = ?lo" "th_data s = take (hi - ?lo) (drop ?lo S)" "length (th_data s) = hi - ?lo" "?lo < hi"
    "length (th_data s) \<le> length (th_data b) + n"
    "hi = min (shi base b) (soff base wn) \<or>
     shi base b \<le> soff base wn \<and> shi base b < hi \<and> hi \<le> shi base b + n \<and> hi \<le> soff base (snd_wndack (tb st) + snd_wnd (tb st))"
    using tcp_sndseg_sends [OF S q w ok, of n] by blast
  obtain wd where wd: "snd (tcp_rcvwnd True (upd_tcb (\<lambda>t. t\<lparr>snd_max := m\<rparr>) st)) = upd_tcb (\<lambda>t. t\<lparr>rcv_wnd := wd\<rparr>) (upd_tcb (\<lambda>t. t\<lparr>snd_max := m\<rparr>) st)"
    using tcp_rcvwnd_form by blast
  define st1 where "st1 = clr_flag TCBF_DELACK (upd_tcb (\<lambda>t. t\<lparr>rcv_wnd := wd\<rparr>) (upd_tcb (\<lambda>t. t\<lparr>snd_max := m\<rparr>) st))"
  have st1: "c_src (tc st1) = c_src (tc st)" "c_dst (tc st1) = c_dst (tc st)" "tnet st1 = tnet st"
    by (simp_all add: st1_def clr_flag_def upd_tcb_def)
  have os: "only_sent st (st1\<lparr>tnet := net\<rparr>)" for net
    unfolding only_sent_def
    by (rule exI [of _ m], rule exI [of _ wd], rule exI [of _ "tflags (tb st) AND NOT TCBF_DELACK"], rule exI [of _ net])
      (simp add: st1_def clr_flag_def upd_tcb_def)
  have o1: "peer_open env i nif st1" using o st1 by (simp add: peer_open_def)
  have wf: "seg_wf s" using s(2,3) by (simp add: seg_wf_def TCP_HDRLEN_def)
  have l': "IP_MINLEN + length (th_bytes s) \<le> unat (nif_mtu nif)" "IP_MINLEN + length (th_bytes s) < 65535" "length (th_data s) < 2 ^ 16"
    using l s(3,9) by (simp_all add: length_th_bytes)
  obtain p c net where p: "tcp_ip_send env s st1 = Some (Inr (), st1\<lparr>tnet := net\<rparr>)" "peer_open env i nif (st1\<lparr>tnet := net\<rparr>)"
    "tcp_sent i (st1\<lparr>tnet := net\<rparr>) = tcp_sent i st @ [p]" "carries (c_src (tc st)) (c_dst (tc st)) p (s\<lparr>th_chksum := c, b_info := 0\<rparr>)"
    using tcp_ip_send_wire [OF o1 wf l'(1,2)] unfolding st1 by blast
  let ?s = "s\<lparr>th_chksum := c, b_info := 0\<rparr>"
  have e: "th_seq ?s = th_seq s" "th_data ?s = th_data s" by simp_all
  have h: "soff base (th_seq ?s) = ?lo" "th_data ?s = take (hi - ?lo) (drop ?lo S)" "length (th_data ?s) = hi - ?lo"
    "length (th_data ?s) < 2 ^ 16" unfolding e by (rule s(5) s(6) s(7) l'(3))+
  note f = from_stream_arrived [OF h(1-3) s(8) h(4)]
  have "tcp_sndseg env (b # rest) n w1 wn st = Some (Inr (), st1\<lparr>tnet := net\<rparr>)" unfolding s(1) wd using p(1) by (simp add: st1_def)
  moreover have "th_ack ?s = rcv_nxt (tb st)" using s(4) by simp
  ultimately show ?thesis unfolding f(2) [symmetric]
    by (intro exI conjI) (assumption, rule os, rule p(2), rule p(3), rule p(4), assumption, rule f(1), rule refl, unfold f(3), rule s(10))
qed

section \<open>Sending the queue\<close>

text \<open>
  The segments \<open>ss\<close> carry the bytes of the stream from position \<open>x\<close> to \<open>y\<close>, one after the other
  without a gap.
\<close>

primrec run_of :: "u32 \<Rightarrow> u8 list \<Rightarrow> nat \<Rightarrow> tseg list \<Rightarrow> nat \<Rightarrow> bool" where
  "run_of base S x [] y \<longleftrightarrow> x = y"
| "run_of base S x (s # ss) y \<longleftrightarrow>
     from_stream base S (as_arrived s) \<and> slo base (as_arrived s) = x \<and> run_of base S (shi base (as_arrived s)) ss y"

lemma run_of_le: "run_of base S x ss y \<Longrightarrow> x \<le> y"
  by (induction ss arbitrary: x) (auto simp: shi_def intro: le_trans [OF le_add1])

lemma sendable_Cons:
  "sendable base S (b # bs) \<longleftrightarrow> from_stream base S b \<and> data_seg b \<and> th_hdr b = 0x50 \<and> th_opts b = [] \<and> sendable base S bs \<and>
     (bs \<noteq> [] \<longrightarrow> slo base (hd bs) = shi base b)"
  by (cases bs) (auto simp: sendable_def)

lemma note_sent_peer [simp]:
  "peer_open env i nif (upd_tcb (note_sent x) st) = peer_open env i nif st" "tcp_sent i (upd_tcb (note_sent x) st) = tcp_sent i st"
  "c_src (tc (upd_tcb g st)) = c_src (tc st)" "c_dst (tc (upd_tcb g st)) = c_dst (tc st)" "tnet (upd_tcb g st) = tnet st"
  by (simp_all add: peer_open_def upd_tcb_def)

lemma note_sent_fields [simp]:
  "snd_nxt (tb (upd_tcb (note_sent x) st)) = x" "snd_wndack (tb (upd_tcb (note_sent x) st)) = snd_wndack (tb st)"
  "snd_wnd (tb (upd_tcb (note_sent x) st)) = snd_wnd (tb st)" "sndq (tc (upd_tcb g st)) = sndq (tc st)"
  "rcv_nxt (tb (upd_tcb (note_sent x) st)) = rcv_nxt (tb st)"
  by (simp_all add: upd_tcb_def note_sent_def)

definition same_segs :: "tseg list \<Rightarrow> tseg list \<Rightarrow> bool" where
  "same_segs xs ys \<longleftrightarrow> map (\<lambda>s. s\<lparr>b_info := 0\<rparr>) xs = map (\<lambda>s. s\<lparr>b_info := 0\<rparr>) ys"

lemma same_segs_simps [simp]: "same_segs xs xs" "same_segs (x\<lparr>b_info := t\<rparr> # xs) (x # ys) \<longleftrightarrow> same_segs xs ys"
  "same_segs (x # xs) (x # ys) \<longleftrightarrow> same_segs xs ys"
  by (simp_all add: same_segs_def)

lemma sndhead_stop:
  assumes S: "length S < 2 ^ 31" and f: "from_stream base S b" "data_seg b" and wn: "soff base wn < 2 ^ 31"
    and stop: "snd_nxt (tb st) = wn" "soff base wn < shi base b"
  shows "sndhead_loop env wn k r (b # bs) st = Some ((b # bs, k, r, False), st)"
proof -
  note fb = from_stream_bounds [OF S f(1)]
  have "\<not> SEQLE (SEQNXT b) wn" using seq_cmp(2) [of base "SEQNXT b" wn] fb wn stop by simp
  moreover have "\<not> SEQLT wn wn" by (simp add: SEQLT_def)
  ultimately show ?thesis using stop(1) by (simp add: Let_def data_seg_next [OF f])
qed

lemma sendable_after:
  assumes "length S < 2 ^ 31" and "sendable base S (b # bs)" and "c \<in> set bs"
  shows "shi base b \<le> slo base c" "shi base b \<le> shi base c"
proof -
  show "shi base b \<le> slo base c" using assms(2,3)
  proof (induction bs arbitrary: b)
    case (Cons d ds)
    then have d: "from_stream base S d" "slo base d = shi base b" "sendable base S (d # ds)" by (simp_all add: sendable_Cons)
    then show ?case using Cons.IH [OF d(3)] Cons.prems(2) from_stream_bounds(3) [OF assms(1) d(1)] by auto
  qed simp
  also have "\<dots> \<le> shi base c" by (simp add: shi_def)
  finally show "shi base b \<le> shi base c" .
qed

lemma ex6I: "P a b c d e f \<Longrightarrow> \<exists>a b c d e f. P a b c d e f"
  by blast

lemma sndhead_loop_stream:
  assumes S: "length S < 2 ^ 31" and wn: "soff base wn < 2 ^ 31" "soff base (snd_wndack (tb st) + snd_wnd (tb st)) < 2 ^ 31"
    and q: "sendable base S bs" "bs \<noteq> [] \<Longrightarrow> slo base (hd bs) \<le> soff base (snd_nxt (tb st)) \<and> soff base (snd_nxt (tb st)) < shi base (hd bs)"
    and nx: "soff base (snd_nxt (tb st)) < 2 ^ 31"
    and o: "peer_open env i nif st"
    and l: "\<forall>b \<in> set bs. IP_MINLEN + TCP_MINLEN + length (th_data b) \<le> unat (nif_mtu nif) \<and>
      IP_MINLEN + TCP_MINLEN + length (th_data b) < 65535"
  shows "\<exists>ps ss bs' k' r' st'. sndhead_loop env wn k r bs st = Some ((bs', k', r', False), st') \<and> peer_open env i nif st' \<and>
    tcp_sent i st' = tcp_sent i st @ ps \<and> list_all2 (carries (c_src (tc st)) (c_dst (tc st))) ps ss \<and>
    run_of base S (soff base (snd_nxt (tb st))) ss (soff base (snd_nxt (tb st'))) \<and>
    soff base (snd_nxt (tb st')) \<le> max (soff base (snd_nxt (tb st))) (soff base wn) \<and> same_segs bs' bs \<and>
    (\<forall>b \<in> set bs. shi base b \<le> soff base wn \<longrightarrow> shi base b \<le> soff base (snd_nxt (tb st')))"
  using wn q nx o l
proof (induction bs arbitrary: st k r)
  case Nil
  then show ?case by (intro ex6I [where a = "[]" and b = "[]" and c = "[]" and f = st])
      (simp add: le_max_iff_disj)
next
  case (Cons b bs)
  let ?nx = "snd_nxt (tb st)"
  have b: "from_stream base S b" "data_seg b" "th_hdr b = 0x50" "th_opts b = []" "sendable base S bs"
    "bs \<noteq> [] \<longrightarrow> slo base (hd bs) = shi base b" using Cons.prems(3) by (simp_all add: sendable_Cons)
  note fb = from_stream_bounds [OF S b(1)]
  have pos: "slo base b \<le> soff base ?nx" "soff base ?nx < shi base b" using Cons.prems(4) by simp_all
  have dn: "SEQ1ST b + tcp_seglen b = SEQNXT b" by (rule data_seg_next [OF b(1,2)])
  have le: "SEQLE (SEQNXT b) wn \<longleftrightarrow> shi base b \<le> soff base wn" using seq_cmp(2) [of base "SEQNXT b" wn] fb Cons.prems(1) by simp
  have lt: "SEQLT ?nx wn \<longleftrightarrow> soff base ?nx < soff base wn" using seq_cmp(1) [of base ?nx wn] Cons.prems(1,5) by simp
  show ?case
  proof (cases "SEQLE (SEQNXT b) wn \<or> (SEQLT ?nx wn \<and> sint (2 * (wn - ?nx)) > sint (snd_wndmax (tb st)))")
    case False
    then have "soff base wn < shi base b" using le by auto
    then have "\<forall>c \<in> set (b # bs). \<not> shi base c \<le> soff base wn" using sendable_after [OF S Cons.prems(3)] by fastforce
    then show ?thesis using False Cons.prems(6)
      by (intro ex6I [where a = "[]" and b = "[]" and c = "b # bs" and f = st])
        (simp add: Let_def dn le_max_iff_disj)
  next
    case True
    then have w: "soff base ?nx < soff base wn" using le lt pos by auto
    have a: "slo base b < soff base wn" using pos w by simp
    have l0: "IP_MINLEN + TCP_MINLEN + length (th_data b) + 0 \<le> unat (nif_mtu nif)" "IP_MINLEN + TCP_MINLEN + length (th_data b) + 0 < 65535"
      using Cons.prems(7) by simp_all
    obtain p s st1 where s: "tcp_sndseg env (b # bs) 0 ?nx wn st = Some (Inr (), st1)" "only_sent st st1" "peer_open env i nif st1"
      "tcp_sent i st1 = tcp_sent i st @ [p]" "carries (c_src (tc st)) (c_dst (tc st)) p s" "from_stream base S (as_arrived s)"
      "slo base (as_arrived s) = max (slo base b) (soff base ?nx)"
      and s8: "shi base (as_arrived s) = min (shi base b) (soff base wn) \<or> shi base b < shi base (as_arrived s) \<and>
        shi base (as_arrived s) \<le> shi base b + 0"
      using tcp_sndseg_wire [OF S Cons.prems(3) pos(2) a w Cons.prems(1,2,6) l0] by blast
    have s8: "shi base (as_arrived s) = min (shi base b) (soff base wn)" using s8 by linarith
    define nx' where "nx' = (if SEQLE (SEQNXT b) wn then SEQNXT b else wn)"
    have nx': "soff base nx' = min (shi base b) (soff base wn)" using le fb by (simp add: nx'_def min_def)
    define st2 where "st2 = upd_tcb (note_sent nx') st1"
    note keep = only_sent_keeps [OF s(2)]
    have st2: "snd_nxt (tb st2) = nx'" "c_src (tc st2) = c_src (tc st)" "c_dst (tc st2) = c_dst (tc st)" "peer_open env i nif st2"
      "snd_wndack (tb st2) + snd_wnd (tb st2) = snd_wndack (tb st) + snd_wnd (tb st)" "tcp_sent i st2 = tcp_sent i st @ [p]"
      using keep s(3,4) by (simp_all add: st2_def)
    have ss: "slo base (as_arrived s) = soff base ?nx" "shi base (as_arrived s) = soff base nx'" using s(7) s8 nx' pos by simp_all
    let ?r = "if k = 0 then snd_nxt (tb st1) else r"
    have "\<exists>ps ss bs' k' r' st'. sndhead_loop env wn (k + 1) ?r bs st2 = Some ((bs', k', r', False), st') \<and> peer_open env i nif st' \<and>
      tcp_sent i st' = tcp_sent i st2 @ ps \<and> list_all2 (carries (c_src (tc st)) (c_dst (tc st))) ps ss \<and>
      run_of base S (soff base nx') ss (soff base (snd_nxt (tb st'))) \<and>
      soff base (snd_nxt (tb st')) \<le> max (soff base nx') (soff base wn) \<and> same_segs bs' bs \<and>
      (\<forall>b \<in> set bs. shi base b \<le> soff base wn \<longrightarrow> shi base b \<le> soff base (snd_nxt (tb st')))"
    proof (cases "shi base b \<le> soff base wn")
      case True
      have h: "slo base (hd bs) \<le> soff base (snd_nxt (tb st2)) \<and> soff base (snd_nxt (tb st2)) < shi base (hd bs)" if "bs \<noteq> []"
      proof -
        have "from_stream base S (hd bs)" using b(5) that by (cases bs) (simp_all add: sendable_Cons)
        then show ?thesis using from_stream_bounds(3) [OF S, of base "hd bs"] b(6) that nx' True unfolding st2(1) by simp
      qed
      show ?thesis using Cons.IH [of st2 "k + 1" ?r] Cons.prems(1,2,7) b(5) h nx' fb st2 by simp
    next
      case False
      then have wn': "nx' = wn" "soff base wn < shi base b" using le by (simp_all add: nx'_def)
      have a: "\<forall>c \<in> set bs. \<not> shi base c \<le> soff base wn" using sendable_after(2) [OF S Cons.prems(3)] wn'(2) by fastforce
      have "sndhead_loop env wn (k + 1) ?r bs st2 = Some ((bs, k + 1, ?r, False), st2)"
      proof (cases bs)
        case (Cons c cs)
        then have c: "from_stream base S c" "data_seg c" "soff base wn < shi base c" using b(5) a by (simp_all add: sendable_Cons)
        show ?thesis unfolding Cons by (rule sndhead_stop [OF S c(1,2) Cons.prems(1) _ c(3)]) (simp add: st2(1) wn'(1))
      qed simp
      then show ?thesis using a st2(1,4) 
        by (intro ex6I [where a = "[]" and b = "[]" and c = bs and f = st2])
          (simp add: le_max_iff_disj)
    qed
    then obtain ps ss bs' k' r' st' where ih: "sndhead_loop env wn (k + 1) ?r bs st2 = Some ((bs', k', r', False), st')" "peer_open env i nif st'"
      "tcp_sent i st' = tcp_sent i st2 @ ps" "list_all2 (carries (c_src (tc st)) (c_dst (tc st))) ps ss"
      "run_of base S (soff base nx') ss (soff base (snd_nxt (tb st')))"
      "soff base (snd_nxt (tb st')) \<le> max (soff base nx') (soff base wn)" "same_segs bs' bs"
      "\<forall>b \<in> set bs. shi base b \<le> soff base wn \<longrightarrow> shi base b \<le> soff base (snd_nxt (tb st'))" by blast
    have step: "sndhead_loop env wn k r (b # bs) st = Some ((b\<lparr>b_info := GETTIME st\<rparr> # bs', k', r', False), st')"
      unfolding sndhead_loop.simps Let_def dn using True s(1) ih(1)
      by (simp only: True simp_thms if_False) (simp add: nx'_def [symmetric] st2_def)
    have m: "soff base (snd_nxt (tb st')) \<le> max (soff base ?nx) (soff base wn)" using ih(6) nx' by linarith
    have here: "shi base b \<le> soff base wn \<longrightarrow> shi base b \<le> soff base (snd_nxt (tb st'))" using run_of_le [OF ih(5)] nx' by linarith
    show ?thesis
      by (intro exI [of _ "p # ps"] exI [of _ "s # ss"] exI conjI, rule step, rule ih(2), simp add: ih(3) st2(6), simp add: s(5) ih(4),
        simp add: s(6) ss ih(5), rule m, simp add: ih(7), simp add: here ih(8))
  qed
qed

lemma dropWhile_sent:
  assumes S: "length S < 2 ^ 31" and q: "sendable base S q" and nx: "soff base n < 2 ^ 31"
    and c: "q \<noteq> [] \<Longrightarrow> slo base (hd q) \<le> soff base n"
  defines "r \<equiv> dropWhile (\<lambda>b. \<not> SEQLT n (SEQ1ST b + tcp_seglen b)) q"
  shows "sendable base S r" "r \<noteq> [] \<Longrightarrow> slo base (hd r) \<le> soff base n \<and> soff base n < shi base (hd r)"
    "b \<in> set q \<Longrightarrow> b \<notin> set r \<Longrightarrow> shi base b \<le> soff base n"
proof -
  have "sendable base S r \<and> (r \<noteq> [] \<longrightarrow> slo base (hd r) \<le> soff base n \<and> soff base n < shi base (hd r)) \<and>
      (b \<in> set q \<longrightarrow> b \<notin> set r \<longrightarrow> shi base b \<le> soff base n)"
    unfolding r_def using q c
  proof (induction q)
    case (Cons a q)
    have a: "from_stream base S a" "data_seg a" "sendable base S q" "q \<noteq> [] \<longrightarrow> slo base (hd q) = shi base a"
      using Cons.prems(1) by (simp_all add: sendable_Cons)
    note fa = from_stream_bounds [OF S a(1)]
    have o: "SEQLT n (SEQ1ST a + tcp_seglen a) \<longleftrightarrow> soff base n < shi base a"
      using seq_cmp(1) [of base n "SEQNXT a"] fa nx by (simp add: data_seg_next [OF a(1,2)])
    show ?case
    proof (cases "soff base n < shi base a")
      case True
      then show ?thesis using o Cons.prems by simp
    next
      case False
      then have "q \<noteq> [] \<Longrightarrow> slo base (hd q) \<le> soff base n" using a(4) by simp
      from Cons.IH [OF a(3) this] show ?thesis using o False by auto
    qed
  qed (simp add: sendable_def)
  then show "sendable base S r" "r \<noteq> [] \<Longrightarrow> slo base (hd r) \<le> soff base n \<and> soff base n < shi base (hd r)"
    "b \<in> set q \<Longrightarrow> b \<notin> set r \<Longrightarrow> shi base b \<le> soff base n" by blast+
qed

text \<open>The end of the window \<^verbatim>\<open>tcp_sndhead\<close> uses, with the segment it delays for more data.\<close>

definition send_limit :: "tcpst \<Rightarrow> u32" where
  "send_limit st =
     (let t = tb st; q = segs (sndq (tc st)); b = last q;
          r = (if \<not> tflag TCBF_NDELAY st \<and> sint (b_info b) > uint (th_urgptr b) \<and> (SEQLT (snd_una t) (snd_nxt t) \<or> length q > 1) \<and>
                  sint (SEQ1ST b - snd_wndack t) < sint (snd_cwnd t)
               then SEQ1ST b - snd_wndack t else snd_cwnd t)
      in snd_wndack t + (if sint (snd_wnd t) < sint r then snd_wnd t else r))"

lemma send_limit_le:
  assumes S: "length S < 2 ^ 31" and q: "sendable base S (segs (sndq (tc st)))" "segs (sndq (tc st)) \<noteq> []"
    and w: "soff base (snd_wndack (tb st)) + unat (snd_wnd (tb st)) < 2 ^ 31" "soff base (snd_wndack (tb st)) + unat (snd_cwnd (tb st)) < 2 ^ 31"
  shows "soff base (send_limit st) \<le> soff base (snd_wndack (tb st)) + min (unat (snd_wnd (tb st))) (unat (snd_cwnd (tb st)))"
proof -
  let ?t = "tb st" and ?b = "last (segs (sndq (tc st)))" and ?a = "soff base (snd_wndack (tb st))"
  have fb: "from_stream base S ?b" using q by (simp add: sendable_def)
  note f = from_stream_bounds [OF S fb]
  have s: "sint (snd_wnd ?t) = int (unat (snd_wnd ?t))" "sint (snd_cwnd ?t) = int (unat (snd_cwnd ?t))"
    using w sint_word_of_nat_32 [of "unat (snd_wnd ?t)"] sint_word_of_nat_32 [of "unat (snd_cwnd ?t)"] by simp_all
  have d: "sint (SEQ1ST ?b - snd_wndack ?t) = int (slo base ?b) - int ?a"
    using sint_soff [of base "SEQ1ST ?b" "snd_wndack ?t"] f w by simp
  have e: "soff base (snd_wndack ?t + snd_wnd ?t) = ?a + unat (snd_wnd ?t)" "soff base (snd_wndack ?t + snd_cwnd ?t) = ?a + unat (snd_cwnd ?t)"
    "snd_wndack ?t + (SEQ1ST ?b - snd_wndack ?t) = SEQ1ST ?b"
    using soff_add [of base "snd_wndack ?t" "unat (snd_wnd ?t)"] soff_add [of base "snd_wndack ?t" "unat (snd_cwnd ?t)"] w by simp_all
  have wc: "sint (snd_wnd ?t) < sint (snd_cwnd ?t) \<longleftrightarrow> unat (snd_wnd ?t) < unat (snd_cwnd ?t)" by (simp only: s of_nat_less_iff)
  define r where "r = (if \<not> tflag TCBF_NDELAY st \<and> sint (b_info ?b) > uint (th_urgptr ?b) \<and>
      (SEQLT (snd_una ?t) (snd_nxt ?t) \<or> length (segs (sndq (tc st))) > 1) \<and> sint (SEQ1ST ?b - snd_wndack ?t) < sint (snd_cwnd ?t)
    then SEQ1ST ?b - snd_wndack ?t else snd_cwnd ?t)"
  have r: "r = snd_cwnd ?t \<or> r = SEQ1ST ?b - snd_wndack ?t \<and> sint r < sint (snd_cwnd ?t)"
    "send_limit st = snd_wndack ?t + (if sint (snd_wnd ?t) < sint r then snd_wnd ?t else r)"
    by (simp add: r_def) (simp add: send_limit_def Let_def r_def)
  show ?thesis
  proof (cases "r = snd_cwnd ?t")
    case True
    then show ?thesis using r(2) wc e(1,2) by (cases "sint (snd_wnd ?t) < sint r") simp_all
  next
    case False
    then have rb: "r = SEQ1ST ?b - snd_wndack ?t" "sint r < sint (snd_cwnd ?t)" using r(1) by blast+
    show ?thesis
    proof (cases "sint (snd_wnd ?t) < sint r")
      case True
      then have "unat (snd_wnd ?t) < unat (snd_cwnd ?t)" using rb(2) wc by linarith
      then show ?thesis using True r(2) e(1) by simp
    next
      case False
      then have "send_limit st = SEQ1ST ?b" using r(2) rb(1) e(3) by simp
      moreover have "int (slo base ?b) - int ?a < int (unat (snd_cwnd ?t))" "int (slo base ?b) - int ?a \<le> int (unat (snd_wnd ?t))"
        using rb(2) False d [folded rb(1)] s by linarith+
      then have "slo base ?b \<le> ?a + min (unat (snd_wnd ?t)) (unat (snd_cwnd ?t))" by linarith
      ultimately show ?thesis unfolding f(1) [symmetric] by simp
    qed
  qed
qed

lemma tcp_sndhead_sends:
  assumes S: "length S < 2 ^ 31" "soff base (seq_write (tb st)) = length S"
    and q: "sendable base S (segs (sndq (tc st)))" "segs (sndq (tc st)) \<noteq> []"
    and nx: "slo base (hd (segs (sndq (tc st)))) \<le> soff base (snd_nxt (tb st))" "soff base (snd_nxt (tb st)) < length S"
    and w: "soff base (snd_wndack (tb st)) + unat (snd_wnd (tb st)) < 2 ^ 31" "soff base (snd_wndack (tb st)) + unat (snd_cwnd (tb st)) < 2 ^ 31"
    and o: "peer_open env i nif st"
    and l: "\<forall>b \<in> set (segs (sndq (tc st))). IP_MINLEN + TCP_MINLEN + length (th_data b) \<le> unat (nif_mtu nif) \<and>
      IP_MINLEN + TCP_MINLEN + length (th_data b) < 65535"
  shows "\<exists>ps ss st'. tcp_sndhead env st = Some st' \<and> tcp_sent i st' = tcp_sent i st @ ps \<and>
    list_all2 (carries (c_src (tc st)) (c_dst (tc st))) ps ss \<and>
    run_of base S (soff base (snd_nxt (tb st))) ss (soff base (snd_nxt (tb st'))) \<and>
    soff base (snd_nxt (tb st')) \<le> max (soff base (snd_nxt (tb st)))
      (soff base (snd_wndack (tb st)) + min (unat (snd_wnd (tb st))) (unat (snd_cwnd (tb st)))) \<and>
    (\<forall>b \<in> set (segs (sndq (tc st))). shi base b \<le> soff base (send_limit st) \<longrightarrow> shi base b \<le> soff base (snd_nxt (tb st'))) \<and>
    same_segs (segs (sndq (tc st'))) (segs (sndq (tc st)))"
proof -
  let ?t = "tb st" and ?q = "segs (sndq (tc st))" and ?n = "soff base (snd_nxt (tb st))"
  have lim: "soff base (send_limit st) \<le> soff base (snd_wndack ?t) + min (unat (snd_wnd ?t)) (unat (snd_cwnd ?t))"
    by (rule send_limit_le [OF S(1) q w])
  have wn: "soff base (send_limit st) < 2 ^ 31" using lim w by linarith
  have ww: "soff base (snd_wndack ?t + snd_wnd ?t) < 2 ^ 31" using soff_add [of base "snd_wndack ?t" "unat (snd_wnd ?t)"] w(1) by simp
  have n31: "?n < 2 ^ 31" using nx(2) S(1) by simp
  let ?old = "\<lambda>b. \<not> SEQLT (snd_nxt ?t) (SEQ1ST b + tcp_seglen b)"
  let ?r = "dropWhile ?old ?q"
  note dw = dropWhile_sent [OF S(1) q(1) n31 nx(1)]
  have lr: "\<forall>b \<in> set ?r. IP_MINLEN + TCP_MINLEN + length (th_data b) \<le> unat (nif_mtu nif) \<and>
      IP_MINLEN + TCP_MINLEN + length (th_data b) < 65535" using l by (blast dest: set_dropWhileD)
  obtain ps ss bs' k' r' st1 where h: "sndhead_loop env (send_limit st) 0 0 ?r st = Some ((bs', k', r', False), st1)"
    "tcp_sent i st1 = tcp_sent i st @ ps" "list_all2 (carries (c_src (tc st)) (c_dst (tc st))) ps ss"
    "run_of base S ?n ss (soff base (snd_nxt (tb st1)))" "soff base (snd_nxt (tb st1)) \<le> max ?n (soff base (send_limit st))"
    "same_segs bs' ?r" "\<forall>b \<in> set ?r. shi base b \<le> soff base (send_limit st) \<longrightarrow> shi base b \<le> soff base (snd_nxt (tb st1))"
    using sndhead_loop_stream [OF S(1) wn ww dw(1,2) n31 o lr, of 0 0] by blast
  let ?st2 = "st1\<lparr>tc := (tc st1)\<lparr>sndq := (sndq (tc st1))\<lparr>segs := takeWhile ?old ?q @ bs'\<rparr>\<rparr>\<rparr>"
  define st' where "st' = (if k' > 0 \<and> \<not> tflag TCBF_DORTT ?st2 then set_flag TCBF_DORTT (upd_tcb (\<lambda>t. t\<lparr>rttseq := r'\<rparr>) ?st2) else ?st2)"
  have ge: "\<not> SEQGE (snd_nxt ?t) (seq_write ?t)" using seq_cmp(4) [of base "snd_nxt ?t" "seq_write ?t"] n31 S nx(2) by simp
  have run: "tcp_sndhead env st = Some st'" using ge q(2) h(1) unfolding tcp_sndhead_def st'_def send_limit_def by (simp add: Let_def)
  have st': "tcp_sent i st' = tcp_sent i st1" "snd_nxt (tb st') = snd_nxt (tb st1)" "segs (sndq (tc st')) = takeWhile ?old ?q @ bs'"
    by (simp_all add: st'_def set_flag_def upd_tcb_def)
  have same: "same_segs (takeWhile ?old ?q @ bs') ?q" 
  proof -
    have "map f (takeWhile ?old ?q) @ map f (dropWhile ?old ?q) = map f ?q" for f :: "tseg \<Rightarrow> tseg"
      by (metis map_append takeWhile_dropWhile_id)
    then show ?thesis using h(6) by (simp add: same_segs_def)
  qed
  have le: "soff base (snd_nxt (tb st1)) \<le> max ?n (soff base (snd_wndack ?t) + min (unat (snd_wnd ?t)) (unat (snd_cwnd ?t)))"
    using h(5) lim by linarith
  have all: "\<forall>b \<in> set ?q. shi base b \<le> soff base (send_limit st) \<longrightarrow> shi base b \<le> soff base (snd_nxt (tb st1))"
    using h(7) dw(3) run_of_le [OF h(4)] by (meson le_trans)
  show ?thesis using run h(2-4) le all same unfolding st' [symmetric] by blast
qed

section \<open>Queueing what the application writes\<close>

text \<open>
  The send queue holds the end of the stream written so far, in segments of at most \<open>M\<close> bytes;
  the last segment, as long as it was not sent, says in \<^verbatim>\<open>info\<close> how much it may hold.
\<close>

definition txq :: "u32 \<Rightarrow> u8 list \<Rightarrow> nat \<Rightarrow> tcpst \<Rightarrow> bool" where
  "txq base S M st \<longleftrightarrow>
     (let q = segs (sndq (tc st)) in
      sendable base S q \<and> soff base (seq_write (tb st)) = length S \<and> (\<forall>b \<in> set q. length (th_data b) \<le> M) \<and>
      (q \<noteq> [] \<longrightarrow> shi base (last q) = length S \<and>
         (SEQLE (snd_max (tb st)) (SEQ1ST (last q)) \<longrightarrow> sint (b_info (last q)) \<le> int M)))"

definition qlo :: "u32 \<Rightarrow> u8 list \<Rightarrow> tcpst \<Rightarrow> nat" where
  "qlo base S st = (if segs (sndq (tc st)) = [] then length S else slo base (hd (segs (sndq (tc st)))))"

lemma sendable_snoc:
  "sendable base S (xs @ [b]) \<longleftrightarrow> sendable base S xs \<and> from_stream base S b \<and> data_seg b \<and> th_hdr b = 0x50 \<and> th_opts b = [] \<and>
     (xs \<noteq> [] \<longrightarrow> slo base b = shi base (last xs))"
  by (auto simp: sendable_def successively_append_iff)

lemma sendable_mono: "sendable base S xs \<Longrightarrow> sendable base (S @ d) xs"
  by (auto simp: sendable_def from_stream_def)

lemma fill_seg_txq:
  assumes q: "segs (sndq (tc st)) = xs @ [b]" "sendable base S xs" "xs \<noteq> [] \<Longrightarrow> slo base b = shi base (last xs)"
    "\<forall>b \<in> set xs. length (th_data b) \<le> M"
    and b: "data_seg b" "th_hdr b = 0x50" "th_opts b = []" "slo base b \<le> length S" "th_data b = drop (slo base b) S"
      "length (th_data b) = unat (th_urgptr b)" "SEQLE (snd_max (tb st)) (SEQ1ST b) \<Longrightarrow> sint (b_info b) \<le> int M"
    and c: "c \<noteq> []" "length (th_data b) + length c \<le> M" "M < 2 ^ 16" "length (S @ c) < 2 ^ 31"
    and w: "soff base (seq_write (tb st)) = length S" and f: "flags AND TCPF_FIN = 0"
  shows "txq base (S @ c) M (fill_seg flags c d st)" "qlo base S' (fill_seg flags c d st) = slo base (hd (xs @ [b]))"
    "segs (sndq (tc (fill_seg flags c d st))) \<noteq> []"
proof -
  let ?u = "th_urgptr b + word_of_nat (length c) :: u16"
  define b2 where "b2 = b\<lparr>th_data := th_data b @ c, th_urgptr := ?u, th_flags := th_flags b OR TCPF_PSH\<rparr>"
  have uc: "unat (word_of_nat (length c) :: u16) = length c" using c(2,3) by (simp add: unat_of_nat)
  have u: "unat ?u = unat (th_urgptr b) + length c"
    using unat_word_ariths(1) [of "th_urgptr b" "word_of_nat (length c)"] uc b(6) c(2,3) by simp
  have lo: "slo base b2 = slo base b" by (simp add: b2_def slo_def)
  have len: "length (th_data b2) = length S - slo base b + length c" "unat (th_urgptr b2) = length S - slo base b + length c"
    using b(5,6) u by (simp_all add: b2_def)
  have hi: "shi base b2 = length (S @ c)" using lo len(2) b(4) by (simp add: shi_def)
  have "from_stream base (S @ c) b2"
    unfolding from_stream_def hi lo using len c(1) b(4,5) by (cases c) (simp_all add: b2_def)
  moreover have "data_seg b2" "th_hdr b2 = 0x50" "th_opts b2 = []"
    using b(1-3) by (simp_all add: b2_def data_seg_def has_def bit.conj_disj_distrib2)
  ultimately have s: "sendable base (S @ c) (xs @ [b2])" using sendable_mono [OF q(2)] q(3) lo by (simp add: sendable_snoc)
  have st': "segs (sndq (tc (fill_seg flags c d st))) = xs @ [b2]" "tb (fill_seg flags c d st) =
      (tb st)\<lparr>seq_write := seq_write (tb st) + word_of_nat (length c)\<rparr>"
    using q(1) c(1) f by (simp_all add: fill_seg_def Let_def upd_tcb_def b2_def)
  have "soff base (seq_write (tb st) + word_of_nat (length c)) = length (S @ c)"
    using soff_add [of base "seq_write (tb st)" "length c"] w c(4) by simp
  moreover have "length (th_data b2) \<le> M" using c(2) len(1) b(5) by simp
  moreover have "SEQLE (snd_max (tb st)) (SEQ1ST b2) \<longrightarrow> sint (b_info b2) \<le> int M" using b(7) by (simp add: b2_def)
  ultimately show "txq base (S @ c) M (fill_seg flags c d st)" using s q(4) hi unfolding txq_def Let_def st' by auto
  show "qlo base S' (fill_seg flags c d st) = slo base (hd (xs @ [b]))" "segs (sndq (tc (fill_seg flags c d st))) \<noteq> []"
    using lo by (simp_all add: qlo_def st'(1) hd_append)
qed

lemma plain_flags:
  assumes "flags AND (TCPF_SYN OR TCPF_FIN) = (0 :: u8)"
  shows "flags AND TCPF_FIN = 0" "flags AND TCPF_SYN = 0"
proof -
  have "flags AND TCPF_FIN = (flags AND (TCPF_SYN OR TCPF_FIN)) AND TCPF_FIN" "flags AND TCPF_SYN = (flags AND (TCPF_SYN OR TCPF_FIN)) AND TCPF_SYN"
    by (simp_all add: and.assoc)
  then show "flags AND TCPF_FIN = 0" "flags AND TCPF_SYN = 0" unfolding assms by simp_all
qed

lemma txq_last:
  assumes "txq base S M st" and "segs (sndq (tc st)) = xs @ [b]"
  shows "sendable base S xs" "xs \<noteq> [] \<Longrightarrow> slo base b = shi base (last xs)" "\<forall>b \<in> set xs. length (th_data b) \<le> M"
    "data_seg b" "th_hdr b = 0x50" "th_opts b = []" "slo base b \<le> length S" "th_data b = drop (slo base b) S"
    "length (th_data b) = unat (th_urgptr b)" "SEQLE (snd_max (tb st)) (SEQ1ST b) \<Longrightarrow> sint (b_info b) \<le> int M"
    "soff base (seq_write (tb st)) = length S"
proof -
  have q: "sendable base S (xs @ [b])" "shi base b = length S" using assms by (simp_all add: txq_def)
  then have "from_stream base S b" by (simp add: sendable_snoc)
  then show "slo base b \<le> length S" "th_data b = drop (slo base b) S" "length (th_data b) = unat (th_urgptr b)"
    using q(2) by (auto simp: from_stream_def shi_def)
  show "sendable base S xs" "xs \<noteq> [] \<Longrightarrow> slo base b = shi base (last xs)" "data_seg b" "th_hdr b = 0x50" "th_opts b = []"
    using q(1) by (simp_all add: sendable_snoc)
  show "\<forall>b \<in> set xs. length (th_data b) \<le> M" "SEQLE (snd_max (tb st)) (SEQ1ST b) \<Longrightarrow> sint (b_info b) \<le> int M"
    "soff base (seq_write (tb st)) = length S" using assms by (simp_all add: txq_def)
qed

text \<open>One turn of the loop.\<close>

lemma output_step:
  assumes i: "txq base S M st" and l: "length (S @ dat) < 2 ^ 31" "dat \<noteq> []"
    and M: "int M = sint (snd_mss (tb st)) - int TCP_MAXRETRY" "0 < M" "M < 2 ^ 16"
    and f: "flags AND (TCPF_SYN OR TCPF_FIN) = 0" and e: "e_bufok env (larp (tnet st))"
  shows "\<exists>r st1. 0 < r \<and> r \<le> length dat \<and> output_loop env first flags dat st =
      (if r < length dat then output_loop env False flags (drop r dat) st1 else Some (Inr (), st1)) \<and>
      txq base (S @ take r dat) M st1 \<and> tnet st1 = tnet st \<and> c_src (tc st1) = c_src (tc st) \<and> c_dst (tc st1) = c_dst (tc st) \<and>
      tb st1 = (tb st)\<lparr>seq_write := seq_write (tb st) + word_of_nat r\<rparr> \<and>
      segs (sndq (tc st1)) \<noteq> [] \<and> qlo base (S @ take r dat) st1 = qlo base S st"
proof (cases "cancombine flags st > 0")
  case True
  let ?q = "sndq (tc st)"
  have ne: "segs ?q \<noteq> []" and old: "SEQLE (snd_max (tb st)) (SEQ1ST (last (segs ?q)))"
    and room: "int (cancombine flags st) = sint (b_info (last (segs ?q))) - uint (th_urgptr (last (segs ?q)))"
    using True by (auto simp: cancombine_def Let_def split: if_splits)
  obtain xs b where q: "segs ?q = xs @ [b]" using ne by (metis append_butlast_last_id)
  note t = txq_last [OF i q]
  define r where "r = min (cancombine flags st) (length dat)"
  have r: "0 < r" "r \<le> length dat" using True l(2) by (simp_all add: r_def)
  have "int (cancombine flags st) \<le> int M - int (unat (th_urgptr b))" using room t(10) old q by simp
  then have "unat (th_urgptr b) + cancombine flags st \<le> M" by linarith
  moreover have "length (take r dat) \<le> cancombine flags st" by (simp add: r_def)
  ultimately have cap: "length (th_data b) + length (take r dat) \<le> M" unfolding t(9) by linarith
  let ?st = "st\<lparr>tc := (tc st)\<lparr>sndq := ?q\<lparr>curlen := curlen ?q + word_of_nat r\<rparr>\<rparr>\<rparr>"
  have q': "segs (sndq (tc ?st)) = xs @ [b]" "tb ?st = tb st" using q by simp_all
  have c: "take r dat \<noteq> []" "length (S @ take r dat) < 2 ^ 31" using r l by auto
  have fs: "txq base (S @ take r dat) M (fill_seg flags (take r dat) (r = length dat) ?st)"
    "qlo base (S @ take r dat) (fill_seg flags (take r dat) (r = length dat) ?st) = slo base (hd (xs @ [b]))"
    "segs (sndq (tc (fill_seg flags (take r dat) (r = length dat) ?st))) \<noteq> []"
    by (rule fill_seg_txq [OF q'(1) t(1-3) t(4-9) _ c(1) cap M(3) c(2) _ plain_flags(1) [OF f]]; use t(10,11) q'(2) in simp)+
  moreover have "qlo base S st = slo base (hd (xs @ [b]))" by (simp add: qlo_def q)
  moreover have "output_loop env first flags dat st = (if r < length dat
      then output_loop env False flags (drop r dat) (fill_seg flags (take r dat) (r = length dat) ?st)
      else Some (Inr (), fill_seg flags (take r dat) (r = length dat) ?st))"
    using True by (subst output_loop.simps) (simp add: Let_def r_def)
  ultimately show ?thesis using r plain_flags(1) [OF f]
    by (intro exI [of _ r] exI [of _ "fill_seg flags (take r dat) (r = length dat) ?st"]) (simp_all, simp_all add: fill_seg_def Let_def upd_tcb_def)
next
  case False
  let ?q = "segs (sndq (tc st))"
  define r where "r = min M (length dat)"
  have r: "0 < r" "r \<le> length dat" "r \<le> M" using M(2) l(2) by (simp_all add: r_def)
  have ms: "\<not> sint (snd_mss (tb st)) < int TCP_MAXRETRY" "nat (sint (snd_mss (tb st))) - TCP_MAXRETRY = M" using M(1) by linarith+
  obtain b where b: "tcp_mkseg env [] st = Some b" "th_hdr b = 0x50" using e by (simp add: tcp_mkseg_def)
  let ?st = "enqueue_seg first flags r b st"
  define b1 where "b1 = b\<lparr>th_flags := flags AND NOT (TCPF_SYN OR TCPF_FIN) OR TCPF_ACK, th_seq := seq_write (tb st), th_urgptr := 0,
     b_info := snd_mss (tb st) - word_of_nat TCP_MAXRETRY, th_data := [], th_hdr := th_hdr b, th_opts := []\<rparr>"
  have st: "segs (sndq (tc ?st)) = ?q @ [b1]" "tb ?st = tb st" "tnet ?st = tnet st" "c_src (tc ?st) = c_src (tc st)" "c_dst (tc ?st) = c_dst (tc st)"
    using plain_flags(2) [OF f] by (simp_all add: enqueue_seg_def Let_def b1_def)
  have t: "sendable base S ?q" "?q \<noteq> [] \<Longrightarrow> shi base (last ?q) = length S" "\<forall>b \<in> set ?q. length (th_data b) \<le> M"
    "soff base (seq_write (tb st)) = length S" using i by (simp_all add: txq_def Let_def)
  have "sint (snd_mss (tb st) - 15) = sint (snd_mss (tb st)) - sint (15 :: u32)"
    by (rule sint_minus_32) (use M in simp_all)
  then have info: "sint (b_info b1) = int M" using M(1) by (simp add: b1_def)
  have nb: "data_seg b1" by (simp add: b1_def data_seg_def has_def bit.conj_disj_distrib2 and.assoc)
  have b1: "slo base b1 = length S" "th_hdr b1 = 0x50" "th_opts b1 = []" "th_data b1 = drop (slo base b1) S" "length (th_data b1) = unat (th_urgptr b1)"
    using t(4) b(2) by (simp_all add: b1_def slo_def)
  have c: "take r dat \<noteq> []" "length (th_data b1) + length (take r dat) \<le> M" "length (S @ take r dat) < 2 ^ 31"
    using r l by (auto simp: b1_def)
  have fs: "txq base (S @ take r dat) M (fill_seg flags (take r dat) (r = length dat) ?st)"
    "qlo base (S @ take r dat) (fill_seg flags (take r dat) (r = length dat) ?st) = slo base (hd (?q @ [b1]))"
    "segs (sndq (tc (fill_seg flags (take r dat) (r = length dat) ?st))) \<noteq> []"
    by (rule fill_seg_txq [OF st(1) t(1) _ t(3) nb b1(2,3) _ b1(4,5) _ c(1,2) M(3) c(3) _ plain_flags(1) [OF f]];
      use b1(1) t(2,4) info st(2) in simp)+
  moreover have "qlo base S st = slo base (hd (?q @ [b1]))" by (simp add: qlo_def hd_append b1(1))
  moreover have "output_loop env first flags dat st = (if r < length dat
      then output_loop env False flags (drop r dat) (fill_seg flags (take r dat) (r = length dat) ?st)
      else Some (Inr (), fill_seg flags (take r dat) (r = length dat) ?st))"
    using False ms b(1) by (subst output_loop.simps) (simp add: Let_def r_def)
  ultimately show ?thesis using r plain_flags(1) [OF f] st(2-5)
    by (intro exI [of _ r] exI [of _ "fill_seg flags (take r dat) (r = length dat) ?st"]) (simp_all, simp_all add: fill_seg_def Let_def upd_tcb_def)
qed

lemma output_loop_txq:
  assumes "txq base S M st" and "length (S @ dat) < 2 ^ 31" and "dat \<noteq> []" and "int M = sint (snd_mss (tb st)) - int TCP_MAXRETRY" "0 < M" "M < 2 ^ 16"
    and "flags AND (TCPF_SYN OR TCPF_FIN) = 0" and "e_bufok env (larp (tnet st))"
  shows "\<exists>st'. output_loop env first flags dat st = Some (Inr (), st') \<and> txq base (S @ dat) M st' \<and> tnet st' = tnet st \<and>
    c_src (tc st') = c_src (tc st) \<and> c_dst (tc st') = c_dst (tc st) \<and>
    tb st' = (tb st)\<lparr>seq_write := seq_write (tb st) + word_of_nat (length dat)\<rparr> \<and>
    segs (sndq (tc st')) \<noteq> [] \<and> qlo base (S @ dat) st' = qlo base S st"
  using assms
proof (induction "length dat" arbitrary: S st dat first rule: less_induct)
  case less
  note step = output_step [OF less.prems, of first]
  obtain r st1 where r: "0 < r" "r \<le> length dat" "output_loop env first flags dat st =
      (if r < length dat then output_loop env False flags (drop r dat) st1 else Some (Inr (), st1))"
      "txq base (S @ take r dat) M st1" "tnet st1 = tnet st" "c_src (tc st1) = c_src (tc st)" "c_dst (tc st1) = c_dst (tc st)"
      "tb st1 = (tb st)\<lparr>seq_write := seq_write (tb st) + word_of_nat r\<rparr>"
      "segs (sndq (tc st1)) \<noteq> []" "qlo base (S @ take r dat) st1 = qlo base S st" using step by blast
  show ?case
  proof (cases "r < length dat")
    case True
    have m: "int M = sint (snd_mss (tb st1)) - int TCP_MAXRETRY" using less.prems(4) r(8) by simp
    have l: "length ((S @ take r dat) @ drop r dat) < 2 ^ 31" "drop r dat \<noteq> []" using less.prems(2) True by simp_all
    have b: "e_bufok env (larp (tnet st1))" using less.prems(8) r(5) by simp
    obtain st' where st': "output_loop env False flags (drop r dat) st1 = Some (Inr (), st')" "txq base ((S @ take r dat) @ drop r dat) M st'"
      "tnet st' = tnet st1" "c_src (tc st') = c_src (tc st1)" "c_dst (tc st') = c_dst (tc st1)"
      "tb st' = (tb st1)\<lparr>seq_write := seq_write (tb st1) + word_of_nat (length (drop r dat))\<rparr>"
      "segs (sndq (tc st')) \<noteq> []" "qlo base ((S @ take r dat) @ drop r dat) st' = qlo base (S @ take r dat) st1"
      using less.hyps [OF _ r(4) l m less.prems(5-7) b, of False] r(1) less.prems(3) by auto
    have "word_of_nat r + word_of_nat (length dat - r) = (word_of_nat (length dat) :: u32)"
      using True by (simp flip: of_nat_add)
    then show ?thesis using st' r(3,5-10) True by (intro exI [of _ st']) (simp add: add.assoc)
  next
    case False
    then have "r = length dat" using r(2) by simp
    then show ?thesis using r(3-10) by (intro exI [of _ st1]) simp
  qed
qed

section \<open>From the application to the wire\<close>

lemma run_of_bound: "run_of base S x ss y \<Longrightarrow> x \<le> length S \<Longrightarrow> y \<le> length S"
  by (induction ss arbitrary: x) (auto simp: from_stream_def)

lemma same_segs_map:
  assumes "same_segs xs ys" and "\<And>s. f (s\<lparr>b_info := 0\<rparr>) = f s"
  shows "map f xs = map f ys"
  using arg_cong [OF assms(1) [unfolded same_segs_def], of "map f"] by (simp add: comp_def assms(2))

lemma same_segs_shape:
  assumes "same_segs xs ys"
  shows "map th_data xs = map th_data ys" "map (slo base) xs = map (slo base) ys" "map (shi base) xs = map (shi base) ys"
  by (rule same_segs_map [OF assms]; simp add: slo_def shi_def)+

lemma sendable_concat:
  assumes "sendable base S q" and "q \<noteq> []" and "shi base (last q) = length S"
  shows "concat (map th_data q) = drop (slo base (hd q)) S"
  using assms
proof (induction q)
  case (Cons b q)
  have b: "th_data b = take (unat (th_urgptr b)) (drop (slo base b) S)" "shi base b = slo base b + unat (th_urgptr b)"
    using Cons.prems(1) by (simp_all add: sendable_Cons from_stream_def shi_def)
  show ?case
  proof (cases "q = []")
    case True
    then show ?thesis using b Cons.prems(3) by simp
  next
    case False
    then have "concat (map th_data q) = drop (shi base b) S" using Cons.IH Cons.prems by (simp add: sendable_Cons)
    then have "concat (map th_data (b # q)) = take (unat (th_urgptr b)) (drop (slo base b) S) @ drop (unat (th_urgptr b)) (drop (slo base b) S)"
      using b by (simp add: add.commute)
    then show ?thesis by (simp only: append_take_drop_id list.sel)
  qed
qed simp

lemma send_limit_nodelay:
  assumes "tflag TCBF_NDELAY st"
    and w: "soff base (snd_wndack (tb st)) + unat (snd_wnd (tb st)) < 2 ^ 31" "soff base (snd_wndack (tb st)) + unat (snd_cwnd (tb st)) < 2 ^ 31"
  shows "soff base (send_limit st) = soff base (snd_wndack (tb st)) + min (unat (snd_wnd (tb st))) (unat (snd_cwnd (tb st)))"
proof -
  let ?t = "tb st"
  have s: "sint (snd_wnd ?t) = int (unat (snd_wnd ?t))" "sint (snd_cwnd ?t) = int (unat (snd_cwnd ?t))"
    using w sint_word_of_nat_32 [of "unat (snd_wnd ?t)"] sint_word_of_nat_32 [of "unat (snd_cwnd ?t)"] by simp_all
  have "sint (snd_wnd ?t) < sint (snd_cwnd ?t) \<longleftrightarrow> unat (snd_wnd ?t) < unat (snd_cwnd ?t)" by (simp only: s of_nat_less_iff)
  then show ?thesis
    using assms(1) w soff_add [of base "snd_wndack ?t" "unat (snd_wnd ?t)"] soff_add [of base "snd_wndack ?t" "unat (snd_cwnd ?t)"]
    by (cases "sint (snd_wnd ?t) < sint (snd_cwnd ?t)") (simp_all add: send_limit_def Let_def)
qed

text \<open>
  C1: A write of a connection that is sending. The bytes go to the end of the send queue, which
  then holds the stream up to its new end; and what leaves for the peer is a run of datagrams
  with right checksums whose segments carry the bytes of the stream from \<^verbatim>\<open>snd_nxt\<close> on at their
  places, without a gap and never past the window of the peer or the congestion window.
  Without the delay for small segments, every segment that fits these windows leaves, and
  everything if they have room for it.
\<close>
theorem tcp_output_stream:
  assumes st: "ostate (tb st) = TCBOS_XMIT" "txq base S M st" "qlo base S st \<le> soff base (snd_nxt (tb st))" "soff base (snd_nxt (tb st)) \<le> length S"
    and d: "length (S @ dat) < 2 ^ 31" "dat \<noteq> []" "flags AND (TCPF_SYN OR TCPF_FIN) = 0" "flags AND TCPF_URG = 0"
    and M: "int M = sint (snd_mss (tb st)) - int TCP_MAXRETRY" "0 < M" "M < 2 ^ 16"
    and w: "soff base (snd_wndack (tb st)) + unat (snd_wnd (tb st)) < 2 ^ 31" "soff base (snd_wndack (tb st)) + unat (snd_cwnd (tb st)) < 2 ^ 31"
    and o: "peer_open env i nif st" "IP_MINLEN + TCP_MINLEN + M \<le> unat (nif_mtu nif)" "IP_MINLEN + TCP_MINLEN + M < 65535"
  shows "\<exists>ps ss st'. tcp_output env dat flags st = Some (Inr (), st') \<and>
    concat (map th_data (segs (sndq (tc st')))) = drop (qlo base S st) (S @ dat) \<and>
    tcp_sent i st' = tcp_sent i st @ ps \<and> list_all2 (carries (c_src (tc st)) (c_dst (tc st))) ps ss \<and>
    run_of base (S @ dat) (soff base (snd_nxt (tb st))) ss (soff base (snd_nxt (tb st'))) \<and>
    soff base (snd_nxt (tb st')) \<le> max (soff base (snd_nxt (tb st)))
      (soff base (snd_wndack (tb st)) + min (unat (snd_wnd (tb st))) (unat (snd_cwnd (tb st)))) \<and>
    (tflag TCBF_NDELAY st \<longrightarrow> (\<forall>b \<in> set (segs (sndq (tc st'))).
      shi base b \<le> soff base (snd_wndack (tb st)) + min (unat (snd_wnd (tb st))) (unat (snd_cwnd (tb st))) \<longrightarrow>
      shi base b \<le> soff base (snd_nxt (tb st')))) \<and>
    (tflag TCBF_NDELAY st \<and> length (S @ dat) \<le> soff base (snd_wndack (tb st)) + min (unat (snd_wnd (tb st))) (unat (snd_cwnd (tb st))) \<longrightarrow>
      soff base (snd_nxt (tb st')) = length (S @ dat))"
proof -
  have e: "e_bufok env (larp (tnet st))" using o(1) by (auto simp: peer_open_def reachable_def reaches_def link_open_def)
  obtain st1 where q: "output_loop env True flags dat st = Some (Inr (), st1)" "txq base (S @ dat) M st1" "tnet st1 = tnet st"
    "c_src (tc st1) = c_src (tc st)" "c_dst (tc st1) = c_dst (tc st)"
    "tb st1 = (tb st)\<lparr>seq_write := seq_write (tb st) + word_of_nat (length dat)\<rparr>"
    "segs (sndq (tc st1)) \<noteq> []" "qlo base (S @ dat) st1 = qlo base S st"
    using output_loop_txq [OF st(2) d(1,2) M d(3) e, of True] by blast
  have t: "snd_nxt (tb st1) = snd_nxt (tb st)" "snd_wndack (tb st1) = snd_wndack (tb st)" "snd_wnd (tb st1) = snd_wnd (tb st)"
    "snd_cwnd (tb st1) = snd_cwnd (tb st)" "tflag TCBF_NDELAY st1 = tflag TCBF_NDELAY st" "ostate (tb st1) = TCBOS_XMIT"
    using q(6) st(1) by (simp_all add: tflag_def)
  have x: "sendable base (S @ dat) (segs (sndq (tc st1)))" "soff base (seq_write (tb st1)) = length (S @ dat)"
    "\<forall>b \<in> set (segs (sndq (tc st1))). length (th_data b) \<le> M" "shi base (last (segs (sndq (tc st1)))) = length (S @ dat)"
    using q(2,7) by (simp_all add: txq_def Let_def)
  have h: "slo base (hd (segs (sndq (tc st1)))) = qlo base S st" using q(7,8) by (simp add: qlo_def)
  have p: "peer_open env i nif st1" using o(1) q(3-5) by (simp add: peer_open_def)
  have nx: "slo base (hd (segs (sndq (tc st1)))) \<le> soff base (snd_nxt (tb st1))" "soff base (snd_nxt (tb st1)) < length (S @ dat)"
    using h st(3,4) t(1) d(2) by (simp_all add: le_less_trans)
  have w1: "soff base (snd_wndack (tb st1)) + unat (snd_wnd (tb st1)) < 2 ^ 31" "soff base (snd_wndack (tb st1)) + unat (snd_cwnd (tb st1)) < 2 ^ 31"
    using w unfolding t by blast+
  have l: "\<forall>b \<in> set (segs (sndq (tc st1))). IP_MINLEN + TCP_MINLEN + length (th_data b) \<le> unat (nif_mtu nif) \<and>
      IP_MINLEN + TCP_MINLEN + length (th_data b) < 65535" using x(3) o(2,3) by fastforce
  obtain ps ss st' where s: "tcp_sndhead env st1 = Some st'" "tcp_sent i st' = tcp_sent i st1 @ ps"
    "list_all2 (carries (c_src (tc st1)) (c_dst (tc st1))) ps ss"
    "run_of base (S @ dat) (soff base (snd_nxt (tb st1))) ss (soff base (snd_nxt (tb st')))"
    "soff base (snd_nxt (tb st')) \<le> max (soff base (snd_nxt (tb st1)))
      (soff base (snd_wndack (tb st1)) + min (unat (snd_wnd (tb st1))) (unat (snd_cwnd (tb st1))))"
    "\<forall>b \<in> set (segs (sndq (tc st1))). shi base b \<le> soff base (send_limit st1) \<longrightarrow> shi base b \<le> soff base (snd_nxt (tb st'))"
    "same_segs (segs (sndq (tc st'))) (segs (sndq (tc st1)))"
    using tcp_sndhead_sends [OF d(1) x(2) x(1) q(7) nx w1 p l] by blast
  have "SEQLT (snd_nxt (tb st1)) (seq_write (tb st1))"
    using seq_cmp(1) [of base "snd_nxt (tb st1)" "seq_write (tb st1)"] nx(2) x(2) d(1) by simp
  then have "TCB_OSTATE env TCBOE_SEND st1 = Some st'" using t(6) s(1) by (simp add: TCB_OSTATE_def tcbos_xmit_def send_new_def)
  then have run: "tcp_output env dat flags st = Some (Inr (), st')" using d(2,4) q(1) by (simp add: tcp_output_def)
  have cat: "concat (map th_data (segs (sndq (tc st')))) = drop (qlo base S st) (S @ dat)"
    using sendable_concat [OF x(1) q(7) x(4)] same_segs_shape(1) [OF s(7)] h by simp
  have fit: "shi base b \<le> soff base (snd_nxt (tb st'))" if "tflag TCBF_NDELAY st" "b \<in> set (segs (sndq (tc st')))"
    "shi base b \<le> soff base (snd_wndack (tb st)) + min (unat (snd_wnd (tb st))) (unat (snd_cwnd (tb st)))" for b
  proof -
    have lim: "soff base (send_limit st1) = soff base (snd_wndack (tb st)) + min (unat (snd_wnd (tb st))) (unat (snd_cwnd (tb st)))"
      using send_limit_nodelay [OF _ w1] that(1) unfolding t by blast
    have "shi base b \<in> set (map (shi base) (segs (sndq (tc st1))))" using same_segs_shape(3) [OF s(7), of base] that(2) by (metis image_eqI set_map)
    then show ?thesis using s(6) that(3) lim by auto
  qed
  have all: "soff base (snd_nxt (tb st')) = length (S @ dat)"
    if "tflag TCBF_NDELAY st \<and> length (S @ dat) \<le> soff base (snd_wndack (tb st)) + min (unat (snd_wnd (tb st))) (unat (snd_cwnd (tb st)))"
  proof (rule antisym)
    have eq: "map (shi base) (segs (sndq (tc st'))) = map (shi base) (segs (sndq (tc st1)))" by (rule same_segs_shape(3) [OF s(7)])
    have ne: "segs (sndq (tc st')) \<noteq> []" using eq q(7) by auto
    have "shi base (last (segs (sndq (tc st')))) = length (S @ dat)" using arg_cong [OF eq, of last] ne q(7) x(4) by (simp add: last_map)
    then show "length (S @ dat) \<le> soff base (snd_nxt (tb st'))" using fit [of "last (segs (sndq (tc st')))"] that ne by simp
    show "soff base (snd_nxt (tb st')) \<le> length (S @ dat)" using run_of_bound [OF s(4)] nx(2) by simp
  qed
  have sent: "tcp_sent i st' = tcp_sent i st @ ps" using s(2) q(3) by simp
  show ?thesis
    by (rule exI [of _ ps], rule exI [of _ ss], rule exI [of _ st'], intro conjI impI ballI)
      (rule run cat sent s(3) [unfolded q(4,5)] s(4) [unfolded t(1)] s(5) [unfolded t(1-4)] | erule (2) fit | erule all)+
qed

text \<open>The host 10.0.0.1 writes three bytes to 10.0.0.2; the sequence numbers wrap around within them.\<close>

definition sample_tcb :: tcb where
  "sample_tcb = \<lparr>t_addr = 0x1000, tstate = TCBS_ESTABLISHED, ostate = TCBOS_XMIT, tflags = TCBF_NDELAY, snd_isn = 0xfffffffd,
     snd_una = 0xfffffffe, snd_nxt = 0xfffffffe, snd_max = 0xfffffffe, snd_wnd = 4096, snd_cwnd = 512, snd_thresh = 4096,
     snd_wndseq = 0, snd_wndack = 0xfffffffe, snd_wndmax = 4096, snd_ppw = 1, snd_mss = 71, snd_urg = 0xfffffffe, rcv_isn = 0,
     rcv_nxt = 1, rcv_wnd = 4097, rcv_mss = 536, rcv_urg = 1, seq_psh = 0, seq_fin = 0, seq_read = 1, seq_uread = 1,
     seq_write = 0xfffffffe, rttseq = 0, rtt = 0, rttdev = 0, backoff = 0, dupacks = 0, nretrans = 0, retrans_tmo = 100, persist_tmo = 100,
     timer_evt = 100, delete_evt = 101, ack_evt = 102, last_recv = 0, last_ack = 0, artt = 0, arttdev = 0\<rparr>"

definition sample_tcp :: tcpst where
  "sample_tcp = \<lparr>tc = \<lparr>c_src = \<lparr>saddr = 0x0a000001, sport = 1024\<rparr>, c_dst = \<lparr>saddr = 0x0a000002, sport = 23\<rparr>, c_flags = 0,
     c_opts = def_opts, c_err = None, rcvq = \<lparr>maxlen = 4096, curlen = 0, segs = []\<rparr>, sndq = \<lparr>maxlen = 4096, curlen = 0, segs = []\<rparr>,
     c_sock = None, c_tcb = sample_tcb, c_gone = False\<rparr>, tnet = sample_host, twakes = []\<rparr>"

lemma sample_peer: "peer_open sample_env 1 sample_slip96 sample_tcp"
proof -
  obtain rts rt where r: "reaches sample_env (iph_saddr sample_ping) 7 rt sample_slip96 rts sample_host" "rt_nif rt = 1"
    using sample_ping_route by blast
  have s: "iph_saddr sample_ping = 0x0a000002" by (simp add: sample_ping_def iph_saddr_def pk32_def be32_def)
  have l: "lroutes sample_host = routes1" by (simp add: sample_host_def sample_ip_def)
  have "reachable sample_env 0x0a000002 1 sample_slip96 sample_host" unfolding reachable_def
    using r s l routes1_inv by (intro exI [of _ "\<lambda>_. 0"] exI [of _ 7] exI [of _ rt] exI [of _ rts]) simp
  then show ?thesis by (simp add: peer_open_def sample_tcp_def)
qed

theorem tcp_output_stream_witness:
  "\<exists>ps ss st'. tcp_output sample_env [1, 2, 3] 0 sample_tcp = Some (Inr (), st') \<and> tcp_sent 1 st' = tcp_sent 1 sample_tcp @ ps \<and>
     list_all2 (carries (c_src (tc sample_tcp)) (c_dst (tc sample_tcp))) ps ss \<and> run_of 0xfffffffe [1, 2, 3] 0 ss 3"
proof -
  let ?b = "0xfffffffe :: u32"
  have t: "tb sample_tcp = sample_tcb" "segs (sndq (tc sample_tcp)) = []" by (simp_all add: sample_tcp_def)
  have q: "txq ?b [] 56 sample_tcp" "qlo ?b [] sample_tcp = 0" by (simp_all add: txq_def qlo_def t sendable_def soff_def sample_tcb_def)
  have m: "unat (nif_mtu sample_slip96) = 96" by (simp add: sample_slip96_def)
  have n: "soff ?b (snd_nxt (tb sample_tcp)) = 0" "soff ?b (snd_wndack (tb sample_tcp)) = 0" "unat (snd_wnd (tb sample_tcp)) = 4096"
    "unat (snd_cwnd (tb sample_tcp)) = 512" "tflag TCBF_NDELAY sample_tcp" "ostate (tb sample_tcp) = TCBOS_XMIT"
    "int 56 = sint (snd_mss (tb sample_tcp)) - int TCP_MAXRETRY"
    by (simp_all add: t soff_def sample_tcb_def tflag_def)
  obtain ps ss st' where r: "tcp_output sample_env [1, 2, 3] 0 sample_tcp = Some (Inr (), st')"
    "tcp_sent 1 st' = tcp_sent 1 sample_tcp @ ps" "list_all2 (carries (c_src (tc sample_tcp)) (c_dst (tc sample_tcp))) ps ss"
    "run_of ?b ([] @ [1, 2, 3]) (soff ?b (snd_nxt (tb sample_tcp))) ss (soff ?b (snd_nxt (tb st')))"
    "soff ?b (snd_nxt (tb st')) = length ([] @ [1, 2, 3 :: u8])"
    using tcp_output_stream [OF n(6) q(1) _ _ _ _ _ _ n(7) _ _ _ _ sample_peer, of "[1, 2, 3]" 0] q(2) n m by auto
  show ?thesis using r n(1) by (intro exI [of _ ps] exI [of _ ss] exI [of _ st']) (simp add: numeral_eq_Suc)
qed

end
