(* ===== verification/TcpFlow.thy ===== *)
theory TcpFlow
  imports TcpIn TcpSend
begin

text \<open>
  The receiving side of a connection over the whole handler: what acknowledgments, windows and
  replies do to the sending side leaves the receive queue, the state and the socket alone, so
  the states follow the protocol and the application reads the stream of the peer.
\<close>

section \<open>What the sending side leaves alone\<close>

definition rside :: "tcpst \<Rightarrow> tcbstate \<times> tcpq \<times> u32 \<times> u32 \<times> u32 \<times> bool \<times> bool \<times> tsock option" where
  "rside st = (tstate (tb st), rcvq (tc st), rcv_nxt (tb st), seq_read (tb st), seq_fin (tb st), tflag TCBF_FIN st,
     c_gone (tc st), c_sock (tc st))"

lemma rside_upd:
  assumes "\<And>t. tstate (f t) = tstate t" "\<And>t. rcv_nxt (f t) = rcv_nxt t" "\<And>t. seq_read (f t) = seq_read t"
    "\<And>t. seq_fin (f t) = seq_fin t" "\<And>t. tflags (f t) AND TCBF_FIN = tflags t AND TCBF_FIN"
  shows "rside (upd_tcb f st) = rside st"
  using assms by (simp add: rside_def upd_tcb_def tflag_def)

lemma fin_bit:
  "(w OR 8) AND 2 = w AND (2 :: u16)" "(w OR 0x20) AND 2 = w AND (2 :: u16)" "(w OR 0x40) AND 2 = w AND (2 :: u16)"
  "(w OR 1) AND 2 = w AND (2 :: u16)"
  "(w AND - 33) AND 2 = w AND (2 :: u16)" "(w AND - 73) AND 2 = w AND (2 :: u16)" "(w AND - 65) AND 2 = w AND (2 :: u16)"
  by (simp_all add: bit.conj_disj_distrib2 and.assoc)

lemma rside_simps [simp]:
  "rside (st\<lparr>tnet := n\<rparr>) = rside st" "rside (wakes ws st) = rside st" "rside (free_segs xs st) = rside st"
  "rside (tcp_event_del ev st) = rside st" "rside (tcb_error e st) = rside st" "rside (so_wake ws st) = rside st"
  "rside (set_flag 8 st) = rside st" "rside (clr_flag 0x20 st) = rside st" "rside (clr_flag 0x48 st) = rside st"
  "rside (clr_flag 0x40 st) = rside st" "rside (set_flag 0x20 st) = rside st"
  by (simp_all add: rside_def wakes_def free_segs_def tcp_event_del_def tcb_error_def so_wake_def set_flag_def clr_flag_def
      upd_tcb_def tflag_def fin_bit Let_def)

lemma rside_sndq [simp]: "rside (st\<lparr>tc := (tc st)\<lparr>sndq := q\<rparr>\<rparr>) = rside st"
  by (simp add: rside_def tflag_def)

lemma rside_events:
  "tcp_event_add env ev d f st = Some st' \<Longrightarrow> rside st' = rside st"
  "tcp_event_reset env ev d st = Some st' \<Longrightarrow> rside st' = rside st"
  by (auto simp: tcp_event_add_def tcp_event_reset_def)

lemma rside_rcvwnd: "tcp_rcvwnd u st = (w, st') \<Longrightarrow> rside st' = rside st"
  using tcp_rcvwnd_form [of u st] by (auto simp: rside_upd)

lemma rside_ip_send: "tcp_ip_send env s st = Some (r, st') \<Longrightarrow> rside st' = rside st"
  by (auto simp: tcp_ip_send_def Let_def bind_eq_Some_conv)

lemma rside_sndseg: "tcp_sndseg env bs n a b st = Some (r, st') \<Longrightarrow> rside st' = rside st"
  by (auto simp: tcp_sndseg_def Let_def bind_eq_Some_conv rside_upd dest!: rside_ip_send rside_rcvwnd
      split: list.splits if_splits prod.splits)

lemma rside_rtt [simp]: "rside (tcp_rtt b st) = rside st" "rside (tcp_artt st) = rside st"
  by (simp_all add: tcp_rtt_def tcp_artt_def rside_def upd_tcb_def tflag_def Let_def fin_bit)

lemma rside_fold_rtt [simp]: "rside (fold tcp_rtt xs st) = rside st"
  by (induction xs arbitrary: st) simp_all

lemma rside_dropdata: "tcp_dropdata st = Some (n, st') \<Longrightarrow> rside st' = rside st"
  by (auto simp: tcp_dropdata_def Let_def bind_eq_Some_conv rside_upd split: if_splits)

lemma rside_note_sent [simp]: "rside (upd_tcb (note_sent x) st) = rside st"
  by (simp add: rside_upd note_sent_def)

lemma rside_sndhead_loop: "sndhead_loop env w k r bs st = Some (x, st') \<Longrightarrow> rside st' = rside st"
proof (induction bs arbitrary: k r st x)
  case (Cons b bs)
  from Cons.prems show ?case
    by (auto simp: Let_def bind_eq_Some_conv rside_upd note_sent_def split: if_splits sum.splits prod.splits
        dest!: rside_sndseg Cons.IH)
qed simp

lemma rside_sndhead: "tcp_sndhead env st = Some st' \<Longrightarrow> rside st' = rside st"
  by (auto simp: tcp_sndhead_def Let_def bind_eq_Some_conv rside_upd dest!: rside_sndhead_loop split: if_splits prod.splits)

lemma rside_output_ack: "tcp_output_ack env f st = Some (r, st') \<Longrightarrow> rside st' = rside st"
  by (auto simp: tcp_output_ack_def dest!: rside_ip_send rside_rcvwnd split: option.splits prod.splits)

lemmas rside_rules = rside_events rside_sndseg rside_dropdata rside_sndhead

lemma rside_send_new: "send_new env st = Some st' \<Longrightarrow> rside st' = rside st"
  by (auto simp: send_new_def dest: rside_sndhead split: if_splits)

lemma rside_wnd_upd [simp]:
  "rside (upd_tcb slow_start st) = rside st" "rside (upd_tcb shrink_cwnd st) = rside st"
  "rside (to_persist st) = rside st" "rside (xmit_wndclose st) = rside st"
  by (simp_all add: rside_upd slow_start_def shrink_cwnd_def to_persist_def xmit_wndclose_def Let_def)

lemma rside_xmit: "tcbos_xmit env ev st = Some st' \<Longrightarrow> ev \<noteq> TCBOE_TIMEOUT \<Longrightarrow> rside st' = rside st"
  by (cases ev) (auto simp: tcbos_xmit_def Let_def bind_eq_Some_conv rside_upd dest!: rside_send_new rside_dropdata rside_events split: if_splits)

lemma rside_retrans: "tcbos_retrans env ev st = Some st' \<Longrightarrow> ev \<noteq> TCBOE_TIMEOUT \<Longrightarrow> rside st' = rside st"
  by (cases ev) (auto simp: tcbos_retrans_def Let_def bind_eq_Some_conv rside_upd dest!: rside_send_new rside_dropdata rside_sndseg rside_events
      split: if_splits)

lemma rside_persist: "tcbos_persist env ev st = Some st' \<Longrightarrow> ev \<noteq> TCBOE_TIMEOUT \<Longrightarrow> rside st' = rside st"
  by (cases ev) (auto simp: tcbos_persist_def Let_def bind_eq_Some_conv rside_upd dest!: rside_send_new rside_dropdata rside_events split: if_splits)

lemma rside_idle: "tcbos_idle env ev st = Some st' \<Longrightarrow> rside st' = rside st"
  by (auto simp: tcbos_idle_def Let_def bind_eq_Some_conv rside_upd dest!: rside_sndhead rside_events split: if_splits)

lemma rside_ostate: "TCB_OSTATE env ev st = Some st' \<Longrightarrow> ev \<noteq> TCBOE_TIMEOUT \<Longrightarrow> rside st' = rside st"
  by (auto simp: TCB_OSTATE_def dest: rside_xmit rside_retrans rside_persist rside_idle split: tcbostate.splits)

lemma rside_reply: "tcp_reply env a b s p st = Some st' \<Longrightarrow> rside st' = rside st"
  by (auto simp: tcp_reply_def bind_eq_Some_conv)

lemma rside_sndrst: "tcp_sndrst env sa da s st = Some st' \<Longrightarrow> rside st' = rside st"
  by (auto simp: tcp_sndrst_def dest: rside_reply split: if_splits)

lemma rside_sndack: "tcp_sndack env sa da s st = Some st' \<Longrightarrow> rside st' = rside st"
  by (auto simp: tcp_sndack_def Let_def dest!: rside_reply rside_rcvwnd split: if_splits prod.splits)

lemma rside_ack_now: "ack_now env st = Some st' \<Longrightarrow> rside st' = rside st"
  by (auto simp: ack_now_def tcp_output_def dest: rside_output_ack)

lemma rside_delack: "tcp_delack env st = Some st' \<Longrightarrow> rside st' = rside st"
  by (auto simp: tcp_delack_def dest!: rside_events rside_ack_now split: if_splits)

lemma rside_sndwnd: "tcp_sndwnd s st = Some (e, st') \<Longrightarrow> rside st' = rside st \<and> e \<noteq> Some TCBOE_TIMEOUT"
  by (auto simp: tcp_sndwnd_def Let_def rside_def upd_tcb_def tflag_def split: if_splits)

text \<open>Whatever an acknowledgment sets going on the sending side, the receiving side stays as it is.\<close>

lemma rside_ack:
  assumes "tcp_ack env sa da s u st = Some (ok, st')"
  shows "rside st' = rside st"
proof (cases "has s TCPF_ACK")
  case True
  obtain cmd st1 st2 where h: "(if u then tcp_sndwnd s st else Some (None, st)) = Some (cmd, st1)"
    "(if SEQGT (th_ack s) (snd_max (tb st1)) then
        (if tstate (tb st1) = TCBS_SYNRCVD then tcp_sndrst env sa da s st1 else tcp_sndack env sa da s st1)
      else if SEQLT (snd_una (tb st1)) (th_ack s) then
        map_option (upd_tcb (\<lambda>t. t\<lparr>dupacks := 0\<rparr>)) (TCB_OSTATE env TCBOE_ACKRCVD (upd_tcb (\<lambda>t. t\<lparr>snd_una := th_ack s\<rparr>) st1))
      else if SEQLT (th_ack s) (snd_una (tb st1)) then Some st1
      else if snd_una (tb st1) = th_ack s \<and> snd_wnd (tb st) = ucast (th_window s) \<and> tcp_seglen s = 0 then
        TCB_OSTATE env TCBOE_DUPACK (upd_tcb (\<lambda>t. t\<lparr>dupacks := dupacks t + 1\<rparr>) st1)
      else Some st1) = Some st2"
    "(case cmd of None \<Rightarrow> Some st2 | Some ev \<Rightarrow> TCB_OSTATE env ev st2) = Some st'"
    using assms True by (auto simp: tcp_ack_def Let_def bind_eq_Some_conv)
  have 1: "rside st1 = rside st" "cmd \<noteq> Some TCBOE_TIMEOUT" using h(1) rside_sndwnd by (auto split: if_splits)
  have 2: "rside st2 = rside st1" using h(2)
    by (auto simp: rside_upd dest!: rside_ostate rside_sndrst rside_sndack split: if_splits)
  have "rside st' = rside st2" using h(3) 1(2) by (auto dest: rside_ostate split: option.splits)
  then show ?thesis using 1(1) 2 by simp
qed (use assms in \<open>simp add: tcp_ack_def\<close>)

section \<open>Data on the receiving side\<close>

lemma rside_eq_iff:
  "rside a = rside b \<longleftrightarrow> tstate (tb a) = tstate (tb b) \<and> rcvq (tc a) = rcvq (tc b) \<and> rcv_nxt (tb a) = rcv_nxt (tb b) \<and>
     seq_read (tb a) = seq_read (tb b) \<and> seq_fin (tb a) = seq_fin (tb b) \<and> tflag TCBF_FIN a = tflag TCBF_FIN b \<and>
     c_gone (tc a) = c_gone (tc b) \<and> c_sock (tc a) = c_sock (tc b)"
  by (auto simp: rside_def)

lemma rcv_enqueue_rside:
  assumes "rcv_enqueue s st = (nxt, a, st')"
  shows "\<exists>fr q r. rcv_merge (rcv_nxt (tb st)) (rcvq (tc st)) s = (fr, q, r, nxt) \<and> rside st' = rside (st\<lparr>tc := (tc st)\<lparr>rcvq := q\<rparr>\<rparr>)"
proof -
  obtain fr q r n where m: "rcv_merge (rcv_nxt (tb st)) (rcvq (tc st)) s = (fr, q, r, n)" by (cases "rcv_merge (rcv_nxt (tb st)) (rcvq (tc st)) s") auto
  have n: "r = None \<Longrightarrow> n = rcv_nxt (tb st)" using m by (auto simp: rcv_merge_def split: prod.splits option.splits)
  show ?thesis using assms m n by (cases r) (auto simp: rcv_enqueue_def Let_def split: if_splits)
qed

text \<open>What a segment does to the receiving side, with its \<^verbatim>\<open>SYN\<close> and \<^verbatim>\<open>FIN\<close>.\<close>

lemma rcvdata_rside:
  assumes "tcp_rcvdata env s st = Some st'"
  shows "tstate (tb st') = tstate (tb st)" "c_gone (tc st') = c_gone (tc st)" "c_sock (tc st') = c_sock (tc st)"
    "seq_read (tb st') = seq_read (tb st)"
    "\<not> has s TCPF_SYN \<Longrightarrow> \<not> has s TCPF_FIN \<Longrightarrow> \<not> tflag TCBF_FIN st \<Longrightarrow>
       \<not> tflag TCBF_FIN st' \<and> (\<exists>fr r. rcv_merge (rcv_nxt (tb st)) (rcvq (tc st))
         (s\<lparr>th_urgptr := ucast (tcp_datalen s), th_flags := th_flags s AND NOT (TCPF_SYN OR TCPF_PSH OR TCPF_FIN)\<rparr>) =
         (fr, rcvq (tc st'), r, rcv_nxt (tb st')))"
proof -
  define syn where "syn = has s TCPF_SYN"
  define s1 where "s1 = s\<lparr>th_urgptr := ucast (tcp_datalen s), th_seq := (if syn then th_seq s + 1 else th_seq s),
      th_flags := th_flags s AND NOT (TCPF_SYN OR TCPF_PSH OR TCPF_FIN)\<rparr>"
  define st1 where "st1 = (if syn then upd_tcb (\<lambda>t. t\<lparr>rcv_nxt := rcv_nxt t + 1\<rparr>) st else st)"
  define st2 where "st2 = (if has s TCPF_FIN then set_flag TCBF_FIN (upd_tcb (\<lambda>t. t\<lparr>seq_fin := th_seq s1 + tcp_datalen s\<rparr>) st1) else st1)"
  define st3 where "st3 = (if has s TCPF_PSH then set_flag TCBF_PSH (upd_tcb (\<lambda>t. t\<lparr>seq_psh := th_seq s1 + tcp_datalen s\<rparr>) st2) else st2)"
  obtain nxt a st4 where e: "rcv_enqueue s1 st3 = (nxt, a, st4)" by (cases "rcv_enqueue s1 st3") auto
  obtain fr q r where m: "rcv_merge (rcv_nxt (tb st3)) (rcvq (tc st3)) s1 = (fr, q, r, nxt)"
    and r4: "rside st4 = rside (st3\<lparr>tc := (tc st3)\<lparr>rcvq := q\<rparr>\<rparr>)" using rcv_enqueue_rside [OF e] by blast
  define fin where "fin = (tflag TCBF_FIN st4 \<and> seq_fin (tb st4) = nxt)"
  define st5 where "st5 = upd_tcb (\<lambda>t. t\<lparr>rcv_nxt := (if fin then nxt + 1 else nxt)\<rparr>) st4"
  have "(if sint (tcp_datalen s) > 0 \<or> has s TCPF_FIN then
           (if tstate (tb st5) = TCBS_ESTABLISHED \<and> \<not> (a \<or> fin) then tcp_delack env st5 else ack_now env st5)
         else Some st5) = Some st'"
    using assms [unfolded tcp_rcvdata_def Let_def, folded syn_def, folded s1_def, folded st1_def, folded st2_def, folded st3_def,
        unfolded e prod.case, folded fin_def, folded st5_def] .
  then have r5: "rside st' = rside st5" by (auto dest: rside_delack rside_ack_now split: if_splits)
  have k3: "tstate (tb st3) = tstate (tb st)" "c_gone (tc st3) = c_gone (tc st)" "c_sock (tc st3) = c_sock (tc st)"
    "seq_read (tb st3) = seq_read (tb st)" "rcvq (tc st3) = rcvq (tc st)"
    by (simp_all add: st3_def st2_def st1_def set_flag_def upd_tcb_def)
  have k5: "tstate (tb st5) = tstate (tb st4)" "c_gone (tc st5) = c_gone (tc st4)" "c_sock (tc st5) = c_sock (tc st4)"
    "seq_read (tb st5) = seq_read (tb st4)" "rcvq (tc st5) = rcvq (tc st4)" "tflag TCBF_FIN st5 = tflag TCBF_FIN st4"
    by (simp_all add: st5_def upd_tcb_def tflag_def)
  note r4 = r4 [unfolded rside_eq_iff, simplified]
  note r5 = r5 [unfolded rside_eq_iff]
  show "tstate (tb st') = tstate (tb st)" "c_gone (tc st') = c_gone (tc st)" "c_sock (tc st') = c_sock (tc st)"
    "seq_read (tb st') = seq_read (tb st)" using r4 r5 k3 k5 by simp_all
  assume p: "\<not> has s TCPF_SYN" "\<not> has s TCPF_FIN" "\<not> tflag TCBF_FIN st"
  have f3: "\<not> tflag TCBF_FIN st3" "rcv_nxt (tb st3) = rcv_nxt (tb st)"
    using p by (simp_all add: st3_def st2_def st1_def syn_def set_flag_def upd_tcb_def tflag_def fin_bit)
  have "\<not> tflag TCBF_FIN st4" using r4 f3(1) by (simp add: tflag_def)
  then have f5: "\<not> tflag TCBF_FIN st5" "rcv_nxt (tb st5) = nxt" by (simp_all add: st5_def upd_tcb_def tflag_def fin_def)
  have s1: "s1 = s\<lparr>th_urgptr := ucast (tcp_datalen s), th_flags := th_flags s AND NOT (TCPF_SYN OR TCPF_PSH OR TCPF_FIN)\<rparr>"
    using p(1) by (simp add: s1_def syn_def)
  have "rcvq (tc st') = q" "rcv_nxt (tb st') = nxt" "\<not> tflag TCBF_FIN st'" using r4 r5 k5 f5 by simp_all
  then show "\<not> tflag TCBF_FIN st' \<and> (\<exists>fr r. rcv_merge (rcv_nxt (tb st)) (rcvq (tc st))
         (s\<lparr>th_urgptr := ucast (tcp_datalen s), th_flags := th_flags s AND NOT (TCPF_SYN OR TCPF_PSH OR TCPF_FIN)\<rparr>) =
         (fr, rcvq (tc st'), r, rcv_nxt (tb st')))" using m f3(2) k3(5) unfolding s1 by metis
qed

end
