(* ===== verification/TcpStates.thy ===== *)
theory TcpStates
  imports TcpFlow
begin

text \<open>
  The states of a connection: which step a segment may cause, and what must have happened for
  the steps of closing.
\<close>

section \<open>What keeps the state\<close>

lemma rside_tstate: "rside a = rside b \<Longrightarrow> tstate (tb a) = tstate (tb b)"
  by (simp add: rside_eq_iff)

lemma rside_fill_seg [simp]: "rside (fill_seg flags dat done st) = rside st"
  by (simp add: fill_seg_def Let_def rside_def upd_tcb_def tflag_def)

lemma rside_enqueue_seg [simp]: "rside (enqueue_seg first flags r b st) = rside st"
  by (simp add: enqueue_seg_def Let_def rside_def upd_tcb_def tflag_def)

lemma output_loop_rside:
  assumes "output_loop env first flags dat st = Some (r, st')"
  shows "rside st' = rside st"
proof -
  have "rside (snd (r, st')) = rside st"
    by (rule output_loop.raw_induct [where P = "\<lambda>env first flags dat st y. rside (snd y) = rside st", OF _ assms])
      (auto simp: Let_def split: if_splits option.splits)
  then show ?thesis by simp
qed

lemma tcp_output_rside:
  assumes "tcp_output env dat flags st = Some (r, st')" and "flags AND TCPF_URG = 0"
  shows "rside st' = rside st"
  using assms by (auto simp: tcp_output_def Let_def bind_eq_Some_conv dest!: output_loop_rside rside_ostate rside_output_ack
      split: if_splits)

lemma tcb_ops_tstate [simp]:
  "tstate (tb (set_state s st)) = s" "tstate (tb (free_segs xs st)) = tstate (tb st)" "tstate (tb (wakes ws st)) = tstate (tb st)"
  "tstate (tb (so_wake ws st)) = tstate (tb st)" "tstate (tb (tcb_deltimers st)) = tstate (tb st)"
  "tstate (tb (flush_queues st)) = tstate (tb st)" "tstate (tb (tcb_reset e st)) = tstate (tb st)"
  "tstate (tb (tcb_delete st)) = TCBS_CLOSED" "tstate (tb (set_dead st)) = tstate (tb st)" "tstate (tb (so_free st)) = tstate (tb st)"
  "tstate (tb (set_window s' st)) = tstate (tb st)"
  by (simp_all add: set_state_def upd_tcb_def free_segs_def wakes_def so_wake_def tcb_deltimers_def tcp_event_del_def
      flush_queues_def tcb_reset_def tcb_delete_def set_dead_def so_free_def set_window_def Let_def tflag_def)

lemma set_so_tstate: "set_so s st = Some st' \<Longrightarrow> tstate (tb st') = tstate (tb st)"
  by (auto simp: set_so_def)

text \<open>What decides about the closing of a connection: the received \<^verbatim>\<open>FIN\<close>, and the acknowledgment of the one sent.\<close>

lemma tcb_wait_tc: "tcb_wait env st = Some st' \<Longrightarrow> tc st' = tc st"
  by (auto simp: tcb_wait_def tcp_event_add_def tcb_deltimers_def tcp_event_del_def split: if_splits)

lemma finished_cong: "tc st' = tc st \<Longrightarrow> tcp_finished st' = tcp_finished st" "tc st' = tc st \<Longrightarrow> fin_acked st' = fin_acked st"
  by (simp_all add: tcp_finished_def fin_acked_def tflag_def)

lemma finished_ops [simp]:
  "tcp_finished (set_state s st) = tcp_finished st" "tcp_finished (set_dead st) = tcp_finished st" "tcp_finished (wakes ws st) = tcp_finished st"
  "fin_acked (tcb_delete st) = fin_acked st" "fin_acked (set_state s st) = fin_acked st" "fin_acked (set_dead st) = fin_acked st" "fin_acked (wakes ws st) = fin_acked st"
  by (simp_all add: tcp_finished_def fin_acked_def tflag_def set_state_def upd_tcb_def set_dead_def wakes_def tcb_delete_def
      Let_def tcb_deltimers_def tcp_event_del_def flush_queues_def free_segs_def)

lemma set_so_both: "set_so s st = Some st' \<Longrightarrow> tstate (tb st') = tstate (tb st) \<and> tcp_finished st' = tcp_finished st"
  by (auto simp: set_so_def tcp_finished_def tflag_def)

lemma to_timewait_end:
  assumes "to_timewait env st = Some st'"
  shows "tstate (tb st') = TCBS_TIMEWAIT \<and> tcp_finished st' = tcp_finished st \<and> fin_acked st' = fin_acked st"
  using tcb_wait_tc [OF assms [unfolded to_timewait_def]] finished_cong [of st' "set_dead (set_state TCBS_TIMEWAIT st)"] by simp_all

lemma tcp_mss_tstate:
  assumes "tcp_mss a m st = Some (r, st')"
  shows "tstate (tb st') = tstate (tb st)"
proof -
  obtain rr net where g: "get_route a (tnet st) = Some (rr, net)" using assms by (auto simp: tcp_mss_def bind_eq_Some_conv)
  show ?thesis
  proof (cases rr)
    case None
    then show ?thesis using assms g by (auto simp: tcp_mss_def)
  next
    case (Some x)
    obtain rt n net' where st': "st' = st\<lparr>tc := (if sint (nif_maxpackets n) > 0 \<and>
          sint (word_of_int (sint (nif_maxpackets n)) * mss_for rt n m) < sint (maxlen (rcvq (tc st)))
        then (tc st)\<lparr>rcvq := (rcvq (tc st))\<lparr>maxlen := word_of_int (sint (nif_maxpackets n)) * mss_for rt n m\<rparr>\<rparr> else tc st),
        tnet := net'\<rparr>"
      using assms g Some unfolding tcp_mss_def Let_def by (auto simp only: bind_eq_Some_conv option.case prod.case option.inject prod.inject)
    show ?thesis unfolding st' by simp
  qed
qed

lemma peer_mss_tstate:
  assumes "peer_mss s st = Some st'"
  shows "tstate (tb st') = tstate (tb st)"
proof -
  obtain m mss st1 where m: "tcp_mss (saddr (c_dst (tc st))) m st = Some (mss, st1)"
    and st': "st' = upd_tcb (\<lambda>t. t\<lparr>snd_mss := mss, snd_cwnd := mss,
       snd_thresh := (if sint (snd_thresh t) < sint (2 * mss) then 2 * mss else snd_thresh t)\<rparr>) st1"
    using assms by (auto simp: peer_mss_def bind_eq_Some_conv)
  show ?thesis using tcp_mss_tstate [OF m] by (simp add: st' upd_tcb_def)
qed

lemmas tstate_rules = set_so_tstate peer_mss_tstate rcvdata_rside(1) rside_ack [THEN rside_tstate] rside_ack_now [THEN rside_tstate]
  rside_sndrst [THEN rside_tstate] rside_sndack [THEN rside_tstate]

section \<open>The steps of a connection\<close>

text \<open>Where a segment may take a connection from each state.\<close>

primrec next_states :: "tcbstate \<Rightarrow> tcbstate set" where
  "next_states TCBS_CLOSED = {}"
| "next_states TCBS_LISTEN = {}"
| "next_states TCBS_SYNSENT = {TCBS_CLOSED, TCBS_SYNRCVD, TCBS_ESTABLISHED}"
| "next_states TCBS_SYNRCVD = {TCBS_CLOSED, TCBS_ESTABLISHED, TCBS_CLOSEWAIT}"
| "next_states TCBS_ESTABLISHED = {TCBS_CLOSED, TCBS_CLOSEWAIT}"
| "next_states TCBS_FINWAIT1 = {TCBS_CLOSED, TCBS_FINWAIT2, TCBS_CLOSING, TCBS_TIMEWAIT}"
| "next_states TCBS_FINWAIT2 = {TCBS_CLOSED, TCBS_TIMEWAIT}"
| "next_states TCBS_CLOSEWAIT = {TCBS_CLOSED}"
| "next_states TCBS_LASTACK = {TCBS_CLOSED}"
| "next_states TCBS_CLOSING = {TCBS_CLOSED, TCBS_TIMEWAIT}"
| "next_states TCBS_TIMEWAIT = {TCBS_CLOSED}"

definition good_step :: "tseg \<Rightarrow> tcpst \<Rightarrow> tcpst \<Rightarrow> bool" where
  "good_step s st st' \<longleftrightarrow>
     (let a = tstate (tb st); b = tstate (tb st') in
      (a = b \<or> b \<in> next_states a) \<and>
      (b = TCBS_CLOSEWAIT \<and> a \<noteq> b \<or> b = TCBS_CLOSING \<and> a \<noteq> b \<or> b = TCBS_TIMEWAIT \<and> a \<in> {TCBS_FINWAIT1, TCBS_FINWAIT2} \<longrightarrow> tcp_finished st') \<and>
      (b = TCBS_FINWAIT2 \<and> a \<noteq> b \<or> b = TCBS_TIMEWAIT \<and> a \<in> {TCBS_FINWAIT1, TCBS_CLOSING} \<longrightarrow> fin_acked st') \<and>
      (b = TCBS_CLOSED \<and> a \<noteq> b \<longrightarrow> has s (TCPF_RST OR TCPF_SYN) \<or>
        a \<in> {TCBS_FINWAIT1, TCBS_FINWAIT2, TCBS_LASTACK, TCBS_CLOSING, TCBS_TIMEWAIT} \<and> c_sock (tc st) = None \<and> th_data s \<noteq> [] \<or>
        a = TCBS_LASTACK \<and> fin_acked st'))"

lemma rst_syn: "has s TCPF_RST \<Longrightarrow> has s (TCPF_RST OR TCPF_SYN)" "has s TCPF_SYN \<Longrightarrow> has s (TCPF_RST OR TCPF_SYN)"
proof -
  have m: "(w AND 6) AND 4 = w AND (4 :: u8)" "(w AND 6) AND 2 = w AND (2 :: u8)" for w by (simp_all add: and.assoc)
  show "has s TCPF_RST \<Longrightarrow> has s (TCPF_RST OR TCPF_SYN)" "has s TCPF_SYN \<Longrightarrow> has s (TCPF_RST OR TCPF_SYN)"
    using m [of "th_flags s"] by (auto simp: has_def)
qed

lemma kill_seg_cases:
  "kill_seg s st \<Longrightarrow> has s (TCPF_RST OR TCPF_SYN) \<or> c_sock (tc st) = None \<and> th_data s \<noteq> []"
  by (auto simp: kill_seg_def tcp_datalen_def)

lemma tcb_kill_closed: "tcb_kill env sa da s st = Some st' \<Longrightarrow> tstate (tb st') = TCBS_CLOSED"
  by (auto simp: tcb_kill_def)

lemma tcb_wait_end:
  assumes "tcb_wait env st = Some st'"
  shows "tstate (tb st') = tstate (tb st) \<and> fin_acked st' = fin_acked st \<and> tcp_finished st' = tcp_finished st"
  using tcb_wait_tc [OF assms] finished_cong [of st' st] by simp_all

lemma synrcvd_abort_closed: "synrcvd_abort st = Some st' \<Longrightarrow> tstate (tb st') = TCBS_CLOSED"
  by (auto simp: synrcvd_abort_def dest: set_so_tstate split: if_splits)

lemma step_synsent: "tcbs_synsent env sa da s st = Some st' \<Longrightarrow> tstate (tb st) = TCBS_SYNSENT \<Longrightarrow> good_step s st st'"
  unfolding tcbs_synsent_def Let_def
  by (auto simp: bind_eq_Some_conv good_step_def upd_tcb_def rst_syn [simplified] dest!: tstate_rules split: if_splits)

lemma step_synrcvd:
  assumes "tcbs_synrcvd env sa da s st = Some st'" and t: "tstate (tb st) = TCBS_SYNRCVD"
  shows "good_step s st st'"
proof (cases "has s TCPF_RST \<or> has s TCPF_SYN")
  case True
  have "tstate (tb st') = TCBS_CLOSED"
    using assms(1) True unfolding tcbs_synrcvd_def by (auto simp: bind_eq_Some_conv dest!: synrcvd_abort_closed split: if_splits)
  then show ?thesis using t True rst_syn [of s] by (auto simp: good_step_def)
next
  case False
  obtain ok st1 where a: "tcp_ack env sa da s False st = Some (ok, st1)"
    "(if \<not> ok then Some (free_segs [s] st1)
      else do {
        st2 \<leftarrow> tcp_rcvdata env s (set_window s (set_state TCBS_ESTABLISHED st1));
        st3 \<leftarrow> (if tflag TCBF_PASSIVE st2 then Some (wakes [WakeParent] st2)
                 else map_option (wakes [WakeWsel, WakeIO]) (set_so SS_ISCONNECTED st2));
        if tcp_finished st3 then do {
          st4 \<leftarrow> set_so SS_ISDISCONNECTING (set_state TCBS_CLOSEWAIT st3);
          Some (if tflag TCBF_PASSIVE st4 then st4 else wakes [WakeRsel] st4)
        }
        else Some st3
      }) = Some st'"
    using assms(1) False unfolding tcbs_synrcvd_def by (auto simp: bind_eq_Some_conv)
  show ?thesis
  proof (cases ok)
    case True
    then obtain st2 st3 where b: "tcp_rcvdata env s (set_window s (set_state TCBS_ESTABLISHED st1)) = Some st2"
      "(if tflag TCBF_PASSIVE st2 then Some (wakes [WakeParent] st2) else map_option (wakes [WakeWsel, WakeIO]) (set_so SS_ISCONNECTED st2)) = Some st3"
      "(if tcp_finished st3 then do {
          st4 \<leftarrow> set_so SS_ISDISCONNECTING (set_state TCBS_CLOSEWAIT st3);
          Some (if tflag TCBF_PASSIVE st4 then st4 else wakes [WakeRsel] st4)
        } else Some st3) = Some st'"
      using a(2) by (auto simp only: bind_eq_Some_conv if_False not_True_eq_False)
    have "tstate (tb st3) = TCBS_ESTABLISHED" using b(2) rcvdata_rside(1) [OF b(1)] by (auto dest: set_so_tstate split: if_splits)
    then have "tstate (tb st') = TCBS_ESTABLISHED \<or> tstate (tb st') = TCBS_CLOSEWAIT \<and> tcp_finished st'"
      using b(3) by (auto simp: bind_eq_Some_conv dest!: set_so_both split: if_splits)
    then show ?thesis using t by (auto simp: good_step_def)
  next
    case False
    then show ?thesis using a t by (auto simp: good_step_def dest: rside_ack [THEN rside_tstate])
  qed
qed

lemma step_established: "tcbs_established env sa da s st = Some st' \<Longrightarrow> tstate (tb st) = TCBS_ESTABLISHED \<Longrightarrow> good_step s st st'"
  unfolding tcbs_established_def
  by (auto simp: bind_eq_Some_conv good_step_def rst_syn [simplified] dest!: tstate_rules split: if_splits)

lemma step_finwait1:
  assumes "tcbs_finwait1 env sa da s st = Some st'" and t: "tstate (tb st) = TCBS_FINWAIT1"
  shows "good_step s st st'"
proof (cases "kill_seg s st")
  case True
  then show ?thesis using assms by (auto simp: tcbs_finwait1_def good_step_def dest!: tcb_kill_closed kill_seg_cases)
next
  case False
  obtain ok st1 where a: "tcp_ack env sa da s True st = Some (ok, st1)"
    "(if \<not> ok then Some (free_segs [s] st1)
      else do {
        st2 \<leftarrow> tcp_rcvdata env s st1;
        if tcp_finished st2 then
          (if SEQGT (seq_write (tb st2)) (snd_una (tb st2)) then Some (set_state TCBS_CLOSING st2) else to_timewait env st2)
        else if fin_acked st2 then tcb_wait env (set_state TCBS_FINWAIT2 st2)
        else Some st2
      }) = Some st'"
    using assms(1) False unfolding tcbs_finwait1_def by (auto simp: bind_eq_Some_conv)
  show ?thesis
  proof (cases ok)
    case True
    then obtain st2 where b: "tcp_rcvdata env s st1 = Some st2"
      "(if tcp_finished st2 then
          (if SEQGT (seq_write (tb st2)) (snd_una (tb st2)) then Some (set_state TCBS_CLOSING st2) else to_timewait env st2)
        else if fin_acked st2 then tcb_wait env (set_state TCBS_FINWAIT2 st2) else Some st2) = Some st'"
      using a(2) by (auto simp only: bind_eq_Some_conv if_False not_True_eq_False)
    have "tstate (tb st2) = TCBS_FINWAIT1" using rcvdata_rside(1) [OF b(1)] rside_ack [OF a(1)] t by (simp add: rside_eq_iff)
    moreover have "\<not> SEQGT (seq_write (tb st2)) (snd_una (tb st2)) \<Longrightarrow> fin_acked st2" by (simp add: fin_acked_def SEQGT_def SEQLE_def)
    ultimately show ?thesis using b(2) t
      by (auto simp: good_step_def dest!: to_timewait_end tcb_wait_end split: if_splits)
  next
    case False
    then show ?thesis using a t by (auto simp: good_step_def dest: rside_ack [THEN rside_tstate])
  qed
qed

lemma step_finwait2: "tcbs_finwait2 env sa da s st = Some st' \<Longrightarrow> tstate (tb st) = TCBS_FINWAIT2 \<Longrightarrow> good_step s st st'"
  unfolding tcbs_finwait2_def
  by (auto simp: bind_eq_Some_conv good_step_def dest!: tstate_rules kill_seg_cases to_timewait_end split: if_splits)

lemma step_closewait: "tcbs_closewait env sa da s st = Some st' \<Longrightarrow> tstate (tb st) = TCBS_CLOSEWAIT \<Longrightarrow> good_step s st st'"
  unfolding tcbs_closewait_def
  by (auto simp: good_step_def dest!: tstate_rules tcb_kill_closed split: if_splits)

lemma step_lastack: "tcbs_lastack env sa da s st = Some st' \<Longrightarrow> tstate (tb st) = TCBS_LASTACK \<Longrightarrow> good_step s st st'"
  unfolding tcbs_lastack_def
  by (auto simp: bind_eq_Some_conv good_step_def dest!: tstate_rules kill_seg_cases tcb_kill_closed split: if_splits)

lemma step_closing: "tcbs_closing env sa da s st = Some st' \<Longrightarrow> tstate (tb st) = TCBS_CLOSING \<Longrightarrow> good_step s st st'"
  unfolding tcbs_closing_def
  by (auto simp: bind_eq_Some_conv good_step_def dest!: tstate_rules kill_seg_cases tcb_kill_closed to_timewait_end split: if_splits)

lemma step_timewait: "tcbs_timewait env sa da s st = Some st' \<Longrightarrow> tstate (tb st) = TCBS_TIMEWAIT \<Longrightarrow> good_step s st st'"
  unfolding tcbs_timewait_def
  by (auto simp: bind_eq_Some_conv good_step_def dest!: tstate_rules kill_seg_cases tcb_wait_end split: if_splits)

text \<open>The checks only take something off a segment, and do not touch the state or the socket.\<close>

definition trimmed :: "tseg \<Rightarrow> tseg \<Rightarrow> bool" where
  "trimmed s s' \<longleftrightarrow> (\<exists>m k. th_flags s' = th_flags s AND m \<and> th_data s' = drop k (th_data s))"

lemma trimmed_simps [simp]:
  "trimmed s s" "trimmed s (s\<lparr>th_flags := th_flags s AND m\<rparr>)" "trimmed s (rcvurg_adjust s)"
  "trimmed s (s\<lparr>th_flags := th_flags s AND m, th_seq := q\<rparr>)"
  "trimmed s (s\<lparr>th_seq := q, th_flags := (th_flags s AND m) AND m'\<rparr>)"
  by (auto simp: trimmed_def rcvurg_adjust_def and.assoc intro: exI [of _ "- 1"] exI [of _ 0])

lemma trimmed_trans: "trimmed a b \<Longrightarrow> trimmed b c \<Longrightarrow> trimmed a c"
  by (auto simp: trimmed_def and.assoc)

lemma trimmed_has: "trimmed s s' \<Longrightarrow> has s' f \<Longrightarrow> has s f"
  by (auto simp: trimmed_def has_def) (metis and.assoc and.commute bit.conj_zero_right)

lemma tcp_rcvurg_trims:
  assumes "tcp_rcvurg env s st = Some (s', st')"
  shows "trimmed s s'" "tstate (tb st') = tstate (tb st)" "c_sock (tc st') = c_sock (tc st)"
proof -
  have w: "c_sock (tc (so_wake ws st)) = c_sock (tc st)" "c_sock (tc (free_segs xs st)) = c_sock (tc st)" for ws xs st
    by (simp_all add: so_wake_def wakes_def free_segs_def)
  show "trimmed s s'" using assms
    by (auto simp: tcp_rcvurg_def Let_def bind_eq_Some_conv split: if_splits prod.splits option.splits)
  have "tstate (tb st') = tstate (tb st) \<and> c_sock (tc st') = c_sock (tc st)" using assms
    by (auto simp: tcp_rcvurg_def Let_def bind_eq_Some_conv w upd_tcb_def rside_eq_iff dest!: rside_ack_now
        split: if_splits prod.splits option.splits)
  then show "tstate (tb st') = tstate (tb st)" "c_sock (tc st') = c_sock (tc st)" by blast+
qed

lemma tcp_valid_trims: "tcp_valid s st = (ok, s') \<Longrightarrow> trimmed s s'"
  by (auto simp: tcp_valid_def Let_def split: if_splits intro: trimmed_trans)

lemma good_step_trimmed:
  assumes "good_step s' st1 st'" and "trimmed s s'" and "tstate (tb st1) = tstate (tb st)" and "c_sock (tc st1) = c_sock (tc st)"
  shows "good_step s st st'"
proof -
  have "th_data s' \<noteq> [] \<Longrightarrow> th_data s \<noteq> []" using assms(2) by (auto simp: trimmed_def)
  then show ?thesis using assms(1,3,4) trimmed_has [OF assms(2)] unfolding good_step_def Let_def by metis
qed

text \<open>A listening socket stays as it is; the new connection starts in \<^verbatim>\<open>SYNRCVD\<close>.\<close>

lemma syn_flags: "th_flags s AND (TCPF_RST OR TCPF_SYN) = TCPF_SYN \<Longrightarrow> has s TCPF_SYN \<and> \<not> has s TCPF_RST"
proof -
  assume "th_flags s AND (TCPF_RST OR TCPF_SYN) = TCPF_SYN"
  moreover have "th_flags s AND 4 = (th_flags s AND 6) AND 4" "th_flags s AND 2 = (th_flags s AND 6) AND 2" by (simp_all add: and.assoc)
  ultimately show ?thesis by (simp add: has_def)
qed

lemma passive_tstate: "tstate (c_tcb (passive_conn L sa da s c)) = TCBS_SYNRCVD"
  by (simp add: passive_conn_def Let_def split: prod.splits)

lemma step_listen:
  assumes "tcbs_listen env L sa da s st = Some (nc, st')"
  shows "tc st' = tc st" "nc = Some c \<Longrightarrow> has s TCPF_SYN \<and> \<not> has s TCPF_RST \<and> \<not> has s TCPF_ACK \<and> tstate (c_tcb c) = TCBS_SYNRCVD"
proof -
  have f: "tc (free_segs xs x) = tc x" for xs x by (simp add: free_segs_def)
  have r: "tc x' = tc x" if "tcp_sndrst env sa da s x = Some x'" for x x'
    using that by (auto simp: tcp_sndrst_def tcp_reply_def bind_eq_Some_conv split: if_splits)
  show "tc st' = tc st" using assms unfolding tcbs_listen_def
    by (auto simp: bind_eq_Some_conv Let_def f dest: r split: if_splits)
  assume nc: "nc = Some c"
  have n: "th_flags s AND (TCPF_RST OR TCPF_SYN) = TCPF_SYN" "\<not> has s TCPF_ACK"
    using assms nc unfolding tcbs_listen_def by (auto split: if_splits)
  obtain mss st1 st3 st4 st5 r st6 where h: "tcp_mss sa TCP_MAXMSS (st\<lparr>tc := passive_conn L sa da s (tc st)\<rparr>) = Some (mss, st1)"
    "set_so SS_ISCONNECTING (upd_tcb (\<lambda>t. t\<lparr>rcv_mss := mss\<rparr>) st1) = Some st3" "peer_mss s st3 = Some st4"
    "tcp_rcvdata env s st4 = Some st5" "tcp_output env [] (TCPF_SYN OR TCPF_ACK) st5 = Some (r, st6)" "c = tc st6"
    using assms nc unfolding tcbs_listen_def by (auto simp: bind_eq_Some_conv Let_def split: if_splits)
  have "tstate (tb st6) = tstate (tb st5)" using rside_tstate [OF tcp_output_rside [OF h(5)]] by simp
  also have "\<dots> = tstate (tb st1)"
    using rcvdata_rside(1) [OF h(4)] peer_mss_tstate [OF h(3)] set_so_tstate [OF h(2)] by (simp add: upd_tcb_def)
  also have "\<dots> = TCBS_SYNRCVD" using tcp_mss_tstate [OF h(1)] passive_tstate by simp
  finally show "has s TCPF_SYN \<and> \<not> has s TCPF_RST \<and> \<not> has s TCPF_ACK \<and> tstate (c_tcb c) = TCBS_SYNRCVD"
    using n syn_flags [of s] h(6) by simp
qed

text \<open>Each state's handler makes a good step.\<close>

lemma step_closed: "tcbs_closed env sa da s st = Some st' \<Longrightarrow> tstate (tb st) = TCBS_CLOSED \<Longrightarrow> good_step s st st'"
  by (auto simp: tcbs_closed_def good_step_def dest!: tstate_rules)

lemmas handler_steps = step_closed step_synsent step_synrcvd step_established step_finwait1 step_finwait2 step_closewait
  step_lastack step_closing step_timewait

lemma tcb_state_step:
  assumes "tcb_state env L sa da s st = Some (nc, st')"
  shows "good_step s st st'" "nc = Some c \<Longrightarrow> tstate (tb st) = TCBS_LISTEN \<and> tcbs_listen env L sa da s st = Some (nc, st')"
proof -
  show "good_step s st st'"
  proof (cases "tstate (tb st) = TCBS_LISTEN")
    case True
    then show ?thesis using assms step_listen(1) [of env L sa da s st nc st'] by (simp add: tcb_state_def good_step_def)
  next
    case False
    then show ?thesis using assms by (auto simp: tcb_state_def intro: handler_steps split: tcbstate.splits)
  qed
  show "nc = Some c \<Longrightarrow> tstate (tb st) = TCBS_LISTEN \<and> tcbs_listen env L sa da s st = Some (nc, st')"
    using assms by (auto simp: tcb_state_def split: tcbstate.splits)
qed

lemma listen_checks:
  assumes "tcp_rcvurg env s st = Some (s1, st1)" and "tcp_valid s1 st1 = (ok, s2)" and "tstate (tb st1) = TCBS_LISTEN"
  shows "s2 = s \<or> s2 = s\<lparr>th_flags := th_flags s AND NOT TCPF_URG\<rparr>"
proof -
  have l: "TCBS_LISTEN < TCBS_SYNRCVD" by (simp add: less_tcbstate_def)
  have "s2 = s1" using assms(2,3) l by (simp add: tcp_valid_def Let_def)
  moreover have "s1 = s \<or> s1 = s\<lparr>th_flags := th_flags s AND NOT TCPF_URG\<rparr>"
    using assms(1) tcp_rcvurg_trims(2) [OF assms(1)] assms(3) l by (auto simp: tcp_rcvurg_def Let_def split: if_splits)
  ultimately show ?thesis by simp
qed


text \<open>A reset of the connection of \<open>sample_tcp\<close>.\<close>

definition sample_listener :: listener where
  "sample_listener = \<lparr>l_dup = False, l_mem = True, l_addr = 0x2000, l_evts = (110, 111, 112), l_isn = 0, l_accept = True, l_clients = 0, l_backlog = 1\<rparr>"


end
