(* ===== verification/TcpRecv.thy ===== *)
theory TcpRecv
  imports TcpStates
begin

text \<open>
  A data segment on an established connection, through the whole of \<^verbatim>\<open>tcp_input\<close>'s handling: the
  checks, the acknowledgment, the receive queue and the acknowledgment that is sent or delayed.
  The abstract receiver of \<open>Tcp\<close> makes the step for it.
\<close>

section \<open>Acknowledging\<close>

lemma free_segs_open [simp]:
  "peer_open env i nif (free_segs xs st) = peer_open env i nif st" "tcp_sent i (free_segs xs st) = tcp_sent i st"
  "c_src (tc (free_segs xs st)) = c_src (tc st)" "c_dst (tc (free_segs xs st)) = c_dst (tc st)" "tb (free_segs xs st) = tb st"
proof -
  have r: "reachable env d i nif (fold (\<lambda>s. release (th_bytes s)) xs n) = reachable env d i nif n" for d n
    by (induction xs arbitrary: n) (simp_all add: reachable_def reaches_def link_open_def)
  have s: "sent_on i (trace (larp (fold (\<lambda>s. release (th_bytes s)) xs n))) = sent_on i (trace (larp n))" for n
  proof -
    have "sent_on i [Release x] = []" for x by (simp add: sent_on_def List.map_filter_def)
    then show ?thesis by (induction xs arbitrary: n) (simp_all add: sent_on_app)
  qed
  show "peer_open env i nif (free_segs xs st) = peer_open env i nif st" "tcp_sent i (free_segs xs st) = tcp_sent i st"
    "c_src (tc (free_segs xs st)) = c_src (tc st)" "c_dst (tc (free_segs xs st)) = c_dst (tc st)" "tb (free_segs xs st) = tb st"
    by (simp_all add: peer_open_def free_segs_def r s)
qed

lemma ack_now_sends:
  assumes o: "peer_open env i nif st" and m: "IP_MINLEN + TCP_MINLEN \<le> unat (nif_mtu nif)"
  shows "\<exists>p r st'. ack_now env st = Some st' \<and> tcp_sent i st' = tcp_sent i st @ [p] \<and>
    carries (c_src (tc st)) (c_dst (tc st)) p r \<and> th_ack r = rcv_nxt (tb st) \<and> th_flags r = TCPF_ACK \<and> th_data r = []"
proof -
  have e: "e_bufok env (larp (tnet st))" using o by (auto simp: peer_open_def reachable_def reaches_def link_open_def)
  obtain b where b: "tcp_mkseg env [] st = Some b" "th_hdr b = 0x50" "th_opts b = []" "th_data b = []" "th_ack b = rcv_nxt (tb st)"
    using e by (simp add: tcp_mkseg_def)
  obtain wnd st1 where w: "tcp_rcvwnd True st = (wnd, st1)" by fastforce
  obtain x where x: "st1 = upd_tcb (\<lambda>t. t\<lparr>rcv_wnd := x\<rparr>) st" using tcp_rcvwnd_form [of True st] w by auto
  let ?s = "b\<lparr>th_flags := TCPF_ACK, th_window := ucast wnd\<rparr>" and ?st = "clr_flag TCBF_DELACK st1"
  have s: "seg_wf ?s" "length (th_bytes ?s) = TCP_MINLEN"
    using b by (simp_all add: seg_wf_def TCP_HDRLEN_def length_th_bytes)
  have k: "peer_open env i nif ?st" "tcp_sent i ?st = tcp_sent i st" "c_src (tc ?st) = c_src (tc st)" "c_dst (tc ?st) = c_dst (tc st)"
    using o by (simp_all add: x peer_open_def clr_flag_def)
  obtain p c net where p: "tcp_ip_send env ?s ?st = Some (Inr (), ?st\<lparr>tnet := net\<rparr>)" "tcp_sent i (?st\<lparr>tnet := net\<rparr>) = tcp_sent i ?st @ [p]"
    "carries (c_src (tc ?st)) (c_dst (tc ?st)) p (?s\<lparr>th_chksum := c, b_info := 0\<rparr>)"
    using tcp_ip_send_wire [OF k(1) s(1)] s(2) m by auto
  have "tcp_output_ack env TCPF_ACK st = Some (Inr (), ?st\<lparr>tnet := net\<rparr>)" using b(1) w p(1) by (simp add: tcp_output_ack_def)
  then have "ack_now env st = Some (?st\<lparr>tnet := net\<rparr>)" by (simp add: ack_now_def tcp_output_def)
  then show ?thesis using p(2,3) b(4,5) unfolding k(2-4)
    by (intro exI [of _ p] exI [of _ "?s\<lparr>th_chksum := c, b_info := 0\<rparr>"] exI [of _ "?st\<lparr>tnet := net\<rparr>"]) simp
qed

text \<open>The timer takes the event of a delayed acknowledgment.\<close>

definition ack_timer :: "ipenv \<Rightarrow> tcpst \<Rightarrow> bool" where
  "ack_timer env st \<longleftrightarrow> event_add (e_call env) (ack_evt (tb st)) 1 DODELACK (t_addr (tb st)) (atimer (larp (tnet st))) \<noteq> None"

text \<open>What an acknowledgment of nothing new does: it may move the window.\<close>

lemma tcp_ack_quiet:
  assumes "has s TCPF_ACK" and "th_ack s = snd_una (tb st)" and "\<not> SEQGT (snd_una (tb st)) (snd_max (tb st))"
    and "tcp_seglen s \<noteq> 0" and "ostate (tb st) = TCBOS_IDLE" and "snd_mss (tb st) \<noteq> 0"
  shows "\<exists>nx w ws wa wm pp. tcp_ack env sa da s True st = Some (True, upd_tcb (\<lambda>t. t\<lparr>snd_nxt := nx, snd_wnd := w, snd_wndseq := ws,
    snd_wndack := wa, snd_wndmax := wm, snd_ppw := pp\<rparr>) st)"
proof -
  let ?f = "\<lambda>nx w ws wa wm pp. upd_tcb (\<lambda>t. t\<lparr>snd_nxt := nx, snd_wnd := w, snd_wndseq := ws, snd_wndack := wa, snd_wndmax := wm, snd_ppw := pp\<rparr>) st"
  have id: "?f (snd_nxt (tb st)) (snd_wnd (tb st)) (snd_wndseq (tb st)) (snd_wndack (tb st)) (snd_wndmax (tb st)) (snd_ppw (tb st)) = st"
    by (simp add: upd_tcb_def)
  have "\<exists>cmd nx w ws wa wm pp. tcp_sndwnd s st = Some (cmd, ?f nx w ws wa wm pp) \<and> cmd \<noteq> Some TCBOE_SEND"
  proof (cases "SEQLT (th_seq s) (snd_wndseq (tb st)) \<or> th_seq s = snd_wndseq (tb st) \<and> SEQLT (th_ack s) (snd_wndack (tb st))")
    case True
    then have "tcp_sndwnd s st = Some (None, st)" using assms(1) by (auto simp: tcp_sndwnd_def)
    then show ?thesis using id by (metis option.distinct(1))
  next
    case False
    define t1 where "t1 = (let t = tb st in (if SEQLT (th_ack s + ucast (th_window s)) (snd_wndack t + snd_wnd t) \<and>
      SEQLT (th_ack s + ucast (th_window s)) (snd_nxt t) then th_ack s + ucast (th_window s) else snd_nxt t))"
    define t2 where "t2 = (tb st)\<lparr>snd_nxt := t1, snd_wnd := ucast (th_window s), snd_wndseq := th_seq s, snd_wndack := th_ack s\<rparr>"
    obtain ev where ev: "ev \<noteq> TCBOE_SEND" "tcp_sndwnd s st = (if sint (snd_wnd t2) > sint (snd_wndmax t2) then
        (let ppw = word_of_int (sint (snd_wnd t2) sdiv sint (snd_mss (tb st))) :: u16
         in Some (Some ev, upd_tcb (\<lambda>_. t2\<lparr>snd_wndmax := snd_wnd t2, snd_ppw := (if sint ppw < 2 then 2 else ppw)\<rparr>) st))
        else Some (Some ev, upd_tcb (\<lambda>_. t2) st))"
    proof
      let ?ev = "if SEQLE (snd_wndack (tb st) + snd_wnd (tb st)) (th_ack s + ucast (th_window s)) \<and> sint (snd_wnd t2) > 0
        then TCBOE_WNDOPEN else TCBOE_WNDCLOSE"
      show "?ev \<noteq> TCBOE_SEND" by simp
      have t: "t2 = (if SEQLT (th_ack s + ucast (th_window s)) (snd_wndack (tb st) + snd_wnd (tb st)) \<and>
          SEQLT (th_ack s + ucast (th_window s)) (snd_nxt (tb st)) then (tb st)\<lparr>snd_nxt := th_ack s + ucast (th_window s)\<rparr> else tb st)
          \<lparr>snd_wnd := ucast (th_window s), snd_wndseq := th_seq s, snd_wndack := th_ack s\<rparr>"
        by (rule tcb.equality) (simp_all add: t2_def t1_def Let_def)
      show "tcp_sndwnd s st = (if sint (snd_wnd t2) > sint (snd_wndmax t2) then
        (let ppw = word_of_int (sint (snd_wnd t2) sdiv sint (snd_mss (tb st))) :: u16
         in Some (Some ?ev, upd_tcb (\<lambda>_. t2\<lparr>snd_wndmax := snd_wnd t2, snd_ppw := (if sint ppw < 2 then 2 else ppw)\<rparr>) st))
        else Some (Some ?ev, upd_tcb (\<lambda>_. t2) st))"
        using False assms(1,6) unfolding t by (simp only: tcp_sndwnd_def Let_def if_False not_False_eq_True de_Morgan_disj simp_thms)
    qed
    define pp where "pp = (let ppw = word_of_int (sint (snd_wnd t2) sdiv sint (snd_mss (tb st))) :: u16 in if sint ppw < 2 then 2 else ppw)"
    have "upd_tcb (\<lambda>_. t2) st = ?f t1 (snd_wnd t2) (snd_wndseq t2) (snd_wndack t2) (snd_wndmax t2) (snd_ppw t2)"
      "upd_tcb (\<lambda>_. t2\<lparr>snd_wndmax := snd_wnd t2, snd_ppw := pp\<rparr>) st = ?f t1 (snd_wnd t2) (snd_wndseq t2) (snd_wndack t2) (snd_wnd t2) pp"
      by (simp_all add: t2_def upd_tcb_def)
    then show ?thesis using ev unfolding pp_def Let_def by (metis option.inject)
  qed
  then obtain cmd nx w ws wa wm pp where c: "tcp_sndwnd s st = Some (cmd, ?f nx w ws wa wm pp)" "cmd \<noteq> Some TCBOE_SEND" by blast
  have i: "TCB_OSTATE env ev (?f nx w ws wa wm pp) = Some (?f nx w ws wa wm pp)" if "ev \<noteq> TCBOE_SEND" for ev
    using assms(5) that by (simp add: TCB_OSTATE_def tcbos_idle_def upd_tcb_def)
  have k: "snd_max (tb (?f nx w ws wa wm pp)) = snd_max (tb st)" "snd_una (tb (?f nx w ws wa wm pp)) = snd_una (tb st)"
    by (simp_all add: upd_tcb_def)
  have n: "\<not> SEQLT (snd_una (tb st)) (snd_una (tb st))" by (simp add: SEQLT_def)
  have "tcp_ack env sa da s True st = Some (True, ?f nx w ws wa wm pp)"
    using assms(1-4) c i n unfolding tcp_ack_def Let_def by (cases cmd) (simp_all add: k)
  then show ?thesis by blast
qed

section \<open>Data\<close>

lemma peer_open_tc: "peer_open env i nif st' = peer_open env i nif st" "tcp_sent i st' = tcp_sent i st"
  if "tnet st' = tnet st" "c_src (tc st') = c_src (tc st)" "c_dst (tc st') = c_dst (tc st)"
  using that by (simp_all add: peer_open_def)

lemma rcv_steps_open [simp]:
  "peer_open env i nif (so_wake ws st) = peer_open env i nif st" "tcp_sent i (so_wake ws st) = tcp_sent i st"
  "peer_open env i nif (set_flag f st) = peer_open env i nif st" "tcp_sent i (set_flag f st) = tcp_sent i st"
  "peer_open env i nif (st\<lparr>tc := (tc st)\<lparr>rcvq := q\<rparr>\<rparr>) = peer_open env i nif st" "tcp_sent i (st\<lparr>tc := (tc st)\<lparr>rcvq := q\<rparr>\<rparr>) = tcp_sent i st"
  "peer_open env i nif (upd_tcb g st) = peer_open env i nif st" "tcp_sent i (upd_tcb g st) = tcp_sent i st"
  by (simp_all add: peer_open_def so_wake_def wakes_def set_flag_def)

lemma rcv_steps_ends [simp]:
  "c_src (tc (so_wake ws st)) = c_src (tc st)" "c_dst (tc (so_wake ws st)) = c_dst (tc st)" "tb (so_wake ws st) = tb st"
  "c_src (tc (set_flag f st)) = c_src (tc st)" "c_dst (tc (set_flag f st)) = c_dst (tc st)"
  by (simp_all add: so_wake_def wakes_def set_flag_def)

lemma free_segs_timer [simp]: "atimer (larp (tnet (free_segs xs st))) = atimer (larp (tnet st))"
proof -
  have "atimer (larp (fold (\<lambda>s. release (th_bytes s)) xs n)) = atimer (larp n)" for n by (induction xs arbitrary: n) simp_all
  then show ?thesis by (simp add: free_segs_def)
qed

text \<open>The segment goes into the queue: nothing leaves the host, and the control block stays as it is.\<close>

lemma rcv_enqueue_quiet:
  assumes "rcv_enqueue s st = (nxt, a, st')"
  shows "peer_open env i nif st' = peer_open env i nif st" "tcp_sent i st' = tcp_sent i st" "tb st' = tb st"
    "c_src (tc st') = c_src (tc st)" "c_dst (tc st') = c_dst (tc st)" "ack_timer env st' = ack_timer env st"
    "tcp_datalen s \<noteq> 0 \<Longrightarrow> a \<longleftrightarrow> rcv_nxt (tb st) \<noteq> th_seq s \<or> nxt - rcv_nxt (tb st) \<noteq> tcp_datalen s"
proof -
  obtain fr q r n where m: "rcv_merge (rcv_nxt (tb st)) (rcvq (tc st)) s = (fr, q, r, n)"
    by (cases "rcv_merge (rcv_nxt (tb st)) (rcvq (tc st)) s") auto
  define st1 where "st1 = free_segs fr (st\<lparr>tc := (tc st)\<lparr>rcvq := q\<rparr>\<rparr>)"
  have k: "peer_open env i nif st1 = peer_open env i nif st" "tcp_sent i st1 = tcp_sent i st" "tb st1 = tb st"
    "c_src (tc st1) = c_src (tc st)" "c_dst (tc st1) = c_dst (tc st)" "atimer (larp (tnet st1)) = atimer (larp (tnet st))"
    by (simp_all add: st1_def)
  have c: "st' = st1 \<or> (\<exists>ws. st' = so_wake ws st1)"
    using assms m unfolding rcv_enqueue_def Let_def st1_def by (auto split: option.splits if_splits)
  have t: "tnet (so_wake ws st1) = tnet st1" for ws by (simp add: so_wake_def wakes_def)
  show "peer_open env i nif st' = peer_open env i nif st" "tcp_sent i st' = tcp_sent i st" "tb st' = tb st"
    "c_src (tc st') = c_src (tc st)" "c_dst (tc st') = c_dst (tc st)" "ack_timer env st' = ack_timer env st"
    using c k by (auto simp: ack_timer_def t)
  assume d: "tcp_datalen s \<noteq> 0"
  show "a \<longleftrightarrow> rcv_nxt (tb st) \<noteq> th_seq s \<or> nxt - rcv_nxt (tb st) \<noteq> tcp_datalen s"
    using assms m d unfolding rcv_enqueue_def Let_def by (auto split: option.splits)
qed

text \<open>A plain data segment: one that carries data, an acknowledgment and nothing that ends or starts a connection.\<close>

definition plain_data :: "tseg \<Rightarrow> bool" where
  "plain_data s \<longleftrightarrow> has s TCPF_ACK \<and> \<not> has s TCPF_SYN \<and> \<not> has s TCPF_FIN \<and> \<not> has s TCPF_RST \<and> \<not> has s TCPF_URG \<and>
     th_data s \<noteq> [] \<and> length (th_data s) < 2 ^ 16"

lemma plain_data_len:
  assumes "plain_data s"
  shows "tcp_seglen s = word_of_nat (length (th_data s))" "tcp_datalen s = word_of_nat (length (th_data s))" "tcp_datalen s \<noteq> 0"
    "sint (tcp_datalen s) > 0" "unat (tcp_datalen s) = length (th_data s)"
proof -
  have l: "0 < length (th_data s)" "length (th_data s) < 2 ^ 16" using assms by (auto simp: plain_data_def)
  show "tcp_seglen s = word_of_nat (length (th_data s))" "tcp_datalen s = word_of_nat (length (th_data s))"
    using assms by (simp_all add: plain_data_def tcp_seglen_def tcp_datalen_def)
  show u: "unat (tcp_datalen s) = length (th_data s)" using l by (simp add: tcp_datalen_def unat_of_nat)
  then show "tcp_datalen s \<noteq> 0" using l(1) by (metis unat_eq_zero less_numeral_extra(3))
  show "sint (tcp_datalen s) > 0" using sint_word_of_nat_32 [of "length (th_data s)"] l by (simp add: tcp_datalen_def)
qed

text \<open>Whether the acknowledgment of a segment may wait.\<close>

definition ack_waits :: "tseg \<Rightarrow> tcpst \<Rightarrow> tcpst \<Rightarrow> bool" where
  "ack_waits s st st' \<longleftrightarrow> rcv_nxt (tb st) = th_seq s \<and> rcv_nxt (tb st') - rcv_nxt (tb st) = tcp_datalen s \<and> \<not> tflag TCBF_DELACK st"

lemma rcvdata_plain:
  assumes s: "plain_data s" and t: "tstate (tb st) = TCBS_ESTABLISHED" "\<not> tflag TCBF_FIN st"
    and o: "peer_open env i nif st" "IP_MINLEN + TCP_MINLEN \<le> unat (nif_mtu nif)" and tm: "ack_timer env st"
  shows "\<exists>st'. tcp_rcvdata env s st = Some st' \<and>
    (if ack_waits s st st' then tflag TCBF_DELACK st' \<and> tcp_sent i st' = tcp_sent i st
     else \<exists>p r. tcp_sent i st' = tcp_sent i st @ [p] \<and> carries (c_src (tc st)) (c_dst (tc st)) p r \<and>
       th_ack r = rcv_nxt (tb st') \<and> th_flags r = TCPF_ACK \<and> th_data r = [])"
proof -
  note d = plain_data_len [OF s]
  define s1 where "s1 = s\<lparr>th_urgptr := ucast (tcp_datalen s), th_seq := th_seq s, th_flags := th_flags s AND NOT (TCPF_SYN OR TCPF_PSH OR TCPF_FIN)\<rparr>"
  define st3 where "st3 = (if has s TCPF_PSH then set_flag TCBF_PSH (upd_tcb (\<lambda>t. t\<lparr>seq_psh := th_seq s1 + tcp_datalen s\<rparr>) st) else st)"
  have w1: "(w OR 1) AND 0x20 = w AND (0x20 :: u16)" for w by (simp add: bit.conj_disj_distrib2)
  have k3: "tstate (tb st3) = TCBS_ESTABLISHED" "rcv_nxt (tb st3) = rcv_nxt (tb st)" "tflag TCBF_FIN st3 = tflag TCBF_FIN st"
    "tflag TCBF_DELACK st3 = tflag TCBF_DELACK st" "peer_open env i nif st3" "tcp_sent i st3 = tcp_sent i st"
    "c_src (tc st3) = c_src (tc st)" "c_dst (tc st3) = c_dst (tc st)" "ack_timer env st3"
    using t(1) o(1) tm by (simp_all add: st3_def tflag_def set_flag_def upd_tcb_def fin_bit w1 ack_timer_def peer_open_def)
  obtain nxt a st4 where e: "rcv_enqueue s1 st3 = (nxt, a, st4)" by (cases "rcv_enqueue s1 st3") auto
  have dl: "tcp_datalen s1 = tcp_datalen s" by (simp add: s1_def tcp_datalen_def)
  note q = rcv_enqueue_quiet [OF e, unfolded k3]
  have a: "a \<longleftrightarrow> rcv_nxt (tb st) \<noteq> th_seq s \<or> nxt - rcv_nxt (tb st) \<noteq> tcp_datalen s"
    using q(7) d(3) dl by (simp add: s1_def)
  define st5 where "st5 = upd_tcb (\<lambda>t. t\<lparr>rcv_nxt := nxt\<rparr>) st4"
  have k5: "tstate (tb st5) = TCBS_ESTABLISHED" "rcv_nxt (tb st5) = nxt" "tflag TCBF_DELACK st5 = tflag TCBF_DELACK st"
    "peer_open env i nif st5" "tcp_sent i st5 = tcp_sent i st" "c_src (tc st5) = c_src (tc st)" "c_dst (tc st5) = c_dst (tc st)"
    "ack_timer env st5"
    using q k3 by (simp_all add: st5_def tflag_def upd_tcb_def ack_timer_def peer_open_def)
  have nf: "\<not> tflag TCBF_FIN st4" using q(3) k3(3) t(2) by (simp add: tflag_def)
  have ns: "\<not> has s TCPF_SYN" and nfi: "\<not> has s TCPF_FIN" using s by (simp_all add: plain_data_def)
  have fin: "(tflag TCBF_FIN st4 \<and> seq_fin (tb st4) = nxt) = False" using nf by simp
  have x: "tcp_rcvdata env s st = (if 0 < sint (tcp_datalen s) \<or> has s TCPF_FIN
      then if tstate (tb st5) = TCBS_ESTABLISHED \<and> \<not> (a \<or> False) then tcp_delack env st5 else ack_now env st5 else Some st5)"
    unfolding tcp_rcvdata_def Let_def if_not_P [OF ns] if_not_P [OF nfi] s1_def [symmetric] st3_def [symmetric] e prod.case fin if_False
      st5_def [symmetric] ..
  have run: "tcp_rcvdata env s st = (if a then ack_now env st5 else tcp_delack env st5)" using d(4) k5(1) unfolding x by simp
  show ?thesis
  proof (cases "a \<or> tflag TCBF_DELACK st")
    case True
    obtain p r st' where p: "ack_now env st5 = Some st'" "tcp_sent i st' = tcp_sent i st5 @ [p]"
      "carries (c_src (tc st5)) (c_dst (tc st5)) p r" "th_ack r = rcv_nxt (tb st5)" "th_flags r = TCPF_ACK" "th_data r = []"
      using ack_now_sends [OF k5(4) o(2)] by blast
    have st': "tcp_rcvdata env s st = Some st'" using run True p(1) k5(3) by (auto simp: tcp_delack_def)
    have n: "rcv_nxt (tb st') = nxt" using rside_ack_now [OF p(1)] k5(2) by (simp add: rside_eq_iff)
    have "\<not> ack_waits s st st'" using True a by (auto simp: ack_waits_def n)
    then show ?thesis using st' p(2-6) n k5(2,5-7) by (intro exI [of _ st']) auto
  next
    case False
    have "ack_timer env (set_flag TCBF_DELACK st5)" using k5(8) by (simp add: ack_timer_def set_flag_def upd_tcb_def)
    then obtain st' where st': "tcp_event_add env ack_evt 1 DODELACK (set_flag TCBF_DELACK st5) = Some st'"
      by (auto simp: tcp_event_add_def ack_timer_def)
    then have c: "tc st' = tc (set_flag TCBF_DELACK st5)" "tcp_sent i st' = tcp_sent i st5"
      by (auto simp: tcp_event_add_def set_flag_def)
    have "rcv_nxt (tb st') = nxt" "tflag TCBF_DELACK st'" using c(1) k5(2) by (simp_all add: set_flag_def upd_tcb_def tflag_def bit.conj_disj_distrib2)
    moreover have "tcp_rcvdata env s st = Some st'" using run False st' k5(3) by (simp add: tcp_delack_def)
    ultimately show ?thesis using False a c(2) k5(5) by (intro exI [of _ st']) (simp add: ack_waits_def)
  qed
qed

lemma last_recv_quiet:
  "tcp_valid s (upd_tcb (\<lambda>t. t\<lparr>last_recv := x\<rparr>) st) = tcp_valid s st"
  "tflag f (upd_tcb (\<lambda>t. t\<lparr>last_recv := x\<rparr>) st) = tflag f st"
  by (simp_all add: tcp_valid_def tcp_rcvwnd_def Let_def upd_tcb_def tflag_def)

lemma tcp_valid_plain:
  assumes "plain_data s"
  shows "snd (tcp_valid s st) = s"
  using assms by (simp add: tcp_valid_def Let_def plain_data_def)

text \<open>A plain segment that passes the check ends behind \<^verbatim>\<open>rcv_nxt\<close>.\<close>

lemma tcp_valid_behind:
  assumes S: "length S < 2 ^ 31" and s: "plain_data s" "from_stream base S (as_arrived s)" and n: "soff base (rcv_nxt (tb st)) \<le> length S"
    and v: "fst (tcp_valid s st)" and t: "tstate (tb st) = TCBS_ESTABLISHED"
  shows "SEQLT (rcv_nxt (tb st)) (SEQNXT (as_arrived s))"
proof -
  let ?n = "length (th_data s)"
  note d = plain_data_len [OF s(1)]
  have f: "shi base (as_arrived s) \<le> length S" "shi base (as_arrived s) = soff base (th_seq s) + ?n" "0 < ?n"
    using s by (auto simp: as_arrived_def from_stream_def shi_def slo_def plain_data_def unat_of_nat)
  have nl: "\<not> tstate (tb st) < TCBS_SYNRCVD" using t by (simp add: less_tcbstate_def)
  obtain k where k: "?n = Suc k" using f(3) by (cases ?n) auto
  have "SEQLE (rcv_nxt (tb st)) (th_seq s + word_of_nat ?n - 1)"
    using v nl d(1,3) by (auto simp: tcp_valid_def Let_def tcp_seglen_def d split: if_splits)
  then have "SEQLE (rcv_nxt (tb st)) (th_seq s + word_of_nat k)" unfolding k by simp
  moreover have e: "soff base (th_seq s + word_of_nat k) = soff base (th_seq s) + k"
    by (rule soff_add) (use f S k in simp)
  moreover have "soff base (th_seq s + word_of_nat k) < 2 ^ 31" "soff base (rcv_nxt (tb st)) < 2 ^ 31" using e f k n S by linarith+
  ultimately have "soff base (rcv_nxt (tb st)) \<le> soff base (th_seq s) + k"
    using seq_cmp(2) [of base "rcv_nxt (tb st)" "th_seq s + word_of_nat k"] by simp
  then have "soff base (rcv_nxt (tb st)) < shi base (as_arrived s)" using f k by linarith
  then show ?thesis
    using seq_cmp(1) [of base "rcv_nxt (tb st)" "SEQNXT (as_arrived s)"] f n S from_stream_bounds [OF S s(2)] by simp
qed


text \<open>The connection of \<open>sample_tcp\<close> receives three bytes, where it expects them.\<close>

definition sample_recv :: tcpst where
  "sample_recv = upd_tcb (\<lambda>t. t\<lparr>ostate := TCBOS_IDLE\<rparr>) sample_tcp"


end
