(* ===== verification/Iov.thy ===== *)
theory Iov
  imports Prelude
begin

text \<open>
  The vectors of buffers of the system calls: \<^verbatim>\<open>kernel/iov.c\<close> and \<^verbatim>\<open>iov_size\<close> of \<^verbatim>\<open>kernel/udp.c\<close> and
  \<^verbatim>\<open>kernel/tcp.c\<close>. A vector is the list of the contents of its buffers.
\<close>

abbreviation IOV_MAX :: nat where "IOV_MAX \<equiv> 16"

primrec iov_sum :: "u32 \<Rightarrow> u32 list \<Rightarrow> u32" where
  "iov_sum n [] = n"
| "iov_sum n (l # ls) = (if sint l < 0 then - 1 else iov_sum (n + l) ls)"

definition iov_size :: "u32 list \<Rightarrow> u32" where
  "iov_size ls = (if ls = [] \<or> length ls > IOV_MAX then - 1 else iov_sum 0 ls)"

text \<open>The loop that skips bytes: what is left to skip, the buffers passed in reverse, and the rest.\<close>

fun iov_skip :: "int \<Rightarrow> u8 list list \<Rightarrow> u8 list list \<Rightarrow> int \<times> u8 list list \<times> u8 list list" where
  "iov_skip skip seen (v # vs) = (if skip > 0 then iov_skip (skip - int (length v)) (v # seen) vs else (skip, seen, v # vs))"
| "iov_skip skip seen [] = (skip, seen, [])"

primrec iov_gather :: "nat \<Rightarrow> u8 list list \<Rightarrow> u8 list" where
  "iov_gather todo [] = []"
| "iov_gather todo (v # vs) = (if todo = 0 then [] else let cando = min todo (length v) in take cando v @ iov_gather (todo - cando) vs)"

text \<open>The bytes copied; the code returns their number.\<close>

definition iov2buf_cpy :: "int \<Rightarrow> u8 list list \<Rightarrow> int \<Rightarrow> u8 list" where
  "iov2buf_cpy nbytes iov skip =
     (if iov = [] \<or> nbytes \<le> 0 \<or> skip < 0 then []
      else let (sk, seen, rest) = iov_skip skip [] iov in
        if sk < 0 then
          (let cando = min (nat (- sk)) (nat nbytes)
           in take cando (drop (nat (sk + int (length (hd seen)))) (hd seen)) @ iov_gather (nat nbytes - cando) rest)
        else iov_gather (nat nbytes) rest)"

primrec iov_scatter :: "u8 list \<Rightarrow> u8 list list \<Rightarrow> u8 list list" where
  "iov_scatter buf [] = []"
| "iov_scatter buf (v # vs) =
     (if buf = [] then v # vs
      else let cando = min (length buf) (length v) in (take cando buf @ drop cando v) # iov_scatter (drop cando buf) vs)"

text \<open>The copy back, of all of \<open>buf\<close>: the number of bytes copied and the vector.\<close>

definition buf2iov_cpy :: "u8 list \<Rightarrow> u8 list list \<Rightarrow> int \<Rightarrow> nat \<times> u8 list list" where
  "buf2iov_cpy buf iov skip =
     (if iov = [] \<or> buf = [] \<or> skip < 0 then (0, iov)
      else let (sk, seen, rest) = iov_skip skip [] iov in
        if sk < 0 then
          (let cando = min (nat (- sk)) (length buf);
               at = nat (sk + int (length (hd seen)));
               v = take at (hd seen) @ take cando buf @ drop (at + cando) (hd seen)
           in (cando + min (length buf - cando) (length (concat rest)), rev (v # tl seen) @ iov_scatter (drop cando buf) rest))
        else (min (length buf) (length (concat rest)), rev seen @ iov_scatter buf rest))"

section \<open>What they copy\<close>

lemma iov_gather_take: "iov_gather n vs = take n (concat vs)"
  by (induction vs arbitrary: n) (auto simp: Let_def min_def)

lemma iov_skip_spec:
  assumes "iov_skip sk seen vs = (sk', seen', rest)" and "sk < 0 \<Longrightarrow> seen \<noteq> [] \<and> 0 < sk + int (length (hd seen))"
  shows "rev seen' @ rest = rev seen @ vs \<and> (0 < sk' \<longrightarrow> rest = []) \<and>
    sk' + int (length (concat (rev seen'))) = sk + int (length (concat (rev seen))) \<and>
    (sk' < 0 \<longrightarrow> seen' \<noteq> [] \<and> 0 < sk' + int (length (hd seen')))"
  using assms
proof (induction sk seen vs rule: iov_skip.induct)
  case (1 skip seen v vs)
  then show ?case by (cases "skip > 0") auto
qed auto

text \<open>Where the copy starts: behind the bytes in front of \<open>skip\<close>.\<close>

lemma iov_skip_from:
  assumes "iov_skip (int skip) [] iov = (sk, seen, rest)"
  shows "0 < sk \<Longrightarrow> rest = [] \<and> length (concat iov) < skip"
    "sk = 0 \<Longrightarrow> concat iov = concat (rev seen) @ concat rest \<and> length (concat (rev seen)) = skip"
    "sk < 0 \<Longrightarrow> \<exists>v vs k. seen = v # vs \<and> k = nat (sk + int (length v)) \<and> k < length v \<and> nat (- sk) = length v - k \<and>
      concat iov = concat (rev vs) @ v @ concat rest \<and> length (concat (rev vs)) + k = skip"
proof -
  have s: "rev seen @ rest = iov" "0 < sk \<longrightarrow> rest = []" "sk + int (length (concat (rev seen))) = int skip"
    "sk < 0 \<longrightarrow> seen \<noteq> [] \<and> 0 < sk + int (length (hd seen))"
    using iov_skip_spec [OF assms] by auto
  have c: "concat iov = concat (rev seen) @ concat rest" by (simp flip: s(1))
  show "0 < sk \<Longrightarrow> rest = [] \<and> length (concat iov) < skip" using s(2,3) c by simp
  show "sk = 0 \<Longrightarrow> concat iov = concat (rev seen) @ concat rest \<and> length (concat (rev seen)) = skip" using s(3) c by simp
  assume "sk < 0"
  then obtain v vs where v: "seen = v # vs" "0 < sk + int (length v)" using s(4) by (cases seen) auto
  then show "\<exists>v vs k. seen = v # vs \<and> k = nat (sk + int (length v)) \<and> k < length v \<and> nat (- sk) = length v - k \<and>
      concat iov = concat (rev vs) @ v @ concat rest \<and> length (concat (rev vs)) + k = skip"
    using \<open>sk < 0\<close> c s(3) by auto
qed

lemma iov2buf_cpy_take: "iov2buf_cpy (int n) iov (int skip) = take n (drop skip (concat iov))"
proof (cases "iov = [] \<or> n = 0")
  case False
  obtain sk seen rest where e: "iov_skip (int skip) [] iov = (sk, seen, rest)" by (cases "iov_skip (int skip) [] iov") auto
  note f = iov_skip_from [OF e]
  consider "0 < sk" | "sk = 0" | "sk < 0" by linarith
  then show ?thesis
  proof cases
    case 3
    then obtain v vs k where v: "seen = v # vs" "k = nat (sk + int (length v))" "k < length v" "nat (- sk) = length v - k"
      "concat iov = concat (rev vs) @ v @ concat rest" "length (concat (rev vs)) + k = skip"
      using f(3) by blast
    have d: "drop skip (concat iov) = drop k v @ concat rest" unfolding v(5) v(6) [symmetric] using v(3) by simp
    show ?thesis unfolding d unfolding iov2buf_cpy_def e
      using False 3 v(3,4) by (simp add: v(1) v(2) [symmetric] iov_gather_take min_def)
  qed (use False e f in \<open>simp_all add: iov2buf_cpy_def iov_gather_take\<close>)
qed (auto simp: iov2buf_cpy_def)

lemma iov_scatter_concat:
  "concat (iov_scatter buf vs) = take (length (concat vs)) buf @ drop (length buf) (concat vs) \<and> map length (iov_scatter buf vs) = map length vs"
proof (induction vs arbitrary: buf)
  case (Cons v vs)
  show ?case
  proof (cases "buf = []")
    case False
    then show ?thesis using Cons [of "drop (min (length buf) (length v)) buf"]
      by (cases "length buf \<le> length v") (auto simp: Let_def min_def take_add)
  qed simp
qed simp

text \<open>The same for the copy back: \<open>buf\<close> takes the place of the bytes from \<open>skip\<close> on, as far as there are any.\<close>

lemma buf2iov_cpy_spec:
  assumes "buf2iov_cpy buf iov (int skip) = (n, iov')" and "skip \<le> length (concat iov)"
  shows "n = min (length buf) (length (concat iov) - skip) \<and> map length iov' = map length iov \<and>
    concat iov' = take skip (concat iov) @ take n buf @ drop (skip + n) (concat iov)"
proof (cases "iov = [] \<or> buf = []")
  case True
  then show ?thesis using assms by (auto simp: buf2iov_cpy_def)
next
  case False
  obtain sk seen rest where e: "iov_skip (int skip) [] iov = (sk, seen, rest)" by (cases "iov_skip (int skip) [] iov") auto
  note f = iov_skip_from [OF e]
  have iov: "iov = rev seen @ rest" using iov_skip_spec [OF e] by simp
  consider "sk = 0" | "sk < 0" using f(1) assms(2) by fastforce
  then show ?thesis
  proof cases
    case 1
    then have "n = min (length buf) (length (concat rest))" "iov' = rev seen @ iov_scatter buf rest"
      using assms(1) False e by (auto simp: buf2iov_cpy_def)
    then show ?thesis using f(2) [OF 1] by (auto simp: iov iov_scatter_concat min_def)
  next
    case 2
    then obtain v vs k where v: "seen = v # vs" "k = nat (sk + int (length v))" "k < length v" "nat (- sk) = length v - k"
      "concat iov = concat (rev vs) @ v @ concat rest" "length (concat (rev vs)) + k = skip"
      using f(3) by blast
    define c where "c = min (length v - k) (length buf)"
    have r: "n = c + min (length buf - c) (length (concat rest))"
      "iov' = rev ((take k v @ take c buf @ drop (k + c) v) # vs) @ iov_scatter (drop c buf) rest"
      using assms(1) False 2 unfolding buf2iov_cpy_def e by (simp_all add: v(1) v(2) [symmetric] v(4) c_def Let_def)
    obtain p q where pq: "v = p @ q" "length p = k" using v(3) by (metis append_take_drop_id length_take min.absorb4)
    have c: "c = min (length q) (length buf)" by (simp add: c_def pq)
    have iov': "concat iov' = concat (rev vs) @ p @ (take c buf @ drop c q) @ concat (iov_scatter (drop c buf) rest)"
      by (simp add: r(2) pq)
    have len: "map length iov' = map length iov"
      by (simp add: r(2) iov v(1) pq c iov_scatter_concat rev_map)
    show ?thesis
    proof (cases "length q \<le> length buf")
      case True
      then have cq: "c = length q" by (simp add: c)
      have n: "n = length q + min (length buf - length q) (length (concat rest))" by (simp add: r(1) cq)
      have tk: "take n buf = take (length q) buf @ take (length (concat rest)) (drop (length q) buf)"
        by (simp add: n take_add min_def)
      have dr: "drop (skip + n) (concat iov) = drop (n - length q) (concat rest)"
        unfolding v(5) v(6) [symmetric] pq(1) using n by (simp add: pq(2))
      have tk0: "take skip (concat iov) = concat (rev vs) @ p"
        unfolding v(5) v(6) [symmetric] pq(1) by (simp add: pq(2))
      have nn: "n = min (length buf) (length (concat iov) - skip)" unfolding v(5) v(6) [symmetric] pq(1) using True by (simp add: n pq(2))
      have dd: "drop (n - length q) (concat rest) = drop (length buf - length q) (concat rest)" using n by (simp add: min_def)
      show ?thesis using len nn unfolding iov' tk dr tk0 dd by (simp add: cq iov_scatter_concat)
    next
      case False
      then have n: "n = length buf" "c = length buf" by (simp_all add: c r(1))
      have "take skip (concat iov) = concat (rev vs) @ p" "drop (skip + n) (concat iov) = drop (length buf) q @ concat rest"
        "length buf \<le> length (concat iov) - skip"
        unfolding v(5) v(6) [symmetric] pq(1) using False by (simp_all add: pq(2) n)
      then show ?thesis using len iov' by (simp add: n iov_scatter_concat)
    qed
  qed
qed


text \<open>
  C40: What a receive call copies into the buffers of the caller, a send call with the same
  vector reads back: the bytes and their number, wherever the limits of the buffers are, and no
  byte outside of that part changes.
\<close>
theorem iov_roundtrip:
  assumes "buf2iov_cpy buf iov (int skip) = (n, iov')" and "skip \<le> length (concat iov)"
  shows "iov2buf_cpy (int n) iov' (int skip) = take n buf \<and> n = min (length buf) (length (concat iov) - skip) \<and>
    map length iov' = map length iov \<and> take skip (concat iov') = take skip (concat iov) \<and>
    drop (skip + n) (concat iov') = drop (skip + n) (concat iov)"
  using buf2iov_cpy_spec [OF assms] assms(2) by (auto simp: iov2buf_cpy_take min_def)

theorem iov_roundtrip_witness:
  "iov2buf_cpy 4 [[1], [10, 11, 2], [], [12, 13]] 2 = [11, 2, 12, 13] \<and>
   iov2buf_cpy 3 [[1], [10, 20, 21], [], [22, 13]] 2 = [20, 21, 22] \<and>
   buf2iov_cpy [20, 21, 22] [[1], [10, 11, 2], [], [12, 13]] 2 = (3, [[1], [10, 20, 21], [], [22, 13]])"
proof -
  have e: "buf2iov_cpy [20, 21, 22] [[1], [10, 11, 2], [], [12, 13]] (int 2) = (3, [[1], [10, 20, 21], [], [22, 13]])" by code_simp
  show ?thesis using iov_roundtrip [OF e] e by (simp add: iov2buf_cpy_def)
qed

end
