(* ===== verification/Udp.thy ===== *)
theory Udp
  imports Icmp Iov
begin

text \<open>
  UDP: \<^verbatim>\<open>kernel/udp.c\<close>. The sockets and the buffers of their queues are those of \<open>InetData\<close>, so a
  queued datagram is a buffer of the pool that holds the whole IP datagram. What is handed
  to IP, to be sent or reported, is its bytes, as in \<open>Ip\<close>.
\<close>

section \<open>State\<close>

abbreviation IPPROTO_UDP :: u8 where "IPPROTO_UDP \<equiv> 17"
abbreviation ICMPC_PORTUR :: u8 where "ICMPC_PORTUR \<equiv> 3"
abbreviation UDP_MINLEN :: nat where "UDP_MINLEN \<equiv> 8"
abbreviation SIZEOF_SOCKADDR_IN :: int where "SIZEOF_SOCKADDR_IN \<equiv> 16"

text \<open>
  \<open>usocks\<close> is \<^verbatim>\<open>data->sock\<close> and \<open>ursel\<close> its process that waits in \<^verbatim>\<open>select\<close>, both by the address of
  \<^verbatim>\<open>data\<close>; \<open>uproto\<close> is the address of \<^verbatim>\<open>udp_proto\<close>; \<open>uwakes\<close> tells who is woken.
\<close>

record udpst =
  uin :: inet
  unet :: ipstate
  usocks :: "nat \<rightharpoonup> tsock"
  ursel :: "nat \<rightharpoonup> nat"
  uproto :: nat
  uwakes :: "(nat \<times> wake) list"

definition uh_srcport :: "u8 list \<Rightarrow> u16" where "uh_srcport u = pk16 u 0"
definition uh_dstport :: "u8 list \<Rightarrow> u16" where "uh_dstport u = pk16 u 2"
definition uh_length :: "u8 list \<Rightarrow> u16" where "uh_length u = pk16 u 4"
definition uh_chksum :: "u8 list \<Rightarrow> u16" where "uh_chksum u = pk16 u 6"

definition udp_bytes :: "u16 \<Rightarrow> u16 \<Rightarrow> u16 \<Rightarrow> u16 \<Rightarrow> u8 list \<Rightarrow> u8 list" where
  "udp_bytes sp dp len c d = bytes16 sp @ bytes16 dp @ bytes16 len @ bytes16 c @ d"

text \<open>\<^verbatim>\<open>IP_DATA\<close>, of a datagram that has its whole header.\<close>

definition IP_DATA :: "u8 list \<Rightarrow> u8 list option" where
  "IP_DATA p = (if p = [] \<or> length p < 4 * IPH_HDRLEN p then None else Some (drop (4 * IPH_HDRLEN p) p))"

definition buf_packet :: "nat \<Rightarrow> udpst \<Rightarrow> u8 list option" where
  "buf_packet b st = map_option (data_of (ipool (uin st))) (bufs (ipool (uin st)) b)"

definition udp_deref :: "nat \<Rightarrow> udpst \<Rightarrow> udpst option" where
  "udp_deref b st = map_option (\<lambda>s. st\<lparr>uin := (uin st)\<lparr>ipool := s\<rparr>\<rparr>) (buf_deref b (ipool (uin st)))"

definition put_data :: "nat \<Rightarrow> in_data \<Rightarrow> udpst \<Rightarrow> udpst" where
  "put_data d x st = st\<lparr>uin := (uin st)\<lparr>indatas := (indatas (uin st))(d \<mapsto> x)\<rparr>\<rparr>"

definition udp_wake :: "nat \<Rightarrow> wake list \<Rightarrow> udpst \<Rightarrow> udpst" where
  "udp_wake d ws st = st\<lparr>uwakes := uwakes st @ map (Pair d) ws\<rparr>"

definition udp_lookup :: "u32 \<Rightarrow> u16 \<Rightarrow> u32 \<Rightarrow> u16 \<Rightarrow> udpst \<Rightarrow> nat option" where
  "udp_lookup sa sp da dp st = do {
     p \<leftarrow> inprotos (uin st) (uproto st);
     in_data_lookup (datas p) sa sp da dp (uin st)
   }"

section \<open>Packets\<close>

text \<open>A datagram for the socket \<open>d\<close> with \<open>len\<close> bytes of data.\<close>

definition udp_enqueue :: "nat \<Rightarrow> nat \<Rightarrow> nat \<Rightarrow> udpst \<Rightarrow> udpst option" where
  "udp_enqueue buf len d st = do {
     x \<leftarrow> indatas (uin st) d;
     if sint (word_of_nat len + curdatalen (ircv x)) > sint (maxdatalen (ircv x)) then udp_deref buf st
     else do {
       so \<leftarrow> usocks st d;
       if so_cantrcv so then udp_deref buf st
       else Some (udp_wake d [WakeRsel, WakeIO] (put_data d
         (x\<lparr>ircv := (ircv x)\<lparr>qbufs := qbufs (ircv x) @ [buf], curdatalen := curdatalen (ircv x) + word_of_nat len\<rparr>\<rparr>) st))
     }
   }"

text \<open>The result tells whether the buffer was taken over.\<close>

definition udp_input :: "ipenv \<Rightarrow> nat \<Rightarrow> u32 \<Rightarrow> u32 \<Rightarrow> udpst \<Rightarrow> (bool \<times> udpst) option" where
  "udp_input env buf sa da st = do {
     p \<leftarrow> buf_packet buf st;
     u \<leftarrow> IP_DATA p;
     if length u < UDP_MINLEN \<or> length u \<noteq> unat (uh_length u) then map_option (Pair True) (udp_deref buf st)
     else do {
       c \<leftarrow> (if uh_chksum u \<noteq> 0 then udp_checksum u sa da else Some 0);
       if c \<noteq> 0 then map_option (Pair True) (udp_deref buf st)
       else do {
         d \<leftarrow> udp_lookup sa (uh_srcport u) da (uh_dstport u) st;
         if d = 0 then do {
           net \<leftarrow> (if e_bufok env (larp (unet st)) then icmp env ICMPT_DSTUR ICMPC_PORTUR sa p None (unet st)
                    else Some (unet st));
           Some (False, st\<lparr>unet := net\<rparr>)
         }
         else map_option (Pair True) (udp_enqueue buf (length u - UDP_MINLEN) d st)
       }
     }
   }"

definition udp_error :: "u16 \<Rightarrow> u16 \<Rightarrow> nat \<Rightarrow> u32 \<Rightarrow> u32 \<Rightarrow> udpst \<Rightarrow> udpst option" where
  "udp_error type code buf sa da st = do {
     p \<leftarrow> buf_packet buf st;
     u \<leftarrow> IP_DATA p;
     if length u < 4 then None
     else do {
       d \<leftarrow> udp_lookup da (uh_dstport u) sa (uh_srcport u) st;
       if d = 0 then udp_deref buf st
       else do {
         x \<leftarrow> indatas (uin st) d;
         if \<not> has_flag (dflags x) IN_ISCONNECTED then udp_deref buf st
         else do {
           e \<leftarrow> icmp_errno type code;
           udp_deref buf (udp_wake d [WakeRsel, WakeWsel, WakeIO] (put_data d (x\<lparr>derr := Some e\<rparr>) st))
         }
       }
     }
   }"

section \<open>Sending\<close>

abbreviation MSG_PEEK :: u16 where "MSG_PEEK \<equiv> 0x02"
abbreviation MSG_DONTROUTE :: u16 where "MSG_DONTROUTE \<equiv> 0x04"

definition iov_lens :: "u8 list list \<Rightarrow> u32 list" where
  "iov_lens iov = map (\<lambda>v. word_of_nat (length v)) iov"

text \<open>\<^verbatim>\<open>ip_dst_addr\<close> on the primary interface.\<close>

definition dst_addr :: "u32 \<Rightarrow> ipstate \<Rightarrow> u32 option" where
  "dst_addr a net =
     (if a = INADDR_ANY \<or> a = INADDR_BROADCAST
      then map_option (\<lambda>n. ip_dst_addr (netif.truncate n) a) (anifs (larp net) (if_primary net)) else Some a)"

definition udp_dest :: "in_data \<Rightarrow> in_sockadr option \<Rightarrow> ipstate \<Rightarrow> (errno + in_sockadr) option" where
  "udp_dest x adr net =
     (if has_flag (dflags x) IN_ISCONNECTED then Some (if adr \<noteq> None then Inl EISCONN else Inr (idst x))
      else case adr of
        None \<Rightarrow> Some (Inl EDESTADDRREQ)
      | Some a \<Rightarrow> map_option (\<lambda>w. if sport a = 0 then Inl EADDRNOTAVAIL else Inr (a\<lparr>saddr := w\<rparr>)) (dst_addr (saddr a) net))"

text \<open>The checksum that is sent: none, or the one for the address IP will choose, with 0 as \<^verbatim>\<open>~0\<close>.\<close>

definition udp_sum :: "in_data \<Rightarrow> u32 \<Rightarrow> u8 list \<Rightarrow> ipstate \<Rightarrow> (u16 \<times> ipstate) option" where
  "udp_sum x dst u net =
     (if has_flag (dflags x) IN_CHECKSUM then do {
        (src, net1) \<leftarrow> (if saddr (isrc x) = INADDR_ANY then ip_local_addr dst net else Some (saddr (isrc x), net));
        c \<leftarrow> udp_checksum u src dst;
        Some (if c = 0 then 65535 else c, net1)
      }
      else Some (0, net))"

definition udp_output :: "ipenv \<Rightarrow> in_data \<Rightarrow> in_sockadr \<Rightarrow> u32 \<Rightarrow> u8 list \<Rightarrow> udpst \<Rightarrow> ((errno + nat) \<times> udpst) option" where
  "udp_output env x to sz d st =
     (let u = udp_bytes (sport (isrc x)) (sport to) (ucast (sz + word_of_nat UDP_MINLEN)) in do {
        (c, net) \<leftarrow> udp_sum x (saddr to) (u 0 d) (unet st);
        (r, net1) \<leftarrow> ip_send env (icmp env) (saddr (isrc x)) (saddr to) (u c d) IPPROTO_UDP (has_flag (dflags x) IN_BROADCAST)
          (Some (dopts x)) net;
        Some (case r of Inl e \<Rightarrow> Inl e | Inr _ \<Rightarrow> Inr (length d), st\<lparr>unet := net1\<rparr>)
      })"

definition udp_send :: "ipenv \<Rightarrow> nat \<Rightarrow> u8 list list \<Rightarrow> u16 \<Rightarrow> in_sockadr option \<Rightarrow> udpst \<Rightarrow> ((errno + nat) \<times> udpst) option" where
  "udp_send env d iov flags adr st =
     (let sz = iov_size (iov_lens iov) in
      if flags AND NOT MSG_DONTROUTE \<noteq> 0 then Some (Inl EOPNOTSUPP, st)
      else if sz = 0 then Some (Inr 0, st)
      else if sint sz < 0 then Some (Inl ENOSYS, st)
      else do {
        x \<leftarrow> indatas (uin st) d;
        if sint sz > sint (maxdatalen (isnd x)) then Some (Inl EMSGSIZE, st)
        else do {
          to \<leftarrow> udp_dest x adr (unet st);
          case to of
            Inl e \<Rightarrow> Some (Inl e, st)
          | Inr a \<Rightarrow>
              if \<not> e_bufok env (larp (unet st)) then Some (Inl ENOMEM, st)
              else udp_output env x a sz (iov2buf_cpy (sint sz) iov 0) st
        }
      })"

section \<open>Receiving\<close>

text \<open>
  The wait for a datagram. \<open>slp\<close> is the scheduler, which tells whether a signal came. The
  result is an error, or whether there is a datagram: without one the call returns 0.
\<close>

partial_function (option) udp_wait ::
  "(udpst \<Rightarrow> bool \<times> udpst) \<Rightarrow> nat \<Rightarrow> bool \<Rightarrow> udpst \<Rightarrow> ((errno + bool) \<times> udpst) option" where
  "udp_wait slp d nonblock st =
     (case indatas (uin st) d of None \<Rightarrow> None | Some x \<Rightarrow>
        if qbufs (ircv x) \<noteq> [] then Some (Inr True, st)
        else if nonblock then Some (Inr False, st)
        else (case usocks st d of None \<Rightarrow> None | Some so \<Rightarrow>
          if so_cantrcv so then Some (Inr False, st)
          else let (interrupted, st1) = slp st in
            if interrupted then Some (Inl EINTR, st1)
            else (case usocks st1 d of None \<Rightarrow> None | Some so1 \<Rightarrow>
              if so_state so1 \<noteq> SS_ISUNCONNECTED then Some (Inr False, st1)
              else (case indatas (uin st1) d of None \<Rightarrow> None | Some x1 \<Rightarrow>
                (case derr x1 of
                   Some e \<Rightarrow> Some (Inl e, put_data d (x1\<lparr>derr := None\<rparr>) st1)
                 | None \<Rightarrow> udp_wait slp d nonblock st1)))))"

text \<open>Taking the first datagram off the queue.\<close>

definition udp_dequeue :: "nat \<Rightarrow> nat \<Rightarrow> int \<Rightarrow> udpst \<Rightarrow> udpst option" where
  "udp_dequeue d buf todo st = do {
     x \<leftarrow> indatas (uin st) d;
     udp_deref buf (put_data d
       (x\<lparr>ircv := (ircv x)\<lparr>qbufs := tl (qbufs (ircv x)),
          curdatalen := (if tl (qbufs (ircv x)) = [] then 0 else curdatalen (ircv x) - word_of_int todo)\<rparr>\<rparr>) st)
   }"

text \<open>
  The number of bytes copied, the vector, and the address of the sender with the number of
  its bytes that are copied. \<open>alen\<close> is \<^verbatim>\<open>addrlen\<close>, if an address is asked for.
\<close>

definition udp_read :: "nat \<Rightarrow> u8 list list \<Rightarrow> u16 \<Rightarrow> int option \<Rightarrow> udpst \<Rightarrow>
    ((nat \<times> u8 list list \<times> (in_sockadr \<times> int) option) \<times> udpst) option" where
  "udp_read d iov flags alen st = do {
     x \<leftarrow> indatas (uin st) d;
     p \<leftarrow> buf_packet (hd (qbufs (ircv x))) st;
     u \<leftarrow> IP_DATA p;
     let todo = uint (uh_length u) - int UDP_MINLEN;
     if length u < UDP_MINLEN \<or> length u < UDP_MINLEN + nat todo then None
     else do {
       let (n, iov1) = buf2iov_cpy (take (nat todo) (drop UDP_MINLEN u)) iov 0;
       let who = map_option (\<lambda>l. (\<lparr>saddr = iph_saddr p, sport = uh_srcport u\<rparr>, min l SIZEOF_SOCKADDR_IN)) alen;
       st1 \<leftarrow> (if flags AND MSG_PEEK \<noteq> 0 then Some st else udp_dequeue d (hd (qbufs (ircv x))) todo st);
       Some ((n, iov1, who), st1)
     }
   }"

text \<open>\<open>adr\<close> tells whether an address is asked for, and the length that comes with it, if any.\<close>

definition udp_recv :: "(udpst \<Rightarrow> bool \<times> udpst) \<Rightarrow> nat \<Rightarrow> u8 list list \<Rightarrow> bool \<Rightarrow> u16 \<Rightarrow> int option option \<Rightarrow> udpst \<Rightarrow>
    ((errno + nat \<times> u8 list list \<times> (in_sockadr \<times> int) option) \<times> udpst) option" where
  "udp_recv slp d iov nonblock flags adr st =
     (let sz = iov_size (iov_lens iov) in
      if sz = 0 then Some (Inr (0, iov, None), st)
      else if sint sz < 0 \<or> (case adr of None \<Rightarrow> False | Some None \<Rightarrow> True | Some (Some l) \<Rightarrow> l < 0) then Some (Inl ENOSYS, st)
      else do {
        (r, st1) \<leftarrow> udp_wait slp d nonblock st;
        case r of
          Inl e \<Rightarrow> Some (Inl e, st1)
        | Inr False \<Rightarrow> Some (Inr (0, iov, None), st1)
        | Inr True \<Rightarrow> map_option (\<lambda>(v, st2). (Inr v, st2)) (udp_read d iov flags (Option.bind adr id) st1)
      })"

section \<open>The other operations\<close>

definition udp_connect :: "nat \<Rightarrow> in_sockadr \<Rightarrow> udpst \<Rightarrow> ((errno + unit) \<times> udpst) option" where
  "udp_connect d adr st = do {
     x \<leftarrow> indatas (uin st) d;
     if sport adr = 0 then Some (Inl EADDRNOTAVAIL, put_data d (x\<lparr>dflags := dflags x AND NOT IN_ISCONNECTED\<rparr>) st)
     else do {
       w \<leftarrow> dst_addr (saddr adr) (unet st);
       Some (Inr (), put_data d (x\<lparr>idst := \<lparr>saddr = w, sport = sport adr\<rparr>, dflags := dflags x OR IN_ISCONNECTED\<rparr>) st)
     }
   }"

definition udp_detach :: "(inet \<Rightarrow> bool \<times> inet) \<Rightarrow> nat \<Rightarrow> bool \<Rightarrow> udpst \<Rightarrow> udpst option" where
  "udp_detach slp d wait st = map_option (\<lambda>(_, i). st\<lparr>uin := i\<rparr>) (in_data_destroy slp d wait (uin st))"

abbreviation FIONREAD :: u16 where "FIONREAD \<equiv> 0x4601"
abbreviation FIONWRITE :: u16 where "FIONWRITE \<equiv> 0x4602"
abbreviation UNLIMITED :: u32 where "UNLIMITED \<equiv> 0x7fffffff"

text \<open>What \<^verbatim>\<open>FIONREAD\<close> and \<^verbatim>\<open>select\<close> for reading take for ready whatever the queue holds.\<close>

definition udp_ended :: "nat \<Rightarrow> in_data \<Rightarrow> udpst \<Rightarrow> bool option" where
  "udp_ended d x st = do { so \<leftarrow> usocks st d; Some (so_cantrcv so \<or> derr x \<noteq> None) }"

definition udp_ioctl :: "nat \<Rightarrow> u16 \<Rightarrow> udpst \<Rightarrow> (errno + u32) option" where
  "udp_ioctl d cmd st =
     (if cmd = FIONREAD then do {
        x \<leftarrow> indatas (uin st) d;
        e \<leftarrow> udp_ended d x st;
        if e then Some (Inr UNLIMITED)
        else (case qbufs (ircv x) of
          [] \<Rightarrow> Some (Inr 0)
        | b # bs \<Rightarrow> do {
            p \<leftarrow> buf_packet b st;
            u \<leftarrow> IP_DATA p;
            if length u < UDP_MINLEN then None else Some (Inr (ucast (uh_length u) - word_of_nat UDP_MINLEN))
          })
      }
      else if cmd = FIONWRITE then Some (Inr UNLIMITED)
      else Some (Inl ENOSYS))"

definition udp_select :: "nat \<Rightarrow> bool \<Rightarrow> nat \<Rightarrow> udpst \<Rightarrow> (bool \<times> udpst) option" where
  "udp_select d writing proc st =
     (if writing then Some (True, st)
      else do {
        x \<leftarrow> indatas (uin st) d;
        e \<leftarrow> udp_ended d x st;
        Some (if e \<or> qbufs (ircv x) \<noteq> [] then (True, st)
              else (False, if ursel st d = None then st\<lparr>ursel := (ursel st)(d \<mapsto> proc)\<rparr> else st))
      })"

section \<open>The queue of a socket\<close>

text \<open>
  A buffer that nobody else refers to; a datagram \<^verbatim>\<open>udp_input\<close> accepts the lengths of; and what
  a receive queue is: such buffers, with the right count of the bytes to read, within the
  limit, which \<^verbatim>\<open>setsockopt\<close> keeps below \<^verbatim>\<open>IN_MAX_RSPACE\<close>.
\<close>

definition packet_at :: "bufpool \<Rightarrow> nat \<Rightarrow> u8 list" where
  "packet_at s b = (case bufs s b of None \<Rightarrow> [] | Some h \<Rightarrow> data_of s h)"

definition own_buf :: "bufpool \<Rightarrow> nat \<Rightarrow> bool" where
  "own_buf s b \<longleftrightarrow> (\<exists>h. bufs s b = Some h \<and> blinks h = 1 \<and> data_ok b h)"

definition udp_part :: "u8 list \<Rightarrow> u8 list" where
  "udp_part p = drop (4 * IPH_HDRLEN p) p"

definition udp_payload :: "u8 list \<Rightarrow> u8 list" where
  "udp_payload p = drop UDP_MINLEN (udp_part p)"

definition udp_dgram :: "u8 list \<Rightarrow> bool" where
  "udp_dgram p \<longleftrightarrow> 4 * IPH_HDRLEN p + UDP_MINLEN \<le> length p \<and> unat (uh_length (udp_part p)) = length (udp_part p)"

definition udp_queue :: "bufpool \<Rightarrow> in_dataq \<Rightarrow> bool" where
  "udp_queue s q \<longleftrightarrow> distinct (qbufs q) \<and> (\<forall>b \<in> set (qbufs q). own_buf s b \<and> udp_dgram (packet_at s b)) \<and>
     sint (curdatalen q) = int (\<Sum>b \<leftarrow> qbufs q. length (udp_payload (packet_at s b))) \<and>
     sint (curdatalen q) \<le> sint (maxdatalen q) \<and> sint (maxdatalen q) \<le> 65535"

definition udp_queue_of :: "nat \<Rightarrow> udpst \<Rightarrow> nat list" where
  "udp_queue_of d st = qbufs (ircv (the (indatas (uin st) d)))"

text \<open>The invariant of the sockets \<open>xs\<close> of UDP: no buffer is in two queues.\<close>

definition udp_inv :: "udpst \<Rightarrow> nat list \<Rightarrow> bool" where
  "udp_inv st xs \<longleftrightarrow> pool_good (ipool (uin st)) \<and> socks (uin st) (uproto st) xs \<and>
     (\<forall>d \<in> set xs. usocks st d \<noteq> None \<and> (\<exists>x. indatas (uin st) d = Some x \<and> udp_queue (ipool (uin st)) (ircv x))) \<and>
     (\<forall>d \<in> set xs. \<forall>e \<in> set xs. d \<noteq> e \<longrightarrow> set (udp_queue_of d st) \<inter> set (udp_queue_of e st) = {})"

lemma udp_inv_disjoint:
  "udp_inv st xs \<Longrightarrow> d \<in> set xs \<Longrightarrow> e \<in> set xs \<Longrightarrow> e \<noteq> d \<Longrightarrow> set (udp_queue_of d st) \<inter> set (udp_queue_of e st) = {}"
  unfolding udp_inv_def by metis

lemma own_frame:
  assumes "data_frame X s s'" and "own_buf s b" and "b \<notin> X"
  shows "own_buf s' b \<and> packet_at s' b = packet_at s b"
proof -
  obtain h where h: "bufs s b = Some h" "blinks h = 1" "data_ok b h" using assms(2) by (auto simp: own_buf_def)
  then obtain k where k: "bufs s' b = Some k" "sig k = sig h" "data_of s' k = data_of s h"
    using assms(1,3) unfolding data_frame_def by fastforce
  then show ?thesis using h sig_data [of k h b] by (auto simp: own_buf_def packet_at_def sig_def)
qed

lemma udp_queue_frame:
  assumes "data_frame X s s'" and "udp_queue s q" and "set (qbufs q) \<inter> X = {}"
  shows "udp_queue s' q"
proof -
  have e: "own_buf s' b \<and> packet_at s' b = packet_at s b" if "b \<in> set (qbufs q)" for b
    using own_frame [OF assms(1), of b] assms(2,3) that by (auto simp: udp_queue_def)
  then have m: "map (\<lambda>b. length (udp_payload (packet_at s' b))) (qbufs q) = map (\<lambda>b. length (udp_payload (packet_at s b))) (qbufs q)"
    by simp
  show ?thesis using assms(2) e unfolding udp_queue_def m by simp
qed

text \<open>Freeing a buffer of one's own.\<close>

lemma udp_deref_own:
  assumes "pool_good (ipool (uin st))" and "own_buf (ipool (uin st)) b"
  shows "\<exists>s'. udp_deref b st = Some (st\<lparr>uin := (uin st)\<lparr>ipool := s'\<rparr>\<rparr>) \<and> pool_good s' \<and>
    data_frame {b} (ipool (uin st)) s' \<and> \<not> is_live s' b"
proof -
  obtain B where B: "pool_inv B {} (ipool (uin st))" using assms(1) by (auto simp: pool_good_def)
  obtain h where h: "bufs (ipool (uin st)) b = Some h" "blinks h = 1" using assms(2) by (auto simp: own_buf_def)
  then have l: "blinks h \<noteq> 0" and z: "\<not> 0 < sint (blinks h - 1)" by simp_all
  obtain s' where s: "buf_deref b (ipool (uin st)) = Some s'" "pool_inv B {} s'" "live_frame {b} (ipool (uin st)) s'"
    "\<not> is_live s' b" "bmem s' = bmem (ipool (uin st))"
    using buf_deref_result [OF B h(1) l] unfolding if_not_P [OF z] by blast
  then show ?thesis using live_data_frame [OF s(3,5)] by (intro exI [of _ s']) (auto simp: udp_deref_def pool_good_def)
qed

lemma udp_inv_free:
  assumes i: "udp_inv st xs" and f: "pool_good s'" "data_frame {b} (ipool (uin st)) s'"
    and b: "\<And>d. d \<in> set xs \<Longrightarrow> b \<notin> set (udp_queue_of d st)"
  shows "udp_inv (st\<lparr>uin := (uin st)\<lparr>ipool := s'\<rparr>\<rparr>) xs"
proof -
  have "udp_queue s' (ircv x)" if "d \<in> set xs" "indatas (uin st) d = Some x" for d x
  proof (rule udp_queue_frame [OF f(2)])
    show "udp_queue (ipool (uin st)) (ircv x)" using i that unfolding udp_inv_def by force
    show "set (qbufs (ircv x)) \<inter> {b} = {}" using b [OF that(1)] that(2) by (simp add: udp_queue_of_def)
  qed
  then show ?thesis using i f(1) unfolding udp_inv_def by (simp add: udp_queue_of_def socks_def) blast
qed

text \<open>A change of the receive queue of one socket.\<close>

lemma udp_inv_queue:
  assumes i: "udp_inv st xs" and d: "d \<in> set xs" "indatas (uin st) d = Some x"
    and q: "udp_queue (ipool (uin st)) q" and b: "\<And>e. e \<in> set xs \<Longrightarrow> e \<noteq> d \<Longrightarrow> set (qbufs q) \<inter> set (udp_queue_of e st) = {}"
  shows "udp_inv (put_data d (x\<lparr>ircv := q\<rparr>) st) xs"
proof -
  let ?m = "(indatas (uin st))(d \<mapsto> x\<lparr>ircv := q\<rparr>)"
  obtain p where p: "inprotos (uin st) (uproto st) = Some p" "chain dnext (indatas (uin st)) (datas p) xs"
    using i by (auto simp: udp_inv_def socks_def)
  have "chain dnext ?m (datas p) xs" using p(2) d(2) by (subst chain_frame) auto
  then have "socks (uin (put_data d (x\<lparr>ircv := q\<rparr>) st)) (uproto st) xs" using p(1) by (simp add: socks_def put_data_def)
  moreover have "udp_queue_of e (put_data d (x\<lparr>ircv := q\<rparr>) st) = (if e = d then qbufs q else udp_queue_of e st)" for e
    by (simp add: udp_queue_of_def put_data_def)
  ultimately show ?thesis using i q d b unfolding udp_inv_def by (simp add: put_data_def) blast
qed

text \<open>A socket that takes a datagram with \<open>len\<close> bytes of data.\<close>

definition udp_takes :: "nat \<Rightarrow> nat \<Rightarrow> udpst \<Rightarrow> bool" where
  "udp_takes d len st \<longleftrightarrow> \<not> so_cantrcv (the (usocks st d)) \<and>
     (let q = ircv (the (indatas (uin st) d)) in int len + sint (curdatalen q) \<le> sint (maxdatalen q))"

lemma sint_add_nat:
  fixes c :: u32
  assumes "0 \<le> sint c" and "sint c \<le> 65535" and "n \<le> 65535"
  shows "sint (word_of_nat n + c) = int n + sint c" "sint (c + word_of_nat n) = sint c + int n"
proof -
  have c: "c = word_of_nat (nat (sint c))" using assms(1) by simp
  have "word_of_nat n + c = word_of_nat (n + nat (sint c))" by (subst c) simp
  then show "sint (word_of_nat n + c) = int n + sint c" using assms sint_word_of_nat_32 [of "n + nat (sint c)"] by simp
  then show "sint (c + word_of_nat n) = sint c + int n" by (simp add: add.commute)
qed

lemma udp_queue_nonneg: "udp_queue s q \<Longrightarrow> 0 \<le> sint (curdatalen q) \<and> sint (curdatalen q) \<le> 65535"
  by (simp add: udp_queue_def)

lemma payload_length:
  assumes "udp_dgram p"
  shows "length (udp_payload p) = length (udp_part p) - UDP_MINLEN \<and> length (udp_payload p) \<le> 65527"
proof -
  have "unat (uh_length (udp_part p)) < 65536" using unsigned_less [of "uh_length (udp_part p)"] by simp
  then show ?thesis using assms by (auto simp: udp_dgram_def udp_payload_def)
qed

lemma udp_enqueue_result:
  assumes i: "udp_inv st xs" and d: "d \<in> set xs"
    and b: "own_buf (ipool (uin st)) b" "udp_dgram (packet_at (ipool (uin st)) b)" "\<And>e. e \<in> set xs \<Longrightarrow> b \<notin> set (udp_queue_of e st)"
    and n: "n = length (udp_payload (packet_at (ipool (uin st)) b))"
  shows "\<exists>st'. udp_enqueue b n d st = Some st' \<and> udp_inv st' xs \<and>
    (if udp_takes d n st
     then ipool (uin st') = ipool (uin st) \<and> udp_queue_of d st' = udp_queue_of d st @ [b] \<and>
       (\<forall>e. e \<noteq> d \<longrightarrow> udp_queue_of e st' = udp_queue_of e st) \<and> uwakes st' = uwakes st @ [(d, WakeRsel), (d, WakeIO)]
     else (\<forall>e. udp_queue_of e st' = udp_queue_of e st) \<and> uwakes st' = uwakes st \<and> \<not> is_live (ipool (uin st')) b \<and>
       data_frame {b} (ipool (uin st)) (ipool (uin st')))"
proof -
  obtain x so where x: "indatas (uin st) d = Some x" "udp_queue (ipool (uin st)) (ircv x)" "usocks st d = Some so"
    using i d unfolding udp_inv_def by blast
  note c = udp_queue_nonneg [OF x(2)] and l = payload_length [OF b(2), folded n]
  have a: "sint (word_of_nat n + curdatalen (ircv x)) = int n + sint (curdatalen (ircv x))"
    "sint (curdatalen (ircv x) + word_of_nat n) = sint (curdatalen (ircv x)) + int n"
    using sint_add_nat [of "curdatalen (ircv x)" n] c l by simp_all
  have good: "pool_good (ipool (uin st))" using i by (simp add: udp_inv_def)
  obtain s' where f: "udp_deref b st = Some (st\<lparr>uin := (uin st)\<lparr>ipool := s'\<rparr>\<rparr>)" "pool_good s'"
    "data_frame {b} (ipool (uin st)) s'" "\<not> is_live s' b" using udp_deref_own [OF good b(1)] by blast
  show ?thesis
  proof (cases "udp_takes d n st")
    case False
    then have "udp_enqueue b n d st = udp_deref b st"
      using x a by (auto simp: udp_enqueue_def udp_takes_def Let_def)
    then show ?thesis using False f udp_inv_free [OF i f(2,3) b(3)] by (simp add: udp_queue_of_def)
  next
    case True
    define q where "q = (ircv x)\<lparr>qbufs := qbufs (ircv x) @ [b], curdatalen := curdatalen (ircv x) + word_of_nat n\<rparr>"
    have qx: "qbufs (ircv x) = udp_queue_of d st" using x(1) by (simp add: udp_queue_of_def)
    have fit: "int n + sint (curdatalen (ircv x)) \<le> sint (maxdatalen (ircv x))" "\<not> so_cantrcv so"
      using True x(1,3) by (simp_all add: udp_takes_def Let_def)
    have "udp_queue (ipool (uin st)) q"
      using x(2) b(1,2) b(3) [OF d] fit(1) a(2) by (simp add: udp_queue_def q_def qx n)
    moreover have "set (qbufs q) \<inter> set (udp_queue_of e st) = {}" if "e \<in> set xs" "e \<noteq> d" for e
      using i d that b(3) [OF that(1)] qx by (auto simp: udp_inv_def q_def)
    ultimately have i1: "udp_inv (put_data d (x\<lparr>ircv := q\<rparr>) st) xs" by (rule udp_inv_queue [OF i d x(1)])
    have "udp_enqueue b n d st = Some (udp_wake d [WakeRsel, WakeIO] (put_data d (x\<lparr>ircv := q\<rparr>) st))"
      using x(1,3) fit a(1) by (simp add: udp_enqueue_def q_def)
    moreover have "udp_inv (udp_wake d [WakeRsel, WakeIO] (put_data d (x\<lparr>ircv := q\<rparr>) st)) xs"
      using i1 by (simp add: udp_inv_def udp_wake_def udp_queue_of_def)
    ultimately show ?thesis using True x(1) by (simp add: udp_queue_of_def udp_wake_def put_data_def q_def)
  qed
qed

text \<open>What the receiving side reads of a good datagram.\<close>

lemma udp_packet_parts:
  assumes "own_buf (ipool (uin st)) b" and "udp_dgram (packet_at (ipool (uin st)) b)"
  shows "\<exists>p. buf_packet b st = Some p \<and> p = packet_at (ipool (uin st)) b \<and> IP_DATA p = Some (udp_part p) \<and>
    UDP_MINLEN \<le> length (udp_part p) \<and> unat (uh_length (udp_part p)) = length (udp_part p)"
  using assms by (auto simp: own_buf_def packet_at_def buf_packet_def IP_DATA_def udp_dgram_def udp_part_def)

text \<open>A datagram with a good checksum goes to the socket of the lookup, or is answered when there is none.\<close>

lemma udp_input_good:
  assumes i: "udp_inv st xs" and b: "own_buf (ipool (uin st)) b" "udp_dgram (packet_at (ipool (uin st)) b)"
    and p: "p = packet_at (ipool (uin st)) b" "u = udp_part p"
    and c: "uh_chksum u = 0 \<or> udp_checksum u sa da = Some 0"
    and d: "lookup_spec (\<lambda>x. the (indatas (uin st) x)) sa (uh_srcport u) da (uh_dstport u) xs = Some d"
  shows "udp_input env b sa da st = map_option (Pair True) (udp_enqueue b (length (udp_payload p)) d st)"
proof -
  obtain q where q: "inprotos (uin st) (uproto st) = Some q" "chain dnext (indatas (uin st)) (datas q) xs"
    using i by (auto simp: udp_inv_def socks_def)
  have l: "udp_lookup sa (uh_srcport u) da (uh_dstport u) st = Some d"
    using q(1) in_data_lookup_list [OF q(2), of sa "uh_srcport u" da "uh_dstport u"] d by (simp add: udp_lookup_def)
  have "d \<in> set xs" using lookup_spec_member [OF d] .
  then have "d \<noteq> 0" using chain_nonzero [OF q(2)] by metis
  moreover have "(if uh_chksum u \<noteq> 0 then udp_checksum u sa da else Some 0) = Some 0" using c by auto
  ultimately show ?thesis using udp_packet_parts [OF b] l p payload_length [OF b(2)]
    by (auto simp: udp_input_def udp_dgram_def)
qed

section \<open>Reading\<close>

lemma sint_sub_nat:
  fixes c :: u32
  assumes "int n \<le> sint c" and "sint c \<le> 65535"
  shows "sint (c - word_of_nat n) = sint c - int n"
proof -
  have c: "c = word_of_nat (nat (sint c))" using assms(1) by simp
  have "c - word_of_nat n = word_of_nat (nat (sint c) - n)" using assms(1) by (subst c) (simp add: of_nat_diff)
  then show ?thesis using assms sint_word_of_nat_32 [of "nat (sint c) - n"] by (simp add: of_nat_diff)
qed

lemma udp_dequeue_result:
  assumes i: "udp_inv st xs" and d: "d \<in> set xs" and q: "udp_queue_of d st = b # bs"
    and t: "todo = int (length (udp_payload (packet_at (ipool (uin st)) b)))"
  shows "\<exists>st'. udp_dequeue d b todo st = Some st' \<and> udp_inv st' xs \<and> udp_queue_of d st' = bs \<and>
    (\<forall>e. e \<noteq> d \<longrightarrow> udp_queue_of e st' = udp_queue_of e st) \<and> \<not> is_live (ipool (uin st')) b \<and>
    data_frame {b} (ipool (uin st)) (ipool (uin st'))"
proof -
  obtain x where x: "indatas (uin st) d = Some x" "udp_queue (ipool (uin st)) (ircv x)"
    using i d unfolding udp_inv_def by blast
  have qx: "qbufs (ircv x) = b # bs" using q x(1) by (simp add: udp_queue_of_def)
  have own: "own_buf (ipool (uin st)) b" using x(2) qx by (simp add: udp_queue_def)
  define r where "r = (ircv x)\<lparr>qbufs := bs, curdatalen := (if bs = [] then 0 else curdatalen (ircv x) - word_of_int todo)\<rparr>"
  have "sint (curdatalen (ircv x) - word_of_int todo) = sint (curdatalen (ircv x)) - todo"
    using x(2) qx sint_sub_nat [of "length (udp_payload (packet_at (ipool (uin st)) b))" "curdatalen (ircv x)"]
    by (simp add: udp_queue_def t)
  then have "udp_queue (ipool (uin st)) r" using x(2) qx by (simp add: udp_queue_def r_def t)
  moreover have "set (qbufs r) \<inter> set (udp_queue_of e st) = {}" if "e \<in> set xs" "e \<noteq> d" for e
    using udp_inv_disjoint [OF i d that] q by (auto simp: r_def)
  ultimately have i1: "udp_inv (put_data d (x\<lparr>ircv := r\<rparr>) st) xs" by (rule udp_inv_queue [OF i d x(1)])
  have q1: "udp_queue_of e (put_data d (x\<lparr>ircv := r\<rparr>) st) = (if e = d then bs else udp_queue_of e st)" for e
    by (simp add: udp_queue_of_def put_data_def r_def)
  have b: "b \<notin> set (udp_queue_of e (put_data d (x\<lparr>ircv := r\<rparr>) st))" if "e \<in> set xs" for e
    using udp_inv_disjoint [OF i d that] q x(2) qx unfolding q1 by (auto simp: udp_queue_def)
  have p1: "pool_good (ipool (uin (put_data d (x\<lparr>ircv := r\<rparr>) st)))" "ipool (uin (put_data d (x\<lparr>ircv := r\<rparr>) st)) = ipool (uin st)"
    using i1 by (simp_all add: udp_inv_def put_data_def)
  obtain s' where f: "udp_deref b (put_data d (x\<lparr>ircv := r\<rparr>) st) = Some (put_data d (x\<lparr>ircv := r\<rparr>) st\<lparr>uin := (uin (put_data d (x\<lparr>ircv := r\<rparr>) st))\<lparr>ipool := s'\<rparr>\<rparr>)"
    "pool_good s'" "data_frame {b} (ipool (uin st)) s'" "\<not> is_live s' b"
    using udp_deref_own [OF p1(1), unfolded p1(2), OF own] by blast
  have "udp_dequeue d b todo st = udp_deref b (put_data d (x\<lparr>ircv := r\<rparr>) st)"
    using x(1) qx by (simp add: udp_dequeue_def r_def)
  then show ?thesis using f udp_inv_free [OF i1 f(2) f(3) [folded p1(2)] b] q1
    by (simp add: udp_queue_of_def)
qed

text \<open>What a call reads of the first datagram, \<open>p\<close>: the data and the address of the sender.\<close>

definition udp_reading :: "u8 list list \<Rightarrow> int option \<Rightarrow> u8 list \<Rightarrow> nat \<times> u8 list list \<times> (in_sockadr \<times> int) option" where
  "udp_reading iov alen p =
     (let (n, iov1) = buf2iov_cpy (udp_payload p) iov 0
      in (n, iov1, map_option (\<lambda>l. (\<lparr>saddr = iph_saddr p, sport = uh_srcport (udp_part p)\<rparr>, min l SIZEOF_SOCKADDR_IN)) alen))"

lemma udp_read_result:
  assumes i: "udp_inv st xs" and d: "d \<in> set xs" and q: "udp_queue_of d st = b # bs"
  shows "\<exists>st'. udp_read d iov flags alen st = Some (udp_reading iov alen (packet_at (ipool (uin st)) b), st') \<and> udp_inv st' xs \<and>
    (if flags AND MSG_PEEK \<noteq> 0 then st' = st
     else udp_queue_of d st' = bs \<and> (\<forall>e. e \<noteq> d \<longrightarrow> udp_queue_of e st' = udp_queue_of e st) \<and> \<not> is_live (ipool (uin st')) b \<and>
       data_frame {b} (ipool (uin st)) (ipool (uin st')))"
proof -
  let ?p = "packet_at (ipool (uin st)) b"
  obtain x where x: "indatas (uin st) d = Some x" "udp_queue (ipool (uin st)) (ircv x)"
    using i d unfolding udp_inv_def by blast
  have qx: "qbufs (ircv x) = b # bs" using q x(1) by (simp add: udp_queue_of_def)
  have b: "own_buf (ipool (uin st)) b" "udp_dgram ?p" using x(2) qx by (simp_all add: udp_queue_def)
  note p = udp_packet_parts [OF b] and l = payload_length [OF b(2)]
  have t: "uint (uh_length (udp_part ?p)) - 8 = int (length (udp_payload ?p))" using p l
    by (simp only: uint_nat) (simp add: of_nat_diff)
  have n: "take (length (udp_payload ?p)) (drop UDP_MINLEN (udp_part ?p)) = udp_payload ?p" by (simp add: udp_payload_def)
  have z: "\<not> length (udp_part ?p) < UDP_MINLEN" "\<not> length (udp_part ?p) < UDP_MINLEN + length (udp_payload ?p)" using p l by auto
  obtain m iov1 where c: "buf2iov_cpy (udp_payload ?p) iov 0 = (m, iov1)" by fastforce
  have r: "udp_read d iov flags alen st = map_option (Pair (udp_reading iov alen ?p))
      (if flags AND MSG_PEEK \<noteq> 0 then Some st else udp_dequeue d b (int (length (udp_payload ?p))) st)"
    using x(1) p z qx c by (auto simp: udp_read_def Let_def t n udp_reading_def map_conv_bind_option comp_def)
  show ?thesis
  proof (cases "flags AND MSG_PEEK \<noteq> 0")
    case False
    obtain st' where "udp_dequeue d b (int (length (udp_payload ?p))) st = Some st'" "udp_inv st' xs" "udp_queue_of d st' = bs"
      "\<forall>e. e \<noteq> d \<longrightarrow> udp_queue_of e st' = udp_queue_of e st" "\<not> is_live (ipool (uin st')) b"
      "data_frame {b} (ipool (uin st)) (ipool (uin st'))"
      using udp_dequeue_result [OF i d q refl] by blast
    then show ?thesis using False unfolding r by simp
  qed (use i r in simp)
qed

section \<open>What leaves\<close>

lemma udp_bytes_fields:
  "uh_srcport (udp_bytes sp dp l c d) = sp" "uh_dstport (udp_bytes sp dp l c d) = dp"
  "uh_length (udp_bytes sp dp l c d) = l" "uh_chksum (udp_bytes sp dp l c d) = c"
  "length (udp_bytes sp dp l c d) = UDP_MINLEN + length d" "drop UDP_MINLEN (udp_bytes sp dp l c d) = d"
  by (simp_all add: udp_bytes_def uh_srcport_def uh_dstport_def uh_length_def uh_chksum_def pk16_def bytes16_alt be16_bytes)

text \<open>A datagram as \<^verbatim>\<open>udp_send\<close> makes it.\<close>

definition udp_carries :: "in_data \<Rightarrow> in_sockadr \<Rightarrow> u8 list \<Rightarrow> u8 list \<Rightarrow> bool" where
  "udp_carries x to d q \<longleftrightarrow> iph_saddr q = saddr (isrc x) \<and> iph_daddr q = saddr to \<and> iph_proto q = IPPROTO_UDP \<and> chksum q 10 = Some 0 \<and>
     udp_dgram q \<and> uh_srcport (udp_part q) = sport (isrc x) \<and> uh_dstport (udp_part q) = sport to \<and> udp_payload q = d \<and>
     (if has_flag (dflags x) IN_CHECKSUM then uh_chksum (udp_part q) \<noteq> 0 \<and> udp_checksum (udp_part q) (saddr (isrc x)) (saddr to) = Some 0
      else uh_chksum (udp_part q) = 0)"

lemma udp_sum_ok:
  assumes "saddr (isrc x) \<noteq> INADDR_ANY" and "UDP_MINLEN + length d < 65535" and l: "l = word_of_nat (UDP_MINLEN + length d)"
  shows "\<exists>c. udp_sum x dst (udp_bytes sp dp l 0 d) net = Some (c, net) \<and>
    (if has_flag (dflags x) IN_CHECKSUM then c \<noteq> 0 \<and> udp_checksum (udp_bytes sp dp l c d) (saddr (isrc x)) dst = Some 0 else c = 0)"
proof (cases "has_flag (dflags x) IN_CHECKSUM")
  case True
  let ?h = "bytes16 sp @ bytes16 dp @ bytes16 l"
  have z: "bytes16 0 = [0, 0]" by (simp add: bytes16_def)
  have "unat l = UDP_MINLEN + length d" unfolding l using assms(2) by (simp add: unat_of_nat del: of_nat_add)
  then have f: "field16 (?h @ t) 4 = UDP_MINLEN + length d" for t
    using wsum_bytes16 [of l "[]"] by (simp add: field16_def bytes16_alt) 
  have h: "length ?h = 6" "UDP_MINLEN \<le> field16 ?h 4" "field16 ?h 4 < 65535" "field16 ?h 4 \<le> 8 + length d"
    using f [of "[]"] assms(2) by (simp_all add: bytes16_alt)
  obtain c where c: "udp_checksum (?h @ [0, 0] @ d) (saddr (isrc x)) dst = Some c"
    using udp_checksum_sum [of "?h @ [0, 0] @ d" "saddr (isrc x)" dst] f [of "[0, 0] @ d"] h(1) assms(2) by auto
  have "udp_checksum (?h @ bytes16 (if c = 0 then 65535 else c) @ d) (saddr (isrc x)) dst = Some 0"
    by (rule udp_checksum_verifies [OF h c])
  then show ?thesis using True assms(1) c
    by (intro exI [of _ "if c = 0 then 65535 else c"]) (auto simp: udp_sum_def udp_bytes_def z)
qed (simp add: udp_sum_def)

lemma udp_output_wire:
  assumes o: "reachable env (saddr to) i n (unet st)" and src: "saddr (isrc x) \<noteq> INADDR_ANY"
    and l: "IP_MINLEN + UDP_MINLEN + length d \<le> unat (nif_mtu n)" "UDP_MINLEN + length d < 65516"
  shows "\<exists>net q. udp_output env x to (word_of_nat (length d)) d st = Some (Inr (length d), st\<lparr>unet := net\<rparr>) \<and>
    reachable env (saddr to) i n net \<and> sent_on i (trace (larp net)) = sent_on i (trace (larp (unet st))) @ [q] \<and> udp_carries x to d q"
proof -
  define w :: u16 where "w = word_of_nat (UDP_MINLEN + length d)"
  have "word_of_nat (length d) + word_of_nat UDP_MINLEN = (word_of_nat (UDP_MINLEN + length d) :: u32)" by simp
  then have w: "ucast (word_of_nat (length d) + word_of_nat UDP_MINLEN :: u32) = w" unfolding w_def
    by (simp only:) (simp add: word_unat_eq_iff unsigned_ucast_eq unat_of_nat take_bit_eq_mod mod_mod_cancel del: of_nat_add)
  obtain c where c: "udp_sum x (saddr to) (udp_bytes (sport (isrc x)) (sport to) w 0 d) (unet st) = Some (c, unet st)"
    "if has_flag (dflags x) IN_CHECKSUM then c \<noteq> 0 \<and>
       udp_checksum (udp_bytes (sport (isrc x)) (sport to) w c d) (saddr (isrc x)) (saddr to) = Some 0 else c = 0"
    using udp_sum_ok [OF src _ w_def, of "saddr to" "sport (isrc x)" "sport to" "unet st"] l(2) by auto
  let ?u = "udp_bytes (sport (isrc x)) (sport to) w c d"
  obtain q net where q: "ip_send env (icmp env) (saddr (isrc x)) (saddr to) ?u IPPROTO_UDP (has_flag (dflags x) IN_BROADCAST) (Some (dopts x))
      (unet st) = Some (Inr (), net)" "reachable env (saddr to) i n net"
    "sent_on i (trace (larp net)) = sent_on i (trace (larp (unet st))) @ [q]" "IPH_HDRLEN q = 5" "chksum q 10 = Some 0"
    "iph_proto q = IPPROTO_UDP" "iph_saddr q = saddr (isrc x)" "iph_daddr q = saddr to" "drop IP_MINLEN q = ?u"
    using ip_send_reachable [OF o src, of ?u "icmp env" IPPROTO_UDP "has_flag (dflags x) IN_BROADCAST" "Some (dopts x)"] l
    by (auto simp: udp_bytes_fields)
  have u: "udp_part q = ?u" using q(4,9) by (simp add: udp_part_def)
  have "length (drop IP_MINLEN q) = UDP_MINLEN + length d" unfolding q(9) by (simp add: udp_bytes_fields)
  then have "udp_dgram q" using l(2) unfolding udp_dgram_def u q(4)
    by (simp add: udp_bytes_fields) (simp add: w_def unat_of_nat del: of_nat_add)
  then have "udp_carries x to d q" using q u c(2) by (simp add: udp_carries_def udp_payload_def udp_bytes_fields)
  moreover have "udp_output env x to (word_of_nat (length d)) d st = Some (Inr (length d), st\<lparr>unet := net\<rparr>)"
    using c(1) q(1) by (simp add: udp_output_def Let_def w del: of_nat_numeral)
  ultimately show ?thesis using q(2,3) by blast
qed

lemma iov_sum_lens: "k + length (concat iov) < 2 ^ 31 \<Longrightarrow> iov_sum (word_of_nat k) (iov_lens iov) = word_of_nat (k + length (concat iov))"
proof (induction iov arbitrary: k)
  case (Cons v iov)
  then have "sint (word_of_nat (length v) :: u32) = int (length v)" by (intro sint_word_of_nat_32) simp
  then show ?case using Cons.IH [of "k + length v"] Cons.prems by (simp add: iov_lens_def add.assoc)
qed (simp add: iov_lens_def)

lemma iov_size_lens:
  assumes "concat iov \<noteq> []" and "length iov \<le> IOV_MAX" and "length (concat iov) < 2 ^ 31"
  shows "iov_size (iov_lens iov) = word_of_nat (length (concat iov))" "sint (iov_size (iov_lens iov)) = int (length (concat iov))"
    "iov_size (iov_lens iov) \<noteq> 0"
proof -
  show e: "iov_size (iov_lens iov) = word_of_nat (length (concat iov))"
    using iov_sum_lens [of 0 iov] assms by (auto simp: iov_size_def iov_lens_def)
  show s: "sint (iov_size (iov_lens iov)) = int (length (concat iov))" unfolding e by (rule sint_word_of_nat_32 [OF assms(3)])
  show "iov_size (iov_lens iov) \<noteq> 0" using s assms(1) by auto
qed

lemma udp_send_wire:
  assumes x: "indatas (uin st) s = Some x" "udp_dest x adr (unet st) = Some (Inr to)" "saddr (isrc x) \<noteq> INADDR_ANY"
    and o: "reachable env (saddr to) i n (unet st)"
    and d: "d = concat iov" "d \<noteq> []" "length iov \<le> IOV_MAX" "int (length d) \<le> sint (maxdatalen (isnd x))"
    and l: "IP_MINLEN + UDP_MINLEN + length d \<le> unat (nif_mtu n)" "UDP_MINLEN + length d < 65516"
  shows "\<exists>net q. udp_send env s iov 0 adr st = Some (Inr (length d), st\<lparr>unet := net\<rparr>) \<and>
    reachable env (saddr to) i n net \<and> sent_on i (trace (larp net)) = sent_on i (trace (larp (unet st))) @ [q] \<and> udp_carries x to d q"
proof -
  have c: "concat iov \<noteq> []" "length (concat iov) < 2 ^ 31" using d l(2) by auto
  note z = iov_size_lens [OF c(1) d(3) c(2)]
  have b: "e_bufok env (larp (unet st))" using o by (auto simp: reachable_def reaches_def link_open_def)
  have "iov2buf_cpy (int (length d)) iov 0 = d" using iov2buf_cpy_take [of "length d" iov 0] by (simp add: d(1))
  then have "udp_send env s iov 0 adr st = udp_output env x to (word_of_nat (length d)) d st"
    using x d b z by (simp add: udp_send_def Let_def)
  then show ?thesis using udp_output_wire [OF o x(3) l] by simp
qed

lemma udp_recv_ready:
  assumes i: "udp_inv st xs" and d: "d \<in> set xs" and q: "udp_queue_of d st = b # bs"
    and z: "concat iov \<noteq> []" "length iov \<le> IOV_MAX" "length (concat iov) < 2 ^ 31"
    and a: "case adr of None \<Rightarrow> True | Some None \<Rightarrow> False | Some (Some l) \<Rightarrow> 0 \<le> l"
  shows "udp_recv slp d iov nonblock flags adr st = map_option (\<lambda>(v, st'). (Inr v, st')) (udp_read d iov flags (Option.bind adr id) st)"
proof -
  obtain x where "indatas (uin st) d = Some x" "qbufs (ircv x) \<noteq> []" using i d q by (force simp: udp_inv_def udp_queue_of_def)
  then have w: "udp_wait slp d nonblock st = Some (Inr True, st)" by (simp add: udp_wait.simps)
  have e: "\<not> (case adr of None \<Rightarrow> False | Some None \<Rightarrow> True | Some (Some l) \<Rightarrow> l < 0)" using a by (auto split: option.splits)
  show ?thesis unfolding udp_recv_def Let_def using w e iov_size_lens [OF z] by simp
qed

text \<open>
  C5: A datagram gets from socket to socket. The sender, with an address of its own, sends to a
  peer it can reach: the call returns the number of bytes, and one datagram leaves, with the
  header and data and with checksums that verify. When a host takes these bytes in, in a
  buffer of its own, and its lookup finds a socket with an empty queue and room, the input function
  takes the buffer over and wakes the readers; the next read with enough room returns the data the
  sender passed, wherever the limits of either vector are, and the sender's address and port. The
  buffer is free again, and the invariant of the sockets holds.
\<close>
theorem udp_datagram_delivered:
  assumes x: "indatas (uin S) s = Some x" "udp_dest x adr (unet S) = Some (Inr to)" "saddr (isrc x) \<noteq> INADDR_ANY"
    and o: "reachable env (saddr to) i n (unet S)"
    and d: "d = concat iov" "d \<noteq> []" "length iov \<le> IOV_MAX" "int (length d) \<le> sint (maxdatalen (isnd x))"
    and l: "IP_MINLEN + UDP_MINLEN + length d \<le> unat (nif_mtu n)" "UDP_MINLEN + length d < 65516"
    and r: "udp_inv R xs" "own_buf (ipool (uin R)) b" "\<And>e. e \<in> set xs \<Longrightarrow> b \<notin> set (udp_queue_of e R)"
    and t: "lookup_spec (\<lambda>e. the (indatas (uin R) e)) (saddr (isrc x)) (sport (isrc x)) (saddr to) (sport to) xs = Some t"
      "udp_queue_of t R = []" "udp_takes t (length d) R"
    and v: "length v \<le> IOV_MAX" "length d \<le> length (concat v)" "length (concat v) < 2 ^ 31"
  shows "\<exists>net q. udp_send env s iov 0 adr S = Some (Inr (length d), S\<lparr>unet := net\<rparr>) \<and>
    sent_on i (trace (larp net)) = sent_on i (trace (larp (unet S))) @ [q] \<and> udp_carries x to d q \<and>
    (packet_at (ipool (uin R)) b = q \<longrightarrow> (\<exists>R1 R2 v'. udp_input renv b (iph_saddr q) (iph_daddr q) R = Some (True, R1) \<and>
       uwakes R1 = uwakes R @ [(t, WakeRsel), (t, WakeIO)] \<and>
       udp_recv slp t v nonblock 0 (Some (Some 16)) R1 = Some (Inr (length d, v', Some (isrc x, 16)), R2) \<and>
       take (length d) (concat v') = d \<and> udp_inv R2 xs \<and> udp_queue_of t R2 = [] \<and> \<not> is_live (ipool (uin R2)) b))"
proof -
  obtain net q where q: "udp_send env s iov 0 adr S = Some (Inr (length d), S\<lparr>unet := net\<rparr>)"
    "sent_on i (trace (larp net)) = sent_on i (trace (larp (unet S))) @ [q]" and c: "udp_carries x to d q"
    using udp_send_wire [OF x o d l] by blast
  have tx: "t \<in> set xs" using lookup_spec_member [OF t(1)] .
  have "\<exists>R1 R2 v'. udp_input renv b (iph_saddr q) (iph_daddr q) R = Some (True, R1) \<and>
       uwakes R1 = uwakes R @ [(t, WakeRsel), (t, WakeIO)] \<and>
       udp_recv slp t v nonblock 0 (Some (Some 16)) R1 = Some (Inr (length d, v', Some (isrc x, 16)), R2) \<and>
       take (length d) (concat v') = d \<and> udp_inv R2 xs \<and> udp_queue_of t R2 = [] \<and> \<not> is_live (ipool (uin R2)) b"
    if p: "packet_at (ipool (uin R)) b = q"
  proof -
    note f = c [unfolded udp_carries_def]
    have dg: "udp_dgram (packet_at (ipool (uin R)) b)" using f p by simp
    obtain R1 where R1: "udp_enqueue b (length d) t R = Some R1" "udp_inv R1 xs" "ipool (uin R1) = ipool (uin R)"
      "udp_queue_of t R1 = [b]" "uwakes R1 = uwakes R @ [(t, WakeRsel), (t, WakeIO)]"
      using udp_enqueue_result [OF r(1) tx r(2) dg r(3) refl] t(2,3) f p by auto
    have "udp_input renv b (iph_saddr q) (iph_daddr q) R = Some (True, R1)"
      using udp_input_good [OF r(1,2) dg p [symmetric] refl, of "saddr (isrc x)" "saddr to" t renv] f t(1) R1(1)
      by (auto split: if_splits)
    moreover obtain m v' where m: "buf2iov_cpy d v (int 0) = (m, v')" by fastforce
    note cp = buf2iov_cpy_spec [OF m]
    have n: "m = length d" "take (length d) (concat v') = d" using cp v(2) by simp_all
    have rd: "udp_reading v (Some 16) q = (length d, v', Some (isrc x, 16))"
      using f m n(1) by (simp add: udp_reading_def)
    obtain R2 where "udp_read t v 0 (Some 16) R1 = Some ((length d, v', Some (isrc x, 16)), R2)" "udp_inv R2 xs" "udp_queue_of t R2 = []"
      "\<not> is_live (ipool (uin R2)) b"
      using udp_read_result [OF R1(2) tx R1(4), of v 0 "Some 16"] unfolding R1(3) p rd by auto
    moreover have "concat v \<noteq> []" using d(2) v(2) by (metis le_zero_eq length_0_conv)
    ultimately show ?thesis using R1(5) n(2) udp_recv_ready [OF R1(2) tx R1(4) _ v(1,3), of "Some (Some 16)" slp nonblock 0] by auto
  qed
  then show ?thesis using q c by blast
qed

section \<open>The invariant of the sockets\<close>

lemma udp_inv_put:
  assumes i: "udp_inv st xs" and x: "indatas (uin st) d = Some x" and y: "ircv y = ircv x" "dnext y = dnext x"
  shows "udp_inv (put_data d y st) xs"
proof -
  obtain p where p: "inprotos (uin st) (uproto st) = Some p" "chain dnext (indatas (uin st)) (datas p) xs"
    using i by (auto simp: udp_inv_def socks_def)
  have "chain dnext ((indatas (uin st))(d \<mapsto> y)) (datas p) xs" using p(2) x y(2) by (subst chain_frame) auto
  then have "socks (uin (put_data d y st)) (uproto st) xs" using p(1) by (simp add: socks_def put_data_def)
  moreover have "udp_queue_of e (put_data d y st) = udp_queue_of e st" for e
    using x y(1) by (simp add: udp_queue_of_def put_data_def)
  ultimately show ?thesis using i x y(1) unfolding udp_inv_def by (auto simp: put_data_def)
qed

lemma udp_inv_cong:
  assumes "uin st' = uin st" "usocks st' = usocks st" "uproto st' = uproto st"
  shows "udp_inv st' xs = udp_inv st xs"
  using assms by (simp add: udp_inv_def udp_queue_of_def)

text \<open>A buffer that is handed to UDP belongs to nobody else and is in no queue.\<close>

definition udp_given :: "nat \<Rightarrow> udpst \<Rightarrow> nat list \<Rightarrow> bool" where
  "udp_given b st xs \<longleftrightarrow> own_buf (ipool (uin st)) b \<and> (\<forall>e \<in> set xs. b \<notin> set (udp_queue_of e st))"

lemma udp_inv_drop:
  assumes "udp_inv st xs" and "udp_given b st xs" and "udp_deref b st = Some st'"
  shows "udp_inv st' xs"
proof -
  have g: "pool_good (ipool (uin st))" "own_buf (ipool (uin st)) b" using assms(1,2) by (auto simp: udp_inv_def udp_given_def)
  obtain s' where "udp_deref b st = Some (st\<lparr>uin := (uin st)\<lparr>ipool := s'\<rparr>\<rparr>)" "pool_good s'" "data_frame {b} (ipool (uin st)) s'"
    using udp_deref_own [OF g] by blast
  then show ?thesis using udp_inv_free [OF assms(1)] assms(2,3) by (auto simp: udp_given_def)
qed

lemma udp_lookup_member:
  assumes "udp_inv st xs" and "udp_lookup sa sp da dp st = Some d" and "d \<noteq> 0"
  shows "d \<in> set xs"
proof -
  obtain q where q: "inprotos (uin st) (uproto st) = Some q" "chain dnext (indatas (uin st)) (datas q) xs"
    using assms(1) by (auto simp: udp_inv_def socks_def)
  then show ?thesis using assms(2,3) in_data_lookup_list [OF q(2), of sa sp da dp]
    by (auto simp: udp_lookup_def dest: lookup_spec_member split: option.splits)
qed

lemma udp_input_inv:
  assumes i: "udp_inv st xs" and g: "udp_given b st xs" and r: "udp_input env b sa da st = Some (t, st')"
  shows "udp_inv st' xs"
proof -
  obtain p u where p: "buf_packet b st = Some p" "IP_DATA p = Some u" using r by (auto simp: udp_input_def bind_eq_Some_conv)
  have o: "own_buf (ipool (uin st)) b" and b: "\<And>e. e \<in> set xs \<Longrightarrow> b \<notin> set (udp_queue_of e st)"
    using g by (auto simp: udp_given_def)
  have pk: "p = packet_at (ipool (uin st)) b" "u = udp_part p"
    using p o by (auto simp: buf_packet_def packet_at_def own_buf_def IP_DATA_def udp_part_def split: if_splits)
  show ?thesis
  proof (cases "length u < UDP_MINLEN \<or> length u \<noteq> unat (uh_length u)")
    case True
    then show ?thesis using r p udp_inv_drop [OF i g] by (auto simp: udp_input_def)
  next
    case False
    then have dg: "udp_dgram p" using p(2) pk(2) by (auto simp: udp_dgram_def IP_DATA_def udp_part_def split: if_splits)
    obtain c where c: "(if uh_chksum u \<noteq> 0 then udp_checksum u sa da else Some 0) = Some c"
      using r p False by (auto simp: udp_input_def bind_eq_Some_conv)
    show ?thesis
    proof (cases "c = 0")
      case c0: False
      then show ?thesis using r p False c udp_inv_drop [OF i g] by (auto simp: udp_input_def)
    next
      case True
      obtain d where d: "udp_lookup sa (uh_srcport u) da (uh_dstport u) st = Some d"
        using r p False c True by (auto simp: udp_input_def bind_eq_Some_conv)
      show ?thesis
      proof (cases "d = 0")
        case d0: True
        then obtain net where "st' = st\<lparr>unet := net\<rparr>"
          using r p False c True d by (auto simp: udp_input_def bind_eq_Some_conv)
        then show ?thesis using i udp_inv_cong [of st' st xs] by simp
      next
        case d0: False
        have m: "d \<in> set xs" using udp_lookup_member [OF i d d0] .
        have e: "map_option (Pair True) (udp_enqueue b (length u - UDP_MINLEN) d st) = Some (t, st')"
          using r p False c True d d0 by (simp add: udp_input_def)
        have n: "length u - UDP_MINLEN = length (udp_payload (packet_at (ipool (uin st)) b))"
          using payload_length [OF dg] pk by simp
        show ?thesis using udp_enqueue_result [OF i m o _ b n] dg pk e by auto
      qed
    qed
  qed
qed

lemma udp_error_inv:
  assumes i: "udp_inv st xs" and g: "udp_given b st xs" and r: "udp_error type code b sa da st = Some st'"
  shows "udp_inv st' xs"
proof -
  have "udp_deref b st = Some st' \<or> (\<exists>d x e. indatas (uin st) d = Some x \<and>
      udp_deref b (udp_wake d [WakeRsel, WakeWsel, WakeIO] (put_data d (x\<lparr>derr := Some e\<rparr>) st)) = Some st')"
    using r by (auto simp: udp_error_def bind_eq_Some_conv split: if_splits)
  then show ?thesis
  proof
    assume "udp_deref b st = Some st'"
    then show ?thesis by (rule udp_inv_drop [OF i g])
  next
    assume "\<exists>d x e. indatas (uin st) d = Some x \<and>
      udp_deref b (udp_wake d [WakeRsel, WakeWsel, WakeIO] (put_data d (x\<lparr>derr := Some e\<rparr>) st)) = Some st'"
    then obtain d x e where x: "indatas (uin st) d = Some x"
      "udp_deref b (udp_wake d [WakeRsel, WakeWsel, WakeIO] (put_data d (x\<lparr>derr := Some e\<rparr>) st)) = Some st'" by blast
    have "udp_inv (put_data d (x\<lparr>derr := Some e\<rparr>) st) xs" by (rule udp_inv_put [OF i x(1)]) simp_all
    then have i1: "udp_inv (udp_wake d [WakeRsel, WakeWsel, WakeIO] (put_data d (x\<lparr>derr := Some e\<rparr>) st)) xs"
      by (subst udp_inv_cong [of _ "put_data d (x\<lparr>derr := Some e\<rparr>) st"]) (simp_all add: udp_wake_def)
    have "udp_given b (udp_wake d [WakeRsel, WakeWsel, WakeIO] (put_data d (x\<lparr>derr := Some e\<rparr>) st)) xs"
      using g x(1) by (auto simp: udp_given_def udp_wake_def put_data_def udp_queue_of_def)
    then show ?thesis using udp_inv_drop [OF i1 _ x(2)] by blast
  qed
qed

lemma udp_recv_inv:
  assumes i: "udp_inv st xs" and d: "d \<in> set xs" and n: "nonblock \<or> udp_queue_of d st \<noteq> []"
    and r: "udp_recv slp d iov nonblock flags adr st = Some (v, st')"
  shows "udp_inv st' xs"
proof -
  obtain x where x: "indatas (uin st) d = Some x" using i d by (auto simp: udp_inv_def)
  have w: "udp_wait slp d nonblock st = Some (Inr (udp_queue_of d st \<noteq> []), st)"
    using x n by (subst udp_wait.simps) (auto simp: udp_queue_of_def)
  show ?thesis
  proof (cases "udp_queue_of d st")
    case Nil
    then have "st' = st" using r w by (auto simp: udp_recv_def Let_def split: if_splits)
    then show ?thesis using i by simp
  next
    case (Cons b bs)
    obtain st2 where "udp_read d iov flags (Option.bind adr id) st = Some (udp_reading iov (Option.bind adr id) (packet_at (ipool (uin st)) b), st2)"
      "udp_inv st2 xs" using udp_read_result [OF i d Cons] by blast
    then have "st' = st \<or> st' = st2" using r w Cons by (auto simp: udp_recv_def Let_def split: if_splits)
    then show ?thesis using i \<open>udp_inv st2 xs\<close> by auto
  qed
qed

text \<open>
  The steps of the sockets \<open>xs\<close>: a packet comes in, an error is reported, a process reads, sends,
  connects or selects; and everything else, which may change the state of IP and the socket
  layer, and the pool outside of the queues. A read that sleeps is its last round.
\<close>

inductive udp_step :: "ipenv \<Rightarrow> nat list \<Rightarrow> udpst \<Rightarrow> udpst \<Rightarrow> bool" for env xs where
  step_input: "udp_given b st xs \<Longrightarrow> udp_input env b sa da st = Some (t, st') \<Longrightarrow> udp_step env xs st st'"
| step_error: "udp_given b st xs \<Longrightarrow> udp_error ty co b sa da st = Some st' \<Longrightarrow> udp_step env xs st st'"
| step_recv: "d \<in> set xs \<Longrightarrow> nonblock \<or> udp_queue_of d st \<noteq> [] \<Longrightarrow> udp_recv slp d iov nonblock fl adr st = Some (v, st') \<Longrightarrow>
    udp_step env xs st st'"
| step_send: "udp_send env d iov fl adr st = Some (v, st') \<Longrightarrow> udp_step env xs st st'"
| step_connect: "udp_connect d adr st = Some (v, st') \<Longrightarrow> udp_step env xs st st'"
| step_select: "udp_select d wr proc st = Some (v, st') \<Longrightarrow> udp_step env xs st st'"
| step_other: "data_frame X (ipool (uin st)) s \<Longrightarrow> pool_good s \<Longrightarrow> \<forall>e \<in> set xs. X \<inter> set (udp_queue_of e st) = {} \<Longrightarrow>
    \<forall>e \<in> set xs. so e \<noteq> None \<Longrightarrow>
    udp_step env xs st (st\<lparr>uin := (uin st)\<lparr>ipool := s\<rparr>, unet := net, usocks := so, ursel := sel, uwakes := ws\<rparr>)"

lemma udp_inv_other:
  assumes i: "udp_inv st xs" and f: "data_frame X (ipool (uin st)) s" "pool_good s" "\<forall>e \<in> set xs. X \<inter> set (udp_queue_of e st) = {}"
    and so: "\<forall>e \<in> set xs. so e \<noteq> None"
  shows "udp_inv (st\<lparr>uin := (uin st)\<lparr>ipool := s\<rparr>, unet := net, usocks := so, ursel := sel, uwakes := ws\<rparr>) xs"
proof -
  have "udp_queue s (ircv x)" if "d \<in> set xs" "indatas (uin st) d = Some x" for d x
  proof (rule udp_queue_frame [OF f(1)])
    show "udp_queue (ipool (uin st)) (ircv x)" using i that unfolding udp_inv_def by force
    have "X \<inter> set (udp_queue_of d st) = {}" using f(3) that(1) by blast
    then show "set (qbufs (ircv x)) \<inter> X = {}" using that(2) by (auto simp: udp_queue_of_def)
  qed
  then show ?thesis using i f(2) so unfolding udp_inv_def by (simp add: udp_queue_of_def socks_def) blast
qed

lemma udp_output_net: "udp_output env x to sz d st = Some (v, st') \<Longrightarrow> \<exists>net. st' = st\<lparr>unet := net\<rparr>"
  by (auto simp: udp_output_def Let_def bind_eq_Some_conv)

lemma udp_send_net:
  assumes "udp_send env d iov fl adr st = Some (v, st')"
  shows "st' = st \<or> (\<exists>net. st' = st\<lparr>unet := net\<rparr>)"
proof -
  have "st' = st \<or> (\<exists>x a. udp_output env x a (iov_size (iov_lens iov)) (iov2buf_cpy (sint (iov_size (iov_lens iov))) iov 0) st = Some (v, st'))"
  proof (cases "indatas (uin st) d")
    case (Some x)
    show ?thesis
    proof (cases "udp_dest x adr (unet st)")
      case to: (Some to)
      then show ?thesis using assms Some by (cases to) (auto simp: udp_send_def Let_def split: if_split_asm)
    qed (use assms Some in \<open>auto simp: udp_send_def Let_def split: if_split_asm\<close>)
  qed (use assms in \<open>auto simp: udp_send_def Let_def split: if_split_asm\<close>)
  then show ?thesis using udp_output_net by blast
qed

lemma udp_step_inv: "udp_step env xs st st' \<Longrightarrow> udp_inv st xs \<Longrightarrow> udp_inv st' xs"
proof (induction rule: udp_step.induct)
  case (step_send d iov fl adr st v st')
  then have "st' = st \<or> (\<exists>net. st' = st\<lparr>unet := net\<rparr>)" by (intro udp_send_net)
  then show ?case using step_send.prems udp_inv_cong [of st' st xs] by auto
next
  case (step_connect d adr st v st')
  then obtain x y where "indatas (uin st) d = Some x" "st' = put_data d y st" "ircv y = ircv x" "dnext y = dnext x"
    by (auto simp: udp_connect_def bind_eq_Some_conv split: if_splits)
  then show ?case using udp_inv_put step_connect.prems by blast
next
  case (step_select d wr proc st v st')
  then have "st' = st \<or> (\<exists>r. st' = st\<lparr>ursel := r\<rparr>)" by (auto simp: udp_select_def bind_eq_Some_conv split: if_splits)
  then show ?case using step_select.prems udp_inv_cong [of st' st xs] by auto
next
  case (step_other X st s so net sel ws)
  then show ?case by (intro udp_inv_other)
qed (blast intro: udp_input_inv udp_error_inv udp_recv_inv)+


section \<open>An example\<close>

text \<open>
  A host with one socket, number 8, on the address \<open>a\<close> and port \<open>p\<close>; and a pool in which the
  buffer 4096 holds the packet \<open>q\<close>.
\<close>

definition sample_udp :: "u32 \<Rightarrow> u16 \<Rightarrow> bufpool \<Rightarrow> udpst" where
  "sample_udp a p s =
     \<lparr>uin = \<lparr>indatas = [8 \<mapsto> (sample_sock a p 0)\<lparr>dflags := IN_ISBOUND OR IN_CHECKSUM\<rparr>],
        inprotos = [1 \<mapsto> \<lparr>pproto = 17, pnext = 0, ipnext = 0, datas = 8\<rparr>], allinetprotos = 1, allipprotos = 1, lastport = 1023, ipool = s\<rparr>,
      unet = sample_host, usocks = [8 \<mapsto> \<lparr>so_state = SS_ISUNCONNECTED, so_cantrcv = False, so_cantsnd = False\<rparr>],
      ursel = Map.empty, uproto = 1, uwakes = []\<rparr>"

definition pool_with :: "u8 list \<Rightarrow> bufpool" where
  "pool_with q = sample_pool\<lparr>bufs := (bufs sample_pool)(4096 \<mapsto> sample_live\<lparr>dend := 4162 + length q\<rparr>), bmem := (\<lambda>a. q ! (a - 4162))\<rparr>"

lemma pool_with_packet: "packet_at (pool_with q) 4096 = q"
  by (auto simp: packet_at_def pool_with_def data_of_def sample_live_def intro: nth_equalityI)

lemma sample_udp_ready:
  assumes "length q \<le> 100"
  shows "udp_inv (sample_udp a p (pool_with q)) [8]" "own_buf (pool_with q) 4096"
    "udp_queue_of 8 (sample_udp a p (pool_with q)) = []"
    "udp_takes 8 (length [1, 2, 3 :: u8]) (sample_udp a p (pool_with q))"
proof -
  obtain B where B: "pool_inv B {} sample_pool" using sample_pool_good by (auto simp: pool_good_def)
  have "pool_inv B {} (sample_pool\<lparr>bufs := (bufs sample_pool)(4096 \<mapsto> sample_live\<lparr>dend := 4162 + length q\<rparr>)\<rparr>)"
    using live_fields_inv [OF B sample_pool_buf(1), of "sample_live\<lparr>dend := 4162 + length q\<rparr>"] by (simp add: sample_pool_buf(2))
  then have g: "pool_good (pool_with q)" unfolding pool_good_def pool_with_def
    by (intro exI [of _ B]) (subst pool_inv_cong, auto)
  show "own_buf (pool_with q) 4096" using assms by (simp add: own_buf_def pool_with_def sample_live_def data_ok_def)
  show e: "udp_queue_of 8 (sample_udp a p (pool_with q)) = []"
    by (simp add: udp_queue_of_def sample_udp_def sample_sock_def new_data_def zero_queue_def)
  show "udp_takes 8 (length [1, 2, 3 :: u8]) (sample_udp a p (pool_with q))"
    by (simp add: udp_takes_def sample_udp_def sample_sock_def new_data_def zero_queue_def)
  show "udp_inv (sample_udp a p (pool_with q)) [8]" using g
    by (simp add: udp_inv_def sample_udp_def socks_def sample_sock_def new_data_def udp_queue_def zero_queue_def)
qed

lemma sample_reachable: "reachable sample_env 0x0a000002 1 sample_slip96 sample_host"
proof -
  obtain rts rt where r: "reaches sample_env (iph_saddr sample_ping) 7 rt sample_slip96 rts sample_host" "rt_nif rt = 1"
    using sample_ping_route by blast
  have s: "iph_saddr sample_ping = 0x0a000002" by (simp add: sample_ping_def iph_saddr_def pk32_def be32_def)
  have l: "lroutes sample_host = routes1" by (simp add: sample_host_def sample_ip_def)
  show ?thesis unfolding reachable_def
    using r s l routes1_inv by (intro exI [of _ "\<lambda>_. 0"] exI [of _ 7] exI [of _ rt] exI [of _ rts]) simp
qed

theorem udp_datagram_delivered_witness:
  "\<exists>net q R1 R2 v'.
     udp_send sample_env 8 [[1, 2], [], [3]] 0 (Some \<lparr>saddr = 0x0a000002, sport = 53\<rparr>) (sample_udp 0x0a000001 1024 sample_pool) =
       Some (Inr 3, (sample_udp 0x0a000001 1024 sample_pool)\<lparr>unet := net\<rparr>) \<and>
     udp_input sample_env 4096 0x0a000001 0x0a000002 (sample_udp 0x0a000002 53 (pool_with q)) = Some (True, R1) \<and>
     udp_recv (\<lambda>st. (True, st)) 8 [[0], [0, 0, 0]] False 0 (Some (Some 16)) R1 =
       Some (Inr (3, v', Some (\<lparr>saddr = 0x0a000001, sport = 1024\<rparr>, 16)), R2) \<and> take 3 (concat v') = [1, 2, 3]"
proof -
  let ?S = "sample_udp 0x0a000001 1024 sample_pool" and ?R = "\<lambda>q. sample_udp 0x0a000002 53 (pool_with q)"
  let ?to = "\<lparr>saddr = 0x0a000002, sport = 53\<rparr>" and ?slp = "\<lambda>st. (True, st :: udpst)"
  define x where "x = (sample_sock 0x0a000001 1024 0)\<lparr>dflags := IN_ISBOUND OR IN_CHECKSUM\<rparr>"
  have x: "indatas (uin ?S) 8 = Some x" "udp_dest x (Some ?to) (unet ?S) = Some (Inr ?to)" "saddr (isrc x) \<noteq> INADDR_ANY"
    "isrc x = \<lparr>saddr = 0x0a000001, sport = 1024\<rparr>" "int (length [1, 2, 3 :: u8]) \<le> sint (maxdatalen (isnd x))"
    by (simp_all add: sample_udp_def x_def sample_sock_def udp_dest_def dst_addr_def has_flag_def new_data_def zero_queue_def)
  have o: "reachable sample_env (saddr ?to) 1 sample_slip96 (unet ?S)"
    "IP_MINLEN + UDP_MINLEN + length [1, 2, 3 :: u8] \<le> unat (nif_mtu sample_slip96)" "UDP_MINLEN + length [1, 2, 3 :: u8] < 65516"
    using sample_reachable by (simp_all add: sample_udp_def sample_slip96_def)
  have d: "[1, 2, 3 :: u8] = concat [[1, 2], [], [3]]" "[1, 2, 3 :: u8] \<noteq> []" "length [[1, 2], [], [3 :: u8]] \<le> IOV_MAX" by simp_all
  have v: "length [[0], [0, 0, 0 :: u8]] \<le> IOV_MAX" "length [1, 2, 3 :: u8] \<le> length (concat [[0], [0, 0, 0 :: u8]])"
    "length (concat [[0], [0, 0, 0 :: u8]]) < 2 ^ 31" by simp_all
  have l: "lookup_spec (\<lambda>e. the (indatas (uin (?R q)) e)) (saddr (isrc x)) (sport (isrc x)) (saddr ?to) (sport ?to) [8] = Some 8" for q
    by (simp add: lookup_spec_def sample_udp_def sample_sock_def new_data_def local_match_def has_flag_def ip_same_addr_def Let_def)
  have pool: "ipool (uin (?R q)) = pool_with q" for q by (simp add: sample_udp_def)
  have r: "udp_inv (?R q) [8]" "own_buf (ipool (uin (?R q))) 4096" "udp_queue_of 8 (?R q) = []" "udp_takes 8 (length [1, 2, 3 :: u8]) (?R q)"
    "packet_at (ipool (uin (?R q))) 4096 = q" if "length q \<le> 100" for q
    using sample_udp_ready [OF that] pool_with_packet by (simp_all only: pool)
  have b: "4096 \<notin> set (udp_queue_of e (?R q))" if "length q \<le> 100" "e \<in> set [8]" for e q using that sample_udp_ready(3) [of q] by simp
  have three: "length [1, 2, 3 :: u8] = 3" and n0: "length ([] :: u8 list) \<le> 100" by simp_all
  note del = udp_datagram_delivered [OF x(1-3) o(1) d x(5) o(2,3) _ _ _ l _ _ v, where renv = sample_env and slp = ?slp and nonblock = False]
  obtain net q where q: "udp_send sample_env 8 [[1, 2], [], [3]] 0 (Some ?to) ?S = Some (Inr 3, ?S\<lparr>unet := net\<rparr>)"
    "sent_on 1 (trace (larp net)) = sent_on 1 (trace (larp (unet ?S))) @ [q]" "udp_carries x ?to [1, 2, 3] q"
    using del [OF r(1) [OF n0] r(2) [OF n0] b [OF n0] r(3) [OF n0] r(4) [OF n0]] unfolding three by blast
  have "unat (q ! 0 AND 0xf) \<le> unat (0xf :: u8)" by (simp only: word_and_le1 flip: word_le_nat_alt)
  then have "IPH_HDRLEN q \<le> 15" by (simp add: IPH_HDRLEN_def)
  moreover have "length (udp_payload q) = 3" "udp_dgram q" using q(3) by (auto simp: udp_carries_def)
  ultimately have n: "length q \<le> 100" by (simp add: udp_payload_def udp_part_def)
  obtain net' q' where q': "udp_send sample_env 8 [[1, 2], [], [3]] 0 (Some ?to) ?S = Some (Inr 3, ?S\<lparr>unet := net'\<rparr>)"
    "sent_on 1 (trace (larp net')) = sent_on 1 (trace (larp (unet ?S))) @ [q']" "udp_carries x ?to [1, 2, 3] q'"
    and run: "packet_at (ipool (uin (?R q))) 4096 = q' \<longrightarrow> (\<exists>R1 R2 v'. udp_input sample_env 4096 (iph_saddr q') (iph_daddr q') (?R q) = Some (True, R1) \<and>
       udp_recv ?slp 8 [[0], [0, 0, 0]] False 0 (Some (Some 16)) R1 = Some (Inr (3, v', Some (isrc x, 16)), R2) \<and>
       take 3 (concat v') = [1, 2, 3])"
    using del [OF r(1) [OF n] r(2) [OF n] b [OF n] r(3) [OF n] r(4) [OF n]] unfolding three by blast
  have "?S\<lparr>unet := net\<rparr> = ?S\<lparr>unet := net'\<rparr>" using q(1) q'(1) by simp
  from arg_cong [OF this, of unet] have "net = net'" by simp
  then have "q' = q" using q(2) q'(2) by simp
  moreover have "iph_saddr q' = 0x0a000001" "iph_daddr q' = 0x0a000002" using q'(3) x(4) by (simp_all add: udp_carries_def)
  ultimately obtain R1 R2 v' where "udp_input sample_env 4096 0x0a000001 0x0a000002 (?R q) = Some (True, R1)"
    "udp_recv ?slp 8 [[0], [0, 0, 0]] False 0 (Some (Some 16)) R1 = Some (Inr (3, v', Some (\<lparr>saddr = 0x0a000001, sport = 1024\<rparr>, 16)), R2)"
    "take 3 (concat v') = [1, 2, 3]" using run [unfolded x(4)] r(5) [OF n] by auto
  then show ?thesis using q(1) by (intro exI conjI)
qed


end
